(* ===== verification/Base_Prelude.thy ===== *)
theory Base_Prelude
  imports Main "HOL-Library.Word"
begin

unbundle bit_operations_syntax

text \<open>
  Shared material of the development: the machine types of the C code, byte memories and
  \<open>memcpy\<close>, circular indices, and the generic lemmas on lists and words the component
  theories use.  Undefined behaviour of C (an access outside an object, a failed \<open>assert\<close>,
  a division by zero) is the value \<^const>\<open>None\<close> of an option.

  Collections: \<open>mem_simps\<close> (reading a byte memory after writes), \<open>ring_simps\<close> (circular
  indices), \<open>word_nat\<close> (machine words read as natural numbers).
\<close>

named_theorems mem_simps
named_theorems ring_simps
named_theorems word_nat

type_synonym byte = "8 word"
type_synonym u8 = "8 word"
type_synonym u16 = "16 word"
type_synonym u32 = "32 word"
type_synonym u64 = "64 word"

section \<open>Byte memories\<close>

text \<open>
  A C object of \<open>n\<close> bytes is a list of \<open>n\<close> bytes.  \<open>mem_read m off n\<close> reads the \<open>n\<close> bytes
  at offset \<open>off\<close>; \<open>mem_write m off bs\<close> overwrites from offset \<open>off\<close>.  Both are undefined
  outside the object.  \<open>memcpy_to m off src soff n\<close> is \<open>memcpy(m + off, src + soff, n)\<close>
  for two objects that do not overlap.
\<close>

definition mem_read :: "'a list \<Rightarrow> nat \<Rightarrow> nat \<Rightarrow> 'a list option" where
  "mem_read m off n = (if off + n \<le> length m then Some (take n (drop off m)) else None)"

definition mem_write :: "'a list \<Rightarrow> nat \<Rightarrow> 'a list \<Rightarrow> 'a list option" where
  "mem_write m off bs =
     (if off + length bs \<le> length m
      then Some (take off m @ bs @ drop (off + length bs) m) else None)"

definition memcpy_to :: "'a list \<Rightarrow> nat \<Rightarrow> 'a list \<Rightarrow> nat \<Rightarrow> nat \<Rightarrow> 'a list option" where
  "memcpy_to m off src soff n =
     (case mem_read src soff n of None \<Rightarrow> None | Some bs \<Rightarrow> mem_write m off bs)"

lemma mem_read_eq_Some:
  "mem_read m off n = Some bs \<longleftrightarrow> off + n \<le> length m \<and> bs = take n (drop off m)"
  by (auto simp: mem_read_def)

lemma mem_write_length [mem_simps]: "mem_write m off bs = Some m' \<Longrightarrow> length m' = length m"
  by (auto simp: mem_write_def split: if_splits)

lemma mem_write_nth:
  assumes "mem_write m off bs = Some m'" and "i < length m"
  shows "m' ! i = (if off \<le> i \<and> i < off + length bs then bs ! (i - off) else m ! i)"
  using assms by (auto simp: mem_write_def nth_append split: if_splits)

lemma memcpy_to_defined [mem_simps]:
  "\<lbrakk>soff + n \<le> length src; off + n \<le> length m\<rbrakk> \<Longrightarrow> \<exists>m'. memcpy_to m off src soff n = Some m'"
  by (simp add: memcpy_to_def mem_read_def mem_write_def)

lemma memcpy_to_length [mem_simps]:
  "memcpy_to m off src soff n = Some m' \<Longrightarrow> length m' = length m"
  by (auto simp: memcpy_to_def mem_write_length split: option.splits)

lemma memcpy_to_nth:
  assumes "memcpy_to m off src soff n = Some m'" and "i < length m"
  shows "m' ! i = (if off \<le> i \<and> i < off + n then src ! (soff + (i - off)) else m ! i)"
proof -
  from assms(1) obtain bs where r: "mem_read src soff n = Some bs" and w: "mem_write m off bs = Some m'"
    by (auto simp: memcpy_to_def split: option.splits)
  from r have bs: "bs = take n (drop soff src)" and len: "soff + n \<le> length src"
    by (auto simp: mem_read_eq_Some)
  then have "length bs = n" by simp
  with mem_write_nth [OF w assms(2)] bs len show ?thesis
    by auto
qed

lemma memcpy_prefix:
  assumes "n = length d" "n \<le> length b"
  shows "memcpy_to b 0 d 0 n = Some (d @ drop n b)"
  using assms by (simp add: memcpy_to_def mem_read_def mem_write_def)

lemma mem_write_behind:
  "\<lbrakk>length u = n; length v \<le> length x\<rbrakk> \<Longrightarrow> mem_write (u @ x) n v = Some (u @ v @ drop (length v) x)"
  by (auto simp: mem_write_def)

section \<open>Circular windows\<close>

text \<open>
  \<open>window m S o n\<close> is the list of the \<open>n\<close> cells of the ring \<open>m ! 0, \<dots>, m ! (S - 1)\<close>
  that start at index \<open>o\<close>.
\<close>

definition window :: "'a list \<Rightarrow> nat \<Rightarrow> nat \<Rightarrow> nat \<Rightarrow> 'a list" where
  "window m S p n = map (\<lambda>i. m ! ((p + i) mod S)) [0..<n]"

lemma length_window [simp]: "length (window m S p n) = n"
  by (simp add: window_def)

lemma window_0 [simp]: "window m S p 0 = []"
  by (simp add: window_def)

lemma window_nth [simp]: "i < n \<Longrightarrow> window m S p n ! i = m ! ((p + i) mod S)"
  by (simp add: window_def)

lemma window_append: "window m S p (a + b) = window m S p a @ window m S (p + a) b"
  by (rule nth_equalityI) (auto simp: nth_append ac_simps)

lemma window_mod: "window m S (p mod S) n = window m S p n"
  by (simp add: window_def mod_add_left_eq)

lemma window_Suc: "window m S p (Suc n) = m ! (p mod S) # window m S (Suc p) n"
  using window_append [of m S p 1 n] by (simp add: window_def)

lemma window_snoc: "window m S p (Suc n) = window m S p n @ [m ! ((p + n) mod S)]"
  using window_append [of m S p n 1] by (simp add: window_def)

lemma window_cong:
  assumes "\<And>i. i < n \<Longrightarrow> m ! ((p + i) mod S) = m' ! ((q + i) mod S')"
  shows "window m S p n = window m' S' q n"
  using assms by (auto intro: nth_equalityI)

lemma take_window: "k \<le> n \<Longrightarrow> take k (window m S p n) = window m S p k"
  using window_append [of m S p k "n - k"] by simp

lemma drop_window: "k \<le> n \<Longrightarrow> drop k (window m S p n) = window m S (p + k) (n - k)"
  using window_append [of m S p k "n - k"] by simp

text \<open>A window that does not wrap is a slice.\<close>

lemma window_slice:
  assumes "p + n \<le> S" and "S \<le> length m"
  shows "window m S p n = take n (drop p m)"
proof (rule nth_equalityI)
  show "length (window m S p n) = length (take n (drop p m))" using assms by simp
next
  fix i assume "i < length (window m S p n)"
  then have i: "i < n" by simp
  with assms have "(p + i) mod S = p + i" by simp
  with i assms show "window m S p n ! i = take n (drop p m) ! i" by simp
qed

lemma window_split:
  assumes "p < S" and "n \<le> S" and "S \<le> length m"
  shows "window m S p n = take (min n (S - p)) (drop p m) @ take (n - min n (S - p)) m"
proof (cases "n \<le> S - p")
  case True
  with assms show ?thesis by (simp add: window_slice)
next
  case False
  have "window m S p n = window m S p (S - p) @ window m S (p + (S - p)) (n - (S - p))"
    using False by (simp flip: window_append)
  also have "window m S p (S - p) = take (S - p) (drop p m)"
    using assms by (simp add: window_slice)
  also have "window m S (p + (S - p)) (n - (S - p)) = window m S 0 (n - (S - p))"
    using assms window_mod [of m S S] by simp
  also have "\<dots> = take (n - (S - p)) m"
    using assms by (simp add: window_slice)
  finally show ?thesis using False by simp
qed

text \<open>
  Two writes, the second at the start of the ring, store a window; cells of the ring outside
  of it keep their value.
\<close>

lemma mod_ring_inj:
  assumes "(p + i) mod S = (p + j) mod S" and "i < S" and "j < S"
  shows "i = (j::nat)"
proof -
  have "(p + i) mod S = (p + j) mod S \<Longrightarrow> i \<le> j \<Longrightarrow> j < S \<Longrightarrow> i = j" for i j
  proof -
    assume e: "(p + i) mod S = (p + j) mod S" and "i \<le> j" "j < S"
    then obtain d where d: "j = i + d" using le_Suc_ex by blast
    have "S dvd (p + j) - (p + i)" using e \<open>i \<le> j\<close> by (metis add_left_mono mod_eq_dvd_iff_nat)
    then have "S dvd d" using d by simp
    with d \<open>j < S\<close> show "i = j" by (auto dest: dvd_imp_le)
  qed
  from this [of i j] this [of j i] assms show ?thesis by (cases "i \<le> j") auto
qed

lemma ring_store:
  fixes m :: "'a list"
  assumes p: "p < S" and n: "n \<le> S" and S: "S \<le> length m" and src: "n \<le> length src"
    and w1: "memcpy_to m p src 0 (min n (S - p)) = Some m1"
    and w2: "memcpy_to m1 0 src (min n (S - p)) (n - min n (S - p)) = Some m2"
    and j: "j < S"
  shows "m2 ! ((p + j) mod S) = (if j < n then src ! j else m ! ((p + j) mod S))"
proof -
  define l where "l = min n (S - p)"
  let ?i = "(p + j) mod S"
  note w = w1 [folded l_def] w2 [folded l_def]
  have i: "?i < length m" "?i < length m1" using p S memcpy_to_length [OF w(1)]
    by (auto intro: less_le_trans [OF mod_less_divisor])
  have m1: "m1 ! ?i = (if p \<le> ?i \<and> ?i < p + l then src ! (?i - p) else m ! ?i)"
    using memcpy_to_nth [OF w(1) i(1)] by simp
  have m2: "m2 ! ?i = (if ?i < n - l then src ! (l + ?i) else m1 ! ?i)"
    using memcpy_to_nth [OF w(2) i(2)] by simp
  show ?thesis
  proof (cases "p + j < S")
    case True
    then have "?i = p + j" by simp
    with m1 m2 p n True show ?thesis by (auto simp: l_def min_def)
  next
    case False
    with j p have "?i = p + j - S" by (simp add: mod_if)
    with m1 m2 p n j False show ?thesis by (auto simp: l_def min_def)
  qed
qed

text \<open>Storing \<open>n\<close> cells right behind a window of length \<open>L\<close> appends them to it.\<close>

lemma window_store_append:
  assumes S: "0 < S" and room: "L + n \<le> S" and src: "n \<le> length src"
    and q: "q mod S = (p + L) mod S"
    and st: "\<And>j. j < S \<Longrightarrow> m2 ! ((q + j) mod S) = (if j < n then src ! j else m ! ((q + j) mod S))"
  shows "window m2 S p (L + n) = window m S p L @ take n src"
proof -
  have shift: "(q + j) mod S = (p + L + j) mod S" for j
    using q by (metis mod_add_left_eq)
  have "window m2 S p L = window m S p L"
  proof (rule window_cong)
    fix i assume i: "i < L"
    define j where "j = S - L + i"
    have "p + L + j = (p + i) + S" using room by (simp add: j_def)
    then have "(q + j) mod S = (p + i) mod S"
      unfolding shift by (simp only: mod_add_self2)
    moreover have "j < S" "\<not> j < n" using i room by (auto simp: j_def)
    ultimately show "m2 ! ((p + i) mod S) = m ! ((p + i) mod S)" using st [of j] by simp
  qed
  moreover have "window m2 S (p + L) n = take n src"
    using st room src shift by (auto intro!: nth_equalityI)
  ultimately show ?thesis by (simp add: window_append)
qed

lemma window_list_update:
  assumes "(p + j) mod S = i" and "L \<le> j" and "j < S"
  shows "window (m[i := x]) S p L = window m S p L"
proof (rule window_cong)
  fix l assume "l < L"
  then have "(p + l) mod S \<noteq> i" using assms mod_ring_inj [of p l S j] by auto
  then show "m[i := x] ! ((p + l) mod S) = m ! ((p + l) mod S)" by simp
qed

section \<open>Machine words as natural numbers\<close>

lemma unat_and_mask_pow:
  fixes w m :: "'a::len word"
  assumes "unat m = 2 ^ k - 1"
  shows "unat (w AND m) = unat w mod 2 ^ k"
proof -
  have "unat (w AND m) = unat w AND unat m"
    by (simp add: unsigned_and_eq)
  also have "unat m = mask k"
    using assms by (simp add: mask_eq_exp_minus_1)
  finally show ?thesis by (simp flip: take_bit_eq_mask add: take_bit_eq_mod)
qed

lemma unat_of_nat_small [word_nat]:
  "n < 2 ^ LENGTH('a) \<Longrightarrow> unat (of_nat n :: 'a::len word) = n"
  by (simp add: unsigned_of_nat take_bit_nat_eq_self)

lemma unat_add_no_wrap [word_nat]:
  fixes a b :: "'a::len word"
  shows "unat a + unat b < 2 ^ LENGTH('a) \<Longrightarrow> unat (a + b) = unat a + unat b"
  by (simp add: unat_word_ariths)

lemma unat_mult_no_wrap [word_nat]:
  fixes a b :: "'a::len word"
  shows "unat a * unat b < 2 ^ LENGTH('a) \<Longrightarrow> unat (a * b) = unat a * unat b"
  by (simp add: unat_word_ariths)

text \<open>The distance of two free-running counters survives their wrap-around.\<close>

lemma unat_diff_step:
  fixes i out n :: "'a::len word"
  assumes "unat (i - out) + unat n < 2 ^ LENGTH('a)"
  shows "unat ((i + n) - out) = unat (i - out) + unat n"
proof -
  have "(i + n) - out = (i - out) + n" by simp
  then show ?thesis by (simp only: unat_add_no_wrap [OF assms])
qed

lemma unat_diff_advance:
  fixes i out n :: "'a::len word"
  assumes "unat n \<le> unat (i - out)"
  shows "unat (i - (out + n)) = unat (i - out) - unat n"
proof -
  have "i - (out + n) = (i - out) - n" by simp
  moreover have "unat ((i - out) - n) = unat (i - out) - unat n"
    using assms by (simp only: unat_sub word_le_nat_alt)
  ultimately show ?thesis by (simp only:)
qed

lemma div_add_carry:
  fixes n k M :: nat
  assumes "0 < M"
  shows "(n + k) div M = n div M + k div M + (if (n + k) mod M < n mod M then 1 else 0)"
proof -
  have "(a + b) div M = (if (a + b) mod M < a then 1 else 0)" if "a < M" "b < M" for a b
  proof (cases "a + b < M")
    case False
    then obtain c where "a + b = M + c" by (metis le_Suc_ex not_less)
    moreover from this that have "c < M" "c < a" by simp_all
    moreover have "(M + c) div M = 1 + c div M" using assms by (simp add: div_add_self1)
    ultimately show ?thesis by simp
  qed simp
  from this [of "n mod M" "k mod M"] assms show ?thesis
    by (simp add: div_add1_eq [of n k M] mod_add_eq)
qed

text \<open>A counter modulo a power of two that divides the word size may wrap freely.\<close>

lemma unat_add_mod_pow:
  fixes a b :: "'a::len word"
  assumes "k \<le> LENGTH('a)"
  shows "unat (a + b) mod 2 ^ k = (unat a + unat b) mod 2 ^ k"
proof -
  have "(2::nat) ^ k dvd 2 ^ LENGTH('a)" using assms by (rule le_imp_power_dvd)
  then show ?thesis by (simp add: unat_word_ariths mod_mod_cancel)
qed

end
