(* ===== verification/Interfaces.thy ===== *)
theory Interfaces
  imports Base_Prelude
begin

text \<open>
  The contracts between components.  A component is a concrete state with operations; an
  operation that runs into undefined behaviour has the value \<^const>\<open>None\<close>.  Its promise is an
  abstract specification, a relation between the abstract state before, the result and the
  abstract state after.  The locale \<open>simulation\<close> states that every operation keeps the
  component's invariant, is free of undefined behaviour and implements the specification; its
  lemmas lift this from one call to every sequence of calls.  The locale \<open>fifo\<close> adds that the
  specification is that of a queue and concludes that elements come out in the order they went
  in, none lost and none invented.
\<close>

section \<open>Sequences of operations\<close>

fun run_ops :: "('op \<Rightarrow> 's \<Rightarrow> ('r \<times> 's) option) \<Rightarrow> 'op list \<Rightarrow> 's \<Rightarrow> ('r list \<times> 's) option" where
  "run_ops step [] s = Some ([], s)"
| "run_ops step (x # xs) s =
     (case step x s of
        None \<Rightarrow> None
      | Some (r, s') \<Rightarrow>
          (case run_ops step xs s' of None \<Rightarrow> None | Some (rs, s'') \<Rightarrow> Some (r # rs, s'')))"

inductive spec_run :: "('op \<Rightarrow> 'a \<Rightarrow> 'r \<Rightarrow> 'a \<Rightarrow> bool) \<Rightarrow> 'op list \<Rightarrow> 'a \<Rightarrow> 'r list \<Rightarrow> 'a \<Rightarrow> bool"
  for spec :: "'op \<Rightarrow> 'a \<Rightarrow> 'r \<Rightarrow> 'a \<Rightarrow> bool" where
  spec_run_Nil [intro!]: "spec_run spec [] a [] a"
| spec_run_Cons [intro]:
    "\<lbrakk>spec x a r b; spec_run spec xs b rs c\<rbrakk> \<Longrightarrow> spec_run spec (x # xs) a (r # rs) c"

inductive_simps spec_run_Nil_iff [simp]: "spec_run spec [] a rs b"
inductive_simps spec_run_Cons_iff [simp]: "spec_run spec (x # xs) a rs b"

text \<open>
  A sequence is admissible when each call meets its precondition in every abstract state the
  specification allows it to be made in.
\<close>

fun admissible :: "('op \<Rightarrow> 'a \<Rightarrow> bool) \<Rightarrow> ('op \<Rightarrow> 'a \<Rightarrow> 'r \<Rightarrow> 'a \<Rightarrow> bool) \<Rightarrow> 'op list \<Rightarrow> 'a \<Rightarrow> bool" where
  "admissible valid spec [] a \<longleftrightarrow> True"
| "admissible valid spec (x # xs) a \<longleftrightarrow>
     valid x a \<and> (\<forall>r b. spec x a r b \<longrightarrow> admissible valid spec xs b)"

lemma admissible_total: "(\<And>x a. x \<in> set xs \<Longrightarrow> valid x a) \<Longrightarrow> admissible valid spec xs a"
  by (induction xs arbitrary: a) auto

section \<open>The contract of a component\<close>

locale simulation =
  fixes inv :: "'c \<Rightarrow> bool"
    and abs :: "'c \<Rightarrow> 'a"
    and valid :: "'op \<Rightarrow> 'a \<Rightarrow> bool"
    and cstep :: "'op \<Rightarrow> 'c \<Rightarrow> ('r \<times> 'c) option"
    and spec :: "'op \<Rightarrow> 'a \<Rightarrow> 'r \<Rightarrow> 'a \<Rightarrow> bool"
  assumes sim: "\<lbrakk>inv c; valid x (abs c)\<rbrakk> \<Longrightarrow>
    \<exists>r c'. cstep x c = Some (r, c') \<and> inv c' \<and> spec x (abs c) r (abs c')"
begin

lemma run_refines:
  assumes "inv c" and "admissible valid spec xs (abs c)"
  shows "\<exists>rs c'. run_ops cstep xs c = Some (rs, c') \<and> inv c' \<and> spec_run spec xs (abs c) rs (abs c')"
  using assms
proof (induction xs arbitrary: c)
  case Nil
  then show ?case by auto
next
  case (Cons x xs)
  then obtain r c1 where 1: "cstep x c = Some (r, c1)" "inv c1" "spec x (abs c) r (abs c1)"
    using sim [of c x] by auto
  with Cons.prems Cons.IH [of c1] obtain rs c' where
    "run_ops cstep xs c1 = Some (rs, c')" "inv c'" "spec_run spec xs (abs c1) rs (abs c')"
    by auto
  with 1 show ?case by auto
qed

lemma run_inv:
  "\<lbrakk>inv c; admissible valid spec xs (abs c); run_ops cstep xs c = Some (rs, c')\<rbrakk> \<Longrightarrow> inv c'"
  using run_refines [of c xs] by auto

lemma run_defined: "\<lbrakk>inv c; admissible valid spec xs (abs c)\<rbrakk> \<Longrightarrow> run_ops cstep xs c \<noteq> None"
  using run_refines [of c xs] by auto

end

section \<open>Queues\<close>

text \<open>
  \<open>ins x r\<close> is what a call \<open>x\<close> with result \<open>r\<close> put into the queue, \<open>outs x r\<close> what it took out.
\<close>

locale fifo = simulation inv abs valid cstep spec
  for inv :: "'c \<Rightarrow> bool" and abs :: "'c \<Rightarrow> 'x list" and valid :: "'op \<Rightarrow> 'x list \<Rightarrow> bool"
    and cstep :: "'op \<Rightarrow> 'c \<Rightarrow> ('r \<times> 'c) option"
    and spec :: "'op \<Rightarrow> 'x list \<Rightarrow> 'r \<Rightarrow> 'x list \<Rightarrow> bool" +
  fixes ins :: "'op \<Rightarrow> 'r \<Rightarrow> 'x list" and outs :: "'op \<Rightarrow> 'r \<Rightarrow> 'x list"
  assumes flow: "spec x q r q' \<Longrightarrow> q @ ins x r = outs x r @ q'"
begin

lemma spec_run_flow:
  "spec_run spec xs q rs q' \<Longrightarrow>
   q @ concat (map2 ins xs rs) = concat (map2 outs xs rs) @ q'"
proof (induction rule: spec_run.induct)
  case (spec_run_Cons x a r b xs rs c)
  from flow [OF spec_run_Cons.hyps(1)] have "a @ ins x r = outs x r @ b" .
  with spec_run_Cons.IH show ?case
    by simp (metis append.assoc)
qed simp

theorem run_fifo:
  assumes "inv c" and "admissible valid spec xs (abs c)"
  shows "\<exists>rs c'. run_ops cstep xs c = Some (rs, c') \<and>
    abs c @ concat (map2 ins xs rs) = concat (map2 outs xs rs) @ abs c'"
  using run_refines [OF assms] spec_run_flow by blast

end

end
