(* ===== verification/Ring_Buffer.thy ===== *)
theory Ring_Buffer
  imports Interfaces
begin

unbundle bit_operations_syntax

text \<open>
  The ring buffer of \<^verbatim>\<open>base/inc/dsa/ringbuffer.h\<close> and \<^verbatim>\<open>base/src/dsa/ringbuffer.c\<close>: a byte
  array of \<open>mask + 1\<close> items of \<open>esize\<close> bytes with two free-running 32-bit counters \<open>in\<close> and
  \<open>out\<close>.  The operations are translated at the width of the code (\<open>unsigned int\<close> arithmetic
  wraps); a \<open>memcpy\<close> outside an object is \<^const>\<open>None\<close>.  The theory shows that the component is
  a first-in first-out byte queue whatever the counters do, and what \<open>rounddown_pow_of_two\<close>
  computes.
\<close>

section \<open>The code\<close>

record ringbuffer_t =
  rb_data :: "byte list"
  rb_in :: u32
  rb_out :: u32
  rb_mask :: u32
  rb_esize :: u32

definition rounddown_pow_of_two :: "u32 \<Rightarrow> u32" where
  "rounddown_pow_of_two n0 =
     (let n = n0 OR drop_bit 1 n0;
          n = n OR drop_bit 2 n;
          n = n OR drop_bit 4 n;
          n = n OR drop_bit 8 n;
          n = n OR drop_bit 16 n
      in drop_bit 1 (n + 1))"

text \<open>\<open>buf\<close> is the caller's buffer; a zero \<open>item_size\<close> divides by zero.\<close>

definition ringbuffer_init :: "u32 \<Rightarrow> byte list \<Rightarrow> u32 \<Rightarrow> ringbuffer_t option" where
  "ringbuffer_init item_size buf bufsize =
     (if item_size = 0 then None
      else Some \<lparr>rb_data = buf, rb_in = 0, rb_out = 0,
                 rb_mask = rounddown_pow_of_two (bufsize div item_size) - 1,
                 rb_esize = item_size\<rparr>)"

definition ringbuffer_len :: "ringbuffer_t \<Rightarrow> u32" where
  "ringbuffer_len self = rb_in self - rb_out self"

definition ringbuffer_cap :: "ringbuffer_t \<Rightarrow> u32" where
  "ringbuffer_cap self = rb_mask self + 1"

definition ringbuffer_avail :: "ringbuffer_t \<Rightarrow> u32" where
  "ringbuffer_avail self = ringbuffer_cap self - ringbuffer_len self"

definition ringbuffer_is_full :: "ringbuffer_t \<Rightarrow> bool" where
  "ringbuffer_is_full self \<longleftrightarrow> ringbuffer_len self > rb_mask self"

definition ringbuffer_is_empty :: "ringbuffer_t \<Rightarrow> bool" where
  "ringbuffer_is_empty self \<longleftrightarrow> rb_in self = rb_out self"

definition ringbuffer_copy_in ::
  "ringbuffer_t \<Rightarrow> byte list \<Rightarrow> u32 \<Rightarrow> u32 \<Rightarrow> ringbuffer_t option" where
  "ringbuffer_copy_in self src len off =
     (let size = rb_mask self + 1;
          esize = rb_esize self;
          off = off AND rb_mask self;
          (off, size, len) =
            (if esize \<noteq> 1 then (off * esize, size * esize, len * esize) else (off, size, len));
          l = min len (size - off)
      in case memcpy_to (rb_data self) (unat off) src 0 (unat l) of
           None \<Rightarrow> None
         | Some d1 \<Rightarrow>
             (case memcpy_to d1 0 src (unat l) (unat (len - l)) of
                None \<Rightarrow> None
              | Some d2 \<Rightarrow> Some (self\<lparr>rb_data := d2\<rparr>)))"

definition ringbuffer_in :: "ringbuffer_t \<Rightarrow> byte list \<Rightarrow> u32 \<Rightarrow> (u32 \<times> ringbuffer_t) option" where
  "ringbuffer_in self buf item_count =
     (let avail = ringbuffer_avail self;
          item_count = (if item_count > avail then avail else item_count)
      in case ringbuffer_copy_in self buf item_count (rb_in self) of
           None \<Rightarrow> None
         | Some self \<Rightarrow> Some (item_count, self\<lparr>rb_in := rb_in self + item_count\<rparr>))"

definition ringbuffer_copy_out ::
  "ringbuffer_t \<Rightarrow> byte list \<Rightarrow> u32 \<Rightarrow> u32 \<Rightarrow> byte list option" where
  "ringbuffer_copy_out self dst len off =
     (let size = rb_mask self + 1;
          esize = rb_esize self;
          off = off AND rb_mask self;
          (off, size, len) =
            (if esize \<noteq> 1 then (off * esize, size * esize, len * esize) else (off, size, len));
          l = min len (size - off)
      in case memcpy_to dst 0 (rb_data self) (unat off) (unat l) of
           None \<Rightarrow> None
         | Some d1 \<Rightarrow> memcpy_to d1 (unat l) (rb_data self) 0 (unat (len - l)))"

definition ringbuffer_out_peek ::
  "ringbuffer_t \<Rightarrow> byte list \<Rightarrow> u32 \<Rightarrow> (u32 \<times> byte list) option" where
  "ringbuffer_out_peek self buf len =
     (let l = rb_in self - rb_out self;
          len = (if len > l then l else len)
      in case ringbuffer_copy_out self buf len (rb_out self) of
           None \<Rightarrow> None
         | Some buf \<Rightarrow> Some (len, buf))"

definition ringbuffer_out ::
  "ringbuffer_t \<Rightarrow> byte list \<Rightarrow> u32 \<Rightarrow> (u32 \<times> byte list \<times> ringbuffer_t) option" where
  "ringbuffer_out self buf item_count =
     (case ringbuffer_out_peek self buf item_count of
        None \<Rightarrow> None
      | Some (item_count, buf) \<Rightarrow>
          Some (item_count, buf, self\<lparr>rb_out := rb_out self + item_count\<rparr>))"

section \<open>Invariant and abstraction\<close>

definition rb_inv :: "ringbuffer_t \<Rightarrow> bool" where
  "rb_inv s \<longleftrightarrow>
     (\<exists>k<32. unat (rb_mask s) = 2 ^ k - 1) \<and> 0 < unat (rb_esize s) \<and>
     unat (ringbuffer_len s) \<le> unat (rb_mask s) + 1 \<and>
     (unat (rb_mask s) + 1) * unat (rb_esize s) \<le> length (rb_data s) \<and>
     length (rb_data s) < 2 ^ 32"

definition rb_items :: "ringbuffer_t \<Rightarrow> nat" where
  "rb_items s = unat (rb_mask s) + 1"

definition rb_content :: "ringbuffer_t \<Rightarrow> byte list" where
  "rb_content s =
     window (rb_data s) (rb_items s * unat (rb_esize s))
       (unat (rb_out s) * unat (rb_esize s)) (unat (ringbuffer_len s) * unat (rb_esize s))"

lemma rb_items_pow:
  assumes "rb_inv s"
  obtains k where "k < 32" "rb_items s = 2 ^ k" "unat (rb_mask s) = 2 ^ k - 1"
  using assms by (auto simp: rb_inv_def rb_items_def)

lemma rb_sizes:
  assumes "rb_inv s"
  shows "unat (rb_mask s + 1) = rb_items s" "0 < rb_items s"
    "0 < unat (rb_esize s)" "unat (ringbuffer_len s) \<le> rb_items s"
    "rb_items s * unat (rb_esize s) \<le> length (rb_data s)"
    "rb_items s * unat (rb_esize s) < 2 ^ 32"
proof -
  obtain k where k: "k < 32" "rb_items s = 2 ^ k" "unat (rb_mask s) = 2 ^ k - 1"
    using rb_items_pow [OF assms] .
  have "(2::nat) ^ k < 2 ^ 32" using k(1) by (rule power_strict_increasing) simp
  with k show "unat (rb_mask s + 1) = rb_items s" by (subst unat_add_no_wrap) auto
qed (use assms in \<open>auto simp: rb_inv_def rb_items_def\<close>)

lemma rb_off:
  assumes "rb_inv s"
  shows "unat (off AND rb_mask s) = unat off mod rb_items s"
  using assms by (auto elim!: rb_items_pow simp: unat_and_mask_pow)

lemma rb_scaled:
  assumes "rb_inv s" and "n \<le> rb_items s" and "unat x = n"
  shows "unat (x * rb_esize s) = n * unat (rb_esize s)"
proof -
  have "n * unat (rb_esize s) \<le> rb_items s * unat (rb_esize s)" using assms(2) by simp
  also have "\<dots> < 2 ^ 32" using assms(1) by (rule rb_sizes)
  finally show ?thesis using assms(3) by (subst unat_mult_no_wrap) auto
qed

lemma rb_len_bytes:
  fixes len :: u32
  assumes inv: "rb_inv s" and len: "unat len \<le> rb_items s"
  shows "unat (len * rb_esize s) = unat len * unat (rb_esize s)"
    "unat len * unat (rb_esize s) \<le> rb_items s * unat (rb_esize s)"
  using assms by (simp_all add: rb_scaled)

text \<open>
  The byte geometry of a copy: offset, ring size and length in bytes, and where it splits.
\<close>

lemma rb_geometry:
  fixes off len :: u32
  assumes inv: "rb_inv s" and len: "unat len \<le> rb_items s"
  defines "e \<equiv> unat (rb_esize s)" and "S \<equiv> rb_items s * unat (rb_esize s)"
    and "p \<equiv> (unat off mod rb_items s) * unat (rb_esize s)"
    and "l \<equiv> min (len * rb_esize s) ((rb_mask s + 1) * rb_esize s - (off AND rb_mask s) * rb_esize s)"
  shows "p < S" "unat ((off AND rb_mask s) * rb_esize s) = p"
    "unat l = min (unat len * e) (S - p)"
    "unat (len * rb_esize s - l) = unat len * e - min (unat len * e) (S - p)"
    "p mod S = (unat off * e) mod S"
proof -
  note sz = rb_sizes [OF inv]
  have lt: "unat off mod rb_items s < rb_items s" using sz by simp
  show p: "p < S" using lt sz by (simp add: p_def S_def)
  show o: "unat ((off AND rb_mask s) * rb_esize s) = p"
    unfolding p_def using lt by (intro rb_scaled [OF inv]) (simp_all add: rb_off [OF inv])
  have n: "unat (len * rb_esize s) = unat len * e"
    unfolding e_def by (rule rb_len_bytes [OF inv len])
  have S: "unat ((rb_mask s + 1) * rb_esize s) = S"
    unfolding S_def by (rule rb_scaled [OF inv _ sz(1)]) simp
  have d: "unat ((rb_mask s + 1) * rb_esize s - (off AND rb_mask s) * rb_esize s) = S - p"
    using p S o by (subst unat_sub) (simp_all add: word_le_nat_alt)
  show l: "unat l = min (unat len * e) (S - p)"
    unfolding l_def using n d by (simp add: min_def word_le_nat_alt)
  show "unat (len * rb_esize s - l) = unat len * e - min (unat len * e) (S - p)"
    using n l by (subst unat_sub) (simp_all add: word_le_nat_alt)
  show "p mod S = (unat off * e) mod S"
    by (simp add: p_def S_def e_def mult_mod_left)
qed

lemma scale_if: "(if e \<noteq> 1 then (a * e, b * e, c * e) else (a, b, c)) = (a * e, b * e, c * (e::u32))"
  by simp

lemma ringbuffer_copy_in_stores:
  fixes off len :: u32
  assumes inv: "rb_inv s" and len: "unat len \<le> rb_items s"
    and src: "unat len * unat (rb_esize s) \<le> length src"
  defines "S \<equiv> rb_items s * unat (rb_esize s)"
  obtains d where "ringbuffer_copy_in s src len off = Some (s\<lparr>rb_data := d\<rparr>)"
    and "length d = length (rb_data s)"
    and "\<And>j. j < S \<Longrightarrow> d ! ((unat off * unat (rb_esize s) + j) mod S) =
           (if j < unat len * unat (rb_esize s) then src ! j
            else rb_data s ! ((unat off * unat (rb_esize s) + j) mod S))"
proof -
  define e where "e = unat (rb_esize s)"
  define p where "p = (unat off mod rb_items s) * e"
  define l where "l = min (len * rb_esize s)
    ((rb_mask s + 1) * rb_esize s - (off AND rb_mask s) * rb_esize s)"
  note g = rb_geometry [OF inv len, where off = off, folded S_def,
      folded e_def, folded p_def l_def]
  note sz = rb_sizes [OF inv]
  have n: "unat len * e \<le> S" unfolding e_def S_def by (rule rb_len_bytes [OF inv len])
  have S: "S \<le> length (rb_data s)" using sz(5) by (simp add: S_def e_def)
  define n1 where "n1 = min (unat len * e) (S - p)"
  have n1: "n1 \<le> length src" "p + n1 \<le> length (rb_data s)"
      "n1 + (unat len * e - n1) \<le> length src" "0 + (unat len * e - n1) \<le> length (rb_data s)"
    using src S n g(1) by (auto simp: n1_def e_def)
  obtain d1 where d1: "memcpy_to (rb_data s) p src 0 n1 = Some d1"
    using memcpy_to_defined [of 0 n1 src p "rb_data s"] n1 by auto
  have l1: "length d1 = length (rb_data s)" using memcpy_to_length [OF d1] .
  obtain d2 where d2: "memcpy_to d1 0 src n1 (unat len * e - n1) = Some d2"
    using memcpy_to_defined [of n1 "unat len * e - n1" src 0 d1] n1 l1 by auto
  note d12 = d1 [unfolded n1_def] d2 [unfolded n1_def]
  show thesis
  proof (rule that)
    show "ringbuffer_copy_in s src len off = Some (s\<lparr>rb_data := d2\<rparr>)"
      unfolding ringbuffer_copy_in_def Let_def scale_if prod.case l_def [symmetric]
      by (simp only: g(2,3,4) d12 option.case)
    show "length d2 = length (rb_data s)" using memcpy_to_length [OF d2] l1 by simp
  next
    fix j assume "j < S"
    with ring_store [OF g(1) n S _ d12] src
    have "d2 ! ((p + j) mod S) = (if j < unat len * e then src ! j else rb_data s ! ((p + j) mod S))"
      by (simp add: e_def)
    moreover have "(p + j) mod S = (unat off * e + j) mod S"
      using g(5) by (metis mod_add_left_eq)
    ultimately show "d2 ! ((unat off * unat (rb_esize s) + j) mod S) =
           (if j < unat len * unat (rb_esize s) then src ! j
            else rb_data s ! ((unat off * unat (rb_esize s) + j) mod S))"
      by (simp add: e_def)
  qed
qed

lemma rb_avail: "rb_inv s \<Longrightarrow> unat (ringbuffer_avail s) = rb_items s - unat (ringbuffer_len s)"
  unfolding ringbuffer_avail_def ringbuffer_cap_def
  by (subst unat_sub) (simp_all add: rb_sizes word_le_nat_alt)

lemma rb_counter_mod:
  assumes "rb_inv s"
  shows "unat (rb_in s) mod rb_items s = (unat (rb_out s) + unat (ringbuffer_len s)) mod rb_items s"
proof -
  obtain k where k: "k < 32" "rb_items s = 2 ^ k" using rb_items_pow [OF assms] by metis
  have "rb_in s = rb_out s + ringbuffer_len s" by (simp add: ringbuffer_len_def)
  with unat_add_mod_pow [of k "rb_out s" "ringbuffer_len s"] k show ?thesis by simp
qed

lemma rb_len_step:
  assumes inv: "rb_inv s" and room: "unat (ringbuffer_len s) + unat k \<le> rb_items s"
  shows "unat (rb_in s + k - rb_out s) = unat (ringbuffer_len s) + unat k"
proof -
  obtain i where "i < 32" "rb_items s = 2 ^ i" using rb_items_pow [OF inv] by metis
  then have "rb_items s < 2 ^ 32" by (simp only: power_strict_increasing)
  with room have "unat (rb_in s - rb_out s) + unat k < 2 ^ LENGTH(32)"
    by (simp add: ringbuffer_len_def)
  from unat_diff_step [OF this] show ?thesis by (simp add: ringbuffer_len_def)
qed

text \<open>The write position is the byte behind the content, modulo the ring.\<close>

lemma rb_in_position:
  assumes "rb_inv s"
  shows "(unat (rb_in s) * unat (rb_esize s)) mod (rb_items s * unat (rb_esize s)) =
    (unat (rb_out s) * unat (rb_esize s) + unat (ringbuffer_len s) * unat (rb_esize s))
      mod (rb_items s * unat (rb_esize s))"
  using rb_counter_mod [OF assms] by (simp flip: mult_mod_left distrib_right)

lemma ringbuffer_in_appends:
  assumes inv: "rb_inv s" and buf: "unat n * unat (rb_esize s) \<le> length buf"
  obtains k s' where "ringbuffer_in s buf n = Some (k, s')" and "rb_inv s'"
    and "unat k = min (unat n) (rb_items s - unat (ringbuffer_len s))"
    and "rb_content s' = rb_content s @ take (unat k * unat (rb_esize s)) buf"
    and "rb_esize s' = rb_esize s" and "rb_mask s' = rb_mask s"
proof -
  define e where "e = unat (rb_esize s)"
  define S where "S = rb_items s * e"
  define k where "k = (if n > ringbuffer_avail s then ringbuffer_avail s else n)"
  define L where "L = unat (ringbuffer_len s)"
  note sz = rb_sizes [OF inv, folded e_def, folded S_def L_def]
  have k: "unat k = min (unat n) (rb_items s - L)"
    using rb_avail [OF inv] by (auto simp: k_def L_def word_less_nat_alt min_def)
  with sz have room: "L + unat k \<le> rb_items s" by simp
  then have kle: "unat k \<le> rb_items s" by simp
  have src: "unat k * e \<le> length buf"
  proof -
    have "unat k * e \<le> unat n * e" using k by simp
    also have "\<dots> \<le> length buf" using buf by (simp add: e_def)
    finally show ?thesis .
  qed
  obtain d where d: "ringbuffer_copy_in s buf k (rb_in s) = Some (s\<lparr>rb_data := d\<rparr>)"
    "length d = length (rb_data s)"
    "\<And>j. j < S \<Longrightarrow> d ! ((unat (rb_in s) * e + j) mod S) =
       (if j < unat k * e then buf ! j else rb_data s ! ((unat (rb_in s) * e + j) mod S))"
    using ringbuffer_copy_in_stores [OF inv kle src [unfolded e_def], where off = "rb_in s",
      folded e_def, folded S_def] by blast
  define s' where "s' = s\<lparr>rb_data := d, rb_in := rb_in s + k\<rparr>"
  have len': "unat (ringbuffer_len s') = L + unat k"
    using rb_len_step [OF inv room [unfolded L_def]] by (simp add: s'_def L_def ringbuffer_len_def)
  have run: "ringbuffer_in s buf n = Some (k, s')"
    using d(1) by (simp add: ringbuffer_in_def Let_def k_def [symmetric] s'_def)
  have inv': "rb_inv s'"
    using inv room d(2) len' unfolding rb_inv_def by (simp add: s'_def rb_items_def)
  note pos = rb_in_position [OF inv, folded e_def, folded S_def L_def]
  have "rb_content s' = window d S (unat (rb_out s) * e) (L * e + unat k * e)"
    using len' by (simp add: rb_content_def s'_def rb_items_def S_def e_def distrib_right)
  also have "\<dots> = window (rb_data s) S (unat (rb_out s) * e) (L * e) @ take (unat k * e) buf"
  proof (rule window_store_append [OF _ _ src pos d(3)])
    show "0 < S" using sz by (simp add: S_def)
    have "(L + unat k) * e \<le> S" using room by (simp only: S_def mult_le_mono1)
    then show "L * e + unat k * e \<le> S" by (simp add: distrib_right)
  qed
  also have "window (rb_data s) S (unat (rb_out s) * e) (L * e) = rb_content s"
    by (simp add: rb_content_def S_def e_def L_def)
  finally have "rb_content s' = rb_content s @ take (unat k * e) buf" .
  with run inv' k show thesis
    by (intro that [of k s']) (simp_all add: s'_def e_def L_def)
qed

lemma ringbuffer_copy_out_reads:
  fixes off len :: u32
  assumes inv: "rb_inv s" and len: "unat len \<le> rb_items s"
    and dst: "unat len * unat (rb_esize s) \<le> length dst"
  shows "ringbuffer_copy_out s dst len off =
    Some (window (rb_data s) (rb_items s * unat (rb_esize s)) (unat off * unat (rb_esize s))
            (unat len * unat (rb_esize s)) @ drop (unat len * unat (rb_esize s)) dst)"
proof -
  define e where "e = unat (rb_esize s)"
  define S where "S = rb_items s * e"
  define p where "p = (unat off mod rb_items s) * e"
  define l where "l = min (len * rb_esize s)
    ((rb_mask s + 1) * rb_esize s - (off AND rb_mask s) * rb_esize s)"
  note g = rb_geometry [OF inv len, where off = off, folded e_def, folded S_def p_def l_def]
  have n: "unat len * e \<le> S" unfolding e_def S_def by (rule rb_len_bytes [OF inv len])
  have S: "S \<le> length (rb_data s)" using rb_sizes [OF inv] by (simp add: S_def e_def)
  define n1 where "n1 = min (unat len * e) (S - p)"
  have b: "n1 \<le> length dst" "p + n1 \<le> length (rb_data s)"
      "n1 + (unat len * e - n1) \<le> length dst" "unat len * e - n1 \<le> length (rb_data s)"
      "n1 \<le> unat len * e"
    using dst S n g(1) by (auto simp: n1_def e_def)
  have "ringbuffer_copy_out s dst len off =
      Some ((take n1 (drop p (rb_data s)) @ take (unat len * e - n1) (rb_data s)) @
            drop (unat len * e) dst)"
    unfolding ringbuffer_copy_out_def Let_def scale_if prod.case l_def [symmetric]
    unfolding g(2,3,4) n1_def [symmetric]
    using b by (simp add: memcpy_to_def mem_read_def mem_write_def)
  also have "take n1 (drop p (rb_data s)) @ take (unat len * e - n1) (rb_data s) =
      window (rb_data s) S p (unat len * e)"
    using window_split [OF g(1) n S] by (simp add: n1_def)
  also have "window (rb_data s) S p (unat len * e) = window (rb_data s) S (unat off * e) (unat len * e)"
    using g(5) by (metis window_mod)
  finally show ?thesis by (simp add: S_def e_def)
qed

lemma ringbuffer_out_peek_reads:
  assumes inv: "rb_inv s" and dst: "unat n * unat (rb_esize s) \<le> length dst"
  obtains k where "unat k = min (unat n) (unat (ringbuffer_len s))"
    and "ringbuffer_out_peek s dst n = Some (k, take (unat k * unat (rb_esize s)) (rb_content s) @
           drop (unat k * unat (rb_esize s)) dst)"
proof -
  let ?e = "unat (rb_esize s)"
  define k where "k = (if n > rb_in s - rb_out s then rb_in s - rb_out s else n)"
  have k: "unat k = min (unat n) (unat (ringbuffer_len s))"
    by (auto simp: k_def ringbuffer_len_def word_less_nat_alt min_def)
  have kle: "unat k \<le> rb_items s" using k rb_sizes(4) [OF inv] by simp
  have "unat k * ?e \<le> unat n * ?e" using k by simp
  with dst have kd: "unat k * ?e \<le> length dst" by (rule order_trans [rotated])
  have "unat k * ?e \<le> unat (ringbuffer_len s) * ?e" using k by simp
  then have "take (unat k * ?e) (rb_content s) =
      window (rb_data s) (rb_items s * ?e) (unat (rb_out s) * ?e) (unat k * ?e)"
    by (simp only: rb_content_def take_window)
  with ringbuffer_copy_out_reads [OF inv kle kd, of "rb_out s"]
  have "ringbuffer_out_peek s dst n = Some (k, take (unat k * ?e) (rb_content s) @ drop (unat k * ?e) dst)"
    by (simp add: ringbuffer_out_peek_def Let_def k_def [symmetric])
  with k show thesis by (rule that)
qed

lemma ringbuffer_out_removes:
  assumes inv: "rb_inv s" and dst: "unat n * unat (rb_esize s) \<le> length dst"
  obtains k s' where "unat k = min (unat n) (unat (ringbuffer_len s))"
    and "ringbuffer_out s dst n = Some (k, take (unat k * unat (rb_esize s)) (rb_content s) @
           drop (unat k * unat (rb_esize s)) dst, s')"
    and "rb_inv s'" and "rb_content s' = drop (unat k * unat (rb_esize s)) (rb_content s)"
    and "rb_esize s' = rb_esize s" and "rb_mask s' = rb_mask s"
proof -
  let ?e = "unat (rb_esize s)" and ?L = "unat (ringbuffer_len s)"
  obtain k where k: "unat k = min (unat n) ?L"
    and peek: "ringbuffer_out_peek s dst n =
      Some (k, take (unat k * ?e) (rb_content s) @ drop (unat k * ?e) dst)"
    using ringbuffer_out_peek_reads [OF assms] .
  define s' where "s' = s\<lparr>rb_out := rb_out s + k\<rparr>"
  have "unat k \<le> unat (rb_in s - rb_out s)" using k by (simp add: ringbuffer_len_def)
  from unat_diff_advance [OF this] have len': "unat (ringbuffer_len s') = ?L - unat k"
    by (simp add: s'_def ringbuffer_len_def)
  have "rb_inv s'" using inv len' unfolding rb_inv_def by (auto simp: s'_def)
  moreover have "rb_content s' = drop (unat k * ?e) (rb_content s)"
  proof -
    obtain i where i: "i < 32" "rb_items s = 2 ^ i" using rb_items_pow [OF inv] by metis
    have "unat (rb_out s + k) mod rb_items s = (unat (rb_out s) + unat k) mod rb_items s"
      using unat_add_mod_pow [of i "rb_out s" k] i by simp
    then have "(unat (rb_out s + k) * ?e) mod (rb_items s * ?e) =
        (unat (rb_out s) * ?e + unat k * ?e) mod (rb_items s * ?e)"
      by (simp flip: mult_mod_left distrib_right)
    then have "window (rb_data s) (rb_items s * ?e) (unat (rb_out s + k) * ?e) ((?L - unat k) * ?e) =
        window (rb_data s) (rb_items s * ?e) (unat (rb_out s) * ?e + unat k * ?e) ((?L - unat k) * ?e)"
      by (metis window_mod)
    moreover have "unat k * ?e \<le> ?L * ?e" using k by simp
    ultimately show ?thesis
      using len' by (simp add: rb_content_def drop_window s'_def rb_items_def diff_mult_distrib)
  qed
  moreover have "ringbuffer_out s dst n =
      Some (k, take (unat k * ?e) (rb_content s) @ drop (unat k * ?e) dst, s')"
    using peek by (simp add: ringbuffer_out_def s'_def)
  ultimately show thesis using k by (intro that [of k s']) (simp_all add: s'_def)
qed

section \<open>The byte queue it implements\<close>

text \<open>
  One operation of a client: put items in, take items out into a buffer, or peek.  The result
  is the number of items and the contents of the caller's buffer after the call.
\<close>

datatype rb_op = RbIn "byte list" u32 | RbOut "byte list" u32 | RbPeek "byte list" u32

fun rb_step :: "rb_op \<Rightarrow> ringbuffer_t \<Rightarrow> ((u32 \<times> byte list) \<times> ringbuffer_t) option" where
  "rb_step (RbIn buf n) s =
     (case ringbuffer_in s buf n of None \<Rightarrow> None | Some (k, s') \<Rightarrow> Some ((k, buf), s'))"
| "rb_step (RbOut dst n) s =
     (case ringbuffer_out s dst n of None \<Rightarrow> None | Some (k, d, s') \<Rightarrow> Some ((k, d), s'))"
| "rb_step (RbPeek dst n) s =
     (case ringbuffer_out_peek s dst n of None \<Rightarrow> None | Some (k, d) \<Rightarrow> Some ((k, d), s))"

text \<open>The specification: a bounded queue of \<open>cap\<close> items of \<open>e\<close> bytes.\<close>

fun rb_spec :: "nat \<Rightarrow> nat \<Rightarrow> rb_op \<Rightarrow> byte list \<Rightarrow> u32 \<times> byte list \<Rightarrow> byte list \<Rightarrow> bool" where
  "rb_spec e cap (RbIn buf n) q (k, d) q' \<longleftrightarrow>
     unat k = min (unat n) (cap - length q div e) \<and> d = buf \<and> q' = q @ take (unat k * e) buf"
| "rb_spec e cap (RbOut dst n) q (k, d) q' \<longleftrightarrow>
     unat k = min (unat n) (length q div e) \<and>
     d = take (unat k * e) q @ drop (unat k * e) dst \<and> q' = drop (unat k * e) q"
| "rb_spec e cap (RbPeek dst n) q (k, d) q' \<longleftrightarrow>
     unat k = min (unat n) (length q div e) \<and>
     d = take (unat k * e) q @ drop (unat k * e) dst \<and> q' = q"

text \<open>The caller's buffer holds the number of items it asks for.\<close>

fun rb_valid :: "nat \<Rightarrow> rb_op \<Rightarrow> byte list \<Rightarrow> bool" where
  "rb_valid e (RbIn buf n) q \<longleftrightarrow> unat n * e \<le> length buf"
| "rb_valid e (RbOut dst n) q \<longleftrightarrow> unat n * e \<le> length dst"
| "rb_valid e (RbPeek dst n) q \<longleftrightarrow> unat n * e \<le> length dst"

fun rb_ins :: "nat \<Rightarrow> rb_op \<Rightarrow> u32 \<times> byte list \<Rightarrow> byte list" where
  "rb_ins e (RbIn buf n) (k, d) = take (unat k * e) buf"
| "rb_ins e (RbOut dst n) (k, d) = []"
| "rb_ins e (RbPeek dst n) (k, d) = []"

fun rb_outs :: "nat \<Rightarrow> rb_op \<Rightarrow> u32 \<times> byte list \<Rightarrow> byte list" where
  "rb_outs e (RbIn buf n) (k, d) = []"
| "rb_outs e (RbOut dst n) (k, d) = take (unat k * e) d"
| "rb_outs e (RbPeek dst n) (k, d) = []"

definition rb_fixed :: "u32 \<Rightarrow> u32 \<Rightarrow> ringbuffer_t \<Rightarrow> bool" where
  "rb_fixed e m s \<longleftrightarrow> rb_inv s \<and> rb_esize s = e \<and> rb_mask s = m"

lemma rb_content_items:
  assumes "rb_inv s"
  shows "length (rb_content s) div unat (rb_esize s) = unat (ringbuffer_len s)"
  using rb_sizes(3) [OF assms] by (simp add: rb_content_def)

lemma rb_simulates:
  assumes "rb_fixed e m s" and "rb_valid (unat e) x (rb_content s)"
  shows "\<exists>r s'. rb_step x s = Some (r, s') \<and> rb_fixed e m s' \<and>
    rb_spec (unat e) (unat m + 1) x (rb_content s) r (rb_content s')"
proof (cases x)
  case (RbIn buf n)
  with assms show ?thesis
    using ringbuffer_in_appends [of s n buf] rb_content_items [of s]
    by (fastforce simp: rb_fixed_def rb_items_def)
next
  case (RbOut dst n)
  with assms show ?thesis
    using ringbuffer_out_removes [of s n dst] rb_content_items [of s]
    by (fastforce simp: rb_fixed_def)
next
  case (RbPeek dst n)
  with assms show ?thesis
    using ringbuffer_out_peek_reads [of s n dst] rb_content_items [of s]
    by (fastforce simp: rb_fixed_def)
qed

lemma rb_spec_flow:
  "rb_spec e cap x q r q' \<Longrightarrow> q @ rb_ins e x r = rb_outs e x r @ q'"
proof (induction e cap x q r q' rule: rb_spec.induct)
  case (2 e cap dst n q k d q')
  have "k' * e \<le> length q" if "k' \<le> length q div e" for k'
    using that div_times_less_eq_dividend [of "length q" e] mult_le_mono1 order_trans by blast
  with 2 show ?case by simp
qed auto

interpretation ring: fifo "rb_fixed e m" rb_content "rb_valid (unat e)" rb_step
    "rb_spec (unat e) (unat m + 1)" "rb_ins (unat e)" "rb_outs (unat e)" for e m
  by unfold_locales (rule rb_simulates rb_spec_flow; assumption)+

section \<open>Rounding down to a power of two\<close>

text \<open>One step \<open>n |= n >> s\<close> doubles the reach of each bit downwards.\<close>

definition smeared :: "nat \<Rightarrow> u32 \<Rightarrow> u32 \<Rightarrow> bool" where
  "smeared s n r \<longleftrightarrow> (\<forall>i. bit r i \<longleftrightarrow> (\<exists>j < s. bit n (i + j)))"

lemma smeared_start: "smeared 1 n n"
  by (auto simp: smeared_def)

lemma smeared_step:
  assumes "smeared s n r"
  shows "smeared (2 * s) n (r OR drop_bit s r)"
  unfolding smeared_def
proof
  fix i
  have "bit (r OR drop_bit s r) i \<longleftrightarrow> (\<exists>j < s. bit n (i + j)) \<or> (\<exists>j < s. bit n (i + (s + j)))"
    using assms by (simp add: smeared_def bit_or_iff bit_drop_bit_eq ac_simps)
  also have "\<dots> \<longleftrightarrow> (\<exists>j < 2 * s. bit n (i + j))"
  proof
    assume "\<exists>j < 2 * s. bit n (i + j)"
    then obtain j where j: "j < 2 * s" "bit n (i + j)" by auto
    show "(\<exists>j < s. bit n (i + j)) \<or> (\<exists>j < s. bit n (i + (s + j)))"
    proof (cases "j < s")
      case True with j show ?thesis by auto
    next
      case False
      then have "j - s < s" "i + (s + (j - s)) = i + j" using j by auto
      with j show ?thesis by metis
    qed
  next
    assume "(\<exists>j < s. bit n (i + j)) \<or> (\<exists>j < s. bit n (i + (s + j)))"
    then show "\<exists>j < 2 * s. bit n (i + j)" 
      by (metis add_strict_mono mult_2 nat_add_left_cancel_less trans_less_add1)
  qed
  finally show "bit (r OR drop_bit s r) i \<longleftrightarrow> (\<exists>j < 2 * s. bit n (i + j))" .
qed

lemma smeared_mask:
  assumes "smeared 32 n r" and "bit n k" and "\<And>j. bit n j \<Longrightarrow> j \<le> k"
  shows "r = mask (Suc k)"
proof (rule bit_word_eqI)
  fix i assume "i < LENGTH(32)"
  have k: "k < 32" using bit_imp_le_length [OF assms(2)] by simp
  have "bit r i \<longleftrightarrow> i \<le> k"
  proof
    assume "bit r i"
    with assms(1) obtain j where "bit n (i + j)" by (auto simp: smeared_def)
    with assms(3) show "i \<le> k" by fastforce
  next
    assume "i \<le> k"
    with k have "k - i < 32" "bit n (i + (k - i))" using assms(2) by auto
    with assms(1) show "bit r i" by (auto simp: smeared_def)
  qed
  then show "bit r i \<longleftrightarrow> bit (mask (Suc k) :: u32) i" using k by (auto simp: bit_mask_iff)
qed

lemma highest_bit:
  fixes n :: u32
  assumes "n \<noteq> 0"
  obtains k where "k < 32" "bit n k" "\<And>j. bit n j \<Longrightarrow> j \<le> k" "2 ^ k \<le> unat n" "unat n < 2 ^ Suc k"
proof -
  define k where "k = Max {j. bit n j}"
  have fin: "finite {j. bit n j}"
    by (rule finite_subset [of _ "{..<32}"]) (auto dest: bit_imp_le_length)
  have ne: "{j. bit n j} \<noteq> {}" using assms bit_eqI [of n 0] by auto
  have kb: "bit n k" using Max_in [OF fin ne] by (simp add: k_def)
  have up: "\<And>j. bit n j \<Longrightarrow> j \<le> k" using fin by (simp add: k_def)
  have "take_bit (Suc k) n = n"
    by (rule bit_eqI) (use up in \<open>auto simp: bit_take_bit_iff less_Suc_eq_le\<close>)
  then have lt: "unat n < 2 ^ Suc k"
    by (metis take_bit_nat_less_exp unsigned_take_bit_eq)
  have "2 ^ k \<le> unat n"
  proof -
    have "bit (unat n) k" using kb by (simp add: bit_unsigned_iff)
    then have "unat n div 2 ^ k \<noteq> 0" by (metis bit_iff_odd even_zero)
    then show ?thesis by (simp add: div_eq_0_iff not_less)
  qed
  with kb up lt show thesis by (intro that [of k]) (auto dest: bit_imp_le_length)
qed
lemma rounddown_smear:
  assumes "n \<noteq> 0"
  obtains k where "k < 32" "2 ^ k \<le> unat n" "unat n < 2 ^ Suc k"
    "rounddown_pow_of_two n = drop_bit 1 (mask (Suc k) + 1)"
proof -
  obtain k where k: "k < 32" "bit n k" "\<And>j. bit n j \<Longrightarrow> j \<le> k" "2 ^ k \<le> unat n" "unat n < 2 ^ Suc k"
    using highest_bit [OF assms] by metis
  let ?r1 = "n OR drop_bit 1 n"
  let ?r2 = "?r1 OR drop_bit 2 ?r1"
  let ?r4 = "?r2 OR drop_bit 4 ?r2"
  let ?r8 = "?r4 OR drop_bit 8 ?r4"
  let ?r16 = "?r8 OR drop_bit 16 ?r8"
  have "smeared 2 n ?r1" using smeared_step [OF smeared_start] by simp
  then have "smeared 4 n ?r2" by (drule_tac smeared_step) simp
  then have "smeared 8 n ?r4" by (drule_tac smeared_step) simp
  then have "smeared 16 n ?r8" by (drule_tac smeared_step) simp
  then have "smeared 32 n ?r16" by (drule_tac smeared_step) simp
  from smeared_mask [OF this k(2,3)] have "?r16 = mask (Suc k)" .
  then have "rounddown_pow_of_two n = drop_bit 1 (mask (Suc k) + 1)"
    by (simp add: rounddown_pow_of_two_def Let_def)
  with k show thesis by (intro that)
qed

lemma rounddown_small:
  assumes "n \<noteq> 0" and "unat n < 2 ^ 31"
  obtains k where "k < 31" "2 ^ k \<le> unat n" "unat n < 2 ^ Suc k"
    "unat (rounddown_pow_of_two n) = 2 ^ k"
proof -
  obtain k where k: "k < 32" "2 ^ k \<le> unat n" "unat n < 2 ^ Suc k"
    and r: "rounddown_pow_of_two n = drop_bit 1 (mask (Suc k) + 1)"
    using rounddown_smear [OF assms(1)] .
  have "(2::nat) ^ k < 2 ^ 31" using k(2) assms(2) by linarith
  then have k31: "k < 31" by (rule power_less_imp_less_exp [rotated]) simp
  have "mask (Suc k) + 1 = (2 ^ Suc k :: u32)" by (simp only: mask_eq_exp_minus_1 diff_add_cancel)
  then have "unat (rounddown_pow_of_two n) = unat (2 ^ Suc k :: u32) div 2"
    by (simp only: r unat_drop_bit_eq) (simp add: drop_bit_Suc)
  also have "unat (2 ^ Suc k :: u32) = 2 ^ Suc k"
  proof -
    have "unat (of_nat (2 ^ Suc k) :: u32) = 2 ^ Suc k"
      using k31 by (simp add: unsigned_of_nat take_bit_nat_eq_self del: of_nat_power power_Suc)
    then show ?thesis by simp
  qed
  finally show thesis using k31 k by (intro that [of k]) simp_all
qed

lemma rounddown_large:
  assumes "2 ^ 31 \<le> unat n"
  shows "rounddown_pow_of_two n = 0"
proof -
  have "n \<noteq> 0" using assms by auto
  then obtain k where k: "k < 32" "2 ^ k \<le> unat n" "unat n < 2 ^ Suc k"
    and r: "rounddown_pow_of_two n = drop_bit 1 (mask (Suc k) + 1)"
    using rounddown_smear by blast
  have "(2::nat) ^ 31 < 2 ^ Suc k" using k(3) assms by linarith
  then have "31 < Suc k" by (rule power_less_imp_less_exp [rotated]) simp
  with k(1) have "k = 31" by simp
  with r show ?thesis by (simp add: mask_eq_exp_minus_1)
qed

section \<open>Properties\<close>

text \<open>
  C9. Every sequence of \<open>ringbuffer_in\<close>, \<open>ringbuffer_out\<close> and \<open>ringbuffer_out_peek\<close> calls with
  buffers of the size they announce is free of out-of-bounds copies, keeps the invariant, returns
  what a bounded byte queue of \<open>mask + 1\<close> items returns, and delivers the bytes in the order they
  went in, although the 32-bit counters wrap around.
\<close>

theorem ringbuffer_is_bounded_fifo:
  assumes "rb_fixed e m s"
    and "admissible (rb_valid (unat e)) (rb_spec (unat e) (unat m + 1)) xs (rb_content s)"
  shows "\<exists>rs s'. run_ops rb_step xs s = Some (rs, s') \<and> rb_fixed e m s' \<and>
    spec_run (rb_spec (unat e) (unat m + 1)) xs (rb_content s) rs (rb_content s') \<and>
    rb_content s @ concat (map2 (rb_ins (unat e)) xs rs) =
      concat (map2 (rb_outs (unat e)) xs rs) @ rb_content s'"
  using ring.run_refines [OF assms] ring.spec_run_flow by blast

theorem ringbuffer_is_bounded_fifo_witness:
  "rb_fixed 1 1 \<lparr>rb_data = [0, 0], rb_in = 0xFFFFFFFF, rb_out = 0xFFFFFFFF, rb_mask = 1, rb_esize = 1\<rparr> \<and>
   (\<exists>rs s'. run_ops rb_step [RbIn [7, 8] 2, RbOut [0] 1]
      \<lparr>rb_data = [0, 0], rb_in = 0xFFFFFFFF, rb_out = 0xFFFFFFFF, rb_mask = 1, rb_esize = 1\<rparr> = Some (rs, s'))"
proof -
  let ?s = "\<lparr>rb_data = [0, 0], rb_in = 0xFFFFFFFF, rb_out = 0xFFFFFFFF, rb_mask = 1, rb_esize = 1\<rparr>"
  have "\<exists>k<32. (1::nat) = 2 ^ k - 1" by (rule exI [of _ 1]) simp
  then have f: "rb_fixed 1 1 ?s"
    by (simp add: rb_fixed_def rb_inv_def ringbuffer_len_def)
  have a: "admissible (rb_valid (unat 1)) (rb_spec (unat 1) (unat 1 + 1))
      [RbIn [7, 8] 2, RbOut [0] 1] (rb_content ?s)"
    by simp
  show ?thesis using f ringbuffer_is_bounded_fifo [OF f a] by blast
qed

text \<open>
  \<open>ringbuffer_init\<close> on a buffer of \<open>bufsize\<close> bytes that holds between one and \<open>2^31 - 1\<close>
  items establishes the invariant with an empty queue, and the capacity is the largest power of
  two that does not exceed the number of items that fit.
\<close>

lemma ringbuffer_init_capacity:
  assumes "0 < item_size" and "item_size \<le> bufsize" and "length buf = unat bufsize"
    and "unat bufsize div unat item_size < 2 ^ 31"
  shows "\<exists>s k. ringbuffer_init item_size buf bufsize = Some s \<and> rb_inv s \<and> rb_content s = [] \<and>
    unat (ringbuffer_cap s) = 2 ^ k \<and> 2 ^ k \<le> unat bufsize div unat item_size \<and>
    unat bufsize div unat item_size < 2 ^ Suc k"
proof -
  let ?n = "bufsize div item_size"
  have n: "unat ?n = unat bufsize div unat item_size" by (simp add: unat_div)
  have pos: "0 < unat item_size" "unat item_size \<le> unat bufsize"
    using assms by (simp_all add: word_less_nat_alt word_le_nat_alt)
  then have "0 < unat ?n" using n by (simp add: div_greater_zero_iff)
  then have "?n \<noteq> 0" by auto
  then obtain k where k: "k < 31" "2 ^ k \<le> unat ?n" "unat ?n < 2 ^ Suc k"
    and r: "unat (rounddown_pow_of_two ?n) = 2 ^ k"
    using rounddown_small assms(4) n by metis
  have mask: "unat (rounddown_pow_of_two ?n - 1) = 2 ^ k - 1"
    using r by (subst unat_sub) (simp_all add: word_le_nat_alt)
  have fits: "2 ^ k * unat item_size \<le> length buf"
    using k(2) n assms(3) by (metis div_times_less_eq_dividend mult_le_mono1 order_trans)
  define s where "s = \<lparr>rb_data = buf, rb_in = 0, rb_out = 0,
    rb_mask = rounddown_pow_of_two ?n - 1, rb_esize = item_size\<rparr>"
  have "rb_inv s"
    using k(1) mask pos fits assms(3) unsigned_less [of bufsize]
    by (auto simp: rb_inv_def s_def ringbuffer_len_def intro!: exI [of _ k])
  moreover have "unat (ringbuffer_cap s) = 2 ^ k"
    using r by (simp add: ringbuffer_cap_def s_def)
  moreover have "ringbuffer_init item_size buf bufsize = Some s"
    using assms(1) by (simp add: ringbuffer_init_def s_def)
  moreover have "rb_content s = []" by (simp add: rb_content_def s_def ringbuffer_len_def)
  ultimately show ?thesis using k n by auto
qed

text \<open>
  C30. A buffer that holds \<open>2^31\<close> items or more is initialised with capacity zero, because the
  increment in \<open>rounddown_pow_of_two\<close> wraps: it accepts nothing, yet does not report to be full.
\<close>

theorem ringbuffer_init_large_rejects_all:
  assumes "0 < item_size" and "2 ^ 31 \<le> unat bufsize div unat item_size"
  shows "\<exists>s. ringbuffer_init item_size buf bufsize = Some s \<and> ringbuffer_cap s = 0 \<and>
    ringbuffer_in s src n = Some (0, s) \<and> \<not> ringbuffer_is_full s"
proof -
  have "unat (bufsize div item_size) = unat bufsize div unat item_size" by (simp add: unat_div)
  with assms(2) have "rounddown_pow_of_two (bufsize div item_size) = 0"
    by (simp add: rounddown_large)
  then have m: "rounddown_pow_of_two (bufsize div item_size) - 1 = 0xFFFFFFFF" by simp
  have clamp: "(if n > (0::u32) then 0 else n) = 0" by (simp add: word_gt_0)
  define s where "s = \<lparr>rb_data = buf, rb_in = 0, rb_out = 0, rb_mask = 0xFFFFFFFF, rb_esize = item_size\<rparr>"
  have "ringbuffer_avail s = 0"
    by (simp add: s_def ringbuffer_avail_def ringbuffer_cap_def ringbuffer_len_def)
  moreover have "ringbuffer_copy_in s src 0 0 = Some s"
    by (simp add: s_def ringbuffer_copy_in_def memcpy_to_def mem_read_def mem_write_def)
  ultimately have "ringbuffer_in s src n = Some (0, s)"
    by (simp only: ringbuffer_in_def Let_def clamp) (simp add: s_def)
  moreover have "ringbuffer_init item_size buf bufsize = Some s"
    using assms(1) m by (simp add: ringbuffer_init_def s_def)
  ultimately show ?thesis
    by (auto simp: s_def ringbuffer_cap_def ringbuffer_is_full_def ringbuffer_len_def)
qed

theorem ringbuffer_init_large_rejects_all_witness:
  "\<exists>s. ringbuffer_init 1 (replicate (2 ^ 31) 0) 0x80000000 = Some s \<and> ringbuffer_cap s = 0 \<and>
    ringbuffer_in s [5] 1 = Some (0, s) \<and> \<not> ringbuffer_is_full s"
  using ringbuffer_init_large_rejects_all [of 1 "0x80000000" "replicate (2 ^ 31) 0" "[5]" 1] by simp

end
