(* ===== verification/Deque.thy ===== *)
theory Deque
  imports Interfaces
begin

unbundle bit_operations_syntax

text \<open>
  The double-ended queue of \<^verbatim>\<open>base/inc/dsa/deque.h\<close>: a malloced ring of \<open>cap\<close> elements of
  \<open>esz\<close> bytes with 32-bit indices, which grows by doubling and shrinks on demand.  \<open>malloc\<close> is
  a parameter: it maps a size to a fresh object or to \<^const>\<open>None\<close>; all that is assumed of it is that
  the object has the requested size.  A failed \<open>assert\<close>, a division by zero and an access
  outside an object are \<^const>\<open>None\<close>.

  The theory shows that the component implements a list with operations at both ends, free of
  undefined behaviour, when shrinking is off or the initial capacity is at least two, and that
  with an initial capacity of one and shrinking on it writes outside its object.
\<close>

section \<open>The code\<close>

datatype deq_flag = DEQ_NO_SHRINK | DEQ_SHRINK_IF_EMPTY | DEQ_SHRINK_AT_20PCT

datatype deq_op = DEQ_PUSH | DEQ_POP | DEQ_SHIFT | DEQ_UNSHIFT

text \<open>\<open>dq_v = None\<close> is the null pointer.\<close>

record deq =
  dq_v :: "byte list option"
  dq_head :: u32
  dq_tail :: u32
  dq_len :: u32
  dq_cap :: u32
  dq_min :: u32
  dq_esz :: u32
  dq_shrink :: deq_flag

type_synonym allocator = "nat \<Rightarrow> byte list option"

definition DEQ_INIT_DEQ :: "u32 \<Rightarrow> u32 \<Rightarrow> deq_flag \<Rightarrow> deq" where
  "DEQ_INIT_DEQ esz mn shrink =
     \<lparr>dq_v = None, dq_head = 0, dq_tail = 0, dq_len = 0, dq_cap = 0, dq_min = mn, dq_esz = esz,
      dq_shrink = shrink\<rparr>"

text \<open>The copy of the live elements into the new object \<open>t\<close>.\<close>

definition deq_copy :: "deq \<Rightarrow> byte list \<Rightarrow> byte list option" where
  "deq_copy q t =
     (if dq_len q \<noteq> 0 then
        (case dq_v q of
           None \<Rightarrow> None
         | Some v \<Rightarrow>
             (let part1 = (if dq_head q + dq_len q \<le> dq_cap q then dq_len q
                           else dq_cap q - dq_head q);
                  part2 = dq_len q - part1
              in case memcpy_to t 0 v (unat (dq_head q * dq_esz q)) (unat (dq_esz q * part1)) of
                   None \<Rightarrow> None
                 | Some t \<Rightarrow>
                     (if part2 \<noteq> 0
                      then memcpy_to t (unat (dq_esz q * part1)) v 0 (unat (dq_esz q * part2))
                      else Some t)))
      else Some t)"

definition deq_resize :: "allocator \<Rightarrow> deq \<Rightarrow> u32 \<Rightarrow> (int \<times> deq) option" where
  "deq_resize malloc q n =
     (if \<not> (n > 0 \<and> n \<ge> dq_len q) then None
      else case malloc (unat (dq_esz q * n)) of
             None \<Rightarrow> Some (-1, q)
           | Some t \<Rightarrow>
               (case deq_copy q t of
                  None \<Rightarrow> None
                | Some t \<Rightarrow>
                    Some (0, q\<lparr>dq_v := Some t, dq_head := 0, dq_tail := dq_len q, dq_cap := n\<rparr>)))"

definition deq_reset_deq :: "deq \<Rightarrow> deq" where
  "deq_reset_deq q = q\<lparr>dq_v := None, dq_head := 0, dq_tail := 0, dq_len := 0, dq_cap := 0\<rparr>"

text \<open>
  The first \<open>switch\<close> of \<open>deq_op_\<close>: resizing.  \<open>Some (Inl r, q)\<close> is an early \<open>return r\<close>,
  \<open>Some (Inr (), q)\<close> continues.
\<close>

definition deq_op_resize :: "allocator \<Rightarrow> deq \<Rightarrow> deq_op \<Rightarrow> ((int + unit) \<times> deq) option" where
  "deq_op_resize malloc q op =
     (if op = DEQ_PUSH \<or> op = DEQ_UNSHIFT then
        (if dq_len q = dq_cap q then
           (case deq_resize malloc q (if dq_cap q = 0 then dq_min q else dq_cap q * 2) of
              None \<Rightarrow> None
            | Some (r, q) \<Rightarrow> Some (if r = -1 then Inl (-1) else Inr (), q))
         else Some (Inr (), q))
      else
        (case (if dq_cap q > dq_min q \<and> dq_shrink q = DEQ_SHRINK_IF_EMPTY \<and> dq_len q = 1
               then deq_resize malloc q (dq_min q) else Some (0, q)) of
           None \<Rightarrow> None
         | Some (r1, q1) \<Rightarrow>
             if r1 = -1 then Some (Inl (-1), q1)
             else
               (case (if dq_cap q > dq_min q \<and> dq_shrink q1 = DEQ_SHRINK_AT_20PCT \<and>
                          (dq_len q1 - 1) * 5 \<le> dq_cap q1
                      then deq_resize malloc q1 (dq_cap q1 div 2) else Some (0, q1)) of
                  None \<Rightarrow> None
                | Some (r2, q2) \<Rightarrow>
                    if r2 = -1 then Some (Inl (-1), q2)
                    else if dq_len q2 = 0 then Some (Inl 0, q2)
                    else Some (Inr (), q2))))"

text \<open>The second \<open>switch\<close>: the index, and the new head, tail and length.\<close>

definition deq_op_index :: "deq \<Rightarrow> deq_op \<Rightarrow> (u32 \<times> deq) option" where
  "deq_op_index q op =
     (case op of
        DEQ_PUSH \<Rightarrow>
          (if dq_cap q = 0 then None
           else Some (dq_tail q, q\<lparr>dq_tail := (dq_tail q + 1) mod dq_cap q, dq_len := dq_len q + 1\<rparr>))
      | DEQ_SHIFT \<Rightarrow>
          (if dq_cap q = 0 then None
           else Some (dq_head q, q\<lparr>dq_head := (dq_head q + 1) mod dq_cap q, dq_len := dq_len q - 1\<rparr>))
      | DEQ_POP \<Rightarrow>
          (let t = (if dq_tail q = 0 then dq_cap q else dq_tail q) - 1
           in Some (t, q\<lparr>dq_tail := t, dq_len := dq_len q - 1\<rparr>))
      | DEQ_UNSHIFT \<Rightarrow>
          (let h = (if dq_head q = 0 then dq_cap q else dq_head q) - 1
           in Some (h, q\<lparr>dq_head := h, dq_len := dq_len q + 1\<rparr>)))"

text \<open>The returned index is meaningful when the first component is 1.\<close>

definition deq_op_deq :: "allocator \<Rightarrow> deq \<Rightarrow> deq_op \<Rightarrow> (int \<times> u32 \<times> deq) option" where
  "deq_op_deq malloc q op =
     (case deq_op_resize malloc q op of
        None \<Rightarrow> None
      | Some (Inl r, q) \<Rightarrow> Some (r, 0, q)
      | Some (Inr _, q) \<Rightarrow>
          (case deq_op_index q op of None \<Rightarrow> None | Some (i, q) \<Rightarrow> Some (1, i, q)))"

text \<open>\<open>w->v[i] = e\<close> and \<open>w->v[i]\<close> for a base type of \<open>esz\<close> bytes.\<close>

definition deq_store :: "deq \<Rightarrow> u32 \<Rightarrow> byte list \<Rightarrow> deq option" where
  "deq_store q i e =
     (case dq_v q of
        None \<Rightarrow> None
      | Some v \<Rightarrow>
          (case mem_write v (unat i * unat (dq_esz q)) e of
             None \<Rightarrow> None
           | Some v \<Rightarrow> Some (q\<lparr>dq_v := Some v\<rparr>)))"

definition deq_load :: "deq \<Rightarrow> u32 \<Rightarrow> byte list option" where
  "deq_load q i =
     (case dq_v q of
        None \<Rightarrow> None
      | Some v \<Rightarrow> mem_read v (unat i * unat (dq_esz q)) (unat (dq_esz q)))"

definition deq_init :: "allocator \<Rightarrow> u32 \<Rightarrow> u32 \<Rightarrow> deq_flag \<Rightarrow> (int \<times> deq) option" where
  "deq_init malloc esz mn shrink = deq_resize malloc (DEQ_INIT_DEQ esz mn shrink) mn"

definition deq_push :: "allocator \<Rightarrow> deq \<Rightarrow> byte list \<Rightarrow> (int \<times> deq) option" where
  "deq_push malloc q e =
     (case deq_op_deq malloc q DEQ_PUSH of
        None \<Rightarrow> None
      | Some (r, i, q) \<Rightarrow>
          if r = 1 then (case deq_store q i e of None \<Rightarrow> None | Some q \<Rightarrow> Some (r, q)) else Some (r, q))"

definition deq_unshift :: "allocator \<Rightarrow> deq \<Rightarrow> byte list \<Rightarrow> (int \<times> deq) option" where
  "deq_unshift malloc q e =
     (case deq_op_deq malloc q DEQ_UNSHIFT of
        None \<Rightarrow> None
      | Some (r, i, q) \<Rightarrow>
          if r = 1 then (case deq_store q i e of None \<Rightarrow> None | Some q \<Rightarrow> Some (r, q)) else Some (r, q))"

text \<open>\<open>e\<close> is the caller's variable before the call; it is overwritten when the result is 1.\<close>

definition deq_pop :: "allocator \<Rightarrow> deq \<Rightarrow> byte list \<Rightarrow> (int \<times> byte list \<times> deq) option" where
  "deq_pop malloc q e =
     (case deq_op_deq malloc q DEQ_POP of
        None \<Rightarrow> None
      | Some (r, i, q) \<Rightarrow>
          if r = 1 then (case deq_load q i of None \<Rightarrow> None | Some x \<Rightarrow> Some (r, x, q)) else Some (r, e, q))"

definition deq_shift :: "allocator \<Rightarrow> deq \<Rightarrow> byte list \<Rightarrow> (int \<times> byte list \<times> deq) option" where
  "deq_shift malloc q e =
     (case deq_op_deq malloc q DEQ_SHIFT of
        None \<Rightarrow> None
      | Some (r, i, q) \<Rightarrow>
          if r = 1 then (case deq_load q i of None \<Rightarrow> None | Some x \<Rightarrow> Some (r, x, q)) else Some (r, e, q))"

definition deq_first :: "deq \<Rightarrow> byte list \<Rightarrow> (int \<times> byte list) option" where
  "deq_first q e =
     (if dq_len q > 0 then (case deq_load q (dq_head q) of None \<Rightarrow> None | Some x \<Rightarrow> Some (1, x))
      else Some (0, e))"

definition deq_last :: "deq \<Rightarrow> byte list \<Rightarrow> (int \<times> byte list) option" where
  "deq_last q e =
     (if dq_len q > 0 then
        (let i = (if dq_tail q = 0 then dq_cap q else dq_tail q)
         in case deq_load q (i - 1) of None \<Rightarrow> None | Some x \<Rightarrow> Some (1, x))
      else Some (0, e))"

definition deq_reset :: "deq \<Rightarrow> deq" where
  "deq_reset q = (deq_reset_deq q)\<lparr>dq_v := None\<rparr>"

text \<open>
  \<open>deq_new\<close> also allocates the wrapper of \<open>wsz\<close> bytes, whose content before \<open>deq_init\<close> is never
  read; \<open>None\<close> in the second component is the null pointer.
\<close>

definition deq_new :: "allocator \<Rightarrow> nat \<Rightarrow> u32 \<Rightarrow> u32 \<Rightarrow> deq_flag \<Rightarrow> (int \<times> deq option) option" where
  "deq_new malloc wsz esz mn shrink =
     (case malloc wsz of
        None \<Rightarrow> Some (-1, None)
      | Some _ \<Rightarrow>
          (case deq_init malloc esz mn shrink of
             None \<Rightarrow> None
           | Some (r, q) \<Rightarrow> if r = -1 then Some (-1, None) else Some (0, Some q)))"

definition deq_len :: "deq \<Rightarrow> u32" where
  "deq_len q = dq_len q"

definition deq_cap :: "deq \<Rightarrow> u32" where
  "deq_cap q = dq_cap q"

section \<open>Invariant and abstraction\<close>

text \<open>Element \<open>j\<close> of an object of elements of \<open>e\<close> bytes.\<close>

definition elem :: "nat \<Rightarrow> byte list \<Rightarrow> nat \<Rightarrow> byte list" where
  "elem e t j = take e (drop (j * e) t)"

definition elems :: "nat \<Rightarrow> nat \<Rightarrow> byte list \<Rightarrow> byte list list" where
  "elems e n t = map (elem e t) [0..<n]"

definition deq_inv :: "deq \<Rightarrow> bool" where
  "deq_inv q \<longleftrightarrow>
     0 < unat (dq_esz q) \<and> 0 < unat (dq_min q) \<and>
     (dq_shrink q \<noteq> DEQ_NO_SHRINK \<longrightarrow> 2 \<le> unat (dq_min q)) \<and>
     unat (dq_min q) * unat (dq_esz q) \<le> 2 ^ 29 \<and>
     unat (dq_cap q) * unat (dq_esz q) \<le> 2 ^ 29 \<and>
     unat (dq_len q) \<le> unat (dq_cap q) \<and>
     (if dq_cap q = 0 then dq_v q = None \<and> dq_head q = 0 \<and> dq_tail q = 0
      else (\<exists>k. unat (dq_cap q) = unat (dq_min q) * 2 ^ k) \<and>
           unat (dq_head q) < unat (dq_cap q) \<and>
           unat (dq_tail q) = (unat (dq_head q) + unat (dq_len q)) mod unat (dq_cap q) \<and>
           (\<exists>t. dq_v q = Some t \<and> length t = unat (dq_cap q) * unat (dq_esz q)))"

definition deq_content :: "deq \<Rightarrow> byte list list" where
  "deq_content q =
     (case dq_v q of
        None \<Rightarrow> []
      | Some t \<Rightarrow> window (elems (unat (dq_esz q)) (unat (dq_cap q)) t) (unat (dq_cap q))
                   (unat (dq_head q)) (unat (dq_len q)))"

definition malloc_ok :: "allocator \<Rightarrow> bool" where
  "malloc_ok malloc \<longleftrightarrow> (\<forall>n t. malloc n = Some t \<longrightarrow> length t = n)"

section \<open>Elements of an object\<close>

lemma length_elems [simp]: "length (elems e n t) = n"
  by (simp add: elems_def)

lemma elems_nth [simp]: "j < n \<Longrightarrow> elems e n t ! j = elem e t j"
  by (simp add: elems_def)

lemma elem_window:
  assumes j: "j < len" and e: "0 < e" and cap: "0 < cap" and v: "length v = cap * e"
  shows "elem e (window v (cap * e) (head * e) (len * e) @ rest) j = elem e v ((head + j) mod cap)"
proof -
  let ?S = "cap * e" and ?c = "(head + j) mod cap"
  have je: "j * e + e \<le> len * e" using j by (metis Suc_leI add.commute mult_Suc mult_le_mono1)
  have ce: "?c * e + e \<le> ?S" using cap by (metis Suc_leI add.commute mod_less_divisor mult_Suc mult_le_mono1)
  have "elem e (window v ?S (head * e) (len * e) @ rest) j =
      take e (drop (j * e) (window v ?S (head * e) (len * e)))"
    using je by (simp add: elem_def)
  also have "\<dots> = take e (window v ?S (head * e + j * e) (len * e - j * e))"
    using j by (subst drop_window) simp_all
  also have "\<dots> = window v ?S (head * e + j * e) e"
    using je by (intro take_window) linarith
  also have "\<dots> = window v ?S ((head + j) * e mod ?S) e"
    by (simp only: window_mod distrib_right)
  also have "(head + j) * e mod ?S = ?c * e"
    by (simp add: mult_mod_left)
  also have "window v ?S (?c * e) e = elem e v ?c"
    using ce v by (simp add: window_slice elem_def)
  finally show ?thesis .
qed

lemma elem_index:
  assumes "b < e"
  shows "i * e \<le> j * e + b \<and> j * e + b < i * e + e \<longleftrightarrow> i = (j::nat)"
proof
  assume "i * e \<le> j * e + b \<and> j * e + b < i * e + e"
  then have "(j * e + b) div e = i"
    using assms by (intro div_nat_eqI) (simp_all add: mult.commute)
  with assms show "i = j" by simp
qed (use assms in simp)

lemma elems_write:
  assumes w: "mem_write t (i * e) x = Some t'" and x: "length x = e" and t: "length t = n * e"
    and i: "i < n"
  shows "elems e n t' = (elems e n t)[i := x]"
proof (rule nth_equalityI)
  fix j assume "j < length (elems e n t')"
  then have j: "j < n" by simp
  have je: "j * e + e \<le> n * e" using j by (metis Suc_leI add.commute mult_Suc mult_le_mono1)
  have "elem e t' j = (if i = j then x else elem e t j)"
  proof (rule nth_equalityI)
    fix b assume "b < length (elem e t' j)"
    then have b: "b < e" by (simp add: elem_def)
    have le: "j * e \<le> length t" "j * e \<le> length t'" "j * e + b < length t"
      using je t b mem_write_length [OF w] by linarith+
    from mem_write_nth [OF w le(3)] x elem_index [OF b, of i j] b le(1,2)
    show "elem e t' j ! b = (if i = j then x else elem e t j) ! b"
      by (auto simp: elem_def)
  qed (use je t x mem_write_length [OF w] in \<open>simp add: elem_def\<close>)
  with j show "elems e n t' ! j = (elems e n t)[i := x] ! j"
    by (simp add: nth_list_update)
qed simp

section \<open>Resizing\<close>

text \<open>The sizes \<open>deq_resize_\<close> computes for the two parts do not wrap around.\<close>

lemma deq_copy_sizes:
  assumes e: "e = unat (dq_esz q)" and c: "c = unat (dq_cap q)" and h: "h = unat (dq_head q)"
    and l: "l = unat (dq_len q)"
    and bound: "c * e \<le> 2 ^ 29" "0 < e" and hl: "h < c" "l \<le> c"
  defines "p1 \<equiv> (if dq_head q + dq_len q \<le> dq_cap q then dq_len q else dq_cap q - dq_head q)"
  shows "unat (dq_len q - p1) = l - min l (c - h)"
    and "unat (dq_head q * dq_esz q) = h * e"
    and "unat (dq_esz q * p1) = min l (c - h) * e"
    and "unat (dq_esz q * (dq_len q - p1)) = (l - min l (c - h)) * e"
proof -
  have "c \<le> c * e" using bound(2) by simp
  also note bound(1)
  finally have c29: "c \<le> 2 ^ 29" .
  have hl': "unat (dq_head q + dq_len q) = h + l"
    using hl c29 h l by (subst unat_add_no_wrap) auto
  have p1: "unat p1 = min l (c - h)"
    using hl hl' h l c by (auto simp: p1_def word_le_nat_alt unat_sub)
  show p2: "unat (dq_len q - p1) = l - min l (c - h)"
    using p1 l by (subst unat_sub) (auto simp: word_le_nat_alt)
  have small: "k * e < 2 ^ 32" if "k \<le> c" for k
    using that bound(1) le_less_trans [OF mult_le_mono1 [of k c e]] by auto
  show "unat (dq_head q * dq_esz q) = h * e"
    using small [of h] hl h e by (subst unat_mult_no_wrap) auto
  show "unat (dq_esz q * p1) = min l (c - h) * e"
    using small [of "unat p1"] p1 e by (subst unat_mult_no_wrap) (auto simp: mult.commute)
  show "unat (dq_esz q * (dq_len q - p1)) = (l - min l (c - h)) * e"
    using small [of "l - min l (c - h)"] p2 e hl by (subst unat_mult_no_wrap) (auto simp: mult.commute)
qed

lemma deq_copy_window:
  assumes e: "e = unat (dq_esz q)" and c: "c = unat (dq_cap q)" and h: "h = unat (dq_head q)"
    and l: "l = unat (dq_len q)"
    and v: "dq_v q = Some v" "length v = c * e" and bound: "c * e \<le> 2 ^ 29" "0 < e"
    and hl: "h < c" "l \<le> c" and t: "l * e \<le> length t"
  shows "deq_copy q t = Some (window v (c * e) (h * e) (l * e) @ drop (l * e) t)"
proof -
  define p1 where "p1 = (if dq_head q + dq_len q \<le> dq_cap q then dq_len q else dq_cap q - dq_head q)"
  define n1 where "n1 = min l (c - h) * e"
  define n2 where "n2 = (l - min l (c - h)) * e"
  note size = deq_copy_sizes [OF e c h l bound hl, folded p1_def n1_def n2_def]
  have n12: "n1 + n2 = l * e" by (simp add: n1_def n2_def flip: distrib_right)
  have "(h + min l (c - h)) * e \<le> c * e" "(l - min l (c - h)) * e \<le> c * e"
    using hl by (intro mult_le_mono1; auto)+
  then have bnd: "h * e + n1 \<le> length v" "n2 \<le> length v" "n1 + n2 \<le> length t"
    using t n12 v(2) by (simp_all add: n1_def n2_def distrib_right)
  have "min (l * e) (c * e - h * e) = n1"
    by (simp add: n1_def flip: diff_mult_distrib) (simp add: min_def)
  moreover have "l * e - n1 = n2" using n12 by simp
  ultimately have "window v (c * e) (h * e) (l * e) = take n1 (drop (h * e) v) @ take n2 v"
    using window_split [of "h * e" "c * e" "l * e" v] hl v bound(2) by simp
  moreover have "deq_copy q t = Some (take n1 (drop (h * e) v) @ take n2 v @ drop (n1 + n2) t)"
  proof (cases "dq_len q = 0")
    case True
    with l have "n1 = 0" "n2 = 0" by (auto simp: n1_def n2_def)
    with True show ?thesis by (simp add: deq_copy_def)
  next
    case False
    have z: "dq_len q - p1 = 0 \<longleftrightarrow> n2 = 0"
      using size(1) bound(2) by (simp add: n2_def unat_eq_zero [symmetric] del: unat_eq_zero)
    show ?thesis
      unfolding deq_copy_def Let_def p1_def [symmetric] size(2-4) z
      using False bnd v(1) by (simp add: memcpy_to_def mem_read_def mem_write_def add.commute)
  qed
  ultimately show ?thesis using n12 by simp
qed

lemma deq_content_len: "deq_inv q \<Longrightarrow> length (deq_content q) = unat (dq_len q)"
  by (auto simp: deq_inv_def deq_content_def split: option.splits if_splits)

text \<open>The frame of a resize: what it does not touch.\<close>

definition same_frame :: "deq \<Rightarrow> deq \<Rightarrow> bool" where
  "same_frame q q' \<longleftrightarrow> dq_len q' = dq_len q \<and> dq_min q' = dq_min q \<and> dq_esz q' = dq_esz q \<and>
     dq_shrink q' = dq_shrink q"

lemma deq_copy_elems:
  assumes inv: "deq_inv q" and t: "unat (dq_len q) * unat (dq_esz q) \<le> length t"
  obtains t' where "deq_copy q t = Some t'" "length t' = length t"
    "\<And>j. j < unat (dq_len q) \<Longrightarrow> elem (unat (dq_esz q)) t' j = deq_content q ! j"
proof (cases "dq_cap q = 0")
  case True
  with inv have "dq_len q = 0" by (auto simp: deq_inv_def unat_eq_zero)
  then show thesis by (intro that [of t]) (simp_all add: deq_copy_def)
next
  case False
  let ?e = "unat (dq_esz q)" and ?c = "unat (dq_cap q)" and ?l = "unat (dq_len q)" and ?h = "unat (dq_head q)"
  from False inv obtain v where v: "dq_v q = Some v" "length v = ?c * ?e" and hl: "?h < ?c" "?l \<le> ?c"
    and bound: "?c * ?e \<le> 2 ^ 29" "0 < ?e"
    by (auto simp: deq_inv_def)
  let ?t' = "window v (?c * ?e) (?h * ?e) (?l * ?e) @ drop (?l * ?e) t"
  have "elem ?e ?t' j = deq_content q ! j" if "j < ?l" for j
    using elem_window [OF that bound(2) _ v(2)] that hl by (simp add: deq_content_def v)
  with deq_copy_window [OF refl refl refl refl v bound hl t] t show thesis
    by (intro that [of ?t']) simp_all
qed

lemma deq_resize_works:
  assumes inv: "deq_inv q" and ok: "malloc_ok m" and len: "unat (dq_len q) < unat n"
    and pow: "unat n = unat (dq_min q) * 2 ^ k" and bound: "unat n * unat (dq_esz q) \<le> 2 ^ 29"
  obtains (fail) "deq_resize m q n = Some (-1, q)" "\<exists>z. m z = None"
  | (resized) q' where "deq_resize m q n = Some (0, q')" "deq_inv q'" "deq_content q' = deq_content q"
      "same_frame q q'" "dq_cap q' = n"
proof -
  let ?e = "unat (dq_esz q)" and ?l = "unat (dq_len q)"
  have guard: "n > 0 \<and> n \<ge> dq_len q" using len by (simp add: word_less_nat_alt word_le_nat_alt)
  have size: "unat (dq_esz q * n) = unat n * ?e"
    using bound by (subst unat_mult_no_wrap) (simp_all add: mult.commute)
  show thesis
  proof (cases "m (unat (dq_esz q * n))")
    case None
    with guard show thesis by (intro fail) (auto simp: deq_resize_def)
  next
    case (Some t)
    with ok size have tl: "length t = unat n * ?e" by (simp add: malloc_ok_def)
    then have "?l * ?e \<le> length t" using len by simp
    then obtain t' where t': "deq_copy q t = Some t'" "length t' = length t"
      "\<And>j. j < ?l \<Longrightarrow> elem ?e t' j = deq_content q ! j"
      using deq_copy_elems [OF inv] by blast
    define q' where "q' = q\<lparr>dq_v := Some t', dq_head := 0, dq_tail := dq_len q, dq_cap := n\<rparr>"
    have "deq_resize m q n = Some (0, q')"
      using guard Some t'(1) by (simp add: deq_resize_def q'_def)
    moreover have "deq_inv q'"
      using inv len pow bound tl t'(2) unfolding deq_inv_def q'_def by auto
    moreover have "deq_content q' = deq_content q"
    proof (rule nth_equalityI)
      show "length (deq_content q') = length (deq_content q)"
        using deq_content_len [OF \<open>deq_inv q'\<close>] deq_content_len [OF inv] by (simp add: q'_def)
      fix j assume "j < length (deq_content q')"
      then have "j < ?l" using deq_content_len [OF \<open>deq_inv q'\<close>] by (simp add: q'_def)
      with t'(3) len show "deq_content q' ! j = deq_content q ! j"
        unfolding deq_content_def [of q'] by (simp add: q'_def)
    qed
    ultimately show thesis by (intro resized [of q']) (simp_all add: q'_def same_frame_def)
  qed
qed

lemma deq_grow:
  assumes inv: "deq_inv q" and ok: "malloc_ok m" and op: "op = DEQ_PUSH \<or> op = DEQ_UNSHIFT"
    and room: "2 * unat (dq_len q) * unat (dq_esz q) \<le> 2 ^ 29"
  obtains (fail) "deq_op_resize m q op = Some (Inl (-1), q)" "\<exists>z. m z = None"
  | (cont) q' where "deq_op_resize m q op = Some (Inr (), q')" "deq_inv q'"
      "deq_content q' = deq_content q" "same_frame q q'" "unat (dq_len q') < unat (dq_cap q')"
proof (cases "dq_len q = dq_cap q")
  case False
  then have "unat (dq_len q) < unat (dq_cap q)"
    using inv by (simp add: deq_inv_def le_neq_implies_less word_unat_eq_iff)
  with False op inv show thesis by (intro cont [of q]) (auto simp: deq_op_resize_def same_frame_def)
next
  case True
  define n where "n = (if dq_cap q = 0 then dq_min q else dq_cap q * 2)"
  have "0 < unat (dq_esz q)" using inv by (simp add: deq_inv_def)
  then have "unat (dq_cap q) * 2 \<le> unat (dq_cap q) * 2 * unat (dq_esz q)" by simp
  also have "\<dots> \<le> 2 ^ 29" using room True by (simp add: ac_simps)
  finally have two: "unat (dq_cap q * 2) = 2 * unat (dq_cap q)"
    by (subst unat_mult_no_wrap) auto
  obtain k where n: "unat (dq_len q) < unat n" "unat n = unat (dq_min q) * 2 ^ k"
    "unat n * unat (dq_esz q) \<le> 2 ^ 29"
  proof (cases "dq_cap q = 0")
    case True
    with \<open>dq_len q = dq_cap q\<close> inv show thesis
      by (intro that [of 0]) (auto simp: n_def deq_inv_def)
  next
    case False
    then obtain k where "unat (dq_cap q) = unat (dq_min q) * 2 ^ k" using inv by (auto simp: deq_inv_def)
    moreover have "0 < unat (dq_cap q)" using False by (simp add: unat_gt_0)
    ultimately show thesis using False True two room
      by (intro that [of "Suc k"]) (auto simp: n_def)
  qed
  from inv ok n show thesis
  proof (cases rule: deq_resize_works)
    case fail
    with True op show thesis by (intro that(1)) (auto simp: deq_op_resize_def n_def)
  next
    case (resized q')
    with True op n show thesis
      by (intro that(2) [of q']) (auto simp: deq_op_resize_def n_def same_frame_def)
  qed
qed

lemma deq_half:
  assumes inv: "deq_inv q" and big: "dq_min q < dq_cap q" and sh: "dq_shrink q \<noteq> DEQ_NO_SHRINK"
    and few: "(dq_len q - 1) * 5 \<le> dq_cap q"
  obtains k where "unat (dq_len q) < unat (dq_cap q div 2)"
    "unat (dq_cap q div 2) = unat (dq_min q) * 2 ^ k"
    "unat (dq_cap q div 2) * unat (dq_esz q) \<le> 2 ^ 29"
proof -
  have "dq_cap q \<noteq> 0" using big by auto
  with inv obtain k where k: "unat (dq_cap q) = unat (dq_min q) * 2 ^ k" by (auto simp: deq_inv_def)
  have m2: "2 \<le> unat (dq_min q)" and e: "0 < unat (dq_esz q)"
    and b: "unat (dq_cap q) * unat (dq_esz q) \<le> 2 ^ 29" and lc: "unat (dq_len q) \<le> unat (dq_cap q)"
    using inv sh by (auto simp: deq_inv_def)
  have "unat (dq_cap q) \<le> unat (dq_cap q) * unat (dq_esz q)" using e by simp
  with b have c29: "unat (dq_cap q) \<le> 2 ^ 29" by (rule order_trans [rotated])
  have "k \<noteq> 0" using k big by (intro notI) (simp add: word_less_nat_alt)
  then obtain k' where k': "k = Suc k'" by (cases k) auto
  define h where "h = unat (dq_min q) * 2 ^ k'"
  have cap: "unat (dq_cap q) = 2 * h" using k k' by (simp add: h_def)
  have half: "unat (dq_cap q div 2) = h" using cap by (simp add: unat_div)
  have "2 * 1 \<le> h" unfolding h_def using m2 by (rule mult_le_mono) simp
  then have h2: "2 \<le> h" by simp
  have "unat (dq_len q) < h"
  proof (cases "dq_len q = 0")
    case False
    then have "unat (dq_len q - 1) = unat (dq_len q) - 1" "0 < unat (dq_len q)"
      by (simp_all add: unat_minus_one unat_gt_0)
    moreover have "unat ((dq_len q - 1) * 5) = unat (dq_len q - 1) * 5"
      using calculation lc c29 by (subst unat_mult_no_wrap) auto
    ultimately have "(unat (dq_len q) - 1) * 5 \<le> 2 * h"
      using few cap by (simp add: word_le_nat_alt)
    with h2 show ?thesis by linarith
  qed (use h2 in simp)
  moreover have "h * unat (dq_esz q) \<le> 2 ^ 29"
    using b cap by (metis le_add2 mult_2 mult_le_mono1 order_trans)
  ultimately show thesis using half by (intro that [of k']) (simp_all add: h_def)
qed

lemma deq_shrink_op:
  assumes inv: "deq_inv q" and ok: "malloc_ok m" and op: "op = DEQ_POP \<or> op = DEQ_SHIFT"
  obtains (fail) "deq_op_resize m q op = Some (Inl (-1), q)" "\<exists>z. m z = None"
  | (empty) q' where "deq_op_resize m q op = Some (Inl 0, q')" "deq_inv q'"
      "deq_content q = []" "deq_content q' = []" "same_frame q q'"
  | (cont) q' where "deq_op_resize m q op = Some (Inr (), q')" "deq_inv q'"
      "deq_content q' = deq_content q" "same_frame q q'" "0 < unat (dq_len q')"
proof -
  define r1 where "r1 = (if dq_cap q > dq_min q \<and> dq_shrink q = DEQ_SHRINK_IF_EMPTY \<and> dq_len q = 1
    then deq_resize m q (dq_min q) else Some (0, q))"
  define r2 where "r2 = (\<lambda>q1. if dq_cap q > dq_min q \<and> dq_shrink q1 = DEQ_SHRINK_AT_20PCT \<and>
    (dq_len q1 - 1) * 5 \<le> dq_cap q1 then deq_resize m q1 (dq_cap q1 div 2) else Some (0, q1))"
  have run: "deq_op_resize m q op = (case r1 of None \<Rightarrow> None | Some (a, q1) \<Rightarrow>
      if a = -1 then Some (Inl (-1), q1) else (case r2 q1 of None \<Rightarrow> None | Some (b, q2) \<Rightarrow>
        if b = -1 then Some (Inl (-1), q2) else if dq_len q2 = 0 then Some (Inl 0, q2) else Some (Inr (), q2)))"
  proof -
    have "\<not> (op = DEQ_PUSH \<or> op = DEQ_UNSHIFT)" using op by auto
    then show ?thesis by (simp only: deq_op_resize_def r1_def r2_def if_False)
  qed
  have stop: thesis if "r1 = Some (0, q1)" "r2 q1 = Some (0, q2)" "deq_inv q2"
    "deq_content q2 = deq_content q" "same_frame q q2" for q1 q2
  proof (cases "dq_len q2 = 0")
    case True
    with that inv run show thesis
      using deq_content_len [OF that(3)] by (intro empty [of q2]) simp_all
  next
    case False
    with that run show thesis by (intro cont [of q2]) (simp_all add: unat_gt_0)
  qed
  have refl_frame: "same_frame q q" by (simp add: same_frame_def)
  show thesis
  proof (cases "dq_min q < dq_cap q \<and> dq_shrink q = DEQ_SHRINK_IF_EMPTY \<and> dq_len q = 1")
    case True
    with inv have "unat (dq_len q) < unat (dq_min q)" "unat (dq_min q) = unat (dq_min q) * 2 ^ 0"
      "unat (dq_min q) * unat (dq_esz q) \<le> 2 ^ 29"
      by (auto simp: deq_inv_def)
    from inv ok this show thesis
    proof (cases rule: deq_resize_works)
      case fail
      with True run show thesis by (intro that(1)) (simp_all add: r1_def)
    next
      case (resized q')
      with True show thesis
        by (intro stop [of q' q']) (simp_all add: r1_def r2_def same_frame_def)
    qed
  next
    case no1: False
    then have r1: "r1 = Some (0, q)" by (auto simp: r1_def)
    show thesis
    proof (cases "dq_min q < dq_cap q \<and> dq_shrink q = DEQ_SHRINK_AT_20PCT \<and> (dq_len q - 1) * 5 \<le> dq_cap q")
      case True
      then have "dq_shrink q \<noteq> DEQ_NO_SHRINK" by simp
      then obtain k where "unat (dq_len q) < unat (dq_cap q div 2)"
        "unat (dq_cap q div 2) = unat (dq_min q) * 2 ^ k"
        "unat (dq_cap q div 2) * unat (dq_esz q) \<le> 2 ^ 29"
        using True deq_half [OF inv] by blast
      from inv ok this show thesis
      proof (cases rule: deq_resize_works)
        case fail
        with True r1 run show thesis by (intro that(1)) (simp_all add: r2_def)
      next
        case (resized q')
        with True r1 show thesis by (intro stop [of q q']) (simp_all add: r2_def)
      qed
    next
      case False
      with r1 inv refl_frame show thesis by (intro stop [of q q]) (auto simp: r2_def)
    qed
  qed
qed


section \<open>Operations at the ends\<close>

lemma deq_inv_ring:
  assumes inv: "deq_inv q" and cap: "0 < unat (dq_cap q)"
  obtains t k where "dq_v q = Some t" "length t = unat (dq_cap q) * unat (dq_esz q)"
    "unat (dq_cap q) = unat (dq_min q) * 2 ^ k" "unat (dq_cap q) \<le> 2 ^ 29"
    "unat (dq_head q) < unat (dq_cap q)" "unat (dq_len q) \<le> unat (dq_cap q)"
    "unat (dq_tail q) = (unat (dq_head q) + unat (dq_len q)) mod unat (dq_cap q)"
    "deq_content q = window (elems (unat (dq_esz q)) (unat (dq_cap q)) t) (unat (dq_cap q))
       (unat (dq_head q)) (unat (dq_len q))"
proof -
  have "0 < unat (dq_esz q)" and b: "unat (dq_cap q) * unat (dq_esz q) \<le> 2 ^ 29"
    using inv by (simp_all add: deq_inv_def)
  then have "unat (dq_cap q) \<le> unat (dq_cap q) * unat (dq_esz q)" by simp
  also note b
  finally have c: "unat (dq_cap q) \<le> 2 ^ 29" .
  have "dq_cap q \<noteq> 0" using cap by auto
  with inv have "\<exists>t. dq_v q = Some t \<and> length t = unat (dq_cap q) * unat (dq_esz q)"
    "\<exists>k. unat (dq_cap q) = unat (dq_min q) * 2 ^ k"
    by (simp_all add: deq_inv_def)
  then obtain t k where "dq_v q = Some t" "length t = unat (dq_cap q) * unat (dq_esz q)"
    "unat (dq_cap q) = unat (dq_min q) * 2 ^ k"
    by metis
  with \<open>dq_cap q \<noteq> 0\<close> c inv show thesis
    by (intro that [of t k]) (simp_all add: deq_inv_def deq_content_def)
qed

text \<open>A ring index is decremented by going to \<open>cap\<close> first when it is 0.\<close>

lemma deq_prev:
  assumes i: "unat i < unat c"
  defines "j \<equiv> (if i = 0 then c else i) - (1::u32)"
  shows "unat j < unat c" and "Suc (unat j) mod unat c = unat i"
proof -
  have "c \<noteq> 0" using i by auto
  then have j: "unat j = (if i = 0 then unat c - 1 else unat i - 1)"
    by (simp add: j_def unat_minus_one)
  have "i \<noteq> 0 \<Longrightarrow> 0 < unat i" by (simp add: unat_gt_0)
  with j i show "unat j < unat c" "Suc (unat j) mod unat c = unat i" by auto
qed

lemma unat_next:
  assumes "unat i < unat c" and "unat c \<le> 2 ^ 29"
  shows "unat ((i + 1) mod (c::u32)) = Suc (unat i) mod unat c"
proof -
  have "unat (i + 1) = unat i + unat (1::u32)" using assms by (intro unat_add_no_wrap) simp
  then show ?thesis by (simp add: unat_mod)
qed

definition same_params :: "deq \<Rightarrow> deq \<Rightarrow> bool" where
  "same_params q q' \<longleftrightarrow> dq_min q' = dq_min q \<and> dq_esz q' = dq_esz q \<and> dq_shrink q' = dq_shrink q"

lemma deq_store_at:
  assumes "dq_v q = Some t" and "length t = unat (dq_cap q) * unat (dq_esz q)"
    and "unat i < unat (dq_cap q)" and "length x = unat (dq_esz q)"
  obtains t' where "deq_store q i x = Some (q\<lparr>dq_v := Some t'\<rparr>)" "length t' = length t"
    "elems (unat (dq_esz q)) (unat (dq_cap q)) t' =
      (elems (unat (dq_esz q)) (unat (dq_cap q)) t)[unat i := x]"
proof -
  let ?e = "unat (dq_esz q)"
  have "Suc (unat i) * ?e \<le> unat (dq_cap q) * ?e" using assms(3) by (intro mult_le_mono1) simp
  then have "unat i * ?e + length x \<le> length t" using assms(2,4) by simp
  then obtain t' where t': "mem_write t (unat i * ?e) x = Some t'" by (simp add: mem_write_def)
  show thesis
  proof (rule that)
    show "deq_store q i x = Some (q\<lparr>dq_v := Some t'\<rparr>)" using assms(1) t' by (simp add: deq_store_def)
    show "length t' = length t" using t' by (rule mem_write_length)
    show "elems ?e (unat (dq_cap q)) t' = (elems ?e (unat (dq_cap q)) t)[unat i := x]"
      using t' assms(4,2,3) by (rule elems_write)
  qed
qed

lemma deq_load_at:
  assumes "dq_v q = Some t" and "length t = unat (dq_cap q) * unat (dq_esz q)"
    and "unat i < unat (dq_cap q)"
  shows "deq_load q i = Some (elem (unat (dq_esz q)) t (unat i))"
proof -
  let ?e = "unat (dq_esz q)"
  have "Suc (unat i) * ?e \<le> unat (dq_cap q) * ?e" using assms(3) by (intro mult_le_mono1) simp
  then have "unat i * ?e + ?e \<le> length t" using assms(2) by simp
  then show ?thesis using assms(1) by (simp add: deq_load_def mem_read_def elem_def)
qed

lemma deq_index_push:
  assumes inv: "deq_inv q" and room: "unat (dq_len q) < unat (dq_cap q)" and x: "length x = unat (dq_esz q)"
  obtains i q1 q2 where "deq_op_index q DEQ_PUSH = Some (i, q1)" "deq_store q1 i x = Some q2"
    "deq_inv q2" "deq_content q2 = deq_content q @ [x]" "same_params q q2"
proof -
  let ?c = "unat (dq_cap q)" and ?h = "unat (dq_head q)" and ?l = "unat (dq_len q)"
  from room have cap: "0 < ?c" by simp
  from inv cap obtain t k where t: "dq_v q = Some t" "length t = ?c * unat (dq_esz q)"
    and k: "?c = unat (dq_min q) * 2 ^ k" and c: "?c \<le> 2 ^ 29" and h: "?h < ?c"
    and tl: "unat (dq_tail q) = (?h + ?l) mod ?c"
    and con: "deq_content q = window (elems (unat (dq_esz q)) ?c t) ?c ?h ?l"
    by (rule deq_inv_ring)
  define q1 where "q1 = q\<lparr>dq_tail := (dq_tail q + 1) mod dq_cap q, dq_len := dq_len q + 1\<rparr>"
  have i: "unat (dq_tail q) < ?c" using tl cap by simp
  obtain t' where t': "deq_store q1 (dq_tail q) x = Some (q1\<lparr>dq_v := Some t'\<rparr>)" "length t' = length t"
    "elems (unat (dq_esz q)) ?c t' = (elems (unat (dq_esz q)) ?c t)[unat (dq_tail q) := x]"
    by (rule deq_store_at [of q1 t "dq_tail q" x]) (use t i x in \<open>simp_all add: q1_def\<close>)
  have len: "unat (dq_len q + 1) = Suc ?l" using room c by (subst unat_add_no_wrap) auto
  have tl': "unat ((dq_tail q + 1) mod dq_cap q) = (?h + Suc ?l) mod ?c"
    using unat_next [OF i c] tl by (simp add: mod_Suc_eq)
  let ?q2 = "q1\<lparr>dq_v := Some t'\<rparr>"
  have "deq_inv ?q2"
    using inv len tl' room h k t t'(2) by (auto simp: deq_inv_def q1_def)
  moreover have "deq_content ?q2 = deq_content q @ [x]"
    unfolding con using tl room i window_list_update [of ?h ?l ?c "unat (dq_tail q)" ?l]
    by (simp add: deq_content_def q1_def len window_snoc t'(3))
  moreover have "deq_op_index q DEQ_PUSH = Some (dq_tail q, q1)"
    using cap by (auto simp: deq_op_index_def q1_def)
  ultimately show thesis using t'(1)
    by (intro that [of "dq_tail q" q1 ?q2]) (simp_all add: same_params_def q1_def)
qed

lemma deq_index_unshift:
  assumes inv: "deq_inv q" and room: "unat (dq_len q) < unat (dq_cap q)" and x: "length x = unat (dq_esz q)"
  obtains i q1 q2 where "deq_op_index q DEQ_UNSHIFT = Some (i, q1)" "deq_store q1 i x = Some q2"
    "deq_inv q2" "deq_content q2 = x # deq_content q" "same_params q q2"
proof -
  let ?c = "unat (dq_cap q)" and ?h = "unat (dq_head q)" and ?l = "unat (dq_len q)"
  from room have cap: "0 < ?c" by simp
  from inv cap obtain t k where t: "dq_v q = Some t" "length t = ?c * unat (dq_esz q)"
    and k: "?c = unat (dq_min q) * 2 ^ k" and c: "?c \<le> 2 ^ 29" and h: "?h < ?c"
    and tl: "unat (dq_tail q) = (?h + ?l) mod ?c"
    and con: "deq_content q = window (elems (unat (dq_esz q)) ?c t) ?c ?h ?l"
    by (rule deq_inv_ring)
  define i where "i = (if dq_head q = 0 then dq_cap q else dq_head q) - 1"
  have i: "unat i < ?c" "Suc (unat i) mod ?c = ?h" using deq_prev [OF h] by (simp_all add: i_def)
  define q1 where "q1 = q\<lparr>dq_head := i, dq_len := dq_len q + 1\<rparr>"
  obtain t' where t': "deq_store q1 i x = Some (q1\<lparr>dq_v := Some t'\<rparr>)" "length t' = length t"
    "elems (unat (dq_esz q)) ?c t' = (elems (unat (dq_esz q)) ?c t)[unat i := x]"
    by (rule deq_store_at [of q1 t i x]) (use t i x in \<open>simp_all add: q1_def\<close>)
  have len: "unat (dq_len q + 1) = Suc ?l" using room c by (subst unat_add_no_wrap) auto
  have tl': "unat (dq_tail q) = (unat i + Suc ?l) mod ?c"
    using tl i(2) by (metis add_Suc_right add_Suc mod_add_left_eq)
  let ?q2 = "q1\<lparr>dq_v := Some t'\<rparr>" and ?S = "elems (unat (dq_esz q)) ?c t"
  have "deq_inv ?q2"
    using inv len tl' room i(1) k t t'(2) by (auto simp: deq_inv_def q1_def)
  moreover have "deq_content ?q2 = x # deq_content q"
  proof -
    have "window (?S[unat i := x]) ?c (Suc (unat i)) ?l = window ?S ?c (Suc (unat i)) ?l"
      using i(1) room by (intro window_list_update [of _ "?c - 1"]) auto
    also have "\<dots> = window ?S ?c ?h ?l" using window_mod [of ?S ?c "Suc (unat i)" ?l] i(2) by simp
    finally show ?thesis using i(1) con by (simp add: deq_content_def q1_def len window_Suc t'(3))
  qed
  moreover have "deq_op_index q DEQ_UNSHIFT = Some (i, q1)"
    by (simp add: deq_op_index_def q1_def i_def Let_def)
  ultimately show thesis using t'(1)
    by (intro that [of i q1 ?q2]) (simp_all add: same_params_def q1_def)
qed

lemma deq_index_shift:
  assumes inv: "deq_inv q" and some: "0 < unat (dq_len q)"
  obtains i q1 where "deq_op_index q DEQ_SHIFT = Some (i, q1)" "deq_load q1 i = Some (hd (deq_content q))"
    "deq_inv q1" "deq_content q1 = tl (deq_content q)" "same_params q q1" "deq_load q (dq_head q) = Some (hd (deq_content q))"
proof -
  let ?c = "unat (dq_cap q)" and ?h = "unat (dq_head q)" and ?l = "unat (dq_len q)"
  from some inv have cap: "0 < ?c" by (auto simp: deq_inv_def)
  from inv cap obtain t k where t: "dq_v q = Some t" "length t = ?c * unat (dq_esz q)"
    and k: "?c = unat (dq_min q) * 2 ^ k" and c: "?c \<le> 2 ^ 29" and h: "?h < ?c" and lc: "?l \<le> ?c"
    and tl: "unat (dq_tail q) = (?h + ?l) mod ?c"
    and con: "deq_content q = window (elems (unat (dq_esz q)) ?c t) ?c ?h ?l"
    by (rule deq_inv_ring)
  define q1 where "q1 = q\<lparr>dq_head := (dq_head q + 1) mod dq_cap q, dq_len := dq_len q - 1\<rparr>"
  have hd': "unat ((dq_head q + 1) mod dq_cap q) = Suc ?h mod ?c" using unat_next [OF h c] .
  have len: "unat (dq_len q - 1) = ?l - 1" using some by (intro unat_minus_one) auto
  have l: "?l = Suc (?l - 1)" using some by simp
  have con': "deq_content q = elem (unat (dq_esz q)) t ?h # window (elems (unat (dq_esz q)) ?c t) ?c (Suc ?h) (?l - 1)"
    unfolding con using h by (subst l) (simp only: window_Suc, simp)
  have tl': "unat (dq_tail q) = (Suc ?h mod ?c + (?l - 1)) mod ?c"
    using tl some by (simp only: mod_add_left_eq) simp
  have ld: "deq_load q (dq_head q) = Some (elem (unat (dq_esz q)) t ?h)" using deq_load_at [OF t h] .
  have "deq_inv q1"
    using inv len tl' hd' cap k t some lc by (auto simp: deq_inv_def q1_def)
  moreover have "deq_content q1 = tl (deq_content q)"
    unfolding deq_content_def [of q1] using con' t hd' by (simp add: q1_def len window_mod)
  moreover have "deq_op_index q DEQ_SHIFT = Some (dq_head q, q1)"
    using cap by (auto simp: deq_op_index_def q1_def)
  moreover have "deq_load q1 (dq_head q) = deq_load q (dq_head q)" by (simp add: deq_load_def q1_def split: option.split)
  ultimately show thesis using ld con'
    by (intro that [of "dq_head q" q1]) (simp_all add: same_params_def q1_def)
qed

lemma deq_index_pop:
  assumes inv: "deq_inv q" and some: "0 < unat (dq_len q)"
  defines "i \<equiv> (if dq_tail q = 0 then dq_cap q else dq_tail q) - 1"
  obtains q1 where "deq_op_index q DEQ_POP = Some (i, q1)" "deq_load q1 i = Some (last (deq_content q))"
    "deq_inv q1" "deq_content q1 = butlast (deq_content q)" "same_params q q1" "deq_load q i = Some (last (deq_content q))"
proof -
  let ?c = "unat (dq_cap q)" and ?h = "unat (dq_head q)" and ?l = "unat (dq_len q)"
  from some inv have cap: "0 < ?c" by (auto simp: deq_inv_def)
  from inv cap obtain t k where t: "dq_v q = Some t" "length t = ?c * unat (dq_esz q)"
    and k: "?c = unat (dq_min q) * 2 ^ k" and c: "?c \<le> 2 ^ 29" and h: "?h < ?c" and lc: "?l \<le> ?c"
    and tl: "unat (dq_tail q) = (?h + ?l) mod ?c"
    and con: "deq_content q = window (elems (unat (dq_esz q)) ?c t) ?c ?h ?l"
    by (rule deq_inv_ring)
  have tc: "unat (dq_tail q) < ?c" using tl cap by simp
  have i: "unat i < ?c" "Suc (unat i) mod ?c = (?h + ?l) mod ?c"
    using deq_prev [OF tc] tl by (simp_all add: i_def)
  have l: "?l = Suc (?l - 1)" using some by simp
  have idx: "unat i = (?h + (?l - 1)) mod ?c"
  proof -
    have "(1 + unat i) mod ?c = (1 + (?h + (?l - 1)) mod ?c) mod ?c"
      using i(2) l by (simp add: mod_Suc_eq)
    then show ?thesis using mod_ring_inj [of 1 "unat i" ?c "(?h + (?l - 1)) mod ?c"] i(1) cap by simp
  qed
  define q1 where "q1 = q\<lparr>dq_tail := i, dq_len := dq_len q - 1\<rparr>"
  have len: "unat (dq_len q - 1) = ?l - 1" using some by (intro unat_minus_one) auto
  have con': "deq_content q = window (elems (unat (dq_esz q)) ?c t) ?c ?h (?l - 1) @ [elem (unat (dq_esz q)) t (unat i)]"
    unfolding con using idx i(1) by (subst l) (simp only: window_snoc, simp)
  have ld: "deq_load q i = Some (elem (unat (dq_esz q)) t (unat i))" using deq_load_at [OF t i(1)] .
  have "deq_inv q1"
    using inv len idx cap k t lc h by (auto simp: deq_inv_def q1_def)
  moreover have "deq_content q1 = butlast (deq_content q)"
    unfolding deq_content_def [of q1] using con' t by (simp add: q1_def len)
  moreover have "deq_op_index q DEQ_POP = Some (i, q1)"
    by (simp add: deq_op_index_def q1_def i_def Let_def)
  moreover have "deq_load q1 i = deq_load q i" by (simp add: deq_load_def q1_def split: option.split)
  ultimately show thesis using ld con'
    by (intro that [of q1]) (simp_all add: same_params_def q1_def)
qed

section \<open>The contract\<close>

text \<open>
  A call carries the allocator it meets, so that allocation may succeed in one call and fail in
  the next.
\<close>

datatype deq_call =
    DqPush allocator "byte list"
  | DqUnshift allocator "byte list"
  | DqPop allocator "byte list"
  | DqShift allocator "byte list"
  | DqFirst "byte list"
  | DqLast "byte list"

fun dq_step :: "deq_call \<Rightarrow> deq \<Rightarrow> ((int \<times> byte list) \<times> deq) option" where
  "dq_step (DqPush m x) q = (case deq_push m q x of None \<Rightarrow> None | Some (r, q') \<Rightarrow> Some ((r, x), q'))"
| "dq_step (DqUnshift m x) q =
     (case deq_unshift m q x of None \<Rightarrow> None | Some (r, q') \<Rightarrow> Some ((r, x), q'))"
| "dq_step (DqPop m e) q = (case deq_pop m q e of None \<Rightarrow> None | Some (r, x, q') \<Rightarrow> Some ((r, x), q'))"
| "dq_step (DqShift m e) q =
     (case deq_shift m q e of None \<Rightarrow> None | Some (r, x, q') \<Rightarrow> Some ((r, x), q'))"
| "dq_step (DqFirst e) q = (case deq_first q e of None \<Rightarrow> None | Some (r, x) \<Rightarrow> Some ((r, x), q))"
| "dq_step (DqLast e) q = (case deq_last q e of None \<Rightarrow> None | Some (r, x) \<Rightarrow> Some ((r, x), q))"

text \<open>The result \<open>-1\<close> leaves the deque as it was and occurs only if the allocator can fail.\<close>

definition dq_failed :: "allocator \<Rightarrow> 'a \<Rightarrow> int \<Rightarrow> 'a \<Rightarrow> bool" where
  "dq_failed m q r q' \<longleftrightarrow> r = -1 \<and> q' = q \<and> (\<exists>z. m z = None)"

fun dq_spec :: "deq_call \<Rightarrow> byte list list \<Rightarrow> int \<times> byte list \<Rightarrow> byte list list \<Rightarrow> bool" where
  "dq_spec (DqPush m x) q (r, y) q' \<longleftrightarrow> y = x \<and> (r = 1 \<and> q' = q @ [x] \<or> dq_failed m q r q')"
| "dq_spec (DqUnshift m x) q (r, y) q' \<longleftrightarrow> y = x \<and> (r = 1 \<and> q' = x # q \<or> dq_failed m q r q')"
| "dq_spec (DqPop m e) q (r, y) q' \<longleftrightarrow>
     r = 1 \<and> q = q' @ [y] \<or> r = 0 \<and> q = [] \<and> q' = [] \<and> y = e \<or> dq_failed m q r q' \<and> y = e"
| "dq_spec (DqShift m e) q (r, y) q' \<longleftrightarrow>
     r = 1 \<and> q = y # q' \<or> r = 0 \<and> q = [] \<and> q' = [] \<and> y = e \<or> dq_failed m q r q' \<and> y = e"
| "dq_spec (DqFirst e) q (r, y) q' \<longleftrightarrow>
     q' = q \<and> (if q = [] then r = 0 \<and> y = e else r = 1 \<and> y = hd q)"
| "dq_spec (DqLast e) q (r, y) q' \<longleftrightarrow>
     q' = q \<and> (if q = [] then r = 0 \<and> y = e else r = 1 \<and> y = last q)"

text \<open>
  Elements have the size of the base type, and a deque that is doubled stays below \<open>2^29\<close>
  bytes, so that no size computation wraps around.
\<close>

fun dq_valid :: "nat \<Rightarrow> deq_call \<Rightarrow> byte list list \<Rightarrow> bool" where
  "dq_valid e (DqPush m x) q \<longleftrightarrow> malloc_ok m \<and> length x = e \<and> 2 * length q * e \<le> 2 ^ 29"
| "dq_valid e (DqUnshift m x) q \<longleftrightarrow> malloc_ok m \<and> length x = e \<and> 2 * length q * e \<le> 2 ^ 29"
| "dq_valid e (DqPop m x) q \<longleftrightarrow> malloc_ok m"
| "dq_valid e (DqShift m x) q \<longleftrightarrow> malloc_ok m"
| "dq_valid e (DqFirst x) q \<longleftrightarrow> True"
| "dq_valid e (DqLast x) q \<longleftrightarrow> True"

definition deq_of :: "u32 \<Rightarrow> deq \<Rightarrow> bool" where
  "deq_of e q \<longleftrightarrow> deq_inv q \<and> dq_esz q = e"

lemma content_empty_iff: "deq_inv q \<Longrightarrow> deq_content q = [] \<longleftrightarrow> dq_len q = 0"
  using deq_content_len [of q] by (metis length_0_conv unat_eq_zero)

lemma dq_push_simulates:
  assumes q: "deq_of e q" and v: "dq_valid (unat e) (DqPush m x) (deq_content q)"
  shows "\<exists>r q'. dq_step (DqPush m x) q = Some (r, q') \<and> deq_of e q' \<and>
    dq_spec (DqPush m x) (deq_content q) r (deq_content q')"
proof -
  have inv: "deq_inv q" and m: "malloc_ok m" and x: "length x = unat (dq_esz q)"
    and room: "2 * unat (dq_len q) * unat (dq_esz q) \<le> 2 ^ 29"
    using q v by (auto simp: deq_of_def deq_content_len)
  have op: "DEQ_PUSH = DEQ_PUSH \<or> DEQ_PUSH = DEQ_UNSHIFT" by simp
  from inv m op room show ?thesis
  proof (cases rule: deq_grow)
    case fail
    with q show ?thesis by (simp add: deq_push_def deq_op_deq_def dq_failed_def)
  next
    case (cont q1)
    then have "length x = unat (dq_esz q1)" using x by (simp add: same_frame_def)
    from deq_index_push [OF cont(2,5) this] obtain i q2 q3 where
      "deq_op_index q1 DEQ_PUSH = Some (i, q2)" "deq_store q2 i x = Some q3" "deq_inv q3"
      "deq_content q3 = deq_content q1 @ [x]" "same_params q1 q3" .
    with cont q show ?thesis
      by (simp add: deq_push_def deq_op_deq_def deq_of_def same_frame_def same_params_def)
  qed
qed

lemma dq_unshift_simulates:
  assumes q: "deq_of e q" and v: "dq_valid (unat e) (DqUnshift m x) (deq_content q)"
  shows "\<exists>r q'. dq_step (DqUnshift m x) q = Some (r, q') \<and> deq_of e q' \<and>
    dq_spec (DqUnshift m x) (deq_content q) r (deq_content q')"
proof -
  have inv: "deq_inv q" and m: "malloc_ok m" and x: "length x = unat (dq_esz q)"
    and room: "2 * unat (dq_len q) * unat (dq_esz q) \<le> 2 ^ 29"
    using q v by (auto simp: deq_of_def deq_content_len)
  have op: "DEQ_UNSHIFT = DEQ_PUSH \<or> DEQ_UNSHIFT = DEQ_UNSHIFT" by simp
  from inv m op room show ?thesis
  proof (cases rule: deq_grow)
    case fail
    with q show ?thesis by (simp add: deq_unshift_def deq_op_deq_def dq_failed_def)
  next
    case (cont q1)
    then have "length x = unat (dq_esz q1)" using x by (simp add: same_frame_def)
    from deq_index_unshift [OF cont(2,5) this] obtain i q2 q3 where
      "deq_op_index q1 DEQ_UNSHIFT = Some (i, q2)" "deq_store q2 i x = Some q3" "deq_inv q3"
      "deq_content q3 = x # deq_content q1" "same_params q1 q3" .
    with cont q show ?thesis
      by (simp add: deq_unshift_def deq_op_deq_def deq_of_def same_frame_def same_params_def)
  qed
qed

lemma dq_pop_simulates:
  assumes q: "deq_of e q" and v: "dq_valid (unat e) (DqPop m x) (deq_content q)"
  shows "\<exists>r q'. dq_step (DqPop m x) q = Some (r, q') \<and> deq_of e q' \<and>
    dq_spec (DqPop m x) (deq_content q) r (deq_content q')"
proof -
  have inv: "deq_inv q" and m: "malloc_ok m" using q v by (auto simp: deq_of_def)
  have op: "DEQ_POP = DEQ_POP \<or> DEQ_POP = DEQ_SHIFT" by simp
  from inv m op show ?thesis
  proof (cases rule: deq_shrink_op)
    case fail
    with q show ?thesis by (simp add: deq_pop_def deq_op_deq_def dq_failed_def)
  next
    case (empty q1)
    with q show ?thesis by (simp add: deq_pop_def deq_op_deq_def deq_of_def same_frame_def)
  next
    case (cont q1)
    from deq_index_pop [OF cont(2,5)] obtain i q2 where
      "deq_op_index q1 DEQ_POP = Some (i, q2)" "deq_load q2 i = Some (last (deq_content q1))"
      "deq_inv q2" "deq_content q2 = butlast (deq_content q1)" "same_params q1 q2" by metis
    moreover have "deq_content q1 \<noteq> []" using cont(2,5) by (auto simp: content_empty_iff)
    ultimately show ?thesis using cont q
      by (simp add: deq_pop_def deq_op_deq_def deq_of_def same_frame_def same_params_def)
  qed
qed

lemma dq_shift_simulates:
  assumes q: "deq_of e q" and v: "dq_valid (unat e) (DqShift m x) (deq_content q)"
  shows "\<exists>r q'. dq_step (DqShift m x) q = Some (r, q') \<and> deq_of e q' \<and>
    dq_spec (DqShift m x) (deq_content q) r (deq_content q')"
proof -
  have inv: "deq_inv q" and m: "malloc_ok m" using q v by (auto simp: deq_of_def)
  have op: "DEQ_SHIFT = DEQ_POP \<or> DEQ_SHIFT = DEQ_SHIFT" by simp
  from inv m op show ?thesis
  proof (cases rule: deq_shrink_op)
    case fail
    with q show ?thesis by (simp add: deq_shift_def deq_op_deq_def dq_failed_def)
  next
    case (empty q1)
    with q show ?thesis by (simp add: deq_shift_def deq_op_deq_def deq_of_def same_frame_def)
  next
    case (cont q1)
    from deq_index_shift [OF cont(2,5)] obtain i q2 where
      "deq_op_index q1 DEQ_SHIFT = Some (i, q2)" "deq_load q2 i = Some (hd (deq_content q1))"
      "deq_inv q2" "deq_content q2 = tl (deq_content q1)" "same_params q1 q2" by metis
    moreover have "deq_content q1 \<noteq> []" using cont(2,5) by (auto simp: content_empty_iff)
    ultimately show ?thesis using cont q
      by (simp add: deq_shift_def deq_op_deq_def deq_of_def same_frame_def same_params_def)
  qed
qed

lemma dq_peek_simulates:
  assumes q: "deq_of e q" and x: "x = DqFirst y \<or> x = DqLast y"
  shows "\<exists>r q'. dq_step x q = Some (r, q') \<and> deq_of e q' \<and> dq_spec x (deq_content q) r (deq_content q')"
proof (cases "dq_len q = 0")
  case True
  with q x show ?thesis by (auto simp: deq_first_def deq_last_def content_empty_iff deq_of_def)
next
  case False
  have inv: "deq_inv q" using q by (simp add: deq_of_def)
  have len: "0 < unat (dq_len q)" using False by (simp add: unat_gt_0)
  have ne: "deq_content q \<noteq> []" using False inv by (simp add: content_empty_iff)
  have "deq_load q (dq_head q) = Some (hd (deq_content q))"
    using deq_index_shift [OF inv len] by metis
  moreover have "deq_load q ((if dq_tail q = 0 then dq_cap q else dq_tail q) - 1) =
      Some (last (deq_content q))"
    using deq_index_pop [OF inv len] by metis
  ultimately show ?thesis using False q x ne
    by (auto simp: deq_first_def deq_last_def Let_def word_gt_0)
qed

lemma dq_simulates:
  assumes "deq_of e q" and "dq_valid (unat e) x (deq_content q)"
  shows "\<exists>r q'. dq_step x q = Some (r, q') \<and> deq_of e q' \<and> dq_spec x (deq_content q) r (deq_content q')"
proof (cases x)
  case (DqPush m y)
  with assms show ?thesis using dq_push_simulates by simp
next
  case (DqUnshift m y)
  with assms show ?thesis using dq_unshift_simulates by simp
next
  case (DqPop m y)
  with assms show ?thesis using dq_pop_simulates by simp
next
  case (DqShift m y)
  with assms show ?thesis using dq_shift_simulates by simp
qed (use assms dq_peek_simulates in blast)+

interpretation dq: simulation "deq_of e" deq_content "dq_valid (unat e)" dq_step dq_spec for e
  by unfold_locales (rule dq_simulates)

section \<open>Properties\<close>

text \<open>
  C10. On a deque in its invariant, that is with a minimal capacity of at least one element, at least two
  when shrinking is on, and at most \<open>2 ^ 29\<close> bytes of buffer, every sequence of \<open>deq_push\<close>,
  \<open>deq_unshift\<close>, \<open>deq_pop\<close>, \<open>deq_shift\<close>, \<open>deq_first\<close> and \<open>deq_last\<close> calls that inserts only
  elements of the element size, only while the deque holds at most \<open>2 ^ 28\<close> bytes of them, and with an
  allocator that returns blocks of the size asked for or null, runs without a failed assertion, a division by zero or an access outside the
  buffer, keeps the invariant and returns what a list with these operations at its two ends returns,
  across growing, shrinking and wrap-around of the indices; a call that cannot allocate returns \<open>-1\<close>
  and changes nothing.
\<close>

theorem deque_is_double_ended_list:
  assumes "deq_of e q"
    and "admissible (dq_valid (unat e)) dq_spec xs (deq_content q)"
  shows "\<exists>rs q'. run_ops dq_step xs q = Some (rs, q') \<and> deq_of e q' \<and>
    spec_run dq_spec xs (deq_content q) rs (deq_content q')"
  using dq.run_refines [OF assms] .

theorem deque_is_double_ended_list_witness:
  "deq_of 1 (DEQ_INIT_DEQ 1 2 DEQ_SHRINK_AT_20PCT) \<and>
   (\<exists>rs q'. run_ops dq_step [DqPush (\<lambda>n. Some (replicate n 0)) [7], DqUnshift (\<lambda>n. None) [8],
        DqPop (\<lambda>n. None) [0]] (DEQ_INIT_DEQ 1 2 DEQ_SHRINK_AT_20PCT) = Some (rs, q') \<and>
      deq_of 1 q' \<and> deq_content q' = [[8]])"
proof -
  let ?q = "DEQ_INIT_DEQ 1 2 DEQ_SHRINK_AT_20PCT"
  let ?xs = "[DqPush (\<lambda>n. Some (replicate n 0)) [7], DqUnshift (\<lambda>n. None) [8], DqPop (\<lambda>n. None) [0]]"
  have q: "deq_of 1 ?q" by (simp add: deq_of_def deq_inv_def DEQ_INIT_DEQ_def)
  have c: "deq_content ?q = []" by (simp add: deq_content_def DEQ_INIT_DEQ_def)
  have "admissible (dq_valid (unat 1)) dq_spec ?xs (deq_content ?q)"
    by (auto simp: c malloc_ok_def dq_failed_def)
  from deque_is_double_ended_list [OF q this] obtain rs q' where
    run: "run_ops dq_step ?xs ?q = Some (rs, q')" and "deq_of 1 q'" by blast
  moreover have "deq_content q' = [[8]]"
    using run by (simp add: deq_push_def deq_unshift_def deq_pop_def deq_op_deq_def deq_op_resize_def
      deq_op_index_def deq_resize_def deq_copy_def deq_store_def deq_load_def DEQ_INIT_DEQ_def
      mem_write_def mem_read_def Let_def)
      (auto simp: deq_content_def window_def elems_def elem_def)
  ultimately show ?thesis using q by blast
qed

text \<open>
  \<open>deq_init\<close> with a positive initial capacity, at least two when shrinking is on, either
  returns 0 with an empty deque of that capacity in its invariant, or returns \<open>-1\<close> and the
  allocator can fail.
\<close>

lemma deq_init_establishes:
  assumes "malloc_ok m" and "0 < esz" and "0 < mn" and "shrink \<noteq> DEQ_NO_SHRINK \<longrightarrow> 2 \<le> mn"
    and "unat mn * unat esz \<le> 2 ^ 29"
  shows "(\<exists>q. deq_init m esz mn shrink = Some (0, q) \<and> deq_of esz q \<and> deq_content q = [] \<and>
      deq_cap q = mn) \<or>
    (\<exists>q. deq_init m esz mn shrink = Some (-1, q)) \<and> (\<exists>z. m z = None)"
proof -
  let ?q = "DEQ_INIT_DEQ esz mn shrink"
  have inv: "deq_inv ?q" using assms
    by (auto simp: deq_inv_def DEQ_INIT_DEQ_def word_less_nat_alt word_le_nat_alt)
  have n: "unat (dq_len ?q) < unat mn" "unat mn = unat (dq_min ?q) * 2 ^ 0"
    "unat mn * unat (dq_esz ?q) \<le> 2 ^ 29"
    using assms by (simp_all add: DEQ_INIT_DEQ_def word_less_nat_alt)
  have empty: "deq_content ?q = []" by (simp add: deq_content_def DEQ_INIT_DEQ_def)
  from inv assms(1) n show ?thesis
  proof (cases rule: deq_resize_works)
    case fail
    then show ?thesis by (simp add: deq_init_def)
  next
    case (resized q')
    then have "dq_esz q' = esz" by (simp add: same_frame_def DEQ_INIT_DEQ_def)
    with resized empty show ?thesis by (simp add: deq_init_def deq_of_def deq_cap_def)
  qed
qed

text \<open>
  C31. With an initial capacity of one and shrinking on, the deque writes outside its buffer:
  after two \<open>deq_push\<close> and two \<open>deq_shift\<close> calls, all successful, \<open>deq_resize_\<close> has left the tail
  index equal to the capacity, and the next \<open>deq_push\<close> stores at that index.
\<close>

theorem deque_min_one_overruns:
  assumes "shrink \<noteq> DEQ_NO_SHRINK"
  shows "\<exists>q rs q'. deq_init (\<lambda>n. Some (replicate n 0)) 1 1 shrink = Some (0, q) \<and>
    run_ops dq_step [DqPush (\<lambda>n. Some (replicate n 0)) [a], DqPush (\<lambda>n. Some (replicate n 0)) [b],
      DqShift (\<lambda>n. Some (replicate n 0)) [0], DqShift (\<lambda>n. Some (replicate n 0)) [0]] q =
      Some (rs, q') \<and> map fst rs = [1, 1, 1, 1] \<and> dq_tail q' = dq_cap q' \<and>
    dq_step (DqPush (\<lambda>n. Some (replicate n 0)) [c]) q' = None"
  using assms
  by (cases shrink)
    (simp_all add: deq_init_def deq_push_def deq_shift_def deq_op_deq_def deq_op_resize_def
      deq_op_index_def deq_resize_def deq_copy_def deq_store_def deq_load_def DEQ_INIT_DEQ_def
      mem_write_def mem_read_def memcpy_to_def Let_def)

theorem deque_min_one_overruns_witness:
  "\<exists>q rs q'. deq_init (\<lambda>n. Some (replicate n 0)) 1 1 DEQ_SHRINK_IF_EMPTY = Some (0, q) \<and>
    run_ops dq_step [DqPush (\<lambda>n. Some (replicate n 0)) [5], DqPush (\<lambda>n. Some (replicate n 0)) [6],
      DqShift (\<lambda>n. Some (replicate n 0)) [0], DqShift (\<lambda>n. Some (replicate n 0)) [0]] q = Some (rs, q') \<and>
    dq_step (DqPush (\<lambda>n. Some (replicate n 0)) [7]) q' = None"
  using deque_min_one_overruns [of DEQ_SHRINK_IF_EMPTY 5 6 7] by blast

end
