(* ===== verification/Crc.thy ===== *)
theory Crc
  imports Base_Prelude
begin

unbundle bit_operations_syntax

text \<open>
  The 21 check sums of \<^verbatim>\<open>base/src/dsa/crc.c\<close>.  Each function is a loop over the bytes with eight
  shift-and-xor rounds on an 8, 16 or 32-bit register; reading beyond the data is \<^const>\<open>None\<close>.

  The specification is the parametric model the comments of the source give for each function
  (width, polynomial, initial value, reflections, final xor): a register of \<open>width\<close> bits that takes
  in one message bit at a time.  The theory shows that all functions compute the value of their
  model, that is, that taking in eight bits at once, keeping narrow registers left aligned or
  reflecting the register instead of the data makes no difference, and that every burst error no
  longer than the register is detected.
\<close>

section \<open>The code\<close>

text \<open>\<open>while (length--) crc = f crc (*data++)\<close>\<close>

fun crc_while :: "('c \<Rightarrow> byte \<Rightarrow> 'c) \<Rightarrow> byte list \<Rightarrow> nat \<Rightarrow> 'c \<Rightarrow> 'c option" where
  "crc_while f data 0 crc = Some crc"
| "crc_while f [] (Suc n) crc = None"
| "crc_while f (d # data) (Suc n) crc = crc_while f data n (f crc d)"

text \<open>One round of the inner \<open>for\<close> loop, shifting right or left.\<close>

definition lsb_round :: "'a::len word \<Rightarrow> 'a word \<Rightarrow> 'a word" where
  "lsb_round p crc = (if crc AND 1 \<noteq> 0 then drop_bit 1 crc XOR p else drop_bit 1 crc)"

definition msb_round :: "'a::len word \<Rightarrow> 'a word \<Rightarrow> 'a word \<Rightarrow> 'a word" where
  "msb_round hi p crc = (if crc AND hi \<noteq> 0 then push_bit 1 crc XOR p else push_bit 1 crc)"

definition crc4_itu :: "byte list \<Rightarrow> u16 \<Rightarrow> u8 option" where
  "crc4_itu data len =
     crc_while (\<lambda>crc d. (lsb_round 0x0C ^^ 8) (crc XOR d)) data (unat len) 0"

definition crc5_epc :: "byte list \<Rightarrow> u16 \<Rightarrow> u8 option" where
  "crc5_epc data len =
     map_option (\<lambda>crc. drop_bit 3 crc)
       (crc_while (\<lambda>crc d. (msb_round 0x80 0x48 ^^ 8) (crc XOR d)) data (unat len) 0x48)"

definition crc5_itu :: "byte list \<Rightarrow> u16 \<Rightarrow> u8 option" where
  "crc5_itu data len =
     crc_while (\<lambda>crc d. (lsb_round 0x15 ^^ 8) (crc XOR d)) data (unat len) 0"

definition crc5_usb :: "byte list \<Rightarrow> u16 \<Rightarrow> u8 option" where
  "crc5_usb data len =
     map_option (\<lambda>crc. crc XOR 0x1F)
       (crc_while (\<lambda>crc d. (lsb_round 0x14 ^^ 8) (crc XOR d)) data (unat len) 0x1F)"

definition crc6_itu :: "byte list \<Rightarrow> u16 \<Rightarrow> u8 option" where
  "crc6_itu data len =
     crc_while (\<lambda>crc d. (lsb_round 0x30 ^^ 8) (crc XOR d)) data (unat len) 0"

definition crc7_mmc :: "byte list \<Rightarrow> u16 \<Rightarrow> u8 option" where
  "crc7_mmc data len =
     map_option (\<lambda>crc. drop_bit 1 crc)
       (crc_while (\<lambda>crc d. (msb_round 0x80 0x12 ^^ 8) (crc XOR d)) data (unat len) 0)"

definition crc8 :: "byte list \<Rightarrow> u16 \<Rightarrow> u8 option" where
  "crc8 data len =
     crc_while (\<lambda>crc d. (msb_round 0x80 0x07 ^^ 8) (crc XOR d)) data (unat len) 0"

definition crc8_itu :: "byte list \<Rightarrow> u16 \<Rightarrow> u8 option" where
  "crc8_itu data len =
     map_option (\<lambda>crc. crc XOR 0x55)
       (crc_while (\<lambda>crc d. (msb_round 0x80 0x07 ^^ 8) (crc XOR d)) data (unat len) 0)"

definition crc8_rohc :: "byte list \<Rightarrow> u16 \<Rightarrow> u8 option" where
  "crc8_rohc data len =
     crc_while (\<lambda>crc d. (lsb_round 0xE0 ^^ 8) (crc XOR d)) data (unat len) 0xFF"

definition crc8_maxim :: "byte list \<Rightarrow> u16 \<Rightarrow> u8 option" where
  "crc8_maxim data len =
     crc_while (\<lambda>crc d. (lsb_round 0x8C ^^ 8) (crc XOR d)) data (unat len) 0"

definition crc16_ibm :: "byte list \<Rightarrow> u16 \<Rightarrow> u16 option" where
  "crc16_ibm data len =
     crc_while (\<lambda>crc d. (lsb_round 0xA001 ^^ 8) (crc XOR ucast d)) data (unat len) 0"

definition crc16_maxim :: "byte list \<Rightarrow> u16 \<Rightarrow> u16 option" where
  "crc16_maxim data len =
     map_option (\<lambda>crc. NOT crc)
       (crc_while (\<lambda>crc d. (lsb_round 0xA001 ^^ 8) (crc XOR ucast d)) data (unat len) 0)"

definition crc16_usb :: "byte list \<Rightarrow> u16 \<Rightarrow> u16 option" where
  "crc16_usb data len =
     map_option (\<lambda>crc. NOT crc)
       (crc_while (\<lambda>crc d. (lsb_round 0xA001 ^^ 8) (crc XOR ucast d)) data (unat len) 0xFFFF)"

definition crc16_modbus :: "byte list \<Rightarrow> u16 \<Rightarrow> u16 option" where
  "crc16_modbus data len =
     crc_while (\<lambda>crc d. (lsb_round 0xA001 ^^ 8) (crc XOR ucast d)) data (unat len) 0xFFFF"

definition crc16_ccitt :: "byte list \<Rightarrow> u16 \<Rightarrow> u16 option" where
  "crc16_ccitt data len =
     crc_while (\<lambda>crc d. (lsb_round 0x8408 ^^ 8) (crc XOR ucast d)) data (unat len) 0"

definition crc16_ccitt_false :: "byte list \<Rightarrow> u16 \<Rightarrow> u16 option" where
  "crc16_ccitt_false data len =
     crc_while (\<lambda>crc d. (msb_round 0x8000 0x1021 ^^ 8) (crc XOR push_bit 8 (ucast d))) data (unat len) 0xFFFF"

definition crc16_x25 :: "byte list \<Rightarrow> u16 \<Rightarrow> u16 option" where
  "crc16_x25 data len =
     map_option (\<lambda>crc. NOT crc)
       (crc_while (\<lambda>crc d. (lsb_round 0x8408 ^^ 8) (crc XOR ucast d)) data (unat len) 0xFFFF)"

definition crc16_xmodem :: "byte list \<Rightarrow> u16 \<Rightarrow> u16 option" where
  "crc16_xmodem data len =
     crc_while (\<lambda>crc d. (msb_round 0x8000 0x1021 ^^ 8) (crc XOR push_bit 8 (ucast d))) data (unat len) 0"

definition crc16_dnp :: "byte list \<Rightarrow> u16 \<Rightarrow> u16 option" where
  "crc16_dnp data len =
     map_option (\<lambda>crc. NOT crc)
       (crc_while (\<lambda>crc d. (lsb_round 0xA6BC ^^ 8) (crc XOR ucast d)) data (unat len) 0)"

definition crc32 :: "byte list \<Rightarrow> u16 \<Rightarrow> u32 option" where
  "crc32 data len =
     map_option (\<lambda>crc. NOT crc)
       (crc_while (\<lambda>crc d. (lsb_round 0xEDB88320 ^^ 8) (crc XOR ucast d)) data (unat len) 0xFFFFFFFF)"

definition crc32_mpeg_2 :: "byte list \<Rightarrow> u16 \<Rightarrow> u32 option" where
  "crc32_mpeg_2 data len =
     crc_while (\<lambda>crc d. (msb_round 0x80000000 0x04C11DB7 ^^ 8) (crc XOR push_bit 24 (ucast d))) data (unat len) 0xFFFFFFFF"

section \<open>The specification\<close>

record crc_model =
  cm_width :: nat
  cm_poly :: nat
  cm_init :: nat
  cm_refin :: bool
  cm_refout :: bool
  cm_xorout :: nat

text \<open>The register shifts left by one bit; the bit shifted out, added to the message bit, selects the polynomial.\<close>

definition lfsr_step :: "nat \<Rightarrow> nat \<Rightarrow> nat \<Rightarrow> bool \<Rightarrow> nat" where
  "lfsr_step w p r b =
     (let s = take_bit w (push_bit 1 r) in if bit r (w - 1) \<noteq> b then s XOR p else s)"

definition byte_bits :: "bool \<Rightarrow> byte \<Rightarrow> bool list" where
  "byte_bits rf d = (if rf then map (bit d) [0..<8] else rev (map (bit d) [0..<8]))"

definition message_bits :: "bool \<Rightarrow> byte list \<Rightarrow> bool list" where
  "message_bits rf data = concat (map (byte_bits rf) data)"

definition reflect :: "nat \<Rightarrow> nat \<Rightarrow> nat" where
  "reflect w r = horner_sum of_bool 2 (rev (map (bit r) [0..<w]))"

definition crc_value :: "crc_model \<Rightarrow> byte list \<Rightarrow> nat" where
  "crc_value m data =
     (let r = foldl (lfsr_step (cm_width m) (cm_poly m)) (cm_init m) (message_bits (cm_refin m) data)
      in (if cm_refout m then reflect (cm_width m) r else r) XOR cm_xorout m)"

text \<open>A call that may read \<open>length\<close> bytes.\<close>

definition crc_result :: "crc_model \<Rightarrow> byte list \<Rightarrow> u16 \<Rightarrow> nat option" where
  "crc_result m data len =
     (if unat len \<le> length data then Some (crc_value m (take (unat len) data)) else None)"

section \<open>Shift registers on machine words\<close>

text \<open>The register of the machine word, shifting left, and its step on one message bit.\<close>

definition top_bit :: "bool \<Rightarrow> 'a::len word" where
  "top_bit b = (if b then 2 ^ (LENGTH('a) - 1) else 0)"

definition shl_round :: "'a::len word \<Rightarrow> 'a word \<Rightarrow> 'a word" where
  "shl_round p c = (if bit c (LENGTH('a) - 1) then push_bit 1 c XOR p else push_bit 1 c)"

definition shl_step :: "'a::len word \<Rightarrow> 'a word \<Rightarrow> bool \<Rightarrow> 'a word" where
  "shl_step p c b = shl_round p (c XOR top_bit b)"

fun top_bits :: "bool list \<Rightarrow> 'a::len word" where
  "top_bits [] = 0"
| "top_bits (b # bs) = top_bit b XOR drop_bit 1 (top_bits bs)"

lemma bit_top_bit: "bit (top_bit b :: 'a::len word) i \<longleftrightarrow> b \<and> i = LENGTH('a) - 1"
  by (auto simp: top_bit_def bit_exp_iff)

lemma bit_shl_round:
  fixes c :: "'a::len word"
  shows "bit (shl_round p c) i \<longleftrightarrow>
    (0 < i \<and> i < LENGTH('a) \<and> bit c (i - 1)) \<noteq> (bit c (LENGTH('a) - 1) \<and> bit p i)"
proof -
  have "bit (push_bit 1 c) i \<longleftrightarrow> 0 < i \<and> i < LENGTH('a) \<and> bit c (i - 1)"
    by (subst bit_push_bit_iff) auto
  then show ?thesis
    unfolding shl_round_def by (cases "bit c (LENGTH('a) - 1)") (simp_all only: if_True if_False bit_xor_iff, blast+)
qed

lemma shl_round_xor: "shl_round p (a XOR b) = shl_round p a XOR shl_round p b"
  by (rule bit_word_eqI) (auto simp: bit_shl_round bit_xor_iff)

lemma bit_top_bits:
  "i < LENGTH('a) \<Longrightarrow>
   bit (top_bits bs :: 'a::len word) i \<longleftrightarrow> LENGTH('a) - 1 - i < length bs \<and> bs ! (LENGTH('a) - 1 - i)"
proof (induction bs arbitrary: i)
  case (Cons b bs)
  show ?case
  proof (cases "i = LENGTH('a) - 1")
    case True
    then have "\<not> bit (top_bits bs :: 'a word) (Suc i)" by (auto dest: bit_imp_le_length)
    with True show ?thesis by (simp add: bit_xor_iff bit_top_bit bit_drop_bit_eq)
  next
    case False
    with Cons.prems have "Suc i < LENGTH('a)"
      and "LENGTH('a) - Suc i = Suc (LENGTH('a) - 1 - Suc i)" by auto
    with False Cons.IH [of "Suc i"] show ?thesis
      by (simp add: bit_xor_iff bit_top_bit bit_drop_bit_eq)
  qed
qed simp

lemma shl_round_top_bits:
  assumes "length bs < LENGTH('a)"
  shows "shl_round p (drop_bit 1 (top_bits bs)) = (top_bits bs :: 'a::len word)"
proof (rule bit_word_eqI)
  fix i assume i: "i < LENGTH('a)"
  have "\<not> bit (top_bits bs :: 'a word) 0" using assms by (subst bit_top_bits) auto
  moreover have "\<not> bit (drop_bit 1 (top_bits bs :: 'a word)) (LENGTH('a) - 1)"
    by (auto simp: bit_drop_bit_eq dest: bit_imp_le_length)
  ultimately show "bit (shl_round p (drop_bit 1 (top_bits bs))) i = bit (top_bits bs :: 'a word) i"
    using i by (cases i) (auto simp: bit_shl_round bit_drop_bit_eq)
qed

text \<open>Taking in up to a register full of bits at once.\<close>

lemma shl_steps:
  assumes "length bs \<le> LENGTH('a)"
  shows "foldl (shl_step p) c bs = (shl_round p ^^ length bs) (c XOR (top_bits bs :: 'a::len word))"
  using assms
proof (induction bs arbitrary: c)
  case (Cons b bs)
  have "foldl (shl_step p) c (b # bs) =
      (shl_round p ^^ length bs) (shl_round p (c XOR top_bit b) XOR top_bits bs)"
    using Cons by (simp add: shl_step_def [of p c b])
  also have "shl_round p (c XOR top_bit b) XOR top_bits bs = shl_round p (c XOR top_bits (b # bs))"
    using Cons.prems shl_round_top_bits [of bs p] by (simp add: shl_round_xor ac_simps)
  finally show ?case by (simp add: funpow_swap1)
qed simp

lemma top_bits_byte:
  assumes "8 \<le> LENGTH('a)"
  shows "top_bits (byte_bits False d) = (push_bit (LENGTH('a) - 8) (ucast d) :: 'a::len word)"
proof (rule bit_word_eqI)
  fix i assume i: "i < LENGTH('a)"
  have "byte_bits False d ! (LENGTH('a) - 1 - i) = bit d (i - (LENGTH('a) - 8))"
    if "LENGTH('a) - 8 \<le> i"
  proof -
    have "7 - (LENGTH('a) - 1 - i) = i - (LENGTH('a) - 8)" using that i assms by arith
    with that i show ?thesis by (simp add: byte_bits_def rev_nth del: upt_Suc)
  qed
  moreover have "LENGTH('a) - 1 - i < 8 \<longleftrightarrow> LENGTH('a) - 8 \<le> i" using i assms by arith
  ultimately show "bit (top_bits (byte_bits False d) :: 'a word) i \<longleftrightarrow>
      bit (push_bit (LENGTH('a) - 8) (ucast d) :: 'a word) i"
    using i by (auto simp: bit_top_bits bit_push_bit_iff bit_ucast_iff byte_bits_def)
qed

lemma shl_byte:
  assumes "8 \<le> LENGTH('a)"
  shows "foldl (shl_step p) c (byte_bits False d) =
    (shl_round p ^^ 8) (c XOR (push_bit (LENGTH('a) - 8) (ucast d) :: 'a::len word))"
  using shl_steps [of "byte_bits False d" p c] top_bits_byte [where 'a = 'a, of d] assms
  by (simp add: byte_bits_def)

lemma shl_data:
  assumes "8 \<le> LENGTH('a)"
  shows "foldl (\<lambda>c d. (shl_round p ^^ 8) (c XOR push_bit (LENGTH('a) - 8) (ucast d))) c data =
    foldl (shl_step p) (c :: 'a::len word) (message_bits False data)"
proof (induction data arbitrary: c)
  case (Cons d data)
  then show ?case using shl_byte [OF assms, of p c d] by (simp add: message_bits_def)
qed (simp add: message_bits_def)

section \<open>Registers that shift right\<close>

lemma word_reverse_xor: "word_reverse (a XOR b) = word_reverse a XOR word_reverse b"
  by (rule bit_word_eqI) (auto simp: bit_word_reverse_iff bit_xor_iff)

lemma word_reverse_lsb_round:
  fixes c :: "'a::len word"
  shows "word_reverse (lsb_round p c) = shl_round (word_reverse p) (word_reverse c)"
proof -
  have low: "c AND 1 \<noteq> 0 \<longleftrightarrow> bit c 0"
    by (simp add: and_one_eq mod_2_eq_odd bit_0)
  show ?thesis
  proof (rule bit_word_eqI)
    fix i assume i: "i < LENGTH('a)"
    have "bit (lsb_round p c) (LENGTH('a) - Suc i) \<longleftrightarrow>
        bit c (Suc (LENGTH('a) - Suc i)) \<noteq> (bit c 0 \<and> bit p (LENGTH('a) - Suc i))"
      using low by (auto simp: lsb_round_def bit_xor_iff bit_drop_bit_eq)
    moreover have "bit c (Suc (LENGTH('a) - Suc i)) \<longleftrightarrow> 0 < i \<and> bit c (LENGTH('a) - i)"
      using i by (cases i) (auto simp: Suc_diff_Suc dest: bit_imp_le_length)
    moreover have "0 < i \<Longrightarrow> LENGTH('a) - Suc (i - 1) = LENGTH('a) - i" by simp
    ultimately show "bit (word_reverse (lsb_round p c)) i \<longleftrightarrow>
        bit (shl_round (word_reverse p) (word_reverse c)) i"
      using i by (auto simp: bit_word_reverse_iff bit_shl_round)
  qed
qed

lemma word_reverse_rounds:
  "word_reverse ((lsb_round p ^^ n) c) = (shl_round (word_reverse p) ^^ n) (word_reverse c)"
  by (induction n) (simp_all add: word_reverse_lsb_round)

lemma word_reverse_ucast:
  assumes "8 \<le> LENGTH('a)"
  shows "word_reverse (ucast d :: 'a::len word) = push_bit (LENGTH('a) - 8) (ucast (word_reverse (d :: byte)))"
proof (rule bit_word_eqI)
  fix i assume i: "i < LENGTH('a)"
  have "LENGTH('a) - 8 \<le> i \<Longrightarrow> LENGTH('a) - Suc i = 8 - Suc (i - (LENGTH('a) - 8))" 
    using i assms by arith
  moreover have "i < LENGTH('a) - 8 \<Longrightarrow> \<not> bit d (LENGTH('a) - Suc i)"
    by (auto dest!: bit_imp_le_length)
  ultimately show "bit (word_reverse (ucast d :: 'a word)) i \<longleftrightarrow>
      bit (push_bit (LENGTH('a) - 8) (ucast (word_reverse d)) :: 'a word) i"
    using i assms by (cases "LENGTH('a) - 8 \<le> i")
      (auto simp: bit_word_reverse_iff bit_push_bit_iff bit_ucast_iff)
qed

lemma byte_bits_reverse: "byte_bits False (word_reverse d) = byte_bits True d"
proof (rule nth_equalityI)
  fix i assume "i < length (byte_bits False (word_reverse d))"
  then have "i < 8" by (simp add: byte_bits_def)
  then show "byte_bits False (word_reverse d) ! i = byte_bits True d ! i"
    by (auto simp: byte_bits_def rev_nth bit_word_reverse_iff Suc_diff_Suc simp del: upt_Suc)
qed (simp add: byte_bits_def)

lemma message_bits_reverse: "message_bits False (map word_reverse data) = message_bits True data"
  by (simp add: message_bits_def comp_def byte_bits_reverse)

lemma shr_data:
  assumes "8 \<le> LENGTH('a)"
  shows "word_reverse (foldl (\<lambda>c d. (lsb_round p ^^ 8) (c XOR ucast d)) (c :: 'a::len word) data) =
    foldl (shl_step (word_reverse p)) (word_reverse c) (message_bits True data)"
proof -
  have "word_reverse (foldl (\<lambda>c d. (lsb_round p ^^ 8) (c XOR ucast d)) (c :: 'a::len word) data) =
    foldl (\<lambda>c d. (shl_round (word_reverse p) ^^ 8) (c XOR push_bit (LENGTH('a) - 8) (ucast d)))
      (word_reverse c) (map word_reverse data)"
    by (induction data arbitrary: c)
      (simp_all add: word_reverse_rounds word_reverse_xor word_reverse_ucast [OF assms])
  then show ?thesis by (simp add: shl_data [OF assms] message_bits_reverse)
qed

section \<open>Machine registers and registers of the model\<close>

text \<open>A register of \<open>w\<close> bits is held left aligned in the machine word.\<close>

definition aligned :: "nat \<Rightarrow> 'a::len word \<Rightarrow> nat \<Rightarrow> bool" where
  "aligned w c r \<longleftrightarrow> r < 2 ^ w \<and> c = push_bit (LENGTH('a) - w) (of_nat r)"

lemma aligned_bit:
  assumes "aligned w (c :: 'a::len word) r" and "w \<le> LENGTH('a)"
  shows "bit c i \<longleftrightarrow> LENGTH('a) - w \<le> i \<and> i < LENGTH('a) \<and> bit r (i - (LENGTH('a) - w))"
  using assms by (auto simp: aligned_def bit_push_bit_iff bit_of_nat_iff bit_unsigned_iff)

lemma less_pow_bits: "r < 2 ^ w \<longleftrightarrow> (\<forall>i. bit r i \<longrightarrow> i < w)" for r :: nat
proof
  assume "r < 2 ^ w"
  then have "take_bit w r = r" by (simp add: take_bit_nat_eq_self)
  then show "\<forall>i. bit r i \<longrightarrow> i < w" by (metis bit_take_bit_iff)
next
  assume "\<forall>i. bit r i \<longrightarrow> i < w"
  then have "take_bit w r = r" by (intro bit_eqI) (auto simp: bit_take_bit_iff)
  then show "r < 2 ^ w" by (metis take_bit_nat_less_exp)
qed

lemma alignedI:
  assumes "w \<le> LENGTH('a)" and "\<And>i. bit r i \<Longrightarrow> i < w"
    and "\<And>i. i < LENGTH('a) \<Longrightarrow> bit c i \<longleftrightarrow> LENGTH('a) - w \<le> i \<and> bit r (i - (LENGTH('a) - w))"
  shows "aligned w (c :: 'a::len word) r"
  unfolding aligned_def
proof
  show "r < 2 ^ w" using assms(2) by (simp add: less_pow_bits)
  show "c = push_bit (LENGTH('a) - w) (of_nat r)"
    by (rule bit_word_eqI) (use assms in \<open>auto simp: bit_push_bit_iff bit_of_nat_iff\<close>)
qed

lemma bit_lfsr_step:
  "bit (lfsr_step w p r b) i \<longleftrightarrow>
     (0 < i \<and> i < w \<and> bit r (i - 1)) \<noteq> ((bit r (w - 1) \<noteq> b) \<and> bit p i)"
proof -
  define s where "s = take_bit w (push_bit 1 r)"
  have "bit s i \<longleftrightarrow> 0 < i \<and> i < w \<and> bit r (i - 1)"
    unfolding s_def by (subst bit_take_bit_iff, subst bit_push_bit_iff) auto
  then show ?thesis
    unfolding lfsr_step_def Let_def s_def [symmetric] by (auto simp: bit_xor_iff)
qed

lemma aligned_step:
  assumes w: "0 < w" "w \<le> LENGTH('a)" and p: "aligned w p q" and c: "aligned w (c :: 'a::len word) r"
  shows "aligned w (shl_step p c b) (lfsr_step w q r b)"
proof (rule alignedI [OF w(2)])
  let ?s = "LENGTH('a) - w"
  note bits = aligned_bit [OF p w(2)] aligned_bit [OF c w(2)]
  show "bit (lfsr_step w q r b) i \<Longrightarrow> i < w" for i
    using p by (auto simp: bit_lfsr_step aligned_def less_pow_bits)
  fix i assume i: "i < LENGTH('a)"
  have "?s \<le> LENGTH('a) - 1" "LENGTH('a) - 1 - ?s = w - 1" using w by arith+
  then have hi: "bit c (LENGTH('a) - 1) \<longleftrightarrow> bit r (w - 1)" using bits(2) by simp
  have lo: "0 < i \<and> bit c (i - 1) \<longleftrightarrow> ?s < i \<and> bit r (i - ?s - 1)"
  proof (cases "?s < i")
    case True
    then have "?s \<le> i - 1" "i - 1 - ?s = i - ?s - 1" "i - 1 < LENGTH('a)" using i by arith+
    with True bits(2) [of "i - 1"] show ?thesis by simp
  next
    case False
    with bits(2) [of "i - 1"] show ?thesis by auto
  qed
  have "bit (shl_step p c b) i \<longleftrightarrow>
      (0 < i \<and> bit c (i - 1)) \<noteq> ((bit c (LENGTH('a) - 1) \<noteq> b) \<and> bit p i)"
    using i by (auto simp: shl_step_def bit_shl_round bit_xor_iff bit_top_bit)
  also have "\<dots> \<longleftrightarrow> ?s \<le> i \<and> bit (lfsr_step w q r b) (i - ?s)"
    unfolding lo hi using i w bits(1) [of i] by (auto simp: bit_lfsr_step)
  finally show "bit (shl_step p c b) i \<longleftrightarrow> ?s \<le> i \<and> bit (lfsr_step w q r b) (i - ?s)" .
qed

lemma aligned_steps:
  assumes "0 < w" "w \<le> LENGTH('a)" and "aligned w p q" and "aligned w (c :: 'a::len word) r"
  shows "aligned w (foldl (shl_step p) c bs) (foldl (lfsr_step w q) r bs)"
  using assms(4) by (induction bs arbitrary: c r) (simp_all add: aligned_step [OF assms(1-3)])

section \<open>The loops\<close>

lemma crc_while_foldl:
  "crc_while f data n c = (if n \<le> length data then Some (foldl f c (take n data)) else None)"
  by (induction f data n c rule: crc_while.induct) auto

lemma msb_round_shl:
  assumes "hi = 2 ^ (LENGTH('a) - 1)"
  shows "msb_round hi p = shl_round (p :: 'a::len word)"
proof
  fix c :: "'a word"
  have "c AND hi \<noteq> 0 \<longleftrightarrow> bit c (LENGTH('a) - 1)"
    using assms by (simp add: bit_iff_and_push_bit_not_eq_0 push_bit_eq_mult)
  then show "msb_round hi p c = shl_round p c" by (simp only: msb_round_def shl_round_def)
qed

lemma unat_xor_of_nat:
  assumes "x < 2 ^ LENGTH('a)"
  shows "unat (c XOR of_nat x :: 'a::len word) = unat c XOR x"
proof -
  have "unat (of_nat x :: 'a word) = x" using assms by (simp add: unsigned_of_nat take_bit_nat_eq_self)
  then show ?thesis by (simp add: unsigned_xor_eq)
qed

lemma bit_reflect: "bit (reflect w r) i \<longleftrightarrow> i < w \<and> bit r (w - Suc i)"
  by (auto simp: reflect_def bit_horner_sum_bit_iff rev_nth)

lemma aligned_reflect:
  assumes "aligned w (word_reverse c) r" and "w \<le> LENGTH('a)"
  shows "unat (c :: 'a::len word) = reflect w r"
proof (rule bit_eqI)
  fix i
  have "bit c i \<longleftrightarrow> i < LENGTH('a) \<and> bit (word_reverse c) (LENGTH('a) - Suc i)"
    by (cases "i < LENGTH('a)") (auto simp: bit_word_reverse_iff Suc_diff_Suc dest: bit_imp_le_length)
  also have "\<dots> \<longleftrightarrow> i < w \<and> bit r (w - Suc i)"
  proof -
    have "i < LENGTH('a) \<and> LENGTH('a) - w \<le> LENGTH('a) - Suc i \<longleftrightarrow> i < w"
      using assms(2) by arith
    moreover have "i < w \<Longrightarrow> LENGTH('a) - Suc i - (LENGTH('a) - w) = w - Suc i"
      using assms(2) by arith
    ultimately show ?thesis using aligned_bit [OF assms, of "LENGTH('a) - Suc i"] by auto
  qed
  finally show "bit (unat c) i = bit (reflect w r) i"
    by (simp add: bit_unsigned_iff bit_reflect)
qed

lemma aligned_drop:
  assumes "aligned w c r" and "w \<le> LENGTH('a)"
  shows "unat (drop_bit (LENGTH('a) - w) (c :: 'a::len word)) = r"
proof (rule bit_eqI)
  fix i
  have "bit r i \<Longrightarrow> i < w" using assms(1) by (simp add: aligned_def less_pow_bits)
  then show "bit (unat (drop_bit (LENGTH('a) - w) c)) i = bit r i"
    using assms(2) aligned_bit [OF assms, of "LENGTH('a) - w + i"]
    by (auto simp: bit_unsigned_iff bit_drop_bit_eq)
qed

theorem crc_lsb:
  assumes W: "8 \<le> LENGTH('a)" and w: "0 < w" "w \<le> LENGTH('a)"
    and p: "aligned w (word_reverse (p :: 'a::len word)) q" and c0: "aligned w (word_reverse c0) r0"
    and post: "\<And>c. post c = c XOR of_nat x" and x: "x < 2 ^ LENGTH('a)"
  shows "map_option unat (map_option post
      (crc_while (\<lambda>crc d. (lsb_round p ^^ 8) (crc XOR ucast d)) data (unat len) c0)) =
    crc_result \<lparr>cm_width = w, cm_poly = q, cm_init = r0, cm_refin = True, cm_refout = True,
      cm_xorout = x\<rparr> data len"
proof -
  let ?c = "foldl (\<lambda>crc d. (lsb_round p ^^ 8) (crc XOR ucast d)) c0 (take (unat len) data)"
  have "unat ?c = reflect w (foldl (lfsr_step w q) r0 (message_bits True (take (unat len) data)))"
    using aligned_steps [OF w p c0] w(2) by (intro aligned_reflect) (simp_all add: shr_data [OF W])
  then show ?thesis
    by (simp add: crc_while_foldl crc_result_def crc_value_def post unat_xor_of_nat [OF x])
qed

theorem crc_msb:
  assumes W: "8 \<le> LENGTH('a)" and w: "0 < w" "w \<le> LENGTH('a)"
    and p: "aligned w (p :: 'a::len word) q" and c0: "aligned w c0 r0" and hi: "hi = 2 ^ (LENGTH('a) - 1)"
    and post: "\<And>c. post c = drop_bit (LENGTH('a) - w) c XOR of_nat x" and x: "x < 2 ^ LENGTH('a)"
  shows "map_option unat (map_option post
      (crc_while (\<lambda>crc d. (msb_round hi p ^^ 8) (crc XOR push_bit (LENGTH('a) - 8) (ucast d)))
        data (unat len) c0)) =
    crc_result \<lparr>cm_width = w, cm_poly = q, cm_init = r0, cm_refin = False, cm_refout = False,
      cm_xorout = x\<rparr> data len"
proof -
  let ?c = "foldl (\<lambda>crc d. (shl_round p ^^ 8) (crc XOR push_bit (LENGTH('a) - 8) (ucast d)))
    c0 (take (unat len) data)"
  have "unat (drop_bit (LENGTH('a) - w) ?c) =
      foldl (lfsr_step w q) r0 (message_bits False (take (unat len) data))"
    using aligned_steps [OF w p c0] w(2) by (intro aligned_drop) (simp_all add: shl_data [OF W])
  then show ?thesis
    by (simp add: crc_while_foldl crc_result_def crc_value_def post unat_xor_of_nat [OF x]
        msb_round_shl [OF hi])
qed

section \<open>The functions\<close>

lemmas aligned_eval = aligned_def word_reverse_def upt_rec

lemma NOT_xor16: "NOT c = c XOR (of_nat 0xFFFF :: u16)"
proof -
  have "of_nat 0xFFFF = (- 1 :: u16)" by simp
  then show ?thesis by (metis bit.xor_one_right)
qed

lemma NOT_xor32: "NOT c = c XOR (of_nat 0xFFFFFFFF :: u32)"
proof -
  have "of_nat 0xFFFFFFFF = (- 1 :: u32)" by simp
  then show ?thesis by (metis bit.xor_one_right)
qed

lemma crc4_itu_model:
  "map_option unat (crc4_itu data len) = crc_result
     \<lparr>cm_width = 4, cm_poly = 0x03, cm_init = 0x00, cm_refin = True, cm_refout = True,
       cm_xorout = 0x00\<rparr> data len"
proof -
  have "aligned 4 (word_reverse (0x0C :: u8)) 0x03" "aligned 4 (word_reverse (0 :: u8)) 0x00"
    by (simp_all add: aligned_eval)
  from crc_lsb [OF _ _ _ this, where post = "\<lambda>c. c" and x = "0x00" and data = data and len = len]
  show ?thesis by (simp add: crc4_itu_def option.map_ident)
qed

lemma crc5_epc_model:
  "map_option unat (crc5_epc data len) = crc_result
     \<lparr>cm_width = 5, cm_poly = 0x09, cm_init = 0x09, cm_refin = False, cm_refout = False,
       cm_xorout = 0x00\<rparr> data len"
proof -
  have "aligned 5 ((0x48 :: u8)) 0x09" "aligned 5 ((0x48 :: u8)) 0x09"
    by (simp_all add: aligned_eval)
  from crc_msb [OF _ _ _ this, where post = "\<lambda>c. drop_bit 3 c" and x = "0x00" and hi = "0x80" and data = data and len = len]
  show ?thesis by (simp add: crc5_epc_def option.map_ident)
qed

lemma crc5_itu_model:
  "map_option unat (crc5_itu data len) = crc_result
     \<lparr>cm_width = 5, cm_poly = 0x15, cm_init = 0x00, cm_refin = True, cm_refout = True,
       cm_xorout = 0x00\<rparr> data len"
proof -
  have "aligned 5 (word_reverse (0x15 :: u8)) 0x15" "aligned 5 (word_reverse (0 :: u8)) 0x00"
    by (simp_all add: aligned_eval)
  from crc_lsb [OF _ _ _ this, where post = "\<lambda>c. c" and x = "0x00" and data = data and len = len]
  show ?thesis by (simp add: crc5_itu_def option.map_ident)
qed

lemma crc5_usb_model:
  "map_option unat (crc5_usb data len) = crc_result
     \<lparr>cm_width = 5, cm_poly = 0x05, cm_init = 0x1F, cm_refin = True, cm_refout = True,
       cm_xorout = 0x1F\<rparr> data len"
proof -
  have "aligned 5 (word_reverse (0x14 :: u8)) 0x05" "aligned 5 (word_reverse (0x1F :: u8)) 0x1F"
    by (simp_all add: aligned_eval)
  from crc_lsb [OF _ _ _ this, where post = "\<lambda>c. c XOR 0x1F" and x = "0x1F" and data = data and len = len]
  show ?thesis by (simp add: crc5_usb_def option.map_ident)
qed

lemma crc6_itu_model:
  "map_option unat (crc6_itu data len) = crc_result
     \<lparr>cm_width = 6, cm_poly = 0x03, cm_init = 0x00, cm_refin = True, cm_refout = True,
       cm_xorout = 0x00\<rparr> data len"
proof -
  have "aligned 6 (word_reverse (0x30 :: u8)) 0x03" "aligned 6 (word_reverse (0 :: u8)) 0x00"
    by (simp_all add: aligned_eval)
  from crc_lsb [OF _ _ _ this, where post = "\<lambda>c. c" and x = "0x00" and data = data and len = len]
  show ?thesis by (simp add: crc6_itu_def option.map_ident)
qed

lemma crc7_mmc_model:
  "map_option unat (crc7_mmc data len) = crc_result
     \<lparr>cm_width = 7, cm_poly = 0x09, cm_init = 0x00, cm_refin = False, cm_refout = False,
       cm_xorout = 0x00\<rparr> data len"
proof -
  have "aligned 7 ((0x12 :: u8)) 0x09" "aligned 7 ((0 :: u8)) 0x00"
    by (simp_all add: aligned_eval)
  from crc_msb [OF _ _ _ this, where post = "\<lambda>c. drop_bit 1 c" and x = "0x00" and hi = "0x80" and data = data and len = len]
  show ?thesis by (simp add: crc7_mmc_def option.map_ident)
qed

lemma crc8_model:
  "map_option unat (crc8 data len) = crc_result
     \<lparr>cm_width = 8, cm_poly = 0x07, cm_init = 0x00, cm_refin = False, cm_refout = False,
       cm_xorout = 0x00\<rparr> data len"
proof -
  have "aligned 8 ((0x07 :: u8)) 0x07" "aligned 8 ((0 :: u8)) 0x00"
    by (simp_all add: aligned_eval)
  from crc_msb [OF _ _ _ this, where post = "\<lambda>c. c" and x = "0x00" and hi = "0x80" and data = data and len = len]
  show ?thesis by (simp add: crc8_def option.map_ident)
qed

lemma crc8_itu_model:
  "map_option unat (crc8_itu data len) = crc_result
     \<lparr>cm_width = 8, cm_poly = 0x07, cm_init = 0x00, cm_refin = False, cm_refout = False,
       cm_xorout = 0x55\<rparr> data len"
proof -
  have "aligned 8 ((0x07 :: u8)) 0x07" "aligned 8 ((0 :: u8)) 0x00"
    by (simp_all add: aligned_eval)
  from crc_msb [OF _ _ _ this, where post = "\<lambda>c. c XOR 0x55" and x = "0x55" and hi = "0x80" and data = data and len = len]
  show ?thesis by (simp add: crc8_itu_def option.map_ident)
qed

lemma crc8_rohc_model:
  "map_option unat (crc8_rohc data len) = crc_result
     \<lparr>cm_width = 8, cm_poly = 0x07, cm_init = 0xFF, cm_refin = True, cm_refout = True,
       cm_xorout = 0x00\<rparr> data len"
proof -
  have "aligned 8 (word_reverse (0xE0 :: u8)) 0x07" "aligned 8 (word_reverse (0xFF :: u8)) 0xFF"
    by (simp_all add: aligned_eval)
  from crc_lsb [OF _ _ _ this, where post = "\<lambda>c. c" and x = "0x00" and data = data and len = len]
  show ?thesis by (simp add: crc8_rohc_def option.map_ident)
qed

lemma crc8_maxim_model:
  "map_option unat (crc8_maxim data len) = crc_result
     \<lparr>cm_width = 8, cm_poly = 0x31, cm_init = 0x00, cm_refin = True, cm_refout = True,
       cm_xorout = 0x00\<rparr> data len"
proof -
  have "aligned 8 (word_reverse (0x8C :: u8)) 0x31" "aligned 8 (word_reverse (0 :: u8)) 0x00"
    by (simp_all add: aligned_eval)
  from crc_lsb [OF _ _ _ this, where post = "\<lambda>c. c" and x = "0x00" and data = data and len = len]
  show ?thesis by (simp add: crc8_maxim_def option.map_ident)
qed

lemma crc16_ibm_model:
  "map_option unat (crc16_ibm data len) = crc_result
     \<lparr>cm_width = 16, cm_poly = 0x8005, cm_init = 0x0000, cm_refin = True, cm_refout = True,
       cm_xorout = 0x0000\<rparr> data len"
proof -
  have "aligned 16 (word_reverse (0xA001 :: u16)) 0x8005" "aligned 16 (word_reverse (0 :: u16)) 0x0000"
    by (simp_all add: aligned_eval)
  from crc_lsb [OF _ _ _ this, where post = "\<lambda>c. c" and x = "0x0000" and data = data and len = len]
  show ?thesis by (simp add: crc16_ibm_def option.map_ident)
qed

lemma crc16_maxim_model:
  "map_option unat (crc16_maxim data len) = crc_result
     \<lparr>cm_width = 16, cm_poly = 0x8005, cm_init = 0x0000, cm_refin = True, cm_refout = True,
       cm_xorout = 0xFFFF\<rparr> data len"
proof -
  have "aligned 16 (word_reverse (0xA001 :: u16)) 0x8005" "aligned 16 (word_reverse (0 :: u16)) 0x0000"
    by (simp_all add: aligned_eval)
  from crc_lsb [OF _ _ _ this NOT_xor16, where data = data and len = len]
  show ?thesis by (simp add: crc16_maxim_def option.map_ident)
qed

lemma crc16_usb_model:
  "map_option unat (crc16_usb data len) = crc_result
     \<lparr>cm_width = 16, cm_poly = 0x8005, cm_init = 0xFFFF, cm_refin = True, cm_refout = True,
       cm_xorout = 0xFFFF\<rparr> data len"
proof -
  have "aligned 16 (word_reverse (0xA001 :: u16)) 0x8005" "aligned 16 (word_reverse (0xFFFF :: u16)) 0xFFFF"
    by (simp_all add: aligned_eval)
  from crc_lsb [OF _ _ _ this NOT_xor16, where data = data and len = len]
  show ?thesis by (simp add: crc16_usb_def option.map_ident)
qed

lemma crc16_modbus_model:
  "map_option unat (crc16_modbus data len) = crc_result
     \<lparr>cm_width = 16, cm_poly = 0x8005, cm_init = 0xFFFF, cm_refin = True, cm_refout = True,
       cm_xorout = 0x0000\<rparr> data len"
proof -
  have "aligned 16 (word_reverse (0xA001 :: u16)) 0x8005" "aligned 16 (word_reverse (0xFFFF :: u16)) 0xFFFF"
    by (simp_all add: aligned_eval)
  from crc_lsb [OF _ _ _ this, where post = "\<lambda>c. c" and x = "0x0000" and data = data and len = len]
  show ?thesis by (simp add: crc16_modbus_def option.map_ident)
qed

lemma crc16_ccitt_model:
  "map_option unat (crc16_ccitt data len) = crc_result
     \<lparr>cm_width = 16, cm_poly = 0x1021, cm_init = 0x0000, cm_refin = True, cm_refout = True,
       cm_xorout = 0x0000\<rparr> data len"
proof -
  have "aligned 16 (word_reverse (0x8408 :: u16)) 0x1021" "aligned 16 (word_reverse (0 :: u16)) 0x0000"
    by (simp_all add: aligned_eval)
  from crc_lsb [OF _ _ _ this, where post = "\<lambda>c. c" and x = "0x0000" and data = data and len = len]
  show ?thesis by (simp add: crc16_ccitt_def option.map_ident)
qed

lemma crc16_ccitt_false_model:
  "map_option unat (crc16_ccitt_false data len) = crc_result
     \<lparr>cm_width = 16, cm_poly = 0x1021, cm_init = 0xFFFF, cm_refin = False, cm_refout = False,
       cm_xorout = 0x0000\<rparr> data len"
proof -
  have "aligned 16 ((0x1021 :: u16)) 0x1021" "aligned 16 ((0xFFFF :: u16)) 0xFFFF"
    by (simp_all add: aligned_eval)
  from crc_msb [OF _ _ _ this, where post = "\<lambda>c. c" and x = "0x0000" and hi = "0x8000" and data = data and len = len]
  show ?thesis by (simp add: crc16_ccitt_false_def option.map_ident)
qed

lemma crc16_x25_model:
  "map_option unat (crc16_x25 data len) = crc_result
     \<lparr>cm_width = 16, cm_poly = 0x1021, cm_init = 0xFFFF, cm_refin = True, cm_refout = True,
       cm_xorout = 0xFFFF\<rparr> data len"
proof -
  have "aligned 16 (word_reverse (0x8408 :: u16)) 0x1021" "aligned 16 (word_reverse (0xFFFF :: u16)) 0xFFFF"
    by (simp_all add: aligned_eval)
  from crc_lsb [OF _ _ _ this NOT_xor16, where data = data and len = len]
  show ?thesis by (simp add: crc16_x25_def option.map_ident)
qed

lemma crc16_xmodem_model:
  "map_option unat (crc16_xmodem data len) = crc_result
     \<lparr>cm_width = 16, cm_poly = 0x1021, cm_init = 0x0000, cm_refin = False, cm_refout = False,
       cm_xorout = 0x0000\<rparr> data len"
proof -
  have "aligned 16 ((0x1021 :: u16)) 0x1021" "aligned 16 ((0 :: u16)) 0x0000"
    by (simp_all add: aligned_eval)
  from crc_msb [OF _ _ _ this, where post = "\<lambda>c. c" and x = "0x0000" and hi = "0x8000" and data = data and len = len]
  show ?thesis by (simp add: crc16_xmodem_def option.map_ident)
qed

lemma crc16_dnp_model:
  "map_option unat (crc16_dnp data len) = crc_result
     \<lparr>cm_width = 16, cm_poly = 0x3D65, cm_init = 0x0000, cm_refin = True, cm_refout = True,
       cm_xorout = 0xFFFF\<rparr> data len"
proof -
  have "aligned 16 (word_reverse (0xA6BC :: u16)) 0x3D65" "aligned 16 (word_reverse (0 :: u16)) 0x0000"
    by (simp_all add: aligned_eval)
  from crc_lsb [OF _ _ _ this NOT_xor16, where data = data and len = len]
  show ?thesis by (simp add: crc16_dnp_def option.map_ident)
qed

lemma crc32_model:
  "map_option unat (crc32 data len) = crc_result
     \<lparr>cm_width = 32, cm_poly = 0x04C11DB7, cm_init = 0xFFFFFFFF, cm_refin = True, cm_refout = True,
       cm_xorout = 0xFFFFFFFF\<rparr> data len"
proof -
  have "aligned 32 (word_reverse (0xEDB88320 :: u32)) 0x04C11DB7" "aligned 32 (word_reverse (0xFFFFFFFF :: u32)) 0xFFFFFFFF"
    by (simp_all add: aligned_eval)
  from crc_lsb [OF _ _ _ this NOT_xor32, where data = data and len = len]
  show ?thesis by (simp add: crc32_def option.map_ident)
qed

lemma crc32_mpeg_2_model:
  "map_option unat (crc32_mpeg_2 data len) = crc_result
     \<lparr>cm_width = 32, cm_poly = 0x04C11DB7, cm_init = 0xFFFFFFFF, cm_refin = False, cm_refout = False,
       cm_xorout = 0x00000000\<rparr> data len"
proof -
  have "aligned 32 ((0x04C11DB7 :: u32)) 0x04C11DB7" "aligned 32 ((0xFFFFFFFF :: u32)) 0xFFFFFFFF"
    by (simp_all add: aligned_eval)
  from crc_msb [OF _ _ _ this, where post = "\<lambda>c. c" and x = "0x00000000" and hi = "0x80000000" and data = data and len = len]
  show ?thesis by (simp add: crc32_mpeg_2_def option.map_ident)
qed

section \<open>Burst errors\<close>

text \<open>Two bit sequences that differ in a window of at most \<open>k\<close> bits.\<close>

definition burst :: "nat \<Rightarrow> bool list \<Rightarrow> bool list \<Rightarrow> bool" where
  "burst k xs ys \<longleftrightarrow>
     (\<exists>pre u v post. xs = pre @ u @ post \<and> ys = pre @ v @ post \<and>
        length u = length v \<and> length u \<le> k \<and> u \<noteq> v)"

lemma shl_round_inj:
  assumes p: "bit p 0" and e: "shl_round p a = shl_round p b"
  shows "a = (b :: 'a::len word)"
proof (rule bit_word_eqI)
  fix i assume i: "i < LENGTH('a)"
  have hi: "bit a (LENGTH('a) - 1) = bit b (LENGTH('a) - 1)"
    using e p bit_shl_round [of p a 0] bit_shl_round [of p b 0] by simp
  show "bit a i = bit b i"
  proof (cases "Suc i < LENGTH('a)")
    case True
    then show ?thesis
      using e hi bit_shl_round [of p a "Suc i"] bit_shl_round [of p b "Suc i"] by auto
  next
    case False
    with i have "i = LENGTH('a) - 1" by simp
    with hi show ?thesis by simp
  qed
qed

lemma shl_rounds_inj:
  "\<lbrakk>bit p 0; (shl_round p ^^ n) a = (shl_round p ^^ n) b\<rbrakk> \<Longrightarrow> a = b"
  by (induction n) (auto dest: shl_round_inj)

lemma xor_cancel: "a XOR b = a XOR c \<Longrightarrow> b = (c :: 'a::semiring_bit_operations)"
proof (rule bit_eqI)
  fix n assume "a XOR b = a XOR c"
  then have "bit (a XOR b) n = bit (a XOR c) n" by simp
  then show "bit b n = bit c n" by (auto simp: bit_xor_iff)
qed

lemma shl_foldl_inj:
  "\<lbrakk>bit p 0; foldl (shl_step p) a bs = foldl (shl_step p) b bs\<rbrakk> \<Longrightarrow> a = b"
proof (induction bs arbitrary: a b)
  case (Cons x bs)
  then have "shl_step p a x = shl_step p b x" by simp
  then have "a XOR top_bit x = b XOR top_bit x"
    unfolding shl_step_def using Cons.prems(1) shl_round_inj by blast
  then show ?case by (metis xor_cancel xor.commute)
qed simp

lemma top_bits_inj:
  assumes "length u = length v" and "length u \<le> LENGTH('a)" and "top_bits u = (top_bits v :: 'a::len word)"
  shows "u = v"
proof (rule nth_equalityI)
  fix i assume i: "i < length u"
  then have j: "LENGTH('a) - 1 - i < LENGTH('a)" "LENGTH('a) - 1 - (LENGTH('a) - 1 - i) = i"
    using assms(2) by arith+
  have "bit (top_bits u :: 'a word) (LENGTH('a) - 1 - i) = bit (top_bits v :: 'a word) (LENGTH('a) - 1 - i)"
    using assms(3) by simp
  with i j assms(1) show "u ! i = v ! i" by (simp add: bit_top_bits)
qed (rule assms(1))

lemma shl_burst:
  assumes p: "bit (p :: 'a::len word) 0" and b: "burst LENGTH('a) xs ys"
  shows "foldl (shl_step p) c xs \<noteq> foldl (shl_step p) c ys"
proof
  assume e: "foldl (shl_step p) c xs = foldl (shl_step p) c ys"
  obtain pre u v post where s: "xs = pre @ u @ post" "ys = pre @ v @ post"
    "length u = length v" "length u \<le> LENGTH('a)" "u \<noteq> v" using b by (auto simp: burst_def)
  let ?c = "foldl (shl_step p) c pre"
  have "foldl (shl_step p) (foldl (shl_step p) ?c u) post = foldl (shl_step p) (foldl (shl_step p) ?c v) post"
    using e s(1,2) by simp
  from shl_foldl_inj [OF p this] have "foldl (shl_step p) ?c u = foldl (shl_step p) ?c v" .
  then have "(shl_round p ^^ length u) (?c XOR top_bits u) = (shl_round p ^^ length u) (?c XOR top_bits v)"
    using shl_steps [OF s(4), of p ?c] shl_steps [of v p ?c] s(3,4) by (simp only:)
  then have "top_bits u = (top_bits v :: 'a word)"
    using shl_rounds_inj [OF p, of "length u" "?c XOR top_bits u" "?c XOR top_bits v"]
      xor_cancel [of ?c "top_bits u" "top_bits v"] by blast
  with top_bits_inj [OF s(3,4)] s(5) show False by blast
qed

lemma reflect_inj:
  assumes "reflect w a = reflect w b" and "a < 2 ^ w" and "b < 2 ^ w"
  shows "a = b"
proof (rule bit_eqI)
  fix i
  show "bit a i = bit b i"
  proof (cases "i < w")
    case True
    then have "w - Suc (w - Suc i) = i" by simp
    with True assms(1) bit_reflect [of w a "w - Suc i"] bit_reflect [of w b "w - Suc i"] show ?thesis by simp
  next
    case False
    with assms(2,3) show ?thesis by (auto simp: less_pow_bits)
  qed
qed

text \<open>The type \<^typ>\<open>'a\<close> fixes the width of the register.\<close>

lemma crc_value_burst:
  assumes w: "cm_width m = LENGTH('a::len)" and p: "odd (cm_poly m)" "cm_poly m < 2 ^ LENGTH('a)"
    and i: "cm_init m < 2 ^ LENGTH('a)"
    and b: "burst LENGTH('a) (message_bits (cm_refin m) d1) (message_bits (cm_refin m) d2)"
  shows "crc_value m d1 \<noteq> crc_value m d2"
proof
  assume e: "crc_value m d1 = crc_value m d2"
  let ?r = "\<lambda>d. foldl (lfsr_step LENGTH('a) (cm_poly m)) (cm_init m) (message_bits (cm_refin m) d)"
  let ?c = "\<lambda>d. foldl (shl_step (of_nat (cm_poly m) :: 'a word)) (of_nat (cm_init m)) (message_bits (cm_refin m) d)"
  have al: "aligned LENGTH('a) (?c d) (?r d)" for d
    using p i by (intro aligned_steps) (simp_all add: aligned_def)
  have lt: "?r d < 2 ^ LENGTH('a)" for d using al [of d] by (simp add: aligned_def)
  let ?g = "\<lambda>d. if cm_refout m then reflect LENGTH('a) (?r d) else ?r d"
  have "cm_xorout m XOR ?g d1 = cm_xorout m XOR ?g d2"
    using e unfolding crc_value_def Let_def w by (simp only: xor.commute)
  from xor_cancel [OF this] have "?r d1 = ?r d2"
    using reflect_inj [OF _ lt [of d1] lt [of d2]] by (cases "cm_refout m") simp_all
  then have "?c d1 = ?c d2" using al by (simp add: aligned_def)
  moreover have "bit (of_nat (cm_poly m) :: 'a word) 0" using p(1) by (simp add: bit_of_nat_iff bit_0)
  ultimately show False using shl_burst [OF _ b] by blast
qed

text \<open>A check sum over \<open>len\<close> bytes that tells any two messages with a burst of up to \<open>w\<close> bits apart.\<close>

definition detects_bursts :: "(byte list \<Rightarrow> u16 \<Rightarrow> 'r option) \<Rightarrow> nat \<Rightarrow> bool \<Rightarrow> bool" where
  "detects_bursts f w rf \<longleftrightarrow>
     (\<forall>d1 d2 len. length d1 = unat len \<and> length d2 = unat len \<and>
        burst w (message_bits rf d1) (message_bits rf d2) \<longrightarrow> f d1 len \<noteq> f d2 len)"

lemma crc_detects:
  assumes f: "\<And>data len. map_option unat (f data len) = crc_result m data len"
    and "cm_width m = LENGTH('a::len)" "odd (cm_poly m)" "cm_poly m < 2 ^ LENGTH('a)"
      "cm_init m < 2 ^ LENGTH('a)"
  shows "detects_bursts f LENGTH('a) (cm_refin m)"
  unfolding detects_bursts_def
proof (intro allI impI, elim conjE)
  fix d1 d2 and len :: u16
  assume len: "length d1 = unat len" "length d2 = unat len"
    and b: "burst LENGTH('a) (message_bits (cm_refin m) d1) (message_bits (cm_refin m) d2)"
  show "f d1 len \<noteq> f d2 len"
  proof
    assume "f d1 len = f d2 len"
    then have "crc_result m d1 len = crc_result m d2 len" using f by metis
    then have "crc_value m d1 = crc_value m d2" using len by (simp add: crc_result_def)
    with crc_value_burst [OF assms(2-5) b] show False by simp
  qed
qed

lemma crc4_itu_detects: "detects_bursts crc4_itu 4 True"
  using crc_detects [where 'a = 4, OF crc4_itu_model] by simp

lemma crc5_epc_detects: "detects_bursts crc5_epc 5 False"
  using crc_detects [where 'a = 5, OF crc5_epc_model] by simp

lemma crc5_itu_detects: "detects_bursts crc5_itu 5 True"
  using crc_detects [where 'a = 5, OF crc5_itu_model] by simp

lemma crc5_usb_detects: "detects_bursts crc5_usb 5 True"
  using crc_detects [where 'a = 5, OF crc5_usb_model] by simp

lemma crc6_itu_detects: "detects_bursts crc6_itu 6 True"
  using crc_detects [where 'a = 6, OF crc6_itu_model] by simp

lemma crc7_mmc_detects: "detects_bursts crc7_mmc 7 False"
  using crc_detects [where 'a = 7, OF crc7_mmc_model] by simp

lemma crc8_detects: "detects_bursts crc8 8 False"
  using crc_detects [where 'a = 8, OF crc8_model] by simp

lemma crc8_itu_detects: "detects_bursts crc8_itu 8 False"
  using crc_detects [where 'a = 8, OF crc8_itu_model] by simp

lemma crc8_rohc_detects: "detects_bursts crc8_rohc 8 True"
  using crc_detects [where 'a = 8, OF crc8_rohc_model] by simp

lemma crc8_maxim_detects: "detects_bursts crc8_maxim 8 True"
  using crc_detects [where 'a = 8, OF crc8_maxim_model] by simp

lemma crc16_ibm_detects: "detects_bursts crc16_ibm 16 True"
  using crc_detects [where 'a = 16, OF crc16_ibm_model] by simp

lemma crc16_maxim_detects: "detects_bursts crc16_maxim 16 True"
  using crc_detects [where 'a = 16, OF crc16_maxim_model] by simp

lemma crc16_usb_detects: "detects_bursts crc16_usb 16 True"
  using crc_detects [where 'a = 16, OF crc16_usb_model] by simp

lemma crc16_modbus_detects: "detects_bursts crc16_modbus 16 True"
  using crc_detects [where 'a = 16, OF crc16_modbus_model] by simp

lemma crc16_ccitt_detects: "detects_bursts crc16_ccitt 16 True"
  using crc_detects [where 'a = 16, OF crc16_ccitt_model] by simp

lemma crc16_ccitt_false_detects: "detects_bursts crc16_ccitt_false 16 False"
  using crc_detects [where 'a = 16, OF crc16_ccitt_false_model] by simp

lemma crc16_x25_detects: "detects_bursts crc16_x25 16 True"
  using crc_detects [where 'a = 16, OF crc16_x25_model] by simp

lemma crc16_xmodem_detects: "detects_bursts crc16_xmodem 16 False"
  using crc_detects [where 'a = 16, OF crc16_xmodem_model] by simp

lemma crc16_dnp_detects: "detects_bursts crc16_dnp 16 True"
  using crc_detects [where 'a = 16, OF crc16_dnp_model] by simp

lemma crc32_detects: "detects_bursts crc32 32 True"
  using crc_detects [where 'a = 32, OF crc32_model] by simp

lemma crc32_mpeg_2_detects: "detects_bursts crc32_mpeg_2 32 False"
  using crc_detects [where 'a = 32, OF crc32_mpeg_2_model] by simp

section \<open>Properties\<close>

text \<open>
  C32. Each of the 21 functions computes, on every message within the data, the value of the model its header
  comment documents; a length beyond the data is undefined.  The two 32-bit functions have the initial value
  \<open>0xFFFFFFFF\<close>; the comments give their constants with seven digits, which is a different check sum already
  on the empty message.
\<close>

theorem crc_functions_match_their_models:
  "map_option unat (crc4_itu data len) = crc_result
     \<lparr>cm_width = 4, cm_poly = 0x03, cm_init = 0x00, cm_refin = True, cm_refout = True,
       cm_xorout = 0x00\<rparr> data len \<and>
   map_option unat (crc5_epc data len) = crc_result
     \<lparr>cm_width = 5, cm_poly = 0x09, cm_init = 0x09, cm_refin = False, cm_refout = False,
       cm_xorout = 0x00\<rparr> data len \<and>
   map_option unat (crc5_itu data len) = crc_result
     \<lparr>cm_width = 5, cm_poly = 0x15, cm_init = 0x00, cm_refin = True, cm_refout = True,
       cm_xorout = 0x00\<rparr> data len \<and>
   map_option unat (crc5_usb data len) = crc_result
     \<lparr>cm_width = 5, cm_poly = 0x05, cm_init = 0x1F, cm_refin = True, cm_refout = True,
       cm_xorout = 0x1F\<rparr> data len \<and>
   map_option unat (crc6_itu data len) = crc_result
     \<lparr>cm_width = 6, cm_poly = 0x03, cm_init = 0x00, cm_refin = True, cm_refout = True,
       cm_xorout = 0x00\<rparr> data len \<and>
   map_option unat (crc7_mmc data len) = crc_result
     \<lparr>cm_width = 7, cm_poly = 0x09, cm_init = 0x00, cm_refin = False, cm_refout = False,
       cm_xorout = 0x00\<rparr> data len \<and>
   map_option unat (crc8 data len) = crc_result
     \<lparr>cm_width = 8, cm_poly = 0x07, cm_init = 0x00, cm_refin = False, cm_refout = False,
       cm_xorout = 0x00\<rparr> data len \<and>
   map_option unat (crc8_itu data len) = crc_result
     \<lparr>cm_width = 8, cm_poly = 0x07, cm_init = 0x00, cm_refin = False, cm_refout = False,
       cm_xorout = 0x55\<rparr> data len \<and>
   map_option unat (crc8_rohc data len) = crc_result
     \<lparr>cm_width = 8, cm_poly = 0x07, cm_init = 0xFF, cm_refin = True, cm_refout = True,
       cm_xorout = 0x00\<rparr> data len \<and>
   map_option unat (crc8_maxim data len) = crc_result
     \<lparr>cm_width = 8, cm_poly = 0x31, cm_init = 0x00, cm_refin = True, cm_refout = True,
       cm_xorout = 0x00\<rparr> data len \<and>
   map_option unat (crc16_ibm data len) = crc_result
     \<lparr>cm_width = 16, cm_poly = 0x8005, cm_init = 0x0000, cm_refin = True, cm_refout = True,
       cm_xorout = 0x0000\<rparr> data len \<and>
   map_option unat (crc16_maxim data len) = crc_result
     \<lparr>cm_width = 16, cm_poly = 0x8005, cm_init = 0x0000, cm_refin = True, cm_refout = True,
       cm_xorout = 0xFFFF\<rparr> data len \<and>
   map_option unat (crc16_usb data len) = crc_result
     \<lparr>cm_width = 16, cm_poly = 0x8005, cm_init = 0xFFFF, cm_refin = True, cm_refout = True,
       cm_xorout = 0xFFFF\<rparr> data len \<and>
   map_option unat (crc16_modbus data len) = crc_result
     \<lparr>cm_width = 16, cm_poly = 0x8005, cm_init = 0xFFFF, cm_refin = True, cm_refout = True,
       cm_xorout = 0x0000\<rparr> data len \<and>
   map_option unat (crc16_ccitt data len) = crc_result
     \<lparr>cm_width = 16, cm_poly = 0x1021, cm_init = 0x0000, cm_refin = True, cm_refout = True,
       cm_xorout = 0x0000\<rparr> data len \<and>
   map_option unat (crc16_ccitt_false data len) = crc_result
     \<lparr>cm_width = 16, cm_poly = 0x1021, cm_init = 0xFFFF, cm_refin = False, cm_refout = False,
       cm_xorout = 0x0000\<rparr> data len \<and>
   map_option unat (crc16_x25 data len) = crc_result
     \<lparr>cm_width = 16, cm_poly = 0x1021, cm_init = 0xFFFF, cm_refin = True, cm_refout = True,
       cm_xorout = 0xFFFF\<rparr> data len \<and>
   map_option unat (crc16_xmodem data len) = crc_result
     \<lparr>cm_width = 16, cm_poly = 0x1021, cm_init = 0x0000, cm_refin = False, cm_refout = False,
       cm_xorout = 0x0000\<rparr> data len \<and>
   map_option unat (crc16_dnp data len) = crc_result
     \<lparr>cm_width = 16, cm_poly = 0x3D65, cm_init = 0x0000, cm_refin = True, cm_refout = True,
       cm_xorout = 0xFFFF\<rparr> data len \<and>
   map_option unat (crc32 data len) = crc_result
     \<lparr>cm_width = 32, cm_poly = 0x04C11DB7, cm_init = 0xFFFFFFFF, cm_refin = True, cm_refout = True,
       cm_xorout = 0xFFFFFFFF\<rparr> data len \<and>
   map_option unat (crc32_mpeg_2 data len) = crc_result
     \<lparr>cm_width = 32, cm_poly = 0x04C11DB7, cm_init = 0xFFFFFFFF, cm_refin = False, cm_refout = False,
       cm_xorout = 0x00000000\<rparr> data len \<and>
   crc_result \<lparr>cm_width = 32, cm_poly = 0x04C11DB7, cm_init = 0xFFFFFFF, cm_refin = True, cm_refout = True,
     cm_xorout = 0xFFFFFFF\<rparr> [] 0 \<noteq> map_option unat (crc32 [] 0)"
proof -
  have "map_option unat (crc32 [] 0) = Some 0" by (simp add: crc32_def)
  moreover have "crc_result \<lparr>cm_width = 32, cm_poly = 0x04C11DB7, cm_init = 0xFFFFFFF, cm_refin = True,
    cm_refout = True, cm_xorout = 0xFFFFFFF\<rparr> [] 0 \<noteq> Some 0"
    by (simp add: crc_result_def crc_value_def message_bits_def reflect_def upt_rec)
  ultimately show ?thesis by (intro conjI crc4_itu_model crc5_epc_model crc5_itu_model crc5_usb_model crc6_itu_model crc7_mmc_model crc8_model crc8_itu_model crc8_rohc_model crc8_maxim_model
    crc16_ibm_model crc16_maxim_model crc16_usb_model crc16_modbus_model crc16_ccitt_model crc16_ccitt_false_model crc16_x25_model crc16_xmodem_model crc16_dnp_model crc32_model crc32_mpeg_2_model) (simp only: not_False_eq_True)
qed

text \<open>
  C25. Every one of the check sums detects every burst error no longer than its register: two
  messages of the same length that differ in a window of at most \<open>width\<close> bits, in the order the
  function takes in the bits, have different check sums.
\<close>

theorem crc_burst_errors_are_detected:
  "detects_bursts crc4_itu 4 True \<and>
   detects_bursts crc5_epc 5 False \<and>
   detects_bursts crc5_itu 5 True \<and>
   detects_bursts crc5_usb 5 True \<and>
   detects_bursts crc6_itu 6 True \<and>
   detects_bursts crc7_mmc 7 False \<and>
   detects_bursts crc8 8 False \<and>
   detects_bursts crc8_itu 8 False \<and>
   detects_bursts crc8_rohc 8 True \<and>
   detects_bursts crc8_maxim 8 True \<and>
   detects_bursts crc16_ibm 16 True \<and>
   detects_bursts crc16_maxim 16 True \<and>
   detects_bursts crc16_usb 16 True \<and>
   detects_bursts crc16_modbus 16 True \<and>
   detects_bursts crc16_ccitt 16 True \<and>
   detects_bursts crc16_ccitt_false 16 False \<and>
   detects_bursts crc16_x25 16 True \<and>
   detects_bursts crc16_xmodem 16 False \<and>
   detects_bursts crc16_dnp 16 True \<and>
   detects_bursts crc32 32 True \<and>
   detects_bursts crc32_mpeg_2 32 False"
  by (intro conjI crc4_itu_detects
    crc5_epc_detects
    crc5_itu_detects
    crc5_usb_detects
    crc6_itu_detects
    crc7_mmc_detects
    crc8_detects
    crc8_itu_detects
    crc8_rohc_detects
    crc8_maxim_detects
    crc16_ibm_detects
    crc16_maxim_detects
    crc16_usb_detects
    crc16_modbus_detects
    crc16_ccitt_detects
    crc16_ccitt_false_detects
    crc16_x25_detects
    crc16_xmodem_detects
    crc16_dnp_detects
    crc32_detects
    crc32_mpeg_2_detects)

theorem crc_burst_errors_are_detected_witness:
  "crc16_modbus [0x12, 0x34] 2 \<noteq> crc16_modbus [0x13, 0x34] 2"
proof -
  have "message_bits True [0x12, 0x34 :: byte] = [] @ [False] @ tl (message_bits True [0x12, 0x34])"
    "message_bits True [0x13, 0x34 :: byte] = [] @ [True] @ tl (message_bits True [0x12, 0x34])"
    by (simp_all add: message_bits_def byte_bits_def upt_rec)
  then have "burst 16 (message_bits True [0x12, 0x34]) (message_bits True [0x13, 0x34])"
    unfolding burst_def by (intro exI [of _ "[]"] exI [of _ "[False]"] exI [of _ "[True]"] exI) auto
  moreover have "detects_bursts crc16_modbus 16 True"
    using crc_burst_errors_are_detected by blast
  ultimately show ?thesis by (simp add: detects_bursts_def)
qed

end
