(* ===== verification/Base64_Codec.thy ===== *)
theory Base64_Codec
  imports Base_Prelude "HOL-Library.Monad_Syntax"
begin

unbundle bit_operations_syntax

text \<open>
  The Base64 coder of \<^verbatim>\<open>base/src/dsa/base64.c\<close>.  Strings and buffers are lists of bytes; reading or
  writing outside of them is \<^const>\<open>None\<close>, as is a failed \<open>assert\<close>; the buffer pointers are not null.
  The result of a function is the value it returns and the content of the target buffer then.
  Sizes are natural numbers; the conversion of the result to \<open>int\<close> is written out.

  The specification is RFC 1521's: groups of 24 bits read as four digits to the base 64.  The
  theory shows that the encoder writes this encoding, null-terminated, exactly when there is room
  for it, that the decoder ignores white space, stays inside its buffers, and accepts exactly the
  encodings, returning the bytes they encode.
\<close>

section \<open>The code\<close>

definition Base64 :: "byte list" where
  "Base64 = map of_char ''ABCDEFGHIJKLMNOPQRSTUVWXYZabcdefghijklmnopqrstuvwxyz0123456789+/'' @ [0]"

definition Pad64 :: byte where
  "Pad64 = of_char CHR ''=''"

definition at :: "byte list \<Rightarrow> nat \<Rightarrow> byte option" where
  "at t i = (if i < length t then Some (t ! i) else None)"

definition put :: "byte list \<Rightarrow> nat \<Rightarrow> byte \<Rightarrow> byte list option" where
  "put t i v = (if i < length t then Some (t[i := v]) else None)"

text \<open>\<open>(int) n\<close> for a \<open>size_t\<close>\<close>

definition to_int :: "nat \<Rightarrow> int" where
  "to_int n = sint (of_nat n :: 32 word)"

text \<open>
  The main loop of \<open>base64_encode\<close>.  \<open>Inl\<close> is an early return, \<open>Inr (src, srclength, datalength)\<close> the end
  of the loop.
\<close>

fun encode_while :: "byte list \<Rightarrow> nat \<Rightarrow> byte list \<Rightarrow> nat \<Rightarrow> nat \<Rightarrow>
    ((int + (byte list \<times> nat \<times> nat)) \<times> byte list) option" where
  "encode_while src srclength target datalength dest_len =
     (if 2 < srclength then
        do {
          input0 \<leftarrow> at src 0;
          input1 \<leftarrow> at src 1;
          input2 \<leftarrow> at src 2;
          let output0 = drop_bit 2 input0;
          let output1 = push_bit 4 (input0 AND 0x03) + drop_bit 4 input1;
          let output2 = push_bit 2 (input1 AND 0x0f) + drop_bit 6 input2;
          let output3 = input2 AND 0x3f;
          if datalength + 4 > dest_len then Some (Inl (-1), target)
          else do {
            c0 \<leftarrow> at Base64 (unat output0);
            target \<leftarrow> put target datalength c0;
            c1 \<leftarrow> at Base64 (unat output1);
            target \<leftarrow> put target (datalength + 1) c1;
            c2 \<leftarrow> at Base64 (unat output2);
            target \<leftarrow> put target (datalength + 2) c2;
            c3 \<leftarrow> at Base64 (unat output3);
            target \<leftarrow> put target (datalength + 3) c3;
            encode_while (drop 3 src) (srclength - 3) target (datalength + 4) dest_len
          }
        }
      else Some (Inr (src, srclength, datalength), target))"

declare encode_while.simps [simp del]

text \<open>\<open>for (i = 0; i < srclength; i++) input[i] = *src++\<close>, for the one or two bytes that are left\<close>

definition encode_rest :: "byte list \<Rightarrow> nat \<Rightarrow> (byte \<times> byte) option" where
  "encode_rest src srclength =
     do {
       input0 \<leftarrow> at src 0;
       input1 \<leftarrow> (if 1 < srclength then at src 1 else Some 0);
       Some (input0, input1)
     }"

definition base64_encode :: "byte list \<Rightarrow> nat \<Rightarrow> byte list \<Rightarrow> nat \<Rightarrow> (int \<times> byte list) option" where
  "base64_encode src srclength dest dest_len =
     (if dest_len = 0 then None
      else case encode_while src srclength dest 0 dest_len of
        None \<Rightarrow> None
      | Some (Inl r, target) \<Rightarrow> Some (r, target)
      | Some (Inr (src, srclength, datalength), target) \<Rightarrow>
          do {
            (r, datalength, target) \<leftarrow>
              (if srclength \<noteq> 0 then
                 do {
                   (input0, input1) \<leftarrow> encode_rest src srclength;
                   let output0 = drop_bit 2 input0;
                   let output1 = push_bit 4 (input0 AND 0x03) + drop_bit 4 input1;
                   let output2 = push_bit 2 (input1 AND 0x0f) + drop_bit 6 (0 :: byte);
                   if datalength + 4 > dest_len then Some (True, datalength, target)
                   else do {
                     c0 \<leftarrow> at Base64 (unat output0);
                     target \<leftarrow> put target datalength c0;
                     c1 \<leftarrow> at Base64 (unat output1);
                     target \<leftarrow> put target (datalength + 1) c1;
                     c2 \<leftarrow> (if srclength = 1 then Some Pad64 else at Base64 (unat output2));
                     target \<leftarrow> put target (datalength + 2) c2;
                     target \<leftarrow> put target (datalength + 3) Pad64;
                     Some (False, datalength + 4, target)
                   }
                 }
               else Some (False, datalength, target));
            if r \<or> datalength \<ge> dest_len then Some (-1, target)
            else do {
              target \<leftarrow> put target datalength 0;
              Some (to_int datalength, target)
            }
          })"

text \<open>\<open>isspace\<close> in the locale \<open>"C"\<close>\<close>

definition isspace :: "byte \<Rightarrow> bool" where
  "isspace ch \<longleftrightarrow> ch = 0x20 \<or> 0x09 \<le> ch \<and> ch \<le> 0x0d"

text \<open>\<open>strchr(s, ch)\<close>, as an offset from \<open>s\<close>\<close>

fun strchr :: "byte list \<Rightarrow> byte \<Rightarrow> nat option" where
  "strchr [] ch = None"
| "strchr (c # s) ch =
     (if c = ch then Some 0 else if c = 0 then None else map_option Suc (strchr s ch))"

text \<open>
  The \<open>switch\<close> of \<open>base64_decode\<close> for the character at offset \<open>p\<close> of the alphabet: \<open>Inl\<close> is a return,
  \<open>Inr (state, tarindex)\<close> the state after it.
\<close>

definition decode_mid ::
  "nat \<Rightarrow> nat \<Rightarrow> byte \<Rightarrow> byte \<Rightarrow> nat \<Rightarrow> byte list \<Rightarrow> ((int + (nat \<times> nat)) \<times> byte list) option" where
  "decode_mid next tarindex bits nextbyte dest_len target =
     (if tarindex \<ge> dest_len then Some (Inl (-1), target)
      else do {
        old \<leftarrow> at target tarindex;
        target \<leftarrow> put target tarindex (old OR bits);
        if tarindex + 1 < dest_len then
          do {
            target \<leftarrow> put target (tarindex + 1) nextbyte;
            Some (Inr (next, tarindex + 1), target)
          }
        else if nextbyte \<noteq> 0 then Some (Inl (-1), target)
        else Some (Inr (next, tarindex + 1), target)
      })"

definition decode_switch ::
  "nat \<Rightarrow> nat \<Rightarrow> byte \<Rightarrow> nat \<Rightarrow> byte list \<Rightarrow> ((int + (nat \<times> nat)) \<times> byte list) option" where
  "decode_switch state tarindex p dest_len target =
     (if state = 0 then
        (if tarindex \<ge> dest_len then Some (Inl (-1), target)
         else do {
           target \<leftarrow> put target tarindex (push_bit 2 p);
           Some (Inr (1, tarindex), target)
         })
      else if state = 1 then
        decode_mid 2 tarindex (drop_bit 4 p) (push_bit 4 (p AND 0x0f)) dest_len target
      else if state = 2 then
        decode_mid 3 tarindex (drop_bit 2 p) (push_bit 6 (p AND 0x03)) dest_len target
      else if state = 3 then
        (if tarindex \<ge> dest_len then Some (Inl (-1), target)
         else do {
           old \<leftarrow> at target tarindex;
           target \<leftarrow> put target tarindex (old OR p);
           Some (Inr (0, tarindex + 1), target)
         })
      else Some (Inr (state, tarindex), target))"

text \<open>The main loop: \<open>Inl\<close> is a return, \<open>Inr (ch, src, state, tarindex)\<close> the end of the loop.\<close>

fun decode_while :: "byte list \<Rightarrow> nat \<Rightarrow> nat \<Rightarrow> nat \<Rightarrow> byte list \<Rightarrow>
    ((int + (byte \<times> byte list \<times> nat \<times> nat)) \<times> byte list) option" where
  "decode_while [] state tarindex dest_len target = None"
| "decode_while (ch # src) state tarindex dest_len target =
     (if ch = 0 then Some (Inr (ch, src, state, tarindex), target)
      else if isspace ch then decode_while src state tarindex dest_len target
      else if ch = Pad64 then Some (Inr (ch, src, state, tarindex), target)
      else case strchr Base64 ch of
        None \<Rightarrow> Some (Inl (-1), target)
      | Some p \<Rightarrow>
          (case decode_switch state tarindex (of_nat p) dest_len target of
             None \<Rightarrow> None
           | Some (Inl r, target) \<Rightarrow> Some (Inl r, target)
           | Some (Inr (state, tarindex), target) \<Rightarrow> decode_while src state tarindex dest_len target))"

text \<open>\<open>for (; ch != '\0'; ch = *src++) if (!isspace(ch)) break\<close>: the character that stopped the loop and the rest\<close>

fun skip_spaces :: "byte \<Rightarrow> byte list \<Rightarrow> (byte \<times> byte list) option" where
  "skip_spaces ch src =
     (if ch = 0 \<or> \<not> isspace ch then Some (ch, src)
      else case src of [] \<Rightarrow> None | ch # src \<Rightarrow> skip_spaces ch src)"

declare skip_spaces.simps [simp del]

text \<open>What follows a pad character: whether the trailing characters are accepted.\<close>

definition decode_trailer :: "byte list \<Rightarrow> nat \<Rightarrow> bool option" where
  "decode_trailer src state =
     (case src of
        [] \<Rightarrow> None
      | ch # src \<Rightarrow>
          if state = 0 \<or> state = 1 then Some False
          else if state = 2 then
            do {
              (ch, src) \<leftarrow> skip_spaces ch src;
              if ch \<noteq> Pad64 then Some False
              else (case src of
                  [] \<Rightarrow> None
                | ch # src \<Rightarrow> map_option (\<lambda>(ch, _). ch = 0) (skip_spaces ch src))
            }
          else map_option (\<lambda>(ch, _). ch = 0) (skip_spaces ch src))"

definition base64_decode :: "byte list \<Rightarrow> byte list \<Rightarrow> nat \<Rightarrow> (int \<times> byte list) option" where
  "base64_decode src dest dest_len =
     (if dest_len = 0 then None
      else case decode_while src 0 0 dest_len dest of
        None \<Rightarrow> None
      | Some (Inl r, target) \<Rightarrow> Some (r, target)
      | Some (Inr (ch, src, state, tarindex), target) \<Rightarrow>
          do {
            ok \<leftarrow>
              (if ch = Pad64 then
                 do {
                   ok \<leftarrow> decode_trailer src state;
                   if ok \<and> tarindex < dest_len then
                     do {
                       slop \<leftarrow> at target tarindex;
                       Some (slop = 0)
                     }
                   else Some ok
                 }
               else Some (state = 0));
            if \<not> ok then Some (-1, target)
            else if tarindex < dest_len then
              do {
                target \<leftarrow> put target tarindex 0;
                Some (to_int tarindex, target)
              }
            else Some (to_int tarindex, target)
          })"

definition BASE64_ENCODE_LEN :: "nat \<Rightarrow> nat" where
  "BASE64_ENCODE_LEN n = ((n + 2) div 3) * 4 + 1"

definition BASE64_DECODE_LEN :: "nat \<Rightarrow> nat" where
  "BASE64_DECODE_LEN n = (n div 4) * 3 + 1"

section \<open>The specification\<close>

text \<open>Three bytes as a number of 24 bits, and its digits to the base 64; missing bytes are zero.\<close>

definition group24 :: "byte \<Rightarrow> byte \<Rightarrow> byte \<Rightarrow> nat" where
  "group24 a b c = unat a * 2 ^ 16 + unat b * 2 ^ 8 + unat c"

definition digit :: "nat \<Rightarrow> byte" where
  "digit n = Base64 ! n"

fun b64_spec :: "byte list \<Rightarrow> byte list" where
  "b64_spec [] = []"
| "b64_spec [a] =
     [digit (group24 a 0 0 div 64 ^ 3 mod 64), digit (group24 a 0 0 div 64 ^ 2 mod 64), Pad64, Pad64]"
| "b64_spec [a, b] =
     [digit (group24 a b 0 div 64 ^ 3 mod 64), digit (group24 a b 0 div 64 ^ 2 mod 64),
      digit (group24 a b 0 div 64 mod 64), Pad64]"
| "b64_spec (a # b # c # s) =
     [digit (group24 a b c div 64 ^ 3 mod 64), digit (group24 a b c div 64 ^ 2 mod 64),
      digit (group24 a b c div 64 mod 64), digit (group24 a b c mod 64)] @ b64_spec s"

section \<open>Sextets\<close>

lemma mod_digits:
  fixes a x :: nat
  assumes "x < k" and "0 < m"
  shows "(k * a + x) mod (k * m) = a mod m * k + x"
proof -
  have "a = a mod m + m * (a div m)" by simp
  then have "k * a + x = (a mod m * k + x) + (k * m) * (a div m)"
    by (metis add.assoc add.commute distrib_left mult.assoc mult.commute)
  moreover have "a mod m * k + x < k * m"
  proof -
    have "Suc (a mod m) * k \<le> m * k" using assms(2) by (intro mult_le_mono1) (simp add: Suc_le_eq)
    then show ?thesis using assms(1) by (simp add: mult.commute)
  qed
  ultimately show ?thesis by (metis mod_less mod_mult_self2)
qed

lemma sextet1:
  fixes A B C :: nat
  assumes "B < 256" "C < 256"
  shows "(A * 65536 + B * 256 + C) div 4096 mod 64 = A mod 4 * 16 + B div 16"
proof -
  define d m where "d = B div 16" and "m = B mod 16"
  have "B = 16 * d + m" "m < 16" by (simp_all add: d_def m_def)
  then have "(A * 65536 + B * 256 + C) div 4096 = 16 * A + d"
    using assms by (intro div_nat_eqI) simp_all
  then show ?thesis using assms mod_digits [of d 16 4 A] by (simp add: d_def)
qed

lemma sextet2:
  fixes A B C :: nat
  assumes "C < 256"
  shows "(A * 65536 + B * 256 + C) div 64 mod 64 = B mod 16 * 4 + C div 64"
proof -
  define d m where "d = C div 64" and "m = C mod 64"
  have "C = 64 * d + m" "m < 64" by (simp_all add: d_def m_def)
  then have "(A * 65536 + B * 256 + C) div 64 = 4 * (256 * A + B) + d"
    by (intro div_nat_eqI) simp_all
  moreover have "(256 * A + B) mod 16 = B mod 16"
    using mod_mult_self4 [of 16 "16 * A" B] by simp
  ultimately show ?thesis using assms mod_digits [of d 4 16 "256 * A + B"] by (simp add: d_def)
qed

lemma sextet3:
  fixes A B C :: nat
  shows "(A * 65536 + B * 256 + C) mod 64 = C mod 64"
    using mod_mult_self4 [of 64 "A * 1024 + B * 4" C] by (simp add: mult.commute)
lemma unat_sextets:
  fixes a b c :: byte
  shows "unat (drop_bit 2 a) = group24 a b c div 64 ^ 3 mod 64"
    and "unat (push_bit 4 (a AND 0x03) + drop_bit 4 b) = group24 a b c div 64 ^ 2 mod 64"
    and "unat (push_bit 2 (b AND 0x0f) + drop_bit 6 c) = group24 a b c div 64 mod 64"
    and "unat (c AND 0x3f) = group24 a b c mod 64"
proof -
  have lt: "unat a < 256" "unat b < 256" "unat c < 256"
    using unsigned_less [of a] unsigned_less [of b] unsigned_less [of c] by simp_all
  have m: "unat (a AND 0x03) = unat a mod 4" "unat (b AND 0x0f) = unat b mod 16" "unat (c AND 0x3f) = unat c mod 64"
    using unat_and_mask_pow [of "0x03 :: byte" 2 a] unat_and_mask_pow [of "0x0f :: byte" 4 b]
      unat_and_mask_pow [of "0x3f :: byte" 6 c] by simp_all
  have d: "unat (drop_bit 2 a) = unat a div 4" "unat (drop_bit 4 b) = unat b div 16" "unat (drop_bit 6 c) = unat c div 64"
    by (simp_all add: unat_drop_bit_eq drop_bit_eq_div unat_div)
  have p4: "unat (push_bit 4 (a AND 0x03)) = unat a mod 4 * 16"
    unfolding push_bit_eq_mult using m(1) by (subst unat_mult_no_wrap) simp_all
  have p2: "unat (push_bit 2 (b AND 0x0f)) = unat b mod 16 * 4"
    unfolding push_bit_eq_mult using m(2) by (subst unat_mult_no_wrap) simp_all
  have s1: "unat (push_bit 4 (a AND 0x03) + drop_bit 4 b) = unat a mod 4 * 16 + unat b div 16"
    using p4 d(2) lt by (subst unat_add_no_wrap) simp_all
  have s2: "unat (push_bit 2 (b AND 0x0f) + drop_bit 6 c) = unat b mod 16 * 4 + unat c div 64"
    using p2 d(3) lt by (subst unat_add_no_wrap) simp_all
  show "unat (drop_bit 2 a) = group24 a b c div 64 ^ 3 mod 64"
    unfolding d group24_def using lt by simp
  show "unat (push_bit 4 (a AND 0x03) + drop_bit 4 b) = group24 a b c div 64 ^ 2 mod 64"
    unfolding s1 group24_def using sextet1 [OF lt(2,3), of "unat a"] by simp
  show "unat (push_bit 2 (b AND 0x0f) + drop_bit 6 c) = group24 a b c div 64 mod 64"
    unfolding s2 group24_def using sextet2 [OF lt(3), of "unat a" "unat b"] by simp
  show "unat (c AND 0x3f) = group24 a b c mod 64"
    unfolding m group24_def using sextet3 [of "unat a" "unat b" "unat c"] by simp
qed


section \<open>Encoding\<close>

lemma length_Base64 [simp]: "length Base64 = 65"
  by (simp add: Base64_def)

lemma length_b64_spec: "length (b64_spec s) = (length s + 2) div 3 * 4"
proof (induction s rule: b64_spec.induct)
  case (4 a b c s)
  have "(length s + 5) div 3 = Suc ((length s + 2) div 3)" by presburger
  with 4 show ?case by (simp add: add.commute)
qed simp_all

lemma put_Some [simp]: "i < length t \<Longrightarrow> put t i v = Some (t[i := v])"
  by (simp add: put_def)

lemma at_Some [simp]: "i < length t \<Longrightarrow> at t i = Some (t ! i)"
  by (simp add: at_def)

lemma put4:
  assumes "d + 4 \<le> length t"
  shows "t[d := c0, d + 1 := c1, d + 2 := c2, d + 3 := c3] = take d t @ [c0, c1, c2, c3] @ drop (d + 4) t"
proof (rule nth_equalityI)
  fix i assume "i < length (t[d := c0, d + 1 := c1, d + 2 := c2, d + 3 := c3])"
  then have i: "i < length t" by simp
  consider "i < d" | "i = d" | "i = d + 1" | "i = d + 2" | "i = d + 3" | "d + 4 \<le> i" by linarith
  then show "t[d := c0, d + 1 := c1, d + 2 := c2, d + 3 := c3] ! i =
      (take d t @ [c0, c1, c2, c3] @ drop (d + 4) t) ! i"
  proof cases
    case 6
    then obtain j where "i = d + 4 + j" using le_Suc_ex by blast
    with i show ?thesis by (simp add: nth_append numeral_eq_Suc)
  qed (use i assms in \<open>auto simp: nth_append nth_Cons' numeral_eq_Suc\<close>)
qed (use assms in simp)


lemma at_Base64:
  fixes a b c :: byte
  shows "at Base64 (unat (drop_bit 2 a)) = Some (digit (group24 a b c div 64 ^ 3 mod 64))"
    and "at Base64 (unat (push_bit 4 (a AND 0x03) + drop_bit 4 b)) = Some (digit (group24 a b c div 64 ^ 2 mod 64))"
    and "at Base64 (unat (push_bit 2 (b AND 0x0f) + drop_bit 6 c)) = Some (digit (group24 a b c div 64 mod 64))"
    and "at Base64 (unat (c AND 0x3f)) = Some (digit (group24 a b c mod 64))"
proof -
  have "at Base64 (n mod 64) = Some (digit (n mod 64))" for n
    using mod_less_divisor [of 64 n] by (simp add: at_def digit_def)
  then show "at Base64 (unat (drop_bit 2 a)) = Some (digit (group24 a b c div 64 ^ 3 mod 64))"
    "at Base64 (unat (push_bit 4 (a AND 0x03) + drop_bit 4 b)) = Some (digit (group24 a b c div 64 ^ 2 mod 64))"
    "at Base64 (unat (push_bit 2 (b AND 0x0f) + drop_bit 6 c)) = Some (digit (group24 a b c div 64 mod 64))"
    "at Base64 (unat (c AND 0x3f)) = Some (digit (group24 a b c mod 64))"
    by (simp_all only: unat_sextets [where a = a and b = b and c = c])
qed

lemma at_Base64_0:
  fixes a b :: byte
  shows "at Base64 (unat (push_bit 2 (b AND 0x0f))) = Some (digit (group24 a b 0 div 64 mod 64))"
  using at_Base64(3) [where a = a and b = b and c = 0] by (simp del: push_bit_and)

lemma encode_while_step:
  assumes "2 < n" and "src = a # b # c # rest" and "d + 4 \<le> dest_len" and "dest_len \<le> length t"
  shows "encode_while src n t d dest_len =
    encode_while rest (n - 3) (take d t @ b64_spec [a, b, c] @ drop (d + 4) t) (d + 4) dest_len"
proof -
  have "d < length t" "d + 1 < length t" "d + 2 < length t" "d + 3 < length t" using assms by auto
  then show ?thesis
    unfolding encode_while.simps [of src] using assms put4 [of d t]
    by (simp add: at_Base64 [where a = a and b = b and c = c] Let_def del: push_bit_and)
qed

lemma encode_while_full:
  assumes "2 < n" and "src = a # b # c # rest" and "dest_len < d + 4"
  shows "encode_while src n t d dest_len = Some (Inl (-1), t)"
  unfolding encode_while.simps [of src] using assms by (simp add: Let_def)


lemma three_more: "Suc (Suc (Suc k)) \<le> length src \<Longrightarrow> \<exists>a b c rest. src = a # b # c # rest \<and> k \<le> length rest"
  by (cases src; cases "tl src"; cases "tl (tl src)") auto

lemma encode_while_ok:
  assumes "3 * k + r \<le> length src" and "r < 3" and "d + 4 * k \<le> dest_len" and "dest_len \<le> length t"
  shows "encode_while src (3 * k + r) t d dest_len =
    Some (Inr (drop (3 * k) src, r, d + 4 * k),
          take d t @ b64_spec (take (3 * k) src) @ drop (d + 4 * k) t)"
  using assms
proof (induction k arbitrary: src t d)
  case 0
  then show ?case by (simp add: encode_while.simps)
next
  case (Suc k)
  then obtain a b c rest where src: "src = a # b # c # rest" "3 * k + r \<le> length rest"
    using three_more [of "3 * k + r" src] by auto
  define w where "w = b64_spec [a, b, c]"
  have w: "length w = 4" "b64_spec (a # b # c # xs) = w @ b64_spec xs" for xs by (simp_all add: w_def)
  let ?t = "take d t @ w @ drop (d + 4) t"
  have "encode_while src (3 * Suc k + r) t d dest_len = encode_while rest (3 * k + r) ?t (d + 4) dest_len"
    using encode_while_step [OF _ src(1), of "3 * Suc k + r" d dest_len t, folded w_def] Suc.prems by simp
  also have "\<dots> = Some (Inr (drop (3 * k) rest, r, d + 4 + 4 * k),
      take (d + 4) ?t @ b64_spec (take (3 * k) rest) @ drop (d + 4 + 4 * k) ?t)"
    using Suc.prems src(2) w(1) by (intro Suc.IH) auto
  also have "take (d + 4) ?t @ b64_spec (take (3 * k) rest) @ drop (d + 4 + 4 * k) ?t =
      take d t @ b64_spec (take (3 * Suc k) src) @ drop (d + 4 * Suc k) t"
  proof -
    have "take (3 * Suc k) src = a # b # c # take (3 * k) rest" using src(1) by (simp add: numeral_3_eq_3)
    then have "b64_spec (take (3 * Suc k) src) = w @ b64_spec (take (3 * k) rest)" by (simp only: w(2))
    with Suc.prems w(1) show ?thesis by (simp add: ac_simps)
  qed
  also have "drop (3 * k) rest = drop (3 * Suc k) src" using src(1) by (simp add: numeral_3_eq_3)
  finally show ?case by (simp add: ac_simps)
qed

lemma encode_while_short:
  assumes "3 * k + r \<le> length src" and "d \<le> dest_len" and "dest_len < d + 4 * k" and "dest_len \<le> length t"
  shows "\<exists>t'. encode_while src (3 * k + r) t d dest_len = Some (Inl (-1), t') \<and> length t' = length t"
  using assms
proof (induction k arbitrary: src t d)
  case (Suc k)
  then obtain a b c rest where src: "src = a # b # c # rest" "3 * k + r \<le> length rest"
    using three_more [of "3 * k + r" src] by auto
  show ?case
  proof (cases "d + 4 \<le> dest_len")
    case False
    then show ?thesis using encode_while_full [OF _ src(1)] by simp
  next
    case True
    define t1 where "t1 = take d t @ b64_spec [a, b, c] @ drop (d + 4) t"
    have l: "length t1 = length t" using True Suc.prems by (simp add: t1_def)
    have "encode_while src (3 * Suc k + r) t d dest_len = encode_while rest (3 * k + r) t1 (d + 4) dest_len"
      using encode_while_step [OF _ src(1), of "3 * Suc k + r" d dest_len t, folded t1_def] True Suc.prems
      by simp
    moreover have "\<exists>t'. encode_while rest (3 * k + r) t1 (d + 4) dest_len = Some (Inl (-1), t') \<and>
        length t' = length t1"
      using Suc.prems src(2) True l by (intro Suc.IH) auto
    ultimately show ?thesis using l by simp
  qed
qed simp

lemma b64_spec_append: "length xs mod 3 = 0 \<Longrightarrow> b64_spec (xs @ ys) = b64_spec xs @ b64_spec ys"
proof (induction xs rule: b64_spec.induct)
  case (4 a b c s)
  then have "length s mod 3 = 0" by simp
  with 4 show ?case by simp
qed simp_all


text \<open>The last quantum.\<close>

lemma encode_rest_cases:
  assumes "r \<le> length src" and "r = 1 \<or> r = 2"
  obtains a b where "encode_rest src r = Some (a, b)"
    "b64_spec (take r src) = [digit (group24 a b 0 div 64 ^ 3 mod 64), digit (group24 a b 0 div 64 ^ 2 mod 64),
       if r = 1 then Pad64 else digit (group24 a b 0 div 64 mod 64), Pad64]"
proof (cases "r = 1")
  case True
  with assms obtain a rest where "src = a # rest" by (cases src) auto
  with True show thesis by (intro that [of a 0]) (simp_all add: encode_rest_def)
next
  case False
  with assms obtain a b rest where "src = a # b # rest" "r = 2" by (cases src; cases "tl src") auto
  then show thesis by (intro that [of a b]) (simp_all add: encode_rest_def)
qed

lemma encode_lengths:
  assumes "n = 3 * k + r" and "r < (3 :: nat)"
  shows "(n + 2) div 3 * 4 = 4 * k + (if r = 0 then 0 else 4)"
proof -
  consider "r = 0" | "r = 1" | "r = 2" using assms(2) by linarith
  then show ?thesis using assms(1) by cases simp_all
qed

lemma base64_encode_ok:
  assumes n: "n \<le> length src" and room: "(n + 2) div 3 * 4 < dest_len" and t: "dest_len \<le> length dest"
  shows "base64_encode src n dest dest_len =
    Some (to_int ((n + 2) div 3 * 4), b64_spec (take n src) @ [0] @ drop (Suc ((n + 2) div 3 * 4)) dest)"
proof -
  define k r where "k = n div 3" and "r = n mod 3"
  have nk: "n = 3 * k + r" "r < 3" by (simp_all add: k_def r_def)
  note total = encode_lengths [OF nk]
  have dl: "4 * k \<le> dest_len" "dest_len \<noteq> 0" using room total by auto
  define t1 where "t1 = b64_spec (take (3 * k) src) @ drop (4 * k) dest"
  have w: "encode_while src n dest 0 dest_len = Some (Inr (drop (3 * k) src, r, 4 * k), t1)"
    using encode_while_ok [of k r src 0 dest_len dest] nk n dl t by (simp add: t1_def)
  have l3: "length (b64_spec (take (3 * k) src)) = 4 * k"
    using n nk encode_lengths [of "3 * k" k 0] by (simp add: length_b64_spec)
  then have l1: "length t1 = length dest" using t dl(1) by (simp add: t1_def)
  have split: "take n src = take (3 * k) src @ take r (drop (3 * k) src)"
    using nk by (simp add: take_add)
  have spec: "b64_spec (take n src) = b64_spec (take (3 * k) src) @ b64_spec (take r (drop (3 * k) src))"
    unfolding split using n nk by (intro b64_spec_append) simp
  show ?thesis
  proof (cases "r = 0")
    case True
    with w dl room total l1 t show ?thesis
      by (simp add: base64_encode_def spec t1_def l3 Let_def list_update_append mult.commute [of k 4]
          flip: Cons_nth_drop_Suc)
  next
    case False
    then have r12: "r = 1 \<or> r = 2" using nk(2) by auto
    have "r \<le> length (drop (3 * k) src)" using n nk by simp
    from encode_rest_cases [OF this r12] obtain a b where ab: "encode_rest (drop (3 * k) src) r = Some (a, b)"
      "b64_spec (take r (drop (3 * k) src)) =
        [digit (group24 a b 0 div 64 ^ 3 mod 64), digit (group24 a b 0 div 64 ^ 2 mod 64),
         if r = 1 then Pad64 else digit (group24 a b 0 div 64 mod 64), Pad64]" .
    have b4: "4 * k + 4 < dest_len" using room total False by simp
    have put: "t1[4 * k := c0, 4 * k + 1 := c1, 4 * k + 2 := c2, 4 * k + 3 := c3, 4 * k + 4 := 0] =
        b64_spec (take (3 * k) src) @ [c0, c1, c2, c3] @ [0] @ drop (Suc (4 * k + 4)) dest" for c0 c1 c2 c3
      using put4 [of "4 * k" t1 c0 c1 c2 c3] b4 l1 t l3
      by (simp add: t1_def list_update_append numeral_eq_Suc flip: Cons_nth_drop_Suc)
    have tt: "(n + 2) div 3 * 4 = 4 * k + 4" using total False by simp
    show ?thesis
      unfolding tt spec ab(2) using w dl b4 False l1 t ab(1) put
      by (simp add: base64_encode_def at_Base64 [where a = a and b = b and c = 0]
          at_Base64_0 [where a = a and b = b] Let_def del: push_bit_and)
  qed
qed

lemma base64_encode_short:
  assumes n: "n \<le> length src" and room: "dest_len \<le> (n + 2) div 3 * 4" and t: "0 < dest_len" "dest_len \<le> length dest"
  shows "\<exists>t. base64_encode src n dest dest_len = Some (-1, t) \<and> length t = length dest"
proof -
  define k r where "k = n div 3" and "r = n mod 3"
  have nk: "n = 3 * k + r" "r < 3" by (simp_all add: k_def r_def)
  note total = encode_lengths [OF nk]
  show ?thesis
  proof (cases "dest_len < 4 * k")
    case True
    then obtain t' where "encode_while src n dest 0 dest_len = Some (Inl (-1), t')" "length t' = length dest"
      using encode_while_short [of k r src 0 dest_len dest] nk n t by auto
    with t show ?thesis by (simp add: base64_encode_def)
  next
    case False
    define t1 where "t1 = b64_spec (take (3 * k) src) @ drop (4 * k) dest"
    have w: "encode_while src n dest 0 dest_len = Some (Inr (drop (3 * k) src, r, 4 * k), t1)"
      using encode_while_ok [of k r src 0 dest_len dest] nk n False t by (simp add: t1_def)
    have l1: "length t1 = length dest"
      using n nk t False encode_lengths [of "3 * k" k 0] by (simp add: t1_def length_b64_spec)
    show ?thesis
    proof (cases "r = 0")
      case True
      with w l1 t room total show ?thesis by (simp add: base64_encode_def)
    next
      case False
      then have r12: "r = 1 \<or> r = 2" using nk(2) by auto
      have "r \<le> length (drop (3 * k) src)" using n nk by simp
      from encode_rest_cases [OF this r12] obtain a b where
        ab: "encode_rest (drop (3 * k) src) r = Some (a, b)" .
      show ?thesis
      proof (cases "dest_len < 4 * k + 4")
        case True
        with False w l1 t ab show ?thesis by (simp add: base64_encode_def Let_def)
      next
        case full: False
        with room total False have "dest_len = 4 * k + 4" by simp
        with False w l1 t ab show ?thesis
          by (simp add: base64_encode_def at_Base64 [where a = a and b = b and c = 0]
              at_Base64_0 [where a = a and b = b] Let_def
              del: push_bit_and)
      qed
    qed
  qed
qed


section \<open>Bits of sextets\<close>

lemma byte_eqI:
  assumes "\<And>i. i \<in> {0, 1, 2, 3, 4, 5, 6, 7} \<Longrightarrow> bit a i = bit b i"
  shows "a = (b :: byte)"
proof (rule bit_word_eqI)
  fix n assume "n < LENGTH(8)"
  then have "n \<in> {0, 1, 2, 3, 4, 5, 6, 7}" by (auto simp: less_Suc_eq numeral_eq_Suc)
  then show "bit a n = bit b n" by (rule assms)
qed

lemma byte_no_bit: "8 \<le> n \<Longrightarrow> \<not> bit (x :: byte) n"
  by (auto dest: bit_imp_le_length)

definition six :: "byte \<Rightarrow> bool" where
  "six p \<longleftrightarrow> unat p < 64"

lemma six_bits:
  assumes "six p"
  shows "\<not> bit p 6" "\<not> bit p 7"
proof -
  have t: "take_bit 6 (unat p) = unat p" using assms by (simp add: six_def take_bit_nat_eq_self)
  have "\<not> bit p i" if "6 \<le> i" for i
  proof -
    have "bit p i \<longleftrightarrow> bit (take_bit 6 (unat p)) i" by (simp add: t bit_unsigned_iff)
    then show ?thesis using that by (simp add: bit_take_bit_iff)
  qed
  then show "\<not> bit p 6" "\<not> bit p 7" by simp_all
qed

lemma sextet_plus:
  fixes a b c :: byte
  shows "push_bit 4 (a AND 0x03) + drop_bit 4 b = push_bit 4 (a AND 0x03) OR drop_bit 4 b"
    and "push_bit 2 (b AND 0x0f) + drop_bit 6 c = push_bit 2 (b AND 0x0f) OR drop_bit 6 c"
  by (rule disjunctive_add_eq_or; rule byte_eqI; auto simp: bit_simps byte_no_bit simp flip: numeral_2_eq_2)+

lemma join_sextets:
  fixes a b c :: byte
  shows "push_bit 2 (drop_bit 2 a) OR drop_bit 4 (push_bit 4 (a AND 0x03) OR drop_bit 4 b) = a"
    and "push_bit 4 ((push_bit 4 (a AND 0x03) OR drop_bit 4 b) AND 0x0f) OR
      drop_bit 2 (push_bit 2 (b AND 0x0f) OR drop_bit 6 c) = b"
    and "push_bit 6 ((push_bit 2 (b AND 0x0f) OR drop_bit 6 c) AND 0x03) OR (c AND 0x3f) = c"
  by (rule byte_eqI; auto simp: bit_simps byte_no_bit simp flip: numeral_2_eq_2)+

lemma split_bytes:
  assumes "six p0" "six p1" "six p2" "six p3"
  shows "drop_bit 2 (push_bit 2 p0 OR drop_bit 4 p1) = p0"
    and "push_bit 4 ((push_bit 2 p0 OR drop_bit 4 p1) AND 0x03) OR
      drop_bit 4 (push_bit 4 (p1 AND 0x0f) OR drop_bit 2 p2) = p1"
    and "push_bit 2 ((push_bit 4 (p1 AND 0x0f) OR drop_bit 2 p2) AND 0x0f) OR
      drop_bit 6 (push_bit 6 (p2 AND 0x03) OR p3) = p2"
    and "(push_bit 6 (p2 AND 0x03) OR p3) AND 0x3f = p3"
  using six_bits [OF assms(1)] six_bits [OF assms(2)] six_bits [OF assms(3)] six_bits [OF assms(4)]
  by - (rule byte_eqI; auto simp: bit_simps byte_no_bit simp flip: numeral_2_eq_2)+

lemma split_bytes_end:
  assumes "six p0" "six p1" "six p2"
  shows "push_bit 4 (p1 AND 0x0f) = 0 \<Longrightarrow> push_bit 4 ((push_bit 2 p0 OR drop_bit 4 p1) AND 0x03) = p1"
    and "push_bit 6 (p2 AND 0x03) = 0 \<Longrightarrow> push_bit 2 ((push_bit 4 (p1 AND 0x0f) OR drop_bit 2 p2) AND 0x0f) = p2"
proof -
  assume "push_bit 4 (p1 AND 0x0f) = 0"
  then have "bit (push_bit 4 (p1 AND 0x0f)) i \<longleftrightarrow> False" for i by simp
  from this [of 4] this [of 5] this [of 6] this [of 7] six_bits [OF assms(2)]
  show "push_bit 4 ((push_bit 2 p0 OR drop_bit 4 p1) AND 0x03) = p1"
    by (intro byte_eqI) (auto simp: bit_simps byte_no_bit simp flip: numeral_2_eq_2)
next
  assume "push_bit 6 (p2 AND 0x03) = 0"
  then have "bit (push_bit 6 (p2 AND 0x03)) i \<longleftrightarrow> False" for i by simp
  from this [of 6] this [of 7] six_bits [OF assms(3)]
  show "push_bit 2 ((push_bit 4 (p1 AND 0x0f) OR drop_bit 2 p2) AND 0x0f) = p2"
    by (intro byte_eqI) (auto simp: bit_simps byte_no_bit simp flip: numeral_2_eq_2)
qed

section \<open>The alphabet\<close>

lemma Base64_codes:
  "Base64 =
     [65, 66, 67, 68, 69, 70, 71, 72, 73, 74, 75, 76, 77, 78, 79, 80, 81, 82, 83, 84, 85, 86,
      87, 88, 89, 90, 97, 98, 99, 100, 101, 102, 103, 104, 105, 106, 107, 108, 109, 110, 111,
      112, 113, 114, 115, 116, 117, 118, 119, 120, 121, 122, 48, 49, 50, 51, 52, 53, 54, 55,
      56, 57, 43, 47, 0]"
  by (simp add: Base64_def)

lemma distinct_Base64: "distinct Base64"
  by (simp add: Base64_codes)

lemma Base64_chars: "\<forall>c\<in>set (butlast Base64). c \<noteq> 0 \<and> c \<noteq> Pad64 \<and> \<not> isspace c"
  by (simp add: Base64_codes Pad64_def isspace_def)

lemma digit_char:
  assumes "p < 64"
  shows "digit p \<noteq> 0 \<and> digit p \<noteq> Pad64 \<and> \<not> isspace (digit p)"
proof -
  have "digit p = butlast Base64 ! p" "p < length (butlast Base64)"
    using assms by (simp_all add: digit_def nth_butlast)
  then show ?thesis using Base64_chars nth_mem by metis
qed

lemma strchr_nth:
  "\<lbrakk>distinct s; p < length s; \<forall>c\<in>set (take p s). c \<noteq> 0\<rbrakk> \<Longrightarrow> strchr s (s ! p) = Some p"
proof (induction s arbitrary: p)
  case (Cons c s)
  then show ?case by (cases p) auto
qed simp

lemma strchr_digit: "p < 64 \<Longrightarrow> strchr Base64 (digit p) = Some p"
  unfolding digit_def
proof (rule strchr_nth [OF distinct_Base64])
  assume "p < 64"
  then show "p < length Base64" by simp
  have "take p Base64 = take p (butlast Base64)" using \<open>p < 64\<close> by (simp add: take_butlast)
  then show "\<forall>c\<in>set (take p Base64). c \<noteq> 0" using Base64_chars by (metis in_set_takeD)
qed

lemma strchr_Some: "strchr s ch = Some p \<Longrightarrow> p < length s \<and> s ! p = ch"
  by (induction s ch arbitrary: p rule: strchr.induct) (auto split: if_splits)

lemma strchr_Base64:
  assumes "ch \<noteq> 0"
  shows "strchr Base64 ch = Some p \<longleftrightarrow> p < 64 \<and> ch = digit p"
proof
  assume "strchr Base64 ch = Some p"
  from strchr_Some [OF this] have p: "p < 65" "digit p = ch" by (simp_all add: digit_def)
  have "digit 64 = 0" by (simp add: digit_def Base64_def)
  with p assms have "p \<noteq> 64" by auto
  with p show "p < 64 \<and> ch = digit p" by simp
qed (use strchr_digit in auto)

section \<open>Decoding\<close>

fun dec4 :: "byte list \<Rightarrow> byte list" where
  "dec4 (p0 # p1 # p2 # p3 # ps) =
     [push_bit 2 p0 OR drop_bit 4 p1, push_bit 4 (p1 AND 0x0f) OR drop_bit 2 p2,
      push_bit 6 (p2 AND 0x03) OR p3] @ dec4 ps"
| "dec4 [p0, p1, p2] = [push_bit 2 p0 OR drop_bit 4 p1, push_bit 4 (p1 AND 0x0f) OR drop_bit 2 p2]"
| "dec4 [p0, p1] = [push_bit 2 p0 OR drop_bit 4 p1]"
| "dec4 [p0] = []"
| "dec4 [] = []"

text \<open>The bits beyond the last full byte.\<close>

fun slop :: "byte list \<Rightarrow> byte" where
  "slop (p0 # p1 # p2 # p3 # ps) = slop ps"
| "slop [p0, p1, p2] = push_bit 6 (p2 AND 0x03)"
| "slop [p0, p1] = push_bit 4 (p1 AND 0x0f)"
| "slop [p0] = push_bit 2 p0"
| "slop [] = 0"

lemma length_dec4: "length (dec4 ps) = 3 * length ps div 4"
  by (induction ps rule: dec4.induct) auto

lemma dec4_snoc:
  "dec4 (ps @ [q]) =
     (if length ps mod 4 = 0 then dec4 ps
      else if length ps mod 4 = 1 then dec4 ps @ [slop ps OR drop_bit 4 q]
      else if length ps mod 4 = 2 then dec4 ps @ [slop ps OR drop_bit 2 q]
      else dec4 ps @ [slop ps OR q])"
  by (induction ps rule: dec4.induct) (simp_all del: push_bit_and)

lemma slop_snoc:
  "slop (ps @ [q]) =
     (if length ps mod 4 = 0 then push_bit 2 q
      else if length ps mod 4 = 1 then push_bit 4 (q AND 0x0f)
      else if length ps mod 4 = 2 then push_bit 6 (q AND 0x03)
      else 0)"
  by (induction ps rule: dec4.induct) (simp_all del: push_bit_and)

text \<open>The room the sextets \<open>ps\<close> need, and the state of the loop after them.\<close>

definition fits :: "nat \<Rightarrow> byte list \<Rightarrow> bool" where
  "fits D ps \<longleftrightarrow> length (dec4 ps) \<le> D \<and>
     (length ps mod 4 \<noteq> 0 \<and> length (dec4 ps) = D \<longrightarrow> slop ps = 0 \<and> length ps mod 4 \<noteq> 1)"

definition decoded :: "nat \<Rightarrow> byte list \<Rightarrow> nat \<Rightarrow> nat \<Rightarrow> byte list \<Rightarrow> bool" where
  "decoded D ps state tarindex t \<longleftrightarrow>
     state = length ps mod 4 \<and> tarindex = length (dec4 ps) \<and> D \<le> length t \<and> fits D ps \<and>
     take tarindex t = dec4 ps \<and> (state \<noteq> 0 \<and> tarindex < D \<longrightarrow> t ! tarindex = slop ps)"

definition frame :: "nat \<Rightarrow> byte list \<Rightarrow> byte list \<Rightarrow> bool" where
  "frame D t t' \<longleftrightarrow> length t' = length t \<and> drop D t' = drop D t"

lemma frame_refl [simp]: "frame D t t"
  by (simp add: frame_def)

lemma frame_trans: "\<lbrakk>frame D t t'; frame D t' t''\<rbrakk> \<Longrightarrow> frame D t t''"
  by (simp add: frame_def)

text \<open>One character: it is taken in exactly when the sextets with it still fit.\<close>

lemma frame_put: "i < D \<Longrightarrow> frame D t (t[i := x])"
  by (simp add: frame_def)

lemma frame_put2: "\<lbrakk>i < D; j < D\<rbrakk> \<Longrightarrow> frame D t (t[i := x, j := y])"
  by (simp add: frame_def)

lemma mod4_cases:
  obtains (0) "n mod 4 = 0" "Suc n mod 4 = 1" | (1) "n mod 4 = 1" "Suc n mod 4 = 2"
  | (2) "n mod 4 = 2" "Suc n mod 4 = 3" | (3) "n mod 4 = 3" "Suc n mod 4 = (0::nat)"
proof -
  have "n mod 4 < 4" by simp
  then consider "n mod 4 = 0" | "n mod 4 = 1" | "n mod 4 = 2" | "n mod 4 = 3" by linarith
  then show thesis by cases (rule 0 1 2 3, assumption, simp add: mod_Suc)+
qed

lemma decode_mid_step:
  assumes d: "decoded D ps st ti t" and st: "st \<noteq> 0"
    and dec: "dec4 (ps @ [q]) = dec4 ps @ [slop ps OR bits]" and sl: "slop (ps @ [q]) = nb"
    and nx: "nx = Suc (length ps) mod 4" "nx \<noteq> 0" "nx \<noteq> 1"
  shows "if fits D (ps @ [q])
    then \<exists>ti' t'. decode_mid nx ti bits nb D t = Some (Inr (nx, ti'), t') \<and>
           decoded D (ps @ [q]) nx ti' t' \<and> frame D t t'
    else \<exists>t'. decode_mid nx ti bits nb D t = Some (Inl (-1), t') \<and> frame D t t'"
proof (cases "ti < D")
  case False
  then have "\<not> fits D (ps @ [q])" using d dec by (auto simp: decoded_def fits_def)
  with False show ?thesis by (simp add: decode_mid_def)
next
  case True
  note D = d [unfolded decoded_def]
  have len: "ti < length t" "ti = length (dec4 ps)" "t ! ti = slop ps" using D True st by auto
  let ?t = "t[ti := slop ps OR bits]"
  have tk: "take (Suc ti) ?t = dec4 (ps @ [q])"
    using D len dec by (simp add: take_Suc_conv_app_nth)
  show ?thesis
  proof (cases "ti + 1 < D")
    case more: True
    then have "fits D (ps @ [q])" using dec len by (simp add: fits_def)
    moreover have "decode_mid nx ti bits nb D t = Some (Inr (nx, Suc ti), ?t[Suc ti := nb])"
      using True more D len by (simp add: decode_mid_def)
    moreover have "decoded D (ps @ [q]) nx (Suc ti) (?t[Suc ti := nb])"
      using calculation(1) tk D more nx dec len sl by (simp add: decoded_def)
    ultimately show ?thesis using True more by (auto intro: frame_put2)
  next
    case False
    with True have DD: "D = Suc ti" by simp
    have f: "fits D (ps @ [q]) \<longleftrightarrow> nb = 0"
      using dec len sl nx by (auto simp: fits_def DD)
    show ?thesis
    proof (cases "nb = 0")
      case True
      have "decode_mid nx ti bits nb D t = Some (Inr (nx, Suc ti), ?t)"
        using True DD len by (simp add: decode_mid_def)
      moreover have "decoded D (ps @ [q]) nx (Suc ti) ?t"
        using f True tk D nx dec len sl DD by (simp add: decoded_def)
      ultimately show ?thesis using f True DD by (auto intro: frame_put)
    next
      case False
      then show ?thesis using f DD len by (auto simp: decode_mid_def intro: frame_put)
    qed
  qed
qed

lemma decode_switch_step:
  assumes d: "decoded D ps st ti t"
  shows "if fits D (ps @ [q])
    then \<exists>st' ti' t'. decode_switch st ti q D t = Some (Inr (st', ti'), t') \<and>
           decoded D (ps @ [q]) st' ti' t' \<and> frame D t t'
    else \<exists>t'. decode_switch st ti q D t = Some (Inl (-1), t') \<and> frame D t t'"
proof -
  have st: "st = length ps mod 4" using d by (simp add: decoded_def)
  show ?thesis
  proof (cases rule: mod4_cases [of "length ps"])
    case 0
    then have "dec4 (ps @ [q]) = dec4 ps" "slop (ps @ [q]) = push_bit 2 q" "st = 0"
      using st by (simp_all add: dec4_snoc slop_snoc)
    with 0 d show ?thesis
      by (auto simp: decode_switch_def decoded_def fits_def intro: frame_put)
  next
    case 1
    have "if fits D (ps @ [q])
      then \<exists>ti' t'. decode_mid 2 ti (drop_bit 4 q) (push_bit 4 (q AND 0x0f)) D t = Some (Inr (2, ti'), t') \<and>
             decoded D (ps @ [q]) 2 ti' t' \<and> frame D t t'
      else \<exists>t'. decode_mid 2 ti (drop_bit 4 q) (push_bit 4 (q AND 0x0f)) D t = Some (Inl (-1), t') \<and> frame D t t'"
      by (rule decode_mid_step [OF d]) (use 1 st in \<open>simp_all add: dec4_snoc slop_snoc del: push_bit_and\<close>)
    moreover have "decode_switch st ti q D t = decode_mid 2 ti (drop_bit 4 q) (push_bit 4 (q AND 0x0f)) D t"
      using st 1 by (simp add: decode_switch_def)
    ultimately show ?thesis by (cases "fits D (ps @ [q])") auto
  next
    case 2
    have "if fits D (ps @ [q])
      then \<exists>ti' t'. decode_mid 3 ti (drop_bit 2 q) (push_bit 6 (q AND 0x03)) D t = Some (Inr (3, ti'), t') \<and>
             decoded D (ps @ [q]) 3 ti' t' \<and> frame D t t'
      else \<exists>t'. decode_mid 3 ti (drop_bit 2 q) (push_bit 6 (q AND 0x03)) D t = Some (Inl (-1), t') \<and> frame D t t'"
      by (rule decode_mid_step [OF d]) (use 2 st in \<open>simp_all add: dec4_snoc slop_snoc del: push_bit_and\<close>)
    moreover have "decode_switch st ti q D t = decode_mid 3 ti (drop_bit 2 q) (push_bit 6 (q AND 0x03)) D t"
      using st 2 by (simp add: decode_switch_def)
    ultimately show ?thesis by (cases "fits D (ps @ [q])") auto
  next
    case 3
    then have dec: "dec4 (ps @ [q]) = dec4 ps @ [slop ps OR q]" "st = 3"
      using st by (simp_all add: dec4_snoc)
    have f: "fits D (ps @ [q]) \<longleftrightarrow> ti < D" using 3 d dec by (auto simp: fits_def decoded_def)
    show ?thesis
    proof (cases "ti < D")
      case True
      then have "ti < length t" "t ! ti = slop ps" "take ti t = dec4 ps" "ti = length (dec4 ps)"
        using d dec(2) by (auto simp: decoded_def)
      with True f d dec 3 show ?thesis
        by (auto simp: decode_switch_def decoded_def take_Suc_conv_app_nth intro: frame_put)
    next
      case False
      with f dec(2) show ?thesis by (simp add: decode_switch_def)
    qed
  qed
qed

lemma six_of_nat: "p < 64 \<Longrightarrow> six (of_nat p) \<and> unat (of_nat p :: byte) = p"
  by (simp add: six_def unsigned_of_nat take_bit_nat_eq_self)

lemma Pad64_char: "Pad64 \<noteq> 0" "\<not> isspace Pad64" "\<not> isspace 0"
  by (simp_all add: Pad64_def isspace_def)

lemma digit_inj: "\<lbrakk>p < 64; p' < 64; digit p = digit p'\<rbrakk> \<Longrightarrow> p = p'"
  using strchr_digit by (metis option.inject)

lemma six_digit_inj: "\<lbrakk>six q; six q'; digit (unat q) = digit (unat q')\<rbrakk> \<Longrightarrow> q = q'"
  using digit_inj [of "unat q" "unat q'"] by (simp add: six_def word_unat_eq_iff)

abbreviation nonspace :: "byte list \<Rightarrow> byte list" where
  "nonspace \<equiv> filter (\<lambda>c. \<not> isspace c)"

text \<open>Sextets that are taken in one by one after \<open>ps\<close>.\<close>

fun admits :: "nat \<Rightarrow> byte list \<Rightarrow> byte list \<Rightarrow> bool" where
  "admits D ps [] \<longleftrightarrow> True"
| "admits D ps (q # qs) \<longleftrightarrow> six q \<and> fits D (ps @ [q]) \<and> admits D (ps @ [q]) qs"

definition read_as :: "nat \<Rightarrow> byte list \<Rightarrow> byte list \<Rightarrow> byte list \<Rightarrow> bool" where
  "read_as D ps cs qs \<longleftrightarrow> cs = map (\<lambda>q. digit (unat q)) qs \<and> admits D ps qs"

lemma read_as_Nil [simp]: "read_as D ps [] qs \<longleftrightarrow> qs = []"
  by (auto simp: read_as_def)

lemma read_as_Cons:
  "read_as D ps (c # cs) qs \<longleftrightarrow>
     (\<exists>q qs'. qs = q # qs' \<and> c = digit (unat q) \<and> six q \<and> fits D (ps @ [q]) \<and> read_as D (ps @ [q]) cs qs')"
  by (cases qs) (auto simp: read_as_def)

definition read_result ::
  "nat \<Rightarrow> byte list \<Rightarrow> byte list \<Rightarrow> byte \<Rightarrow> byte list \<Rightarrow> byte list \<Rightarrow>
   ((int + (byte \<times> byte list \<times> nat \<times> nat)) \<times> byte list) option \<Rightarrow> bool" where
  "read_result D ps cs ch rest t res \<longleftrightarrow>
     (\<exists>qs st ti t'. read_as D ps cs qs \<and> res = Some (Inr (ch, rest, st, ti), t') \<and>
        decoded D (ps @ qs) st ti t' \<and> frame D t t') \<or>
     (\<nexists>qs. read_as D ps cs qs) \<and> (\<exists>t'. res = Some (Inl (-1), t') \<and> frame D t t')"

lemma read_result_step:
  assumes "six q" and "fits D (ps @ [q])" and "frame D t t1"
    and r: "read_result D (ps @ [q]) cs ch rest t1 res"
  shows "read_result D ps (digit (unat q) # cs) ch rest t res"
proof -
  have iff: "read_as D ps (digit (unat q) # cs) (q # qs) \<longleftrightarrow> read_as D (ps @ [q]) cs qs" for qs
    using assms(1,2) by (auto simp: read_as_Cons)
  have "(\<nexists>qs. read_as D (ps @ [q]) cs qs) \<Longrightarrow> (\<nexists>qs. read_as D ps (digit (unat q) # cs) qs)"
    using assms(1) six_digit_inj by (auto simp: read_as_Cons)
  note none = this
  from r consider (ok) qs st ti t' where "read_as D (ps @ [q]) cs qs" "res = Some (Inr (ch, rest, st, ti), t')"
      "decoded D ((ps @ [q]) @ qs) st ti t'" "frame D t1 t'"
    | (bad) t' where "\<nexists>qs. read_as D (ps @ [q]) cs qs" "res = Some (Inl (-1), t')" "frame D t1 t'"
    unfolding read_result_def by blast
  then show ?thesis
  proof cases
    case ok
    then show ?thesis unfolding read_result_def using assms(3) iff [of qs]
      by (intro disjI1 exI [of _ "q # qs"] exI [of _ st] exI [of _ ti] exI [of _ t'])
        (simp add: frame_trans [of D t t1])
  next
    case bad
    then show ?thesis unfolding read_result_def using none frame_trans [OF assms(3)] by blast
  qed
qed

lemma decode_while_run:
  assumes "\<forall>c\<in>set body. c \<noteq> 0 \<and> c \<noteq> Pad64" and stop: "ch = 0 \<or> ch = Pad64" and "decoded D ps st ti t"
  shows "read_result D ps (nonspace body) ch rest t (decode_while (body @ ch # rest) st ti D t)"
  using assms(1,3)
proof (induction body arbitrary: ps st ti t)
  case Nil
  then show ?case using stop Pad64_char by (auto simp: read_result_def)
next
  case (Cons c body)
  show ?case
  proof (cases "isspace c")
    case True
    with Cons show ?thesis by simp
  next
    case False
    show ?thesis
    proof (cases "strchr Base64 c")
      case None
      then have "\<nexists>qs. read_as D ps (nonspace (c # body)) qs"
        using False strchr_digit by (auto simp: read_as_Cons six_def)
      with None False Cons.prems show ?thesis by (simp add: read_result_def)
    next
      case (Some p)
      then have p: "p < 64" "c = digit p" using strchr_Base64 Cons.prems(1) by auto
      define q :: byte where "q = of_nat p"
      have q: "six q" "c = digit (unat q)" using p six_of_nat [of p] by (simp_all add: q_def)
      note step = decode_switch_step [OF Cons.prems(2), of q]
      show ?thesis
      proof (cases "fits D (ps @ [q])")
        case fits: True
        then obtain st' ti' t' where s: "decode_switch st ti q D t = Some (Inr (st', ti'), t')"
          "decoded D (ps @ [q]) st' ti' t'" "frame D t t'" using step by auto
        have "read_result D (ps @ [q]) (nonspace body) ch rest t'
            (decode_while (body @ ch # rest) st' ti' D t')"
          using Cons.prems(1) s(2) by (intro Cons.IH) auto
        from read_result_step [OF q(1) fits s(3) this] s(1) Some False Cons.prems(1) q(2)
        show ?thesis by (simp add: q_def)
      next
        case nofit: False
        then obtain t' where s: "decode_switch st ti q D t = Some (Inl (-1), t')" "frame D t t'"
          using step by auto
        have "\<nexists>qs. read_as D ps (nonspace (c # body)) qs"
          using False nofit q six_digit_inj by (auto simp: read_as_Cons)
        with s Some False Cons.prems(1) show ?thesis by (simp add: read_result_def q_def)
      qed
    qed
  qed
qed

text \<open>The trailer.\<close>

lemma append_Cons_split: "\<exists>x xs. us @ v # ws = x # xs"
  by (cases us) auto

lemma skip_spaces_run:
  assumes "ch # src = tr @ 0 # more" and "0 \<notin> set tr"
  shows "case nonspace tr of
      [] \<Rightarrow> skip_spaces ch src = Some (0, more)
    | y # ys \<Rightarrow> \<exists>tr'. skip_spaces ch src = Some (y, tr' @ 0 # more) \<and> nonspace tr' = ys \<and> 0 \<notin> set tr' \<and> y \<noteq> 0"
  using assms
proof (induction tr arbitrary: ch src)
  case Nil
  then show ?case by (simp add: skip_spaces.simps)
next
  case (Cons c tr)
  then have c: "ch = c" "src = tr @ 0 # more" "c \<noteq> 0" "0 \<notin> set tr" by auto
  show ?case
  proof (cases "isspace c")
    case True
    obtain ch' src' where src': "tr @ 0 # more = ch' # src'" using append_Cons_split by metis
    then have "case nonspace tr of [] \<Rightarrow> skip_spaces ch' src' = Some (0, more)
      | y # ys \<Rightarrow> \<exists>tr'. skip_spaces ch' src' = Some (y, tr' @ 0 # more) \<and> nonspace tr' = ys \<and> 0 \<notin> set tr' \<and> y \<noteq> 0"
      using c(4) by (intro Cons.IH) simp_all
    moreover have "skip_spaces ch src = skip_spaces ch' src'"
      using c True src' by (subst skip_spaces.simps) simp
    ultimately show ?thesis using True by (cases "nonspace tr") simp_all
  next
    case False
    with c show ?thesis by (simp add: skip_spaces.simps)
  qed
qed

lemma decode_trailer_run:
  assumes "rest = tr @ 0 # more" and "0 \<notin> set tr" and "st < 4"
  shows "decode_trailer rest st =
    Some (\<not> (st = 0 \<or> st = 1) \<and> nonspace tr = (if st = 2 then [Pad64] else []))"
proof -
  obtain ch src where cs: "rest = ch # src" "ch # src = tr @ 0 # more"
    using assms(1) append_Cons_split by metis
  note skip = skip_spaces_run [OF cs(2) assms(2)]
  show ?thesis
  proof (cases "nonspace tr")
    case Nil
    with skip show ?thesis by (simp add: decode_trailer_def cs(1) Pad64_char)
  next
    case (Cons y ys)
    with skip obtain tr' where s: "skip_spaces ch src = Some (y, tr' @ 0 # more)"
      "nonspace tr' = ys" "0 \<notin> set tr'" "y \<noteq> 0" by auto
    obtain ch' src' where cs': "ch' # src' = tr' @ 0 # more" using append_Cons_split by metis
    note skip' = skip_spaces_run [OF cs' s(3)]
    have "map_option (\<lambda>(ch, _). ch = 0) (skip_spaces ch' src') = Some (ys = [])"
      using skip' s(2) by (cases ys) auto
    moreover have "map_option (\<lambda>(ch, _). ch = 0) (skip_spaces ch src) = Some False" using s by simp
    ultimately show ?thesis using Cons s cs' [symmetric]
      by (simp add: decode_trailer_def cs(1))
  qed
qed


text \<open>Encodings as sextets.\<close>

lemma b64_group:
  "b64_spec (a # b # c # s) =
     [digit (unat (drop_bit 2 a)), digit (unat (push_bit 4 (a AND 0x03) OR drop_bit 4 b)),
      digit (unat (push_bit 2 (b AND 0x0f) OR drop_bit 6 c)), digit (unat (c AND 0x3f))] @ b64_spec s"
  by (simp only: b64_spec.simps unat_sextets [where a = a and b = b and c = c] flip: sextet_plus)

lemma b64_two:
  "b64_spec [a, b] =
     [digit (unat (drop_bit 2 a)), digit (unat (push_bit 4 (a AND 0x03) OR drop_bit 4 b)),
      digit (unat (push_bit 2 (b AND 0x0f))), Pad64]"
proof -
  have "unat (push_bit 2 (b AND 0x0f)) = group24 a b 0 div 64 mod 64"
    using unat_sextets(3) [where a = a and b = b and c = 0] by (simp del: push_bit_and)
  then show ?thesis
    by (simp only: b64_spec.simps unat_sextets [where a = a and b = b and c = 0] flip: sextet_plus)
qed

lemma b64_one:
  "b64_spec [a] = [digit (unat (drop_bit 2 a)), digit (unat (push_bit 4 (a AND 0x03))), Pad64, Pad64]"
proof -
  have "unat (push_bit 4 (a AND 0x03)) = group24 a 0 0 div 64 ^ 2 mod 64"
    using unat_sextets(2) [where a = a and b = 0 and c = 0] by (simp del: push_bit_and)
  then show ?thesis
    by (simp only: b64_spec.simps unat_sextets [where a = a and b = 0 and c = 0])
qed

definition pads :: "nat \<Rightarrow> byte list" where
  "pads n = replicate (if n = 0 then 0 else 4 - n) Pad64"

lemma b64_dec4:
  assumes "list_all six qs" and "slop qs = 0" and "length qs mod 4 \<noteq> 1"
  shows "b64_spec (dec4 qs) = map (\<lambda>q. digit (unat q)) qs @ pads (length qs mod 4)"
  using assms
proof (induction qs rule: dec4.induct)
  case (1 p0 p1 p2 p3 ps)
  then show ?case using split_bytes [of p0 p1 p2 p3]
    by (simp add: b64_group del: push_bit_and push_bit_or drop_bit_or b64_spec.simps(4))
next
  case (2 p0 p1 p2)
  then show ?case using split_bytes(1,2) [of p0 p1 p2 0] split_bytes_end(2) [of p0 p1 p2]
    by (simp add: b64_two pads_def six_def del: push_bit_and push_bit_or drop_bit_or b64_spec.simps)
next
  case (3 p0 p1)
  then show ?case using split_bytes(1) [of p0 p1 0 0] split_bytes_end(1) [of p0 p1 0]
    by (simp add: b64_one pads_def six_def numeral_2_eq_2 del: push_bit_and push_bit_or drop_bit_or b64_spec.simps)
qed (simp_all add: pads_def)

lemma six_sextets:
  fixes a b c :: byte
  shows "six (drop_bit 2 a)" "six (push_bit 4 (a AND 0x03) OR drop_bit 4 b)"
    "six (push_bit 2 (b AND 0x0f) OR drop_bit 6 c)" "six (c AND 0x3f)"
  by (simp_all only: six_def unat_sextets [where a = a and b = b and c = c] flip: sextet_plus)

lemma sextets_exist:
  "\<exists>qs. list_all six qs \<and> slop qs = 0 \<and> length qs mod 4 \<noteq> 1 \<and> dec4 qs = x"
proof (induction x rule: b64_spec.induct)
  case 1
  show ?case by (rule exI [of _ "[]"]) simp
next
  case (2 a)
  show ?case
    using six_sextets(1) [of a] six_sextets(2) [of a 0] six_sextets(3) [of 0 0] six_sextets(4) [of 0]
      join_sextets(1) [of a 0] join_sextets(2) [of a 0 0] join_sextets(3) [of 0 0]
    by (intro exI [of _ "[drop_bit 2 a, push_bit 4 (a AND 0x03)]"]) (simp del: push_bit_and push_bit_or drop_bit_or)
next
  case (3 a b)
  show ?case
    using six_sextets(1) [of a] six_sextets(2) [of a b] six_sextets(3) [of b 0] six_sextets(4) [of 0]
      join_sextets(1) [of a b] join_sextets(2) [of a b 0] join_sextets(3) [of b 0]
    by (intro exI [of _ "[drop_bit 2 a, push_bit 4 (a AND 0x03) OR drop_bit 4 b, push_bit 2 (b AND 0x0f)]"])
      (simp del: push_bit_and push_bit_or drop_bit_or)
next
  case (4 a b c s)
  then obtain qs where qs: "list_all six qs" "slop qs = 0" "length qs mod 4 \<noteq> 1" "dec4 qs = s" by blast
  show ?case
    using six_sextets(1) [of a] six_sextets(2) [of a b] six_sextets(3) [of b c] six_sextets(4) [of c]
      join_sextets(1) [of a b] join_sextets(2) [of a b c] join_sextets(3) [of b c] qs
    by (intro exI [of _ "drop_bit 2 a # (push_bit 4 (a AND 0x03) OR drop_bit 4 b) #
        (push_bit 2 (b AND 0x0f) OR drop_bit 6 c) # (c AND 0x3f) # qs"])
      (simp del: push_bit_and push_bit_or drop_bit_or)
qed

section \<open>The result of decoding\<close>

lemma three_quarters_less:
  assumes "k < n" and "k mod 4 \<noteq> 0"
  shows "3 * k div 4 < 3 * n div (4::nat)"
proof -
  have "3 * k div 4 < 3 * Suc k div 4" using assms(2) by presburger
  also have "\<dots> \<le> 3 * n div 4" using assms(1) by (intro div_le_mono) simp
  finally show ?thesis .
qed

lemma fits_take:
  assumes "slop qs = 0" and "length qs mod 4 \<noteq> 1" and "length (dec4 qs) \<le> D" and "k \<le> length qs"
  shows "fits D (take k qs)"
proof (cases "k = length qs")
  case True
  with assms show ?thesis by (simp add: fits_def)
next
  case False
  with assms(4) have k: "k < length qs" "length (take k qs) = k" by simp_all
  have "3 * k div 4 \<le> 3 * length qs div 4" using k(1) by (intro div_le_mono) simp
  with assms(3) k three_quarters_less [OF k(1)] show ?thesis by (auto simp: fits_def length_dec4)
qed

lemma admits_all:
  assumes "list_all six qs" and "\<forall>k \<le> length qs. fits D (ps @ take k qs)"
  shows "admits D ps qs"
  using assms
proof (induction qs arbitrary: ps)
  case (Cons q qs)
  have "\<forall>k \<le> length qs. fits D ((ps @ [q]) @ take k qs)"
  proof (intro allI impI)
    fix k assume "k \<le> length qs"
    then show "fits D ((ps @ [q]) @ take k qs)" using Cons.prems(2) [rule_format, of "Suc k"] by simp
  qed
  moreover have "fits D (ps @ [q])" using Cons.prems(2) [rule_format, of 1] by simp
  ultimately show ?case using Cons by simp
qed simp

lemma admits_six: "admits D ps qs \<Longrightarrow> list_all six qs"
  by (induction qs arbitrary: ps) auto

definition is_reading :: "nat \<Rightarrow> byte list \<Rightarrow> byte list \<Rightarrow> bool" where
  "is_reading D cs qs \<longleftrightarrow> cs = map (\<lambda>q. digit (unat q)) qs @ pads (length qs mod 4) \<and>
     length qs mod 4 \<noteq> 1 \<and> slop qs = 0 \<and> admits D [] qs \<and> length (dec4 qs) \<le> D"

lemma is_reading_iff: "(\<exists>qs. is_reading D cs qs \<and> dec4 qs = x) \<longleftrightarrow> cs = b64_spec x \<and> length x \<le> D"
proof
  assume "\<exists>qs. is_reading D cs qs \<and> dec4 qs = x"
  then show "cs = b64_spec x \<and> length x \<le> D"
    using b64_dec4 admits_six by (auto simp: is_reading_def)
next
  assume a: "cs = b64_spec x \<and> length x \<le> D"
  obtain qs where qs: "list_all six qs" "slop qs = 0" "length qs mod 4 \<noteq> 1" "dec4 qs = x"
    using sextets_exist by blast
  have "\<forall>k \<le> length qs. fits D ([] @ take k qs)" using fits_take [OF qs(2,3)] a qs(4) by simp
  then have "admits D [] qs" using qs(1) by (rule admits_all [rotated])
  with qs a b64_dec4 [OF qs(1-3)] show "\<exists>qs. is_reading D cs qs \<and> dec4 qs = x"
    by (auto simp: is_reading_def)
qed

text \<open>The characters before the first pad, and what follows them.\<close>

lemma b64_split:
  assumes "\<forall>c\<in>set body. c \<noteq> Pad64" and "tr = [] \<or> hd tr = Pad64"
  shows "body @ tr = map (\<lambda>q. digit (unat q)) qs @ pads n \<and> list_all six qs \<longleftrightarrow>
    body = map (\<lambda>q. digit (unat q)) qs \<and> list_all six qs \<and> tr = pads n"
proof
  assume a: "body @ tr = map (\<lambda>q. digit (unat q)) qs @ pads n \<and> list_all six qs"
  let ?P = "\<lambda>c. c \<noteq> Pad64"
  have d: "\<forall>c\<in>set (map (\<lambda>q. digit (unat q)) qs). ?P c"
    using a digit_char by (auto simp: list_all_iff six_def)
  have p: "takeWhile ?P (pads n) = []" by (simp add: pads_def)
  have "takeWhile ?P (body @ tr) = body"
    using assms by (cases tr) (simp_all add: takeWhile_append2)
  moreover have "takeWhile ?P (map (\<lambda>q. digit (unat q)) qs @ pads n) = map (\<lambda>q. digit (unat q)) qs"
    using d p by (subst takeWhile_append2) auto
  ultimately have "body = map (\<lambda>q. digit (unat q)) qs" using a by metis
  with a show "body = map (\<lambda>q. digit (unat q)) qs \<and> list_all six qs \<and> tr = pads n" by simp
qed simp

text \<open>The characters of a null-terminated string.\<close>

definition cstr :: "byte list \<Rightarrow> byte list" where
  "cstr src = takeWhile (\<lambda>c. c \<noteq> 0) src"

lemma cstr_split:
  assumes "0 \<in> set src"
  obtains more where "src = cstr src @ 0 # more" "0 \<notin> set (cstr src)"
proof -
  have d: "dropWhile (\<lambda>c. c \<noteq> 0) src \<noteq> []" using assms by auto
  then have "hd (dropWhile (\<lambda>c. c \<noteq> 0) src) = 0" using hd_dropWhile [OF d] by simp
  with d obtain more where "dropWhile (\<lambda>c. c \<noteq> 0) src = 0 # more" by (cases "dropWhile (\<lambda>c. c \<noteq> 0) src") auto
  then have "src = cstr src @ 0 # more" using takeWhile_dropWhile_id [of "\<lambda>c. c \<noteq> 0" src] by (simp add: cstr_def)
  moreover have "0 \<notin> set (cstr src)" by (auto simp: cstr_def dest: set_takeWhileD)
  ultimately show thesis by (rule that)
qed

text \<open>
  The string before the first pad character or its end (\<open>body\<close>), and what stops the main loop.
\<close>

lemma pad_split:
  assumes "0 \<in> set src"
  obtains (unpadded) more where "src = cstr src @ 0 # more" "\<forall>c\<in>set (cstr src). c \<noteq> 0 \<and> c \<noteq> Pad64"
  | (padded) body tr more where "src = body @ Pad64 # (tr @ 0 # more)" "cstr src = body @ Pad64 # tr"
      "\<forall>c\<in>set body. c \<noteq> 0 \<and> c \<noteq> Pad64" "0 \<notin> set tr"
proof -
  obtain more where m: "src = cstr src @ 0 # more" "0 \<notin> set (cstr src)" using cstr_split [OF assms] .
  show thesis
  proof (cases "Pad64 \<in> set (cstr src)")
    case False
    with m show thesis by (intro unpadded [of more]) metis+
  next
    case True
    then obtain body tr where b: "cstr src = body @ Pad64 # tr" "Pad64 \<notin> set body" by (meson split_list_first)
    with m show thesis by (intro padded [of body tr more]) auto
  qed
qed

definition decode_result :: "nat \<Rightarrow> byte list \<Rightarrow> byte list \<Rightarrow> byte list \<Rightarrow> (int \<times> byte list) option \<Rightarrow> bool" where
  "decode_result D src dest x res \<longleftrightarrow>
     (\<exists>t'. res = Some (to_int (length x), t') \<and> take (length x) t' = x \<and>
        (length x < D \<longrightarrow> t' ! length x = 0) \<and> frame D dest t')"

lemma decode_finish:
  assumes "decoded D qs st ti t" and "frame D dest t"
  shows "decode_result D src dest (dec4 qs)
    (if ti < D then do { t \<leftarrow> put t ti 0; Some (to_int ti, t) } else Some (to_int ti, t))"
proof -
  have ti: "ti = length (dec4 qs)" "take ti t = dec4 qs" "D \<le> length t"
    using assms(1) unfolding decoded_def by blast+
  show ?thesis
  proof (cases "ti < D")
    case True
    then have "frame D dest (t[ti := 0])" using assms(2) frame_put frame_trans by blast
    with True ti show ?thesis by (simp add: decode_result_def)
  next
    case False
    with ti assms(2) show ?thesis by (simp add: decode_result_def)
  qed
qed

lemma decoded_start: "D \<le> length dest \<Longrightarrow> decoded D [] 0 0 dest"
  by (simp add: decoded_def fits_def)

lemma is_reading_from:
  assumes "\<forall>c\<in>set body. c \<noteq> Pad64" and "tr = [] \<or> hd tr = Pad64"
  shows "is_reading D (nonspace body @ tr) qs \<longleftrightarrow>
    read_as D [] (nonspace body) qs \<and> tr = pads (length qs mod 4) \<and> length qs mod 4 \<noteq> 1 \<and>
    slop qs = 0 \<and> length (dec4 qs) \<le> D"
proof -
  have b: "\<forall>c\<in>set (nonspace body). c \<noteq> Pad64" using assms(1) by auto
  show ?thesis
    using b64_split [OF b assms(2), of qs "length qs mod 4"] admits_six
    by (auto simp: is_reading_def read_as_def)
qed

lemma decoded_slop:
  assumes d: "decoded D qs st ti t"
  shows "ti < D \<Longrightarrow> st \<noteq> 0 \<Longrightarrow> t ! ti = slop qs" and "\<not> ti < D \<Longrightarrow> st \<noteq> 0 \<Longrightarrow> slop qs = 0"
  using d by (auto simp: decoded_def fits_def)

lemma read_as_unique: "\<lbrakk>read_as D ps cs qs; read_as D ps cs qs'\<rbrakk> \<Longrightarrow> qs = qs'"
proof (induction cs arbitrary: ps qs qs')
  case (Cons c cs)
  from Cons.prems obtain q us q' us' where "qs = q # us" "qs' = q' # us'" "six q" "six q'"
    "digit (unat q) = digit (unat q')" "read_as D (ps @ [q]) cs us" "read_as D (ps @ [q']) cs us'"
    by (auto simp: read_as_Cons)
  moreover from this have "q = q'" using six_digit_inj by blast
  ultimately show ?case using Cons.IH by blast
qed simp

lemma slop_full: "length qs mod 4 = 0 \<Longrightarrow> slop qs = 0"
  by (induction qs rule: slop.induct) auto

lemma decode_unpadded:
  assumes D: "0 < D" "D \<le> length dest" and src: "src = body @ 0 # more"
    and b: "\<forall>c\<in>set body. c \<noteq> 0 \<and> c \<noteq> Pad64"
  shows "(\<exists>qs. is_reading D (nonspace body) qs \<and> decode_result D src dest (dec4 qs) (base64_decode src dest D)) \<or>
    (\<nexists>qs. is_reading D (nonspace body) qs) \<and> (\<exists>t'. base64_decode src dest D = Some (-1, t') \<and> frame D dest t')"
proof -
  have reads: "is_reading D (nonspace body) qs \<longleftrightarrow>
      read_as D [] (nonspace body) qs \<and> pads (length qs mod 4) = [] \<and> length qs mod 4 \<noteq> 1 \<and>
      slop qs = 0 \<and> length (dec4 qs) \<le> D" for qs
    using is_reading_from [of body "[]" D qs] b by auto
  have pad: "pads n = [] \<longleftrightarrow> n = 0" if "n < 4" for n using that by (simp add: pads_def)
  have "read_result D [] (nonspace body) 0 more dest (decode_while src 0 0 D dest)"
    unfolding src using b decoded_start [OF D(2)] by (intro decode_while_run) auto
  then consider (ok) qs st ti t' where "read_as D [] (nonspace body) qs"
      "decode_while src 0 0 D dest = Some (Inr (0, more, st, ti), t')" "decoded D qs st ti t'" "frame D dest t'"
    | (bad) t' where "\<nexists>qs. read_as D [] (nonspace body) qs"
      "decode_while src 0 0 D dest = Some (Inl (-1), t')" "frame D dest t'"
    unfolding read_result_def by fastforce
  then show ?thesis
  proof cases
    case bad
    then show ?thesis using D reads by (simp add: base64_decode_def)
  next
    case ok
    then have st: "st = length qs mod 4" "length (dec4 qs) \<le> D" by (simp_all add: decoded_def fits_def)
    show ?thesis
    proof (cases "st = 0")
      case True
      then have "is_reading D (nonspace body) qs"
        using reads ok(1) st slop_full [of qs] by (simp add: pad)
      moreover have "decode_result D src dest (dec4 qs) (base64_decode src dest D)"
        using decode_finish [OF ok(3,4), of src] True ok(2) D Pad64_char(1)
        by (simp add: base64_decode_def)
      ultimately show ?thesis by blast
    next
      case False
      then have "\<nexists>qs. is_reading D (nonspace body) qs"
        using reads read_as_unique [OF ok(1)] st(1) pad by (metis mod_less_divisor zero_less_numeral)
      with False ok(2,4) D Pad64_char(1) show ?thesis by (simp add: base64_decode_def)
    qed
  qed
qed


lemma decode_padded:
  assumes D: "0 < D" "D \<le> length dest" and src: "src = body @ Pad64 # (tr @ 0 # more)"
    and b: "\<forall>c\<in>set body. c \<noteq> 0 \<and> c \<noteq> Pad64" and tr: "0 \<notin> set tr"
  shows "(\<exists>qs. is_reading D (nonspace (body @ Pad64 # tr)) qs \<and>
      decode_result D src dest (dec4 qs) (base64_decode src dest D)) \<or>
    (\<nexists>qs. is_reading D (nonspace (body @ Pad64 # tr)) qs) \<and>
      (\<exists>t'. base64_decode src dest D = Some (-1, t') \<and> frame D dest t')"
proof -
  let ?cs = "nonspace (body @ Pad64 # tr)"
  have reads: "is_reading D ?cs qs \<longleftrightarrow>
      read_as D [] (nonspace body) qs \<and> Pad64 # nonspace tr = pads (length qs mod 4) \<and> length qs mod 4 \<noteq> 1 \<and>
      slop qs = 0 \<and> length (dec4 qs) \<le> D" for qs
    using is_reading_from [of body "Pad64 # nonspace tr" D qs] b Pad64_char by auto
  have pad: "Pad64 # nonspace tr = pads n \<and> n \<noteq> 1 \<longleftrightarrow>
      \<not> (n = 0 \<or> n = 1) \<and> nonspace tr = (if n = 2 then [Pad64] else [])" if n: "n < 4" for n
  proof -
    consider "n = 0" | "n = 1" | "n = 2" | "n = 3" using n by linarith
    then show ?thesis by cases (simp_all add: pads_def numeral_2_eq_2)
  qed
  have "read_result D [] (nonspace body) Pad64 (tr @ 0 # more) dest (decode_while src 0 0 D dest)"
    unfolding src using b decoded_start [OF D(2)] by (intro decode_while_run) auto
  then consider (ok) qs st ti t' where "read_as D [] (nonspace body) qs"
      "decode_while src 0 0 D dest = Some (Inr (Pad64, tr @ 0 # more, st, ti), t')"
      "decoded D qs st ti t'" "frame D dest t'"
    | (bad) t' where "\<nexists>qs. read_as D [] (nonspace body) qs"
      "decode_while src 0 0 D dest = Some (Inl (-1), t')" "frame D dest t'"
    unfolding read_result_def by fastforce
  then show ?thesis
  proof cases
    case bad
    then show ?thesis using D reads by (simp add: base64_decode_def)
  next
    case ok
    then have st: "st = length qs mod 4" "length (dec4 qs) \<le> D" "st < 4" "D \<le> length t'"
      by (simp_all add: decoded_def fits_def)
    define acc where "acc \<longleftrightarrow> \<not> (st = 0 \<or> st = 1) \<and> nonspace tr = (if st = 2 then [Pad64] else [])"
    have trail: "decode_trailer (tr @ 0 # more) st = Some acc"
      unfolding acc_def using tr st(3) by (rule decode_trailer_run [OF refl])
    have iff: "is_reading D ?cs qs \<longleftrightarrow> acc \<and> slop qs = 0"
      using reads [of qs] ok(1) pad [OF st(3)] st(1,2) by (auto simp: acc_def)
    have slop: "acc \<Longrightarrow> slop qs = 0 \<longleftrightarrow> (ti < D \<longrightarrow> t' ! ti = 0)"
      using decoded_slop [OF ok(3)] by (auto simp: acc_def)
    show ?thesis
    proof (cases "acc \<and> slop qs = 0")
      case True
      then have "decode_result D src dest (dec4 qs) (base64_decode src dest D)"
        using decode_finish [OF ok(3,4), of src] slop ok(2) D trail st(4)
        by (simp add: base64_decode_def split: if_splits)
      with True iff show ?thesis by blast
    next
      case False
      then have "\<nexists>qs. is_reading D ?cs qs"
        using reads read_as_unique [OF ok(1)] iff by metis
      moreover have "base64_decode src dest D = Some (-1, t')"
        using False slop ok(2) D trail st(4) by (auto simp: base64_decode_def)
      ultimately show ?thesis using ok(4) by blast
    qed
  qed
qed

lemma decode_correct:
  assumes "0 \<in> set src" and "0 < D" "D \<le> length dest"
  shows "(\<exists>x. nonspace (cstr src) = b64_spec x \<and> length x \<le> D \<and>
      decode_result D src dest x (base64_decode src dest D)) \<or>
    (\<nexists>x. nonspace (cstr src) = b64_spec x \<and> length x \<le> D) \<and>
      (\<exists>t'. base64_decode src dest D = Some (-1, t') \<and> frame D dest t')"
proof -
  have "(\<exists>qs. is_reading D (nonspace (cstr src)) qs \<and> decode_result D src dest (dec4 qs) (base64_decode src dest D)) \<or>
    (\<nexists>qs. is_reading D (nonspace (cstr src)) qs) \<and> (\<exists>t'. base64_decode src dest D = Some (-1, t') \<and> frame D dest t')"
    using assms(1)
  proof (cases rule: pad_split)
    case (unpadded more)
    then show ?thesis using decode_unpadded [OF assms(2,3)] by blast
  next
    case (padded body tr more)
    then show ?thesis using decode_padded [OF assms(2,3) padded(1,3,4)] by simp
  qed
  then show ?thesis using is_reading_iff [of D "nonspace (cstr src)"] by blast
qed


lemma b64_digits:
  assumes "list_all six qs"
  shows "nonspace (map (\<lambda>q. digit (unat q)) qs) = map (\<lambda>q. digit (unat q)) qs"
    and "\<forall>c\<in>set (map (\<lambda>q. digit (unat q)) qs). c \<noteq> Pad64 \<and> c \<noteq> 0"
  using assms digit_char by (auto simp: filter_id_conv list_all_iff six_def)

lemma b64_spec_inj:
  assumes "b64_spec x = b64_spec y"
  shows "x = y"
proof -
  let ?D = "max (length x) (length y)" and ?cs = "b64_spec x"
  obtain qs qs' where r: "is_reading ?D ?cs qs" "dec4 qs = x" "is_reading ?D ?cs qs'" "dec4 qs' = y"
    using is_reading_iff [of ?D ?cs x] is_reading_iff [of ?D ?cs y] assms by auto
  let ?b = "map (\<lambda>q. digit (unat q)) qs" and ?p = "pads (length qs mod 4)"
  have six: "list_all six qs" using r(1) admits_six by (auto simp: is_reading_def)
  have cs: "?cs = nonspace ?b @ ?p" using r(1) b64_digits(1) [OF six] by (simp add: is_reading_def)
  have "\<forall>c\<in>set ?b. c \<noteq> Pad64" "?p = [] \<or> hd ?p = Pad64"
    using b64_digits(2) [OF six] by (auto simp: pads_def)
  then have "read_as ?D [] (nonspace ?b) q" if "is_reading ?D ?cs q" for q
    using is_reading_from [of ?b ?p ?D q] that cs by simp
  from this [OF r(1)] this [OF r(3)] have "qs = qs'" by (rule read_as_unique)
  with r show ?thesis by simp
qed

lemma b64_spec_chars: "\<forall>c\<in>set (b64_spec x). c \<noteq> 0 \<and> \<not> isspace c"
proof -
  have d: "digit (n mod 64) \<noteq> 0 \<and> \<not> isspace (digit (n mod 64))" for n
    using digit_char [of "n mod 64"] by simp
  show ?thesis by (induction x rule: b64_spec.induct) (simp_all only: b64_spec.simps set_simps set_append, auto simp: d Pad64_char)
qed

lemma cstr_b64: "cstr (b64_spec x @ 0 # more) = b64_spec x"
  unfolding cstr_def using b64_spec_chars [of x] by (subst takeWhile_append2) auto

lemma to_int_small: "n < 2 ^ 31 \<Longrightarrow> to_int n = int n"
  by (simp add: to_int_def signed_of_nat signed_take_bit_int_eq_self)


section \<open>Properties\<close>

text \<open>
  C33. \<open>base64_encode\<close> of \<open>n\<close> bytes into a buffer of \<open>dest_len\<close> bytes: when \<open>dest_len\<close> is at least
  \<open>BASE64_ENCODE_LEN(n)\<close> it writes the RFC encoding and a null byte, leaves the rest of the buffer alone
  and returns the length of the encoding; otherwise it returns \<open>-1\<close>.  It never accesses memory
  outside the source and the buffer.
\<close>

theorem base64_encode_correct:
  assumes "n \<le> length src" and "0 < dest_len" and "dest_len \<le> length dest"
  shows "if BASE64_ENCODE_LEN n \<le> dest_len
    then base64_encode src n dest dest_len =
      Some (to_int (length (b64_spec (take n src))),
            b64_spec (take n src) @ [0] @ drop (Suc (length (b64_spec (take n src)))) dest)
    else \<exists>t. base64_encode src n dest dest_len = Some (-1, t) \<and> length t = length dest"
proof -
  have l: "length (b64_spec (take n src)) = (n + 2) div 3 * 4" using assms(1) by (simp add: length_b64_spec)
  show ?thesis
    unfolding l BASE64_ENCODE_LEN_def
    using base64_encode_ok [OF assms(1) _ assms(3)] base64_encode_short [OF assms(1) _ assms(2,3)]
    by (auto simp: not_le)
qed

theorem base64_encode_correct_witness:
  "base64_encode [102, 111] 2 (replicate 5 1) 5 = Some (4, [90, 109, 56, 61, 0]) \<and>
   (\<exists>t. base64_encode [102, 111] 2 (replicate 5 1) 4 = Some (-1, t))"
proof -
  have "b64_spec [102, 111 :: byte] = [90, 109, 56, 61]"
    by (simp add: group24_def digit_def Base64_codes Pad64_def)
  then show ?thesis
    using base64_encode_correct [of 2 "[102, 111]" 5 "replicate 5 1"]
      base64_encode_correct [of 2 "[102, 111]" 4 "replicate 5 1"]
    by (auto simp: BASE64_ENCODE_LEN_def to_int_small)
qed

text \<open>
  C11. \<open>base64_decode\<close> of a null-terminated string accepts exactly the strings that, white space
  removed, are the RFC encoding of some bytes that fit the buffer: it then stores these bytes, a null
  byte behind them if there is room, and returns their number.  All other strings, with characters
  outside the alphabet, wrong padding, or non-zero bits behind the last byte, give \<open>-1\<close>.  It never
  accesses memory outside the string and the buffer.
\<close>

theorem base64_decode_correct:
  assumes "0 \<in> set src" and "0 < dest_len" and "dest_len \<le> length dest"
  shows "(\<exists>x t. nonspace (cstr src) = b64_spec x \<and> length x \<le> dest_len \<and>
      base64_decode src dest dest_len = Some (to_int (length x), t) \<and> take (length x) t = x \<and>
      (length x < dest_len \<longrightarrow> t ! length x = 0) \<and> length t = length dest \<and> drop dest_len t = drop dest_len dest) \<or>
    (\<nexists>x. nonspace (cstr src) = b64_spec x \<and> length x \<le> dest_len) \<and>
    (\<exists>t. base64_decode src dest dest_len = Some (-1, t) \<and> length t = length dest \<and>
      drop dest_len t = drop dest_len dest)"
  using decode_correct [OF assms] unfolding decode_result_def frame_def by blast

theorem base64_decode_correct_witness:
  "\<exists>t. base64_decode [90, 109, 32, 56, 61, 0] [9, 9, 9] 3 = Some (2, t) \<and> take 2 t = [102, 111]"
proof -
  have b: "b64_spec [102, 111 :: byte] = [90, 109, 56, 61]"
    by (simp add: group24_def digit_def Base64_codes Pad64_def)
  have c: "nonspace (cstr [90, 109, 32, 56, 61, 0]) = b64_spec [102, 111]"
    unfolding b by (simp add: cstr_def isspace_def)
  have "\<exists>x t. b64_spec [102, 111] = b64_spec x \<and>
      base64_decode [90, 109, 32, 56, 61, 0] [9, 9, 9] 3 = Some (to_int (length x), t) \<and> take (length x) t = x"
  proof -
    have p: "0 \<in> set [90, 109, 32, 56, 61, 0 :: byte]" "0 < (3::nat)" "3 \<le> length [9, 9, 9 :: byte]" by simp_all
    have "\<exists>x. b64_spec [102, 111 :: byte] = b64_spec x \<and> length x \<le> 3"
      by (rule exI [of _ "[102, 111]"]) (simp del: b64_spec.simps)
    with base64_decode_correct [OF p, unfolded c] show ?thesis by blast
  qed
  then obtain x t where x: "b64_spec [102, 111] = b64_spec x"
    "base64_decode [90, 109, 32, 56, 61, 0] [9, 9, 9] 3 = Some (to_int (length x), t)" "take (length x) t = x"
    by blast
  from b64_spec_inj [OF x(1)] have "x = [102, 111]" by simp
  moreover have "to_int (Suc (Suc 0)) = 2" by (simp add: to_int_small)
  ultimately show ?thesis using x by (simp add: numeral_2_eq_2)
qed

text \<open>
  C26. Decoding what \<open>base64_encode\<close> wrote gives the bytes back, for every buffer of at least
  \<open>BASE64_ENCODE_LEN\<close> bytes for the encoding and every non-empty buffer that holds the bytes for the
  decoding (so a buffer of exactly the size of the data is enough).
\<close>

theorem base64_roundtrip:
  assumes "(length x + 2) div 3 * 4 < 2 ^ 31"
    and "BASE64_ENCODE_LEN (length x) \<le> n1" and "n1 \<le> length d1"
    and "0 < n2" and "length x \<le> n2" and "n2 \<le> length d2"
  shows "\<exists>t1 t2. base64_encode x (length x) d1 n1 = Some (int (length (b64_spec x)), t1) \<and>
    base64_decode t1 d2 n2 = Some (int (length x), t2) \<and> take (length x) t2 = x"
proof -
  let ?t1 = "b64_spec x @ 0 # drop (Suc (length (b64_spec x))) d1"
  have "base64_encode x (length x) d1 n1 = Some (int (length (b64_spec x)), ?t1)"
    using base64_encode_ok [of "length x" x n1 d1] assms(1-3)
    by (simp add: length_b64_spec to_int_small BASE64_ENCODE_LEN_def)
  moreover have "nonspace (cstr ?t1) = b64_spec x"
    using b64_spec_chars [of x] by (simp add: cstr_b64 filter_id_conv)
  then have "\<exists>t2. base64_decode ?t1 d2 n2 = Some (to_int (length x), t2) \<and> take (length x) t2 = x"
    using decode_correct [of ?t1 n2 d2] assms(4-6) b64_spec_inj [of x] by (auto simp: decode_result_def)
  moreover have "to_int (length x) = int (length x)"
    using assms(1) by (intro to_int_small) linarith
  ultimately show ?thesis by metis
qed

theorem base64_roundtrip_witness:
  "\<exists>t1 t2. base64_encode [1, 2, 3, 4] 4 (replicate 9 0) 9 = Some (int (length (b64_spec [1, 2, 3, 4])), t1) \<and>
    base64_decode t1 [0, 0, 0, 0] 4 = Some (4, t2) \<and> take 4 t2 = [1, 2, 3, 4]"
proof -
  have l: "length [1, 2, 3, 4 :: byte] = 4" by simp
  have "\<exists>t1 t2. base64_encode [1, 2, 3, 4] (length [1, 2, 3, 4 :: byte]) (replicate 9 0) 9 =
      Some (int (length (b64_spec [1, 2, 3, 4])), t1) \<and>
    base64_decode t1 [0, 0, 0, 0] 4 = Some (int (length [1, 2, 3, 4 :: byte]), t2) \<and>
    take (length [1, 2, 3, 4 :: byte]) t2 = [1, 2, 3, 4]"
    by (rule base64_roundtrip) (simp_all add: BASE64_ENCODE_LEN_def)
  then show ?thesis by (simp only: l of_nat_numeral)
qed

end
