(* ===== verification/Block_Hash.thy ===== *)
theory Block_Hash
  imports Base_Prelude
begin

unbundle bit_operations_syntax

text \<open>
  What the two message digests of the library, MD5 and SHA-1, share.  The specification of both:
  the message is padded to a multiple of 64 bytes with a byte \<open>0x80\<close>, zeros and its length in bits,
  and a compression function absorbs it block by block.  The locale \<open>streaming_hash\<close> is the contract
  of a context that is fed a message in pieces; its lemma states that the digest only depends on
  the concatenation of the pieces.
\<close>

section \<open>Padding and blocks\<close>

function absorb :: "('s \<Rightarrow> byte list \<Rightarrow> 's) \<Rightarrow> 's \<Rightarrow> byte list \<Rightarrow> 's" where
  "absorb f s m = (if length m < 64 then s else absorb f (f s (take 64 m)) (drop 64 m))"
  by pat_completeness auto
termination by (relation "measure (\<lambda>(f, s, m). length m)") auto

declare absorb.simps [simp del]

definition unabsorbed :: "byte list \<Rightarrow> byte list" where
  "unabsorbed m = drop (64 * (length m div 64)) m"

definition md_pad :: "(nat \<Rightarrow> byte list) \<Rightarrow> byte list \<Rightarrow> byte list" where
  "md_pad enc m = m @ [0x80] @ replicate ((119 - length m mod 64) mod 64) 0 @ enc (length m)"

definition md_hash :: "('s \<Rightarrow> byte list \<Rightarrow> 's) \<Rightarrow> 's \<Rightarrow> (nat \<Rightarrow> byte list) \<Rightarrow> ('s \<Rightarrow> byte list) \<Rightarrow> byte list \<Rightarrow> byte list" where
  "md_hash f s0 enc out m = out (absorb f s0 (md_pad enc m))"

lemma absorb_short [simp]: "length m < 64 \<Longrightarrow> absorb f s m = s"
  by (simp add: absorb.simps)

lemma absorb_block [simp]: "length b = 64 \<Longrightarrow> absorb f s (b @ m) = absorb f (f s b) m"
  by (simp add: absorb.simps [of f s])

lemma absorb_one [simp]: "length b = 64 \<Longrightarrow> absorb f s b = f s b"
  using absorb_block [of b f s "[]"] by simp

lemma absorb_append:
  "length u mod 64 = 0 \<Longrightarrow> absorb f s (u @ v) = absorb f (absorb f s u) v"
proof (induction f s u rule: absorb.induct)
  case (1 f s u)
  show ?case
  proof (cases "length u < 64")
    case True
    with 1 have "u = []" by simp
    then show ?thesis by simp
  next
    case False
    then have "length (drop 64 u) mod 64 = 0" using 1(2) by (simp add: mod_if [of "length u"])
    from 1(1) [OF False this] False show ?thesis by (simp add: absorb.simps [of f s])
  qed
qed

lemma length_unabsorbed [simp]: "length (unabsorbed m) = length m mod 64"
  by (simp add: unabsorbed_def minus_mult_div_eq_mod)

lemma unabsorbed_split:
  obtains u where "m = u @ unabsorbed m" "length u mod 64 = 0"
proof
  show "m = take (64 * (length m div 64)) m @ unabsorbed m" by (simp add: unabsorbed_def)
  show "length (take (64 * (length m div 64)) m) mod 64 = 0"
    by (simp add: min_absorb2 div_times_less_eq_dividend)
qed

lemma unabsorbed_append: "length u mod 64 = 0 \<Longrightarrow> unabsorbed (u @ v) = unabsorbed v"
  by (simp add: unabsorbed_def div_plus_div_distrib_dvd_left dvd_eq_mod_eq_0 distrib_left)

lemma unabsorbed_short [simp]: "length m < 64 \<Longrightarrow> unabsorbed m = m"
  by (simp add: unabsorbed_def)

lemma absorb_rest: "absorb f s m = absorb f s (take (64 * (length m div 64)) m)"
proof -
  have "length (take (64 * (length m div 64)) m) mod 64 = 0"
    by (simp add: min_absorb2 div_times_less_eq_dividend)
  from absorb_append [OF this, of f s "unabsorbed m"] show ?thesis
    by (simp add: unabsorbed_def [symmetric]) (simp add: unabsorbed_def)
qed

text \<open>Absorbing more data continues from the unabsorbed rest.\<close>

lemma absorb_continue:
  "absorb f s (m @ d) = absorb f (absorb f s m) (unabsorbed m @ d)"
  "unabsorbed (m @ d) = unabsorbed (unabsorbed m @ d)"
proof -
  obtain u where u: "m = u @ unabsorbed m" "length u mod 64 = 0" by (rule unabsorbed_split)
  have "absorb f s m = absorb f s u"
    using absorb_append [OF u(2), of f s "unabsorbed m"] u(1) by simp
  moreover have "absorb f s (m @ d) = absorb f (absorb f s u) (unabsorbed m @ d)"
    using absorb_append [OF u(2), of f s "unabsorbed m @ d"] u(1) by (metis append.assoc)
  ultimately show "absorb f s (m @ d) = absorb f (absorb f s m) (unabsorbed m @ d)" by simp
  show "unabsorbed (m @ d) = unabsorbed (unabsorbed m @ d)"
    using unabsorbed_append [OF u(2), of "unabsorbed m @ d"] u(1) by (metis append.assoc)
qed

text \<open>The last one or two blocks of the padded message.\<close>

lemma absorb_pad:
  assumes "length (enc (length m)) = 8"
  shows "absorb f s (md_pad enc m) =
    (let r = unabsorbed m; c = absorb f s m; e = enc (length m) in
     if length r \<le> 55 then f c (r @ 0x80 # replicate (55 - length r) 0 @ e)
     else f (f c (r @ 0x80 # replicate (63 - length r) 0)) (replicate 56 0 @ e))"
proof -
  define r where "r = unabsorbed m"
  have r: "length r = length m mod 64" "length r < 64" by (simp_all add: r_def)
  have "absorb f s (md_pad enc m) =
      absorb f (absorb f s m) (r @ 0x80 # replicate ((119 - length r) mod 64) 0 @ enc (length m))"
    unfolding md_pad_def r(1) [symmetric] by (subst absorb_continue(1)) (simp add: r_def)
  also have "\<dots> = (if length r \<le> 55 then f (absorb f s m) (r @ 0x80 # replicate (55 - length r) 0 @ enc (length m))
     else f (f (absorb f s m) (r @ 0x80 # replicate (63 - length r) 0)) (replicate 56 0 @ enc (length m)))"
  proof (cases "length r \<le> 55")
    case True
    have "(119 - length r) mod 64 = 55 - length r"
    proof -
      have "119 - length r = (55 - length r) + 64" using True by simp
      then show ?thesis by (simp only: mod_add_self2) simp
    qed
    with True assms show ?thesis by simp
  next
    case False
    then have "(119 - length r) mod 64 = (63 - length r) + 56" using r(2) by simp
    define b1 b2 where "b1 = r @ 0x80 # replicate (63 - length r) 0" and "b2 = replicate 56 0 @ enc (length m)"
    have len: "length b1 = 64" "length b2 = 64" using r(2) assms by (simp_all add: b1_def b2_def)
    have "r @ 0x80 # replicate ((119 - length r) mod 64) 0 @ enc (length m) = b1 @ b2"
      unfolding b1_def b2_def \<open>(119 - length r) mod 64 = (63 - length r) + 56\<close>
      by (simp only: replicate_add append.assoc append_Cons)
    with False len show ?thesis by (simp add: b1_def [symmetric] b2_def [symmetric])
  qed
  finally show ?thesis by (simp add: r_def Let_def)
qed

section \<open>Rotations by shifts, bytes of a word\<close>

lemma and_all_ones: "w AND 0xffffffff = (w :: u32)"
proof -
  have "(0xffffffff :: u32) = - 1" by simp
  then show ?thesis by (metis and.right_neutral)
qed

lemma rotate_shifts:
  fixes w :: u32
  assumes "0 < s" and "s < 32"
  shows "push_bit s w OR drop_bit (32 - s) w = word_rotl s w"
proof (rule bit_word_eqI)
  fix i assume i: "i < LENGTH(32)"
  show "bit (push_bit s w OR drop_bit (32 - s) w) i \<longleftrightarrow> bit (word_rotl s w) i"
  proof (cases "s \<le> i")
    case True
    then have "(i + (32 - s)) mod 32 = i - s" using i assms by (simp add: mod_if)
    moreover have "\<not> bit w (32 - s + i)" using True assms by (auto dest: bit_imp_le_length)
    ultimately show ?thesis using True i assms
      by (simp add: bit_or_iff bit_push_bit_iff bit_drop_bit_eq bit_word_rotl_iff)
  next
    case False
    then have "(i + (32 - s)) mod 32 = 32 - s + i" using assms by simp
    with False i assms show ?thesis
      by (simp add: bit_or_iff bit_push_bit_iff bit_drop_bit_eq bit_word_rotl_iff)
  qed
qed

lemma byte_of_word:
  fixes w :: "'a::len word"
  shows "ucast (drop_bit (8 * i) w) = (of_nat (unat w div 256 ^ i) :: byte)"
proof -
  have "unat (drop_bit (8 * i) w) = drop_bit (8 * i) (unat w)"
    using unsigned_less [of w, where ?'a = nat] by (simp add: unsigned_drop_bit_eq take_bit_nat_eq_self)
  also have "\<dots> = unat w div 256 ^ i" by (simp add: drop_bit_eq_div power_mult)
  finally have "of_nat (unat (drop_bit (8 * i) w)) = (of_nat (unat w div 256 ^ i) :: byte)" by simp
  then show ?thesis by simp
qed

section \<open>Contexts fed in pieces\<close>

fun hash_pieces :: "('c \<Rightarrow> byte list \<Rightarrow> 'c option) \<Rightarrow> ('c \<Rightarrow> byte list option) \<Rightarrow> 'c \<Rightarrow> byte list list \<Rightarrow> byte list option" where
  "hash_pieces update finish c [] = finish c"
| "hash_pieces update finish c (d # ds) =
     (case update c d of None \<Rightarrow> None | Some c' \<Rightarrow> hash_pieces update finish c' ds)"

locale streaming_hash =
  fixes absorbed :: "byte list \<Rightarrow> 'c \<Rightarrow> bool"
    and update :: "'c \<Rightarrow> byte list \<Rightarrow> 'c option"
    and finish :: "'c \<Rightarrow> byte list option"
    and digest :: "byte list \<Rightarrow> byte list"
  assumes update: "\<lbrakk>absorbed m c; length d < 2 ^ 64\<rbrakk> \<Longrightarrow> \<exists>c'. update c d = Some c' \<and> absorbed (m @ d) c'"
    and finish: "absorbed m c \<Longrightarrow> finish c = Some (digest m)"
begin

lemma pieces:
  "\<lbrakk>absorbed m c; \<forall>d\<in>set ds. length d < 2 ^ 64\<rbrakk> \<Longrightarrow>
   hash_pieces update finish c ds = Some (digest (m @ concat ds))"
proof (induction ds arbitrary: m c)
  case Nil
  then show ?case by (simp add: finish)
next
  case (Cons d ds)
  then obtain c' where "update c d = Some c'" "absorbed (m @ d) c'" using update [of m c d] by auto
  with Cons show ?case by auto
qed

end

end
