(* ===== verification/Md5.thy ===== *)
theory Md5
  imports Block_Hash
begin

unbundle bit_operations_syntax

text \<open>
  The MD5 implementation of \<^verbatim>\<open>base/src/dsa/md5.c\<close>.  The context holds the chaining registers, the
  length in two counters and a buffer of 64 bytes; the transformation of a block is unrolled into 64
  \<open>STEP\<close> statements with optimised boolean functions.  Accesses outside the buffers are \<^const>\<open>None\<close>.

  The specification is RFC 1321: the padding, the boolean functions and the loop over 64 operations.
  The theory shows that the unrolled code is that loop, and that a context fed a message in any
  pieces yields the RFC digest of the message.
\<close>

section \<open>The code\<close>

type_synonym md5_regs = "u32 \<times> u32 \<times> u32 \<times> u32"

record md5_ctx =
  md_lo :: u32
  md_hi :: u32
  md_regs :: md5_regs
  md_buffer :: "byte list"

definition md5_F :: "u32 \<Rightarrow> u32 \<Rightarrow> u32 \<Rightarrow> u32" where
  "md5_F x y z = z XOR (x AND (y XOR z))"

definition md5_G :: "u32 \<Rightarrow> u32 \<Rightarrow> u32 \<Rightarrow> u32" where
  "md5_G x y z = y XOR (z AND (x XOR y))"

definition md5_H :: "u32 \<Rightarrow> u32 \<Rightarrow> u32 \<Rightarrow> u32" where
  "md5_H x y z = (x XOR y) XOR z"

definition md5_H2 :: "u32 \<Rightarrow> u32 \<Rightarrow> u32 \<Rightarrow> u32" where
  "md5_H2 x y z = x XOR (y XOR z)"

definition md5_I :: "u32 \<Rightarrow> u32 \<Rightarrow> u32 \<Rightarrow> u32" where
  "md5_I x y z = y XOR (x OR NOT z)"

text \<open>\<open>STEP(f, a, b, c, d, x, t, s)\<close>: the new value of \<open>a\<close>.\<close>

definition STEP :: "(u32 \<Rightarrow> u32 \<Rightarrow> u32 \<Rightarrow> u32) \<Rightarrow> u32 \<Rightarrow> u32 \<Rightarrow> u32 \<Rightarrow> u32 \<Rightarrow> u32 \<Rightarrow> u32 \<Rightarrow> nat \<Rightarrow> u32" where
  "STEP f a b c d x t s =
     (let a = a + (f b c d + x + t);
          a = push_bit s a OR drop_bit (32 - s) (a AND 0xffffffff)
      in a + b)"

text \<open>The four rotations of the registers the statements use.\<close>

definition STEP_a :: "(u32 \<Rightarrow> u32 \<Rightarrow> u32 \<Rightarrow> u32) \<Rightarrow> u32 \<Rightarrow> u32 \<Rightarrow> nat \<Rightarrow> md5_regs \<Rightarrow> md5_regs" where
  "STEP_a f x t s = (\<lambda>(a, b, c, d). (STEP f a b c d x t s, b, c, d))"

definition STEP_d :: "(u32 \<Rightarrow> u32 \<Rightarrow> u32 \<Rightarrow> u32) \<Rightarrow> u32 \<Rightarrow> u32 \<Rightarrow> nat \<Rightarrow> md5_regs \<Rightarrow> md5_regs" where
  "STEP_d f x t s = (\<lambda>(a, b, c, d). (a, b, c, STEP f d a b c x t s))"

definition STEP_c :: "(u32 \<Rightarrow> u32 \<Rightarrow> u32 \<Rightarrow> u32) \<Rightarrow> u32 \<Rightarrow> u32 \<Rightarrow> nat \<Rightarrow> md5_regs \<Rightarrow> md5_regs" where
  "STEP_c f x t s = (\<lambda>(a, b, c, d). (a, b, STEP f c d a b x t s, d))"

definition STEP_b :: "(u32 \<Rightarrow> u32 \<Rightarrow> u32 \<Rightarrow> u32) \<Rightarrow> u32 \<Rightarrow> u32 \<Rightarrow> nat \<Rightarrow> md5_regs \<Rightarrow> md5_regs" where
  "STEP_b f x t s = (\<lambda>(a, b, c, d). (a, STEP f b c d a x t s, c, d))"

text \<open>The word of four bytes in little-endian order at \<open>ptr + 4 * n\<close>.\<close>

definition SET :: "byte list \<Rightarrow> nat \<Rightarrow> u32" where
  "SET ptr n =
     ucast (ptr ! (n * 4)) OR push_bit 8 (ucast (ptr ! (n * 4 + 1))) OR
     push_bit 16 (ucast (ptr ! (n * 4 + 2))) OR push_bit 24 (ucast (ptr ! (n * 4 + 3)))"

text \<open>The statements of the four rounds, in order.\<close>

definition md5_round1 :: "byte list \<Rightarrow> (md5_regs \<Rightarrow> md5_regs) list" where
  "md5_round1 ptr =
     [STEP_a md5_F (SET ptr 0) 0xd76aa478 7,
      STEP_d md5_F (SET ptr 1) 0xe8c7b756 12,
      STEP_c md5_F (SET ptr 2) 0x242070db 17,
      STEP_b md5_F (SET ptr 3) 0xc1bdceee 22,
      STEP_a md5_F (SET ptr 4) 0xf57c0faf 7,
      STEP_d md5_F (SET ptr 5) 0x4787c62a 12,
      STEP_c md5_F (SET ptr 6) 0xa8304613 17,
      STEP_b md5_F (SET ptr 7) 0xfd469501 22,
      STEP_a md5_F (SET ptr 8) 0x698098d8 7,
      STEP_d md5_F (SET ptr 9) 0x8b44f7af 12,
      STEP_c md5_F (SET ptr 10) 0xffff5bb1 17,
      STEP_b md5_F (SET ptr 11) 0x895cd7be 22,
      STEP_a md5_F (SET ptr 12) 0x6b901122 7,
      STEP_d md5_F (SET ptr 13) 0xfd987193 12,
      STEP_c md5_F (SET ptr 14) 0xa679438e 17,
      STEP_b md5_F (SET ptr 15) 0x49b40821 22]"

definition md5_round2 :: "byte list \<Rightarrow> (md5_regs \<Rightarrow> md5_regs) list" where
  "md5_round2 ptr =
     [STEP_a md5_G (SET ptr 1) 0xf61e2562 5,
      STEP_d md5_G (SET ptr 6) 0xc040b340 9,
      STEP_c md5_G (SET ptr 11) 0x265e5a51 14,
      STEP_b md5_G (SET ptr 0) 0xe9b6c7aa 20,
      STEP_a md5_G (SET ptr 5) 0xd62f105d 5,
      STEP_d md5_G (SET ptr 10) 0x02441453 9,
      STEP_c md5_G (SET ptr 15) 0xd8a1e681 14,
      STEP_b md5_G (SET ptr 4) 0xe7d3fbc8 20,
      STEP_a md5_G (SET ptr 9) 0x21e1cde6 5,
      STEP_d md5_G (SET ptr 14) 0xc33707d6 9,
      STEP_c md5_G (SET ptr 3) 0xf4d50d87 14,
      STEP_b md5_G (SET ptr 8) 0x455a14ed 20,
      STEP_a md5_G (SET ptr 13) 0xa9e3e905 5,
      STEP_d md5_G (SET ptr 2) 0xfcefa3f8 9,
      STEP_c md5_G (SET ptr 7) 0x676f02d9 14,
      STEP_b md5_G (SET ptr 12) 0x8d2a4c8a 20]"

definition md5_round3 :: "byte list \<Rightarrow> (md5_regs \<Rightarrow> md5_regs) list" where
  "md5_round3 ptr =
     [STEP_a md5_H (SET ptr 5) 0xfffa3942 4,
      STEP_d md5_H2 (SET ptr 8) 0x8771f681 11,
      STEP_c md5_H (SET ptr 11) 0x6d9d6122 16,
      STEP_b md5_H2 (SET ptr 14) 0xfde5380c 23,
      STEP_a md5_H (SET ptr 1) 0xa4beea44 4,
      STEP_d md5_H2 (SET ptr 4) 0x4bdecfa9 11,
      STEP_c md5_H (SET ptr 7) 0xf6bb4b60 16,
      STEP_b md5_H2 (SET ptr 10) 0xbebfbc70 23,
      STEP_a md5_H (SET ptr 13) 0x289b7ec6 4,
      STEP_d md5_H2 (SET ptr 0) 0xeaa127fa 11,
      STEP_c md5_H (SET ptr 3) 0xd4ef3085 16,
      STEP_b md5_H2 (SET ptr 6) 0x04881d05 23,
      STEP_a md5_H (SET ptr 9) 0xd9d4d039 4,
      STEP_d md5_H2 (SET ptr 12) 0xe6db99e5 11,
      STEP_c md5_H (SET ptr 15) 0x1fa27cf8 16,
      STEP_b md5_H2 (SET ptr 2) 0xc4ac5665 23]"

definition md5_round4 :: "byte list \<Rightarrow> (md5_regs \<Rightarrow> md5_regs) list" where
  "md5_round4 ptr =
     [STEP_a md5_I (SET ptr 0) 0xf4292244 6,
      STEP_d md5_I (SET ptr 7) 0x432aff97 10,
      STEP_c md5_I (SET ptr 14) 0xab9423a7 15,
      STEP_b md5_I (SET ptr 5) 0xfc93a039 21,
      STEP_a md5_I (SET ptr 12) 0x655b59c3 6,
      STEP_d md5_I (SET ptr 3) 0x8f0ccc92 10,
      STEP_c md5_I (SET ptr 10) 0xffeff47d 15,
      STEP_b md5_I (SET ptr 1) 0x85845dd1 21,
      STEP_a md5_I (SET ptr 8) 0x6fa87e4f 6,
      STEP_d md5_I (SET ptr 15) 0xfe2ce6e0 10,
      STEP_c md5_I (SET ptr 6) 0xa3014314 15,
      STEP_b md5_I (SET ptr 13) 0x4e0811a1 21,
      STEP_a md5_I (SET ptr 4) 0xf7537e82 6,
      STEP_d md5_I (SET ptr 11) 0xbd3af235 10,
      STEP_c md5_I (SET ptr 2) 0x2ad7d2bb 15,
      STEP_b md5_I (SET ptr 9) 0xeb86d391 21]"

definition md5_block :: "byte list \<Rightarrow> md5_regs \<Rightarrow> md5_regs" where
  "md5_block ptr saved =
     (case saved of (saved_a, saved_b, saved_c, saved_d) \<Rightarrow>
      case fold (\<lambda>step. step) (md5_round1 ptr @ md5_round2 ptr @ md5_round3 ptr @ md5_round4 ptr) saved of
        (a, b, c, d) \<Rightarrow> (a + saved_a, b + saved_b, c + saved_c, d + saved_d))"

text \<open>\<open>do \<dots> while (size -= 64)\<close>: the registers and the data behind the last block\<close>

function md5_body_loop :: "md5_regs \<Rightarrow> byte list \<Rightarrow> u64 \<Rightarrow> (md5_regs \<times> byte list) option" where
  "md5_body_loop regs ptr sz =
     (if length ptr < 64 then None
      else let regs = md5_block (take 64 ptr) regs; sz = sz - 64
           in if sz \<noteq> 0 then md5_body_loop regs (drop 64 ptr) sz else Some (regs, drop 64 ptr))"
  by pat_completeness auto
termination by (relation "measure (\<lambda>(regs, ptr, sz). length ptr)") auto

declare md5_body_loop.simps [simp del]

definition md5_body :: "md5_ctx \<Rightarrow> byte list \<Rightarrow> u64 \<Rightarrow> (md5_ctx \<times> byte list) option" where
  "md5_body ctx data sz =
     (case md5_body_loop (md_regs ctx) data sz of
        None \<Rightarrow> None
      | Some (regs, ptr) \<Rightarrow> Some (ctx\<lparr>md_regs := regs\<rparr>, ptr))"

definition md5_begin :: "md5_ctx \<Rightarrow> md5_ctx" where
  "md5_begin ctx =
     ctx\<lparr>md_regs := (0x67452301, 0xefcdab89, 0x98badcfe, 0x10325476), md_lo := 0, md_hi := 0\<rparr>"

text \<open>The end of \<open>md5_hash\<close>: full blocks from the data, the rest into the buffer.\<close>

definition md5_hash_rest :: "md5_ctx \<Rightarrow> byte list \<Rightarrow> u64 \<Rightarrow> md5_ctx option" where
  "md5_hash_rest ctx data sz =
     (case (if sz \<ge> 64 then
              (case md5_body ctx data (sz AND NOT 0x3f) of
                 None \<Rightarrow> None
               | Some (ctx, data) \<Rightarrow> Some (ctx, data, sz AND 0x3f))
            else Some (ctx, data, sz)) of
        None \<Rightarrow> None
      | Some (ctx, data, sz) \<Rightarrow>
          (case memcpy_to (md_buffer ctx) 0 data 0 (unat sz) of
             None \<Rightarrow> None
           | Some buffer \<Rightarrow> Some (ctx\<lparr>md_buffer := buffer\<rparr>)))"

definition md5_hash :: "byte list \<Rightarrow> u64 \<Rightarrow> md5_ctx \<Rightarrow> md5_ctx option" where
  "md5_hash data sz ctx =
     (let saved_lo = md_lo ctx;
          lo = ucast ((ucast saved_lo + sz) AND 0x1fffffff) :: u32;
          hi = (if lo < saved_lo then md_hi ctx + 1 else md_hi ctx) + ucast (drop_bit 29 sz);
          ctx = ctx\<lparr>md_lo := lo, md_hi := hi\<rparr>;
          used = unat (saved_lo AND 0x3f)
      in if used \<noteq> 0 then
           (let available = 64 - used in
            if unat sz < available then
              (case memcpy_to (md_buffer ctx) used data 0 (unat sz) of
                 None \<Rightarrow> None
               | Some buffer \<Rightarrow> Some (ctx\<lparr>md_buffer := buffer\<rparr>))
            else
              (case memcpy_to (md_buffer ctx) used data 0 available of
                 None \<Rightarrow> None
               | Some buffer \<Rightarrow>
                   (case md5_body (ctx\<lparr>md_buffer := buffer\<rparr>) buffer 64 of
                      None \<Rightarrow> None
                    | Some (ctx, _) \<Rightarrow>
                        md5_hash_rest ctx (drop available data) (sz - of_nat available))))
         else md5_hash_rest ctx data sz)"

text \<open>The four bytes of a word, least significant first.\<close>

definition le_bytes :: "u32 \<Rightarrow> byte list" where
  "le_bytes w = [ucast w, ucast (drop_bit 8 w), ucast (drop_bit 16 w), ucast (drop_bit 24 w)]"

text \<open>
  \<open>md5_end\<close>: the digest and the cleared context.  \<open>memset(&buffer[i], 0, n)\<close> writes \<open>n\<close> zeros.
\<close>

definition md5_end :: "md5_ctx \<Rightarrow> (byte list \<times> md5_ctx) option" where
  "md5_end ctx =
     (let used = unat (md_lo ctx AND 0x3f) in
      case mem_write (md_buffer ctx) used [0x80] of
        None \<Rightarrow> None
      | Some buffer \<Rightarrow>
          (let used = used + 1; available = 64 - used in
           case (if available < 8 then
                   (case mem_write buffer used (replicate available 0) of
                      None \<Rightarrow> None
                    | Some buffer \<Rightarrow>
                        (case md5_body (ctx\<lparr>md_buffer := buffer\<rparr>) buffer 64 of
                           None \<Rightarrow> None
                         | Some (ctx, _) \<Rightarrow> Some (ctx, 0, 64)))
                 else Some (ctx\<lparr>md_buffer := buffer\<rparr>, used, available)) of
             None \<Rightarrow> None
           | Some (ctx, used, available) \<Rightarrow>
               (case mem_write (md_buffer ctx) used (replicate (available - 8) 0) of
                  None \<Rightarrow> None
                | Some buffer \<Rightarrow>
                    (let ctx = ctx\<lparr>md_lo := push_bit 3 (md_lo ctx)\<rparr> in
                     case mem_write buffer 56 (le_bytes (md_lo ctx) @ le_bytes (md_hi ctx)) of
                       None \<Rightarrow> None
                     | Some buffer \<Rightarrow>
                         (case md5_body (ctx\<lparr>md_buffer := buffer\<rparr>) buffer 64 of
                            None \<Rightarrow> None
                          | Some (ctx, _) \<Rightarrow>
                              (case md_regs ctx of (a, b, c, d) \<Rightarrow>
                               Some (le_bytes a @ le_bytes b @ le_bytes c @ le_bytes d,
                                 \<lparr>md_lo = 0, md_hi = 0, md_regs = (0, 0, 0, 0), md_buffer = replicate 64 0\<rparr>)))))))"

text \<open>
  \<open>md5sum\<close>: \<open>reads\<close> are the results of the successive calls of \<open>fread\<close>, up to the first empty one;
  \<^const>\<open>None\<close> is a file that cannot be opened.  The context and the buffer \<open>md5_buf\<close> are objects
  of the caller.  The result is the return value and the digest, if one was stored.
\<close>

fun md5_file_loop :: "byte list list \<Rightarrow> nat \<Rightarrow> md5_ctx \<Rightarrow> (nat \<times> md5_ctx) option" where
  "md5_file_loop [] ret ctx = Some (ret, ctx)"
| "md5_file_loop (buf # reads) ret ctx =
     (if length buf = 0 then Some (ret, ctx)
      else case md5_hash buf (of_nat (length buf)) ctx of
             None \<Rightarrow> None
           | Some ctx \<Rightarrow> md5_file_loop reads (ret + length buf) ctx)"

definition md5sum :: "byte list list option \<Rightarrow> md5_ctx \<Rightarrow> (int \<times> byte list option) option" where
  "md5sum f ctx =
     (case f of
        None \<Rightarrow> Some (-1, None)
      | Some reads \<Rightarrow>
          (case md5_file_loop reads 0 (md5_begin ctx) of
             None \<Rightarrow> None
           | Some (ret, ctx) \<Rightarrow>
               (case md5_end ctx of
                  None \<Rightarrow> None
                | Some (digest, _) \<Rightarrow> Some (sint (of_nat ret :: 32 word), Some digest))))"

section \<open>The specification\<close>

definition rfc_F :: "u32 \<Rightarrow> u32 \<Rightarrow> u32 \<Rightarrow> u32" where
  "rfc_F x y z = (x AND y) OR (NOT x AND z)"

definition rfc_G :: "u32 \<Rightarrow> u32 \<Rightarrow> u32 \<Rightarrow> u32" where
  "rfc_G x y z = (x AND z) OR (y AND NOT z)"

definition rfc_H :: "u32 \<Rightarrow> u32 \<Rightarrow> u32 \<Rightarrow> u32" where
  "rfc_H x y z = x XOR y XOR z"

definition rfc_I :: "u32 \<Rightarrow> u32 \<Rightarrow> u32 \<Rightarrow> u32" where
  "rfc_I x y z = y XOR (x OR NOT z)"

text \<open>The sine table, \<open>\<lfloor>2^32 * |sin (i + 1)|\<rfloor>\<close>.\<close>

definition rfc_T :: "u32 list" where
  "rfc_T =
     [0xd76aa478, 0xe8c7b756, 0x242070db, 0xc1bdceee,
      0xf57c0faf, 0x4787c62a, 0xa8304613, 0xfd469501,
      0x698098d8, 0x8b44f7af, 0xffff5bb1, 0x895cd7be,
      0x6b901122, 0xfd987193, 0xa679438e, 0x49b40821,
      0xf61e2562, 0xc040b340, 0x265e5a51, 0xe9b6c7aa,
      0xd62f105d, 0x02441453, 0xd8a1e681, 0xe7d3fbc8,
      0x21e1cde6, 0xc33707d6, 0xf4d50d87, 0x455a14ed,
      0xa9e3e905, 0xfcefa3f8, 0x676f02d9, 0x8d2a4c8a,
      0xfffa3942, 0x8771f681, 0x6d9d6122, 0xfde5380c,
      0xa4beea44, 0x4bdecfa9, 0xf6bb4b60, 0xbebfbc70,
      0x289b7ec6, 0xeaa127fa, 0xd4ef3085, 0x04881d05,
      0xd9d4d039, 0xe6db99e5, 0x1fa27cf8, 0xc4ac5665,
      0xf4292244, 0x432aff97, 0xab9423a7, 0xfc93a039,
      0x655b59c3, 0x8f0ccc92, 0xffeff47d, 0x85845dd1,
      0x6fa87e4f, 0xfe2ce6e0, 0xa3014314, 0x4e0811a1,
      0xf7537e82, 0xbd3af235, 0x2ad7d2bb, 0xeb86d391]"

definition rfc_fun :: "nat \<Rightarrow> u32 \<Rightarrow> u32 \<Rightarrow> u32 \<Rightarrow> u32" where
  "rfc_fun i = [rfc_F, rfc_G, rfc_H, rfc_I] ! (i div 16)"

definition rfc_index :: "nat \<Rightarrow> nat" where
  "rfc_index i = [i, 5 * i + 1, 3 * i + 5, 7 * i] ! (i div 16) mod 16"

definition rfc_shift :: "nat \<Rightarrow> nat" where
  "rfc_shift i = [[7, 12, 17, 22], [5, 9, 14, 20], [4, 11, 16, 23], [6, 10, 15, 21]] ! (i div 16) ! (i mod 4)"

definition rfc_op :: "(u32 \<Rightarrow> u32 \<Rightarrow> u32 \<Rightarrow> u32) \<Rightarrow> u32 \<Rightarrow> u32 \<Rightarrow> nat \<Rightarrow> md5_regs \<Rightarrow> md5_regs" where
  "rfc_op f x t s = (\<lambda>(a, b, c, d). (d, b + word_rotl s (a + f b c d + x + t), b, c))"

definition rfc_compress :: "md5_regs \<Rightarrow> byte list \<Rightarrow> md5_regs" where
  "rfc_compress h block =
     (case fold (\<lambda>i. rfc_op (rfc_fun i) (SET block (rfc_index i)) (rfc_T ! i) (rfc_shift i)) [0..<64] h of
        (a, b, c, d) \<Rightarrow> (case h of (a0, b0, c0, d0) \<Rightarrow> (a0 + a, b0 + b, c0 + c, d0 + d)))"

text \<open>The length in bits modulo \<open>2^64\<close>, least significant byte first.\<close>

definition rfc_length :: "nat \<Rightarrow> byte list" where
  "rfc_length n = map (\<lambda>i. of_nat (8 * n div 256 ^ i)) [0..<8]"

definition rfc_output :: "md5_regs \<Rightarrow> byte list" where
  "rfc_output = (\<lambda>(a, b, c, d). le_bytes a @ le_bytes b @ le_bytes c @ le_bytes d)"

definition md5_spec :: "byte list \<Rightarrow> byte list" where
  "md5_spec = md_hash rfc_compress (0x67452301, 0xefcdab89, 0x98badcfe, 0x10325476) rfc_length rfc_output"

section \<open>The block transformation\<close>

lemma md5_functions:
  "md5_F = rfc_F" "md5_G = rfc_G" "md5_H = rfc_H" "md5_H2 = rfc_H" "md5_I = rfc_I"
  by (rule ext, rule ext, rule ext, rule bit_word_eqI,
      auto simp: md5_F_def rfc_F_def md5_G_def rfc_G_def md5_H_def md5_H2_def rfc_H_def md5_I_def rfc_I_def bit_simps)+

lemma STEP_rotl:
  assumes "0 < s" and "s < 32"
  shows "STEP f a b c d x t s = b + word_rotl s (a + f b c d + x + t)"
  using rotate_shifts [OF assms, of "a + (f b c d + x + t)"]
  by (simp add: STEP_def Let_def and_all_ones ac_simps)

text \<open>Four operations of the loop rotate the registers once around.\<close>

lemma rfc_op_quad:
  assumes "0 < s1" "s1 < 32" "0 < s2" "s2 < 32" "0 < s3" "s3 < 32" "0 < s4" "s4 < 32"
  shows "rfc_op f4 x4 t4 s4 (rfc_op f3 x3 t3 s3 (rfc_op f2 x2 t2 s2 (rfc_op f1 x1 t1 s1 r))) =
    STEP_b f4 x4 t4 s4 (STEP_c f3 x3 t3 s3 (STEP_d f2 x2 t2 s2 (STEP_a f1 x1 t1 s1 r)))"
  using assms by (cases r) (simp add: rfc_op_def STEP_a_def STEP_b_def STEP_c_def STEP_d_def STEP_rotl)

definition rfc_loop :: "byte list \<Rightarrow> nat list \<Rightarrow> md5_regs \<Rightarrow> md5_regs" where
  "rfc_loop ptr = fold (\<lambda>i. rfc_op (rfc_fun i) (SET ptr (rfc_index i)) (rfc_T ! i) (rfc_shift i))"

lemmas rfc_tables = rfc_loop_def rfc_fun_def rfc_index_def rfc_T_def rfc_shift_def

lemma rfc_round1: "rfc_loop ptr [0..<16] h = fold (\<lambda>step. step) (md5_round1 ptr) h"
  by (simp add: upt_rec rfc_tables rfc_op_quad md5_round1_def md5_functions flip: numeral_2_eq_2)

lemma rfc_round2: "rfc_loop ptr [16..<32] h = fold (\<lambda>step. step) (md5_round2 ptr) h"
  by (simp add: upt_rec rfc_tables rfc_op_quad md5_round2_def md5_functions)

lemma rfc_round3: "rfc_loop ptr [32..<48] h = fold (\<lambda>step. step) (md5_round3 ptr) h"
  by (simp add: upt_rec rfc_tables rfc_op_quad md5_round3_def md5_functions)

lemma rfc_round4: "rfc_loop ptr [48..<64] h = fold (\<lambda>step. step) (md5_round4 ptr) h"
  by (simp add: upt_rec rfc_tables rfc_op_quad md5_round4_def md5_functions)


lemma md5_block_rfc: "md5_block ptr h = rfc_compress h ptr"
proof -
  have "[0..<64] = [0..<16] @ [16..<32] @ [32..<48] @ [48..<64]"
    using upt_add_eq_append [of 0 16 16] upt_add_eq_append [of 0 32 16]
      upt_add_eq_append [of 0 48 16] by simp
  then have "rfc_loop ptr [0..<64] h =
      fold (\<lambda>step. step) (md5_round1 ptr @ md5_round2 ptr @ md5_round3 ptr @ md5_round4 ptr) h"
    using rfc_round1 rfc_round2 rfc_round3 rfc_round4 by (simp add: rfc_loop_def)
  then show ?thesis
    by (simp add: md5_block_def rfc_compress_def rfc_loop_def ac_simps split: prod.split)
qed

section \<open>The context\<close>

definition md5_iv :: md5_regs where
  "md5_iv = (0x67452301, 0xefcdab89, 0x98badcfe, 0x10325476)"

text \<open>The context has taken in the message \<open>m\<close>.\<close>

definition md5_absorbed :: "byte list \<Rightarrow> md5_ctx \<Rightarrow> bool" where
  "md5_absorbed m ctx \<longleftrightarrow>
     md_regs ctx = absorb rfc_compress md5_iv m \<and>
     length (md_buffer ctx) = 64 \<and> take (length m mod 64) (md_buffer ctx) = unabsorbed m \<and>
     unat (md_lo ctx) = length m mod 2 ^ 29 \<and> unat (md_hi ctx) = length m div 2 ^ 29 mod 2 ^ 32"

lemma md5_body_loop_blocks:
  assumes "64 * k \<le> length ptr" and "0 < k" and "64 * k < 2 ^ 64"
  shows "md5_body_loop regs ptr (of_nat (64 * k)) =
    Some (absorb rfc_compress regs (take (64 * k) ptr), drop (64 * k) ptr)"
  using assms
proof (induction k arbitrary: regs ptr)
  case (Suc k)
  have n: "of_nat (64 * Suc k) - 64 = (of_nat (64 * k) :: u64)" by simp
  have z: "(of_nat (64 * k) :: u64) = 0 \<longleftrightarrow> k = 0"
  proof -
    have "unat (of_nat (64 * k) :: u64) = 64 * k"
      by (rule unat_of_nat_small) (use Suc.prems(3) in simp)
    then show ?thesis by (metis mult_eq_0_iff of_nat_0 unat_eq_zero zero_neq_numeral)
  qed
  have t: "take (64 * Suc k) ptr = take 64 ptr @ take (64 * k) (drop 64 ptr)"
    using take_add [of 64 "64 * k" ptr] by simp
  have l: "length (take 64 ptr) = 64" using Suc.prems(1) by simp
  show ?case
  proof (cases "k = 0")
    case True
    then show ?thesis using Suc.prems(1) l by (simp add: md5_body_loop.simps [of regs ptr] md5_block_rfc Let_def)
  next
    case False
    then have "md5_body_loop (rfc_compress regs (take 64 ptr)) (drop 64 ptr) (of_nat (64 * k)) =
        Some (absorb rfc_compress (rfc_compress regs (take 64 ptr)) (take (64 * k) (drop 64 ptr)),
              drop (64 * k) (drop 64 ptr))"
      using Suc.prems by (intro Suc.IH) simp_all
    then show ?thesis
      unfolding md5_body_loop.simps [of regs ptr] t using False n z l Suc.prems(1)
      by (simp add: md5_block_rfc Let_def add.commute)
  qed
qed simp

lemma md5_body_64:
  assumes "length b = 64"
  shows "md5_body ctx b 64 = Some (ctx\<lparr>md_regs := rfc_compress (md_regs ctx) b\<rparr>, [])"
  using md5_body_loop_blocks [of 1 b "md_regs ctx"] assms by (simp add: md5_body_def)

text \<open>The two counters hold the length of the message in bytes, 29 bits and 32 bits of it.\<close>

lemma md5_counters:
  fixes lo hi :: u32 and n k :: nat
  assumes lo: "unat lo = n mod 2 ^ 29" and hi: "unat hi = n div 2 ^ 29 mod 2 ^ 32" and k: "k < 2 ^ 64"
  defines "lo' \<equiv> ucast ((ucast lo + (of_nat k :: u64)) AND 0x1fffffff) :: u32"
  shows "unat lo' = (n + k) mod 2 ^ 29"
    and "unat ((if lo' < lo then hi + 1 else hi) + ucast (drop_bit 29 (of_nat k :: u64))) =
         (n + k) div 2 ^ 29 mod 2 ^ 32"
proof -
  have "unat ((ucast lo + (of_nat k :: u64)) AND 0x1fffffff) = unat (ucast lo + (of_nat k :: u64)) mod 2 ^ 29"
    by (rule unat_and_mask_pow) simp
  also have "\<dots> = (unat (ucast lo :: u64) + unat (of_nat k :: u64)) mod 2 ^ 29"
    by (rule unat_add_mod_pow) simp
  also have "unat (of_nat k :: u64) = k" using k by (simp add: word_nat)
  also have "unat (ucast lo :: u64) = unat lo"
    by (simp add: unsigned_ucast_eq lo take_bit_nat_eq_self)
  finally have s: "unat ((ucast lo + (of_nat k :: u64)) AND 0x1fffffff) = (n + k) mod 2 ^ 29"
    by (simp add: lo mod_add_left_eq)
  show l: "unat lo' = (n + k) mod 2 ^ 29"
    unfolding lo'_def unsigned_ucast_eq s by (simp add: take_bit_nat_eq_self)
  have d: "unat (ucast (drop_bit 29 (of_nat k :: u64)) :: u32) = k div 2 ^ 29 mod 2 ^ 32"
    using k by (simp add: unsigned_ucast_eq take_bit_eq_mod drop_bit_eq_div word_nat unat_div_distrib)
  have "unat ((if lo' < lo then hi + 1 else hi) + ucast (drop_bit 29 (of_nat k :: u64))) =
      (n div 2 ^ 29 + k div 2 ^ 29 + (if (n + k) mod 2 ^ 29 < n mod 2 ^ 29 then 1 else 0)) mod 2 ^ 32"
    unfolding word_less_nat_alt l lo
    by (simp add: unat_word_ariths d hi mod_simps)
  then show "unat ((if lo' < lo then hi + 1 else hi) + ucast (drop_bit 29 (of_nat k :: u64))) =
         (n + k) div 2 ^ 29 mod 2 ^ 32"
    by (simp only: div_add_carry [of "2 ^ 29" n k] zero_less_power zero_less_numeral)
qed

text \<open>The end of \<open>md5_hash\<close>, on any data: full blocks are absorbed, the rest is kept.\<close>

lemma and_not_63:
  fixes w :: u64
  shows "w AND NOT 0x3f = of_nat (64 * (unat w div 64))"
proof -
  have "of_nat (unat (w AND 0x3f)) = w AND 0x3f" by simp
  then have a: "w AND 0x3f = of_nat (unat w mod 64)"
    using unat_and_mask_pow [of "0x3f :: u64" 6 w] by simp
  have "w = (w AND NOT 0x3f) + (w AND 0x3f)"
    by (subst disjunctive_add_eq_or) (auto simp: bit_eq_iff bit_simps)
  then have "w AND NOT 0x3f = w - of_nat (unat w mod 64)" by (simp only: a eq_diff_eq)
  also have "\<dots> = of_nat (unat w) - of_nat (unat w mod 64)" by simp
  also have "\<dots> = of_nat (64 * (unat w div 64))"
    by (simp only: of_nat_diff [symmetric] mod_less_eq_dividend minus_mod_eq_mult_div)
  finally show ?thesis .
qed

lemma md5_hash_rest_absorbs:
  assumes buf: "length (md_buffer ctx) = 64" and len: "length d < 2 ^ 64"
  shows "md5_hash_rest ctx d (of_nat (length d)) =
    Some (ctx\<lparr>md_regs := absorb rfc_compress (md_regs ctx) d,
              md_buffer := unabsorbed d @ drop (length d mod 64) (md_buffer ctx)\<rparr>)"
proof (cases "length d < 64")
  case True
  then have "\<not> (64 :: u64) \<le> of_nat (length d)" using len by (simp add: word_le_nat_alt word_nat)
  then show ?thesis using True len buf
    by (simp add: md5_hash_rest_def word_nat memcpy_prefix)
next
  case False
  let ?k = "length d div 64"
  have u: "unat (of_nat (length d) :: u64) = length d" using len by (simp add: word_nat)
  have ge: "(64 :: u64) \<le> of_nat (length d)" using False len by (simp add: word_le_nat_alt u)
  have k: "64 * ?k \<le> length d" "0 < ?k" using False by auto
  have "md5_body ctx d (of_nat (length d) AND NOT 0x3f) =
      Some (ctx\<lparr>md_regs := absorb rfc_compress (md_regs ctx) d\<rparr>, unabsorbed d)"
    unfolding and_not_63 u md5_body_def
    using md5_body_loop_blocks [OF k, of "md_regs ctx"] k len absorb_rest [of rfc_compress "md_regs ctx" d]
    by (simp add: unabsorbed_def)
  moreover have "unat (of_nat (length d) AND (0x3f :: u64)) = length d mod 64"
    using unat_and_mask_pow [of "0x3f :: u64" 6 "of_nat (length d)"] u by simp
  ultimately show ?thesis using ge buf by (simp add: md5_hash_rest_def memcpy_prefix)
qed

lemma md5_used:
  assumes "md5_absorbed m ctx"
  shows "unat (md_lo ctx AND 0x3f) = length m mod 64"
  using assms unat_and_mask_pow [of "0x3f :: u32" 6 "md_lo ctx"]
  by (simp add: md5_absorbed_def mod_mod_cancel)

definition md5_count :: "nat \<Rightarrow> md5_ctx \<Rightarrow> md5_ctx" where
  "md5_count k ctx =
     (let lo = (ucast ((ucast (md_lo ctx) + (of_nat k :: u64)) AND 0x1fffffff) :: u32)
      in ctx\<lparr>md_lo := lo,
             md_hi := (if lo < md_lo ctx then md_hi ctx + 1 else md_hi ctx) + ucast (drop_bit 29 (of_nat k :: u64))\<rparr>)"

lemma md5_count_simps [simp]:
  "md_buffer (md5_count k ctx) = md_buffer ctx" "md_regs (md5_count k ctx) = md_regs ctx"
  by (simp_all add: md5_count_def Let_def)

lemma md5_count_length:
  assumes "md5_absorbed m ctx" and "k < 2 ^ 64"
  shows "unat (md_lo (md5_count k ctx)) = (length m + k) mod 2 ^ 29"
    "unat (md_hi (md5_count k ctx)) = (length m + k) div 2 ^ 29 mod 2 ^ 32"
  using md5_counters [OF _ _ assms(2), of "md_lo ctx" "length m" "md_hi ctx"] assms(1)
  by (simp_all add: md5_absorbed_def md5_count_def Let_def)

lemma md5_hash_split:
  assumes A: "md5_absorbed m ctx" and k: "length d < 2 ^ 64"
  defines "r \<equiv> length m mod 64" and "c \<equiv> md5_count (length d) ctx"
  shows "md5_hash d (of_nat (length d)) ctx =
      (if r \<noteq> 0 then
         (if length d < 64 - r then
            (case memcpy_to (md_buffer ctx) r d 0 (length d) of
               None \<Rightarrow> None | Some buffer \<Rightarrow> Some (c\<lparr>md_buffer := buffer\<rparr>))
          else
            (case memcpy_to (md_buffer ctx) r d 0 (64 - r) of
               None \<Rightarrow> None
             | Some buffer \<Rightarrow>
                 (case md5_body (c\<lparr>md_buffer := buffer\<rparr>) buffer 64 of
                    None \<Rightarrow> None
                  | Some (ctx, _) \<Rightarrow> md5_hash_rest ctx (drop (64 - r) d) (of_nat (length d) - of_nat (64 - r)))))
       else md5_hash_rest c d (of_nat (length d)))"
proof -
  have "unat (of_nat (length d) :: u64) = length d" using k by (simp add: word_nat)
  then show ?thesis
    unfolding md5_hash_def c_def r_def md5_count_def Let_def md5_used [OF A] by simp
qed

lemma md5_absorbed_more:
  assumes "md5_absorbed m ctx" and "length d < 2 ^ 64" and "length B = 64"
    and "take (length (unabsorbed (unabsorbed m @ d))) B = unabsorbed (unabsorbed m @ d)"
  shows "md5_absorbed (m @ d) ((md5_count (length d) ctx)\<lparr>
    md_regs := absorb rfc_compress (md_regs ctx) (unabsorbed m @ d), md_buffer := B\<rparr>)"
  using assms md5_count_length [OF assms(1,2)]
  by (simp add: md5_absorbed_def absorb_continue [where m = m and d = d] mod_add_left_eq)

lemma md5_hash_absorbs:
  assumes A: "md5_absorbed m ctx" and k: "length d < 2 ^ 64"
  shows "\<exists>ctx'. md5_hash d (of_nat (length d)) ctx = Some ctx' \<and> md5_absorbed (m @ d) ctx'"
proof -
  define r where "r = length m mod 64"
  define c where "c = md5_count (length d) ctx"
  from A have buf: "length (md_buffer ctx) = 64" and pre: "take r (md_buffer ctx) = unabsorbed m"
    by (simp_all add: md5_absorbed_def r_def)
  note code = md5_hash_split [OF A k, folded r_def c_def]
  note more = md5_absorbed_more [OF A k, folded c_def]
  have r: "r < 64" "length (unabsorbed m) = r" by (simp_all add: r_def)
  have c: "md_buffer c = md_buffer ctx" "md_regs c = md_regs ctx" by (simp_all add: c_def)
  consider (full) "r = 0" | (short) "r \<noteq> 0" "length d < 64 - r" | (long) "r \<noteq> 0" "64 - r \<le> length d" by linarith
  then show ?thesis
  proof cases
    case full
    then have "unabsorbed m = []" using r by (simp flip: length_0_conv)
    with full md5_hash_rest_absorbs [OF _ k, of c] buf more
      [of "unabsorbed d @ drop (length d mod 64) (md_buffer ctx)"]
    show ?thesis unfolding code by (simp add: c)
  next
    case short
    let ?B = "unabsorbed m @ d @ drop (r + length d) (md_buffer ctx)"
    have "memcpy_to (md_buffer ctx) r d 0 (length d) = Some ?B"
      using buf short r pre by (simp add: memcpy_to_def mem_read_def mem_write_def)
    moreover have "length (unabsorbed m @ d) < 64" using short r by simp
    moreover have "length ?B = 64" using short r buf by simp
    moreover have "c\<lparr>md_regs := md_regs ctx, md_buffer := ?B\<rparr> = c\<lparr>md_buffer := ?B\<rparr>"
      unfolding c(2) [symmetric] by simp
    ultimately show ?thesis using short more [of ?B] unfolding code by simp
  next
    case long
    let ?d = "drop (64 - r) d"
    define b where "b = unabsorbed m @ take (64 - r) d"
    define c' where "c' = c\<lparr>md_buffer := b, md_regs := rfc_compress (md_regs ctx) b\<rparr>"
    have b: "length b = 64" using long r by (simp add: b_def)
    have e: "unabsorbed m @ d = b @ ?d" by (simp add: b_def)
    have "memcpy_to (md_buffer ctx) r d 0 (64 - r) = Some b"
      using buf long r pre by (simp add: memcpy_to_def mem_read_def mem_write_def b_def)
    moreover have "of_nat (length d) - of_nat (64 - r) = (of_nat (length ?d) :: u64)"
      using long by (simp add: of_nat_diff)
    ultimately have "md5_hash d (of_nat (length d)) ctx = md5_hash_rest c' ?d (of_nat (length ?d))"
      unfolding code c'_def using long by (simp add: md5_body_64 [OF b] c)
    moreover have "length ?d < 2 ^ 64" using k by simp
    ultimately show ?thesis
      using md5_hash_rest_absorbs [of c' ?d] more [of "unabsorbed ?d @ drop (length ?d mod 64) b"] b
      unfolding e by (simp add: c'_def unabsorbed_append)
  qed
qed

lemma le_bytes_nat: "le_bytes w = map (\<lambda>i. of_nat (unat w div 256 ^ i)) [0..<4]"
  using byte_of_word [of 0 w] byte_of_word [of 1 w] byte_of_word [of 2 w] byte_of_word [of 3 w]
  by (simp add: le_bytes_def upt_rec)

text \<open>The two counters, scaled to bits, are the length field of the padding.\<close>

lemma digit_of_mod:
  fixes x :: nat
  assumes "i < 4"
  shows "(of_nat (x mod 2 ^ 32 div 256 ^ i) :: byte) = of_nat (x div 256 ^ i)"
proof -
  have p: "(256::nat) ^ i = 2 ^ (8 * i)" by (simp add: power_mult)
  have "take_bit 8 (drop_bit (8 * i) (take_bit 32 x)) = take_bit 8 (drop_bit (8 * i) x)"
    using assms by (auto intro!: bit_eqI simp: bit_simps)
  then show ?thesis
    unfolding p by (simp add: word_of_nat_eq_iff take_bit_eq_mod drop_bit_eq_div)
qed

lemma md5_length_field:
  fixes lo hi :: u32
  assumes lo: "unat lo = n mod 2 ^ 29" and hi: "unat hi = n div 2 ^ 29 mod 2 ^ 32"
  shows "le_bytes (push_bit 3 lo) @ le_bytes hi = rfc_length n"
proof -
  have l: "unat (push_bit 3 lo) = (8 * n) mod 2 ^ 32"
  proof -
    have "unat (push_bit 3 lo) = (8 * (n mod 2 ^ 29)) mod 2 ^ 32"
      by (simp add: push_bit_eq_mult unat_word_ariths lo mult.commute)
    also have "8 * (n mod 2 ^ 29) = (8 * n) mod (8 * 2 ^ 29)" by (rule mult_mod_right)
    finally show ?thesis by simp
  qed
  have h: "unat hi = (8 * n div 2 ^ 32) mod 2 ^ 32" using hi by (simp add: div_mult2_eq [of _ 8 "2 ^ 29", simplified])
  have "le_bytes (push_bit 3 lo) = map (\<lambda>i. of_nat (8 * n div 256 ^ i)) [0..<4]"
    unfolding le_bytes_nat l by (simp add: digit_of_mod [simplified])
  moreover have "le_bytes hi = map (\<lambda>i. of_nat (8 * n div 256 ^ i)) (map (\<lambda>i. i + 4) [0..<4])"
  proof -
    have "(8 * n div 2 ^ 32) div 256 ^ i = 8 * n div 256 ^ (i + 4)" for i
    proof -
      have "(256::nat) ^ (i + 4) = 2 ^ 32 * 256 ^ i" by (simp add: power_add)
      then show ?thesis by (simp only: div_mult2_eq)
    qed
    then show ?thesis unfolding le_bytes_nat h by (simp add: digit_of_mod [simplified])
  qed
  moreover have "[0..<8] = [0..<4] @ map (\<lambda>i. i + 4) [0..<4]" by (simp add: upt_rec)
  ultimately show ?thesis by (simp only: rfc_length_def map_append)
qed

lemma md5_end_digest:
  assumes A: "md5_absorbed m ctx"
  shows "\<exists>ctx'. md5_end ctx = Some (md5_spec m, ctx')"
proof -
  define r where "r = unabsorbed m"
  define x where "x = drop (length r) (md_buffer ctx)"
  have b: "md_buffer ctx = r @ x" and x: "length x = 64 - length r" and r: "length r < 64"
    using A append_take_drop_id [of "length m mod 64" "md_buffer ctx"] by (auto simp: md5_absorbed_def r_def x_def)
  have u: "unat (md_lo ctx AND 0x3f) = length r" using md5_used [OF A] by (simp add: r_def)
  have e: "le_bytes (push_bit 3 (md_lo ctx)) @ le_bytes (md_hi ctx) = rfc_length (length m)"
    using A by (intro md5_length_field) (simp_all add: md5_absorbed_def)
  have le: "length (rfc_length n) = 8" for n by (simp add: rfc_length_def)
  have w: "mem_write (r @ x) (length r) [0x80] = Some (r @ 0x80 # drop 1 x)"
    using x r by (simp add: mem_write_behind)
  have spec: "md5_spec m = rfc_output (absorb rfc_compress md5_iv (md_pad rfc_length m))"
    by (simp add: md5_spec_def md_hash_def md5_iv_def)
  have regs: "md_regs ctx = absorb rfc_compress md5_iv m" using A by (simp add: md5_absorbed_def)
  show ?thesis
  proof (cases "length r \<le> 55")
    case True
    define p where "p = r @ 0x80 # replicate (55 - length r) 0"
    have p: "length p = 56" using True by (simp add: p_def)
    have w2: "mem_write (r @ 0x80 # drop 1 x) (Suc (length r)) (replicate (55 - length r) 0) =
        Some (p @ drop (Suc (55 - length r)) x)"
      using mem_write_behind [of "r @ [0x80]" "Suc (length r)" "replicate (55 - length r) 0" "drop 1 x"] x True
      by (simp add: p_def)
    have w3: "mem_write (p @ drop (Suc (55 - length r)) x) 56 (rfc_length (length m)) = Some (p @ rfc_length (length m))"
      using mem_write_behind [OF p, of "rfc_length (length m)" "drop (Suc (55 - length r)) x"] x True by (simp add: le)
    have "absorb rfc_compress md5_iv (md_pad rfc_length m) = rfc_compress (md_regs ctx) (p @ rfc_length (length m))"
      unfolding absorb_pad [OF le] using True by (simp add: Let_def p_def regs flip: r_def)
    moreover have "\<not> 63 - length r < 8" using True by simp
    ultimately show ?thesis unfolding spec
      using w w2 w3 p by (simp add: md5_end_def Let_def u b e md5_body_64 le rfc_output_def split: prod.split)
  next
    case False
    define p where "p = r @ 0x80 # replicate (63 - length r) 0"
    have p: "length p = 64" using r by (simp add: p_def)
    have w2: "mem_write (r @ 0x80 # drop 1 x) (Suc (length r)) (replicate (63 - length r) 0) = Some p"
      using mem_write_behind [of "r @ [0x80]" "Suc (length r)" "replicate (63 - length r) 0" "drop 1 x"] x r
      by (simp add: p_def)
    have w3: "mem_write p 0 (replicate 56 0) = Some (replicate 56 0 @ drop 56 p)"
      using p by (simp add: mem_write_def)
    have w4: "mem_write (replicate 56 0 @ drop 56 p) 56 (rfc_length (length m)) = Some (replicate 56 0 @ rfc_length (length m))"
      using mem_write_behind [of "replicate 56 0" 56 "rfc_length (length m)" "drop 56 p"] p by (simp add: le)
    have "absorb rfc_compress md5_iv (md_pad rfc_length m) =
        rfc_compress (rfc_compress (md_regs ctx) p) (replicate 56 0 @ rfc_length (length m))"
      unfolding absorb_pad [OF le] using False by (simp add: Let_def p_def regs flip: r_def)
    moreover have "63 - length r < 8" using False by simp
    ultimately show ?thesis unfolding spec
      using w w2 w3 w4 p by (simp add: md5_end_def Let_def u b e md5_body_64 le rfc_output_def split: prod.split)
  qed
qed

section \<open>The digest\<close>

definition md5_finish :: "md5_ctx \<Rightarrow> byte list option" where
  "md5_finish ctx = map_option fst (md5_end ctx)"

interpretation md5: streaming_hash md5_absorbed "\<lambda>ctx d. md5_hash d (of_nat (length d)) ctx" md5_finish md5_spec
proof
  show "\<exists>c'. md5_hash d (of_nat (length d)) c = Some c' \<and> md5_absorbed (m @ d) c'"
    if "md5_absorbed m c" "length d < 2 ^ 64" for m c d
    using that by (rule md5_hash_absorbs)
  show "md5_finish c = Some (md5_spec m)" if "md5_absorbed m c" for m c
    using md5_end_digest [OF that] by (auto simp: md5_finish_def)
qed

lemma md5_begin_absorbed: "length (md_buffer ctx) = 64 \<Longrightarrow> md5_absorbed [] (md5_begin ctx)"
  by (simp add: md5_absorbed_def md5_begin_def md5_iv_def unabsorbed_def)

text \<open>
  \<open>md5_block\<close>, the unrolled 64 steps of \<open>md5.c\<close> with the two variants of H and the
  optimised F and G, computes the compression function of RFC 1321, on every block and all registers.\<close>

lemma md5_block_is_rfc_compression: "md5_block ptr regs = rfc_compress regs ptr"
  by (rule md5_block_rfc)

text \<open>
  C13. Hashing a message in any pieces (\<open>md5_begin\<close>, any number of calls of \<open>md5_hash\<close> with pieces
  of any length below 2^64, \<open>md5_end\<close>) never leaves the buffers and gives the MD5 digest of the
  concatenation, however the pieces fall on the 64-byte blocks.\<close>

theorem md5_pieces_digest:
  assumes "length (md_buffer ctx) = 64" and "\<forall>d\<in>set ds. length d < 2 ^ 64"
  shows "hash_pieces (\<lambda>ctx d. md5_hash d (of_nat (length d)) ctx) md5_finish (md5_begin ctx) ds =
    Some (md5_spec (concat ds))"
  using md5.pieces [OF md5_begin_absorbed [OF assms(1)] assms(2)] by simp

theorem md5_pieces_digest_witness:
  "hash_pieces (\<lambda>ctx d. md5_hash d (of_nat (length d)) ctx) md5_finish
     (md5_begin \<lparr>md_lo = 7, md_hi = 9, md_regs = (1, 2, 3, 4), md_buffer = replicate 64 5\<rparr>)
     [[0x61], [], [0x62, 0x63]] = Some (md5_spec [0x61, 0x62, 0x63])"
  using md5_pieces_digest [of "\<lparr>md_lo = 7, md_hi = 9, md_regs = (1, 2, 3, 4), md_buffer = replicate 64 5\<rparr>"
      "[[0x61], [], [0x62, 0x63]]"] by simp

lemma md5_file_loop_absorbs:
  assumes "md5_absorbed m ctx" and "\<forall>d\<in>set reads. d \<noteq> [] \<and> length d < 2 ^ 64"
  shows "\<exists>ctx'. md5_file_loop reads n ctx = Some (n + length (concat reads), ctx') \<and>
    md5_absorbed (m @ concat reads) ctx'"
  using assms
proof (induction reads arbitrary: m ctx n)
  case (Cons d reads)
  then obtain c where c: "md5_hash d (of_nat (length d)) ctx = Some c" "md5_absorbed (m @ d) c"
    using md5_hash_absorbs [of m ctx d] by auto
  with Cons.IH [of "m @ d" c "n + length d"] Cons.prems show ?case by (auto simp: ac_simps)
qed simp

text \<open>
  \<open>md5sum\<close> of a file that can be opened, however \<open>fread\<close> cuts it, stores the MD5 digest of its
  content and returns its size as a 32-bit \<open>int\<close>: the size itself below 2^31, a wrapped one above.\<close>

lemma md5sum_digest:
  assumes "length (md_buffer ctx) = 64" and "\<forall>d\<in>set reads. d \<noteq> [] \<and> length d < 2 ^ 64"
  shows "md5sum (Some reads) ctx =
    Some (sint (of_nat (length (concat reads)) :: 32 word), Some (md5_spec (concat reads)))"
proof -
  obtain c where c: "md5_file_loop reads 0 (md5_begin ctx) = Some (length (concat reads), c)"
      "md5_absorbed (concat reads) c"
    using md5_file_loop_absorbs [OF md5_begin_absorbed [OF assms(1)] assms(2), of 0] by auto
  from md5_end_digest [OF c(2)] show ?thesis by (auto simp: md5sum_def c(1))
qed

end
