(* ===== verification/Sha1.thy ===== *)
theory Sha1
  imports Block_Hash
begin

unbundle bit_operations_syntax

text \<open>
  The SHA-1 implementation of \<open>base/src/dsa/sha1.c\<close>: the byte-wise update, the transformation of
  one block with its message schedule, the padding with its two cases and the big-endian digest.
  \<open>sha1_spec\<close> is the algorithm of FIPS 180-1: the schedule as a recursion on the index, one loop
  over the 80 steps with the functions and constants of the standard, on the padded message.
\<close>

section \<open>The code\<close>

text \<open>\<open>digest[5]\<close> is a tuple of five words, \<open>blk[64]\<close> a byte memory.  \<open>idx\<close> stays between 0 and 64.\<close>

type_synonym sha1_regs = "u32 \<times> u32 \<times> u32 \<times> u32 \<times> u32"

record sha1_ctx =
  sha_digest :: sha1_regs
  sha_len :: u64
  sha_blk :: "byte list"
  sha_idx :: nat

definition sha1_circular_shift :: "nat \<Rightarrow> u32 \<Rightarrow> u32" where
  "sha1_circular_shift bits w = (push_bit bits w AND 0xFFFFFFFF) OR drop_bit (32 - bits) w"

definition sha1_init :: "sha1_ctx \<Rightarrow> sha1_ctx" where
  "sha1_init ctx =
     ctx\<lparr>sha_len := 0, sha_idx := 0,
         sha_digest := (0x67452301, 0xEFCDAB89, 0x98BADCFE, 0x10325476, 0xC3D2E1F0)\<rparr>"

text \<open>The words \<open>W[0]\<close> to \<open>W[15]\<close>, and the loop that appends \<open>W[16]\<close> to \<open>W[79]\<close>.\<close>

definition sha1_word :: "byte list \<Rightarrow> nat \<Rightarrow> u32" where
  "sha1_word blk t =
     push_bit 24 (ucast (blk ! (t * 4))) OR push_bit 16 (ucast (blk ! (t * 4 + 1))) OR
     push_bit 8 (ucast (blk ! (t * 4 + 2))) OR ucast (blk ! (t * 4 + 3))"

definition sha1_extend :: "nat \<Rightarrow> u32 list \<Rightarrow> u32 list" where
  "sha1_extend t W =
     W @ [sha1_circular_shift 1 (W ! (t - 3) XOR W ! (t - 8) XOR W ! (t - 14) XOR W ! (t - 16))]"

definition sha1_W :: "byte list \<Rightarrow> u32 list" where
  "sha1_W blk = fold sha1_extend [16..<80] (map (sha1_word blk) [0..<16])"

definition sha1_step :: "(u32 \<Rightarrow> u32 \<Rightarrow> u32 \<Rightarrow> u32) \<Rightarrow> u32 \<Rightarrow> u32 list \<Rightarrow> nat \<Rightarrow> sha1_regs \<Rightarrow> sha1_regs" where
  "sha1_step f K W t = (\<lambda>(A, B, C, D, E).
     let temp = sha1_circular_shift 5 A + f B C D + E + W ! t + K;
         temp = temp AND 0xFFFFFFFF
     in (temp, A, sha1_circular_shift 30 B, C, D))"

definition sha1_process :: "sha1_ctx \<Rightarrow> sha1_ctx option" where
  "sha1_process ctx =
     (if length (sha_blk ctx) < 64 then None
      else
        let W = sha1_W (sha_blk ctx);
            r = sha_digest ctx;
            r = fold (sha1_step (\<lambda>B C D. (B AND C) OR ((NOT B) AND D)) 0x5A827999 W) [0..<20] r;
            r = fold (sha1_step (\<lambda>B C D. B XOR C XOR D) 0x6ED9EBA1 W) [20..<40] r;
            r = fold (sha1_step (\<lambda>B C D. (B AND C) OR (B AND D) OR (C AND D)) 0x8F1BBCDC W) [40..<60] r;
            r = fold (sha1_step (\<lambda>B C D. B XOR C XOR D) 0xCA62C1D6 W) [60..<80] r
        in case (sha_digest ctx, r) of ((d0, d1, d2, d3, d4), (A, B, C, D, E)) \<Rightarrow>
             Some (ctx\<lparr>sha_digest := ((d0 + A) AND 0xFFFFFFFF, (d1 + B) AND 0xFFFFFFFF,
                         (d2 + C) AND 0xFFFFFFFF, (d3 + D) AND 0xFFFFFFFF, (d4 + E) AND 0xFFFFFFFF),
                       sha_idx := 0\<rparr>))"

text \<open>\<open>ctx->blk[ctx->idx++] = v\<close>\<close>

definition sha1_put :: "byte \<Rightarrow> sha1_ctx \<Rightarrow> sha1_ctx option" where
  "sha1_put v ctx =
     (if sha_idx ctx < length (sha_blk ctx)
      then Some (ctx\<lparr>sha_blk := (sha_blk ctx)[sha_idx ctx := v], sha_idx := sha_idx ctx + 1\<rparr>)
      else None)"

text \<open>One turn of the loop of \<open>sha1_update\<close>, and the loop over the \<open>length\<close> bytes of the message.\<close>

definition sha1_update_byte :: "byte \<Rightarrow> sha1_ctx \<Rightarrow> sha1_ctx option" where
  "sha1_update_byte b ctx =
     (case sha1_put (b AND 0xFF) ctx of
        None \<Rightarrow> None
      | Some ctx \<Rightarrow>
          (let ctx = ctx\<lparr>sha_len := sha_len ctx + 8\<rparr>
           in if sha_idx ctx = 64 then sha1_process ctx else Some ctx))"

fun sha1_update :: "sha1_ctx \<Rightarrow> byte list \<Rightarrow> sha1_ctx option" where
  "sha1_update ctx [] = Some ctx"
| "sha1_update ctx (b # msg) =
     (case sha1_update_byte b ctx of None \<Rightarrow> None | Some ctx \<Rightarrow> sha1_update ctx msg)"

text \<open>\<open>while (ctx->idx < n) ctx->blk[ctx->idx++] = 0\<close>\<close>

function sha1_zero_to :: "nat \<Rightarrow> sha1_ctx \<Rightarrow> sha1_ctx option" where
  "sha1_zero_to n ctx =
     (if sha_idx ctx < n then
        (if sha_idx ctx < length (sha_blk ctx)
         then sha1_zero_to n (ctx\<lparr>sha_blk := (sha_blk ctx)[sha_idx ctx := 0], sha_idx := sha_idx ctx + 1\<rparr>)
         else None)
      else Some ctx)"
  by pat_completeness auto
termination by (relation "measure (\<lambda>(n, ctx). n - sha_idx ctx)") auto

declare sha1_zero_to.simps [simp del]

definition sha1_len_bytes :: "u64 \<Rightarrow> byte list" where
  "sha1_len_bytes len =
     [ucast (drop_bit 56 len AND 0xff), ucast (drop_bit 48 len AND 0xff),
      ucast (drop_bit 40 len AND 0xff), ucast (drop_bit 32 len AND 0xff),
      ucast (drop_bit 24 len AND 0xff), ucast (drop_bit 16 len AND 0xff),
      ucast (drop_bit 8 len AND 0xff), ucast (len AND 0xff)]"

definition sha1_pad :: "sha1_ctx \<Rightarrow> sha1_ctx option" where
  "sha1_pad ctx =
     (case (if sha_idx ctx > 55 then
              (case sha1_put 0x80 ctx of
                 None \<Rightarrow> None
               | Some ctx \<Rightarrow>
                   (case sha1_zero_to 64 ctx of
                      None \<Rightarrow> None
                    | Some ctx \<Rightarrow>
                        (case sha1_process ctx of
                           None \<Rightarrow> None
                         | Some ctx \<Rightarrow> sha1_zero_to 56 ctx)))
            else
              (case sha1_put 0x80 ctx of
                 None \<Rightarrow> None
               | Some ctx \<Rightarrow> sha1_zero_to 56 ctx)) of
        None \<Rightarrow> None
      | Some ctx \<Rightarrow>
          (case mem_write (sha_blk ctx) 56 (sha1_len_bytes (sha_len ctx)) of
             None \<Rightarrow> None
           | Some blk \<Rightarrow> sha1_process (ctx\<lparr>sha_blk := blk\<rparr>)))"

definition sha1_word_bytes :: "u32 \<Rightarrow> byte list" where
  "sha1_word_bytes w =
     [ucast (drop_bit 24 w AND 0xff), ucast (drop_bit 16 w AND 0xff),
      ucast (drop_bit 8 w AND 0xff), ucast (drop_bit 0 w AND 0xff)]"

definition sha1_final :: "sha1_ctx \<Rightarrow> (byte list \<times> sha1_ctx) option" where
  "sha1_final ctx =
     (case sha1_pad ctx of
        None \<Rightarrow> None
      | Some ctx \<Rightarrow>
          (case sha_digest ctx of (d0, d1, d2, d3, d4) \<Rightarrow>
             Some (concat (map sha1_word_bytes [d0, d1, d2, d3, d4]), ctx)))"

definition sha1 :: "sha1_ctx \<Rightarrow> byte list \<Rightarrow> byte list option" where
  "sha1 ctx msg =
     (case sha1_update (sha1_init ctx) msg of
        None \<Rightarrow> None
      | Some ctx \<Rightarrow> map_option fst (sha1_final ctx))"

section \<open>The specification\<close>

text \<open>Big-endian digits: \<open>be_digits k n\<close> are the \<open>k\<close> low bytes of \<open>n\<close>, most significant first.\<close>

definition be_digits :: "nat \<Rightarrow> nat \<Rightarrow> byte list" where
  "be_digits k n = map (\<lambda>i. of_nat (n div 256 ^ (k - 1 - i))) [0..<k]"

definition be_number :: "byte list \<Rightarrow> nat" where
  "be_number = foldl (\<lambda>n b. 256 * n + unat b) 0"

fun fips_W :: "byte list \<Rightarrow> nat \<Rightarrow> u32" where
  "fips_W block t =
     (if t < 16 then of_nat (be_number (take 4 (drop (4 * t) block)))
      else word_rotl 1 (fips_W block (t - 3) XOR fips_W block (t - 8) XOR
                        fips_W block (t - 14) XOR fips_W block (t - 16)))"

declare fips_W.simps [simp del]

definition fips_Ch :: "u32 \<Rightarrow> u32 \<Rightarrow> u32 \<Rightarrow> u32" where
  "fips_Ch x y z = (x AND y) XOR (NOT x AND z)"

definition fips_Parity :: "u32 \<Rightarrow> u32 \<Rightarrow> u32 \<Rightarrow> u32" where
  "fips_Parity x y z = x XOR y XOR z"

definition fips_Maj :: "u32 \<Rightarrow> u32 \<Rightarrow> u32 \<Rightarrow> u32" where
  "fips_Maj x y z = (x AND y) XOR (x AND z) XOR (y AND z)"

definition fips_f :: "nat \<Rightarrow> u32 \<Rightarrow> u32 \<Rightarrow> u32 \<Rightarrow> u32" where
  "fips_f t = [fips_Ch, fips_Parity, fips_Maj, fips_Parity] ! (t div 20)"

definition fips_K :: "nat \<Rightarrow> u32" where
  "fips_K t = [0x5a827999, 0x6ed9eba1, 0x8f1bbcdc, 0xca62c1d6] ! (t div 20)"

definition fips_step :: "byte list \<Rightarrow> nat \<Rightarrow> sha1_regs \<Rightarrow> sha1_regs" where
  "fips_step block t = (\<lambda>(a, b, c, d, e).
     (word_rotl 5 a + fips_f t b c d + e + fips_K t + fips_W block t, a, word_rotl 30 b, c, d))"

definition fips_compress :: "sha1_regs \<Rightarrow> byte list \<Rightarrow> sha1_regs" where
  "fips_compress h block =
     (case (h, fold (fips_step block) [0..<80] h) of ((h0, h1, h2, h3, h4), (a, b, c, d, e)) \<Rightarrow>
        (h0 + a, h1 + b, h2 + c, h3 + d, h4 + e))"

definition fips_iv :: sha1_regs where
  "fips_iv = (0x67452301, 0xefcdab89, 0x98badcfe, 0x10325476, 0xc3d2e1f0)"

definition fips_output :: "sha1_regs \<Rightarrow> byte list" where
  "fips_output = (\<lambda>(a, b, c, d, e). concat (map (\<lambda>w. be_digits 4 (unat w)) [a, b, c, d, e]))"

definition sha1_spec :: "byte list \<Rightarrow> byte list" where
  "sha1_spec = md_hash fips_compress fips_iv (\<lambda>n. be_digits 8 (8 * n)) fips_output"

section \<open>The block transformation\<close>

lemma circular_shift_rotl:
  "\<lbrakk>0 < s; s < 32\<rbrakk> \<Longrightarrow> sha1_circular_shift s w = word_rotl s w"
  using rotate_shifts [of s w] by (simp only: sha1_circular_shift_def and_all_ones)

lemma sha1_functions:
  "(\<lambda>B C D. (B AND C) OR ((NOT B) AND D)) = fips_Ch"
  "(\<lambda>B C D. B XOR C XOR D) = fips_Parity"
  "(\<lambda>B C D. (B AND C) OR (B AND D) OR (C AND D)) = fips_Maj"
  by (rule ext, rule ext, rule ext, rule bit_word_eqI,
      auto simp: fips_Ch_def fips_Parity_def fips_Maj_def bit_simps)+

lemma be_shift: "(of_nat (256 * x + unat b) :: u32) = push_bit 8 (of_nat x) OR ucast (b :: byte)"
proof -
  have "\<not> bit (ucast b :: u32) i" if "8 \<le> i" for i
    using that bit_imp_le_length [of b i] by (auto simp: bit_simps)
  then have "push_bit 8 (of_nat x) AND (ucast b :: u32) = 0"
    by (auto simp: bit_eq_iff bit_and_iff bit_push_bit_iff)
  then have "push_bit 8 (of_nat x) OR (ucast b :: u32) = push_bit 8 (of_nat x) + ucast b"
    by (simp add: disjunctive_add_eq_or)
  then show ?thesis by (simp add: push_bit_eq_mult)
qed

lemma sha1_word_fips:
  assumes "t < 16" and "length blk = 64"
  shows "sha1_word blk t = fips_W blk t"
proof -
  define a b c d where "a = blk ! (t * 4)" and "b = blk ! (t * 4 + 1)"
    and "c = blk ! (t * 4 + 2)" and "d = blk ! (t * 4 + 3)"
  have "take 4 (drop (4 * t) blk) = [a, b, c, d]"
    using assms by (intro nth_equalityI)
      (auto simp: a_def b_def c_def d_def nth_Cons mult.commute numeral_eq_Suc less_Suc_eq)
  then have "fips_W blk t = of_nat (256 * (256 * (256 * unat a + unat b) + unat c) + unat d)"
    using assms(1) by (simp add: fips_W.simps [of blk t] be_number_def)
  also have "\<dots> = push_bit 24 (ucast a) OR push_bit 16 (ucast b) OR push_bit 8 (ucast c) OR ucast d"
    by (simp only: be_shift push_bit_or push_bit_push_bit of_nat_unat) (simp add: ac_simps)
  finally show ?thesis by (simp add: sha1_word_def a_def b_def c_def d_def)
qed

lemma sha1_W_fips:
  assumes "length blk = 64"
  shows "sha1_W blk = map (fips_W blk) [0..<80]"
proof -
  have "fold sha1_extend [16..<16 + n] (map (sha1_word blk) [0..<16]) = map (fips_W blk) [0..<16 + n]" for n
  proof (induction n)
    case 0
    show ?case using assms by (simp add: sha1_word_fips)
  next
    case (Suc n)
    have "fips_W blk (16 + n) = word_rotl 1 (fips_W blk (13 + n) XOR fips_W blk (8 + n) XOR
        fips_W blk (2 + n) XOR fips_W blk n)"
      by (simp add: fips_W.simps [of blk "16 + n"])
    moreover have "[k..<16 + Suc n] = [k..<16 + n] @ [16 + n]" if "k \<le> 16" for k
      using that upt_Suc_append [of k "16 + n"] by simp
    moreover have "fold sha1_extend [16 + n] (map (fips_W blk) [0..<16 + n]) =
        map (fips_W blk) [0..<16 + n] @ [word_rotl 1 (fips_W blk (13 + n) XOR fips_W blk (8 + n) XOR
        fips_W blk (2 + n) XOR fips_W blk n)]"
      by (simp add: sha1_extend_def circular_shift_rotl)
    ultimately show ?case using Suc by (simp only: fold_append map_append list.map comp_apply le0 order_refl)
  qed
  from this [of 64] show ?thesis by (simp add: sha1_W_def)
qed

lemma sha1_step_fips:
  assumes "length blk = 64" and "t < 80" and "f = fips_f t" and "K = fips_K t"
  shows "sha1_step f K (sha1_W blk) t = fips_step blk t"
  using assms by (simp add: sha1_step_def fips_step_def sha1_W_fips circular_shift_rotl and_all_ones Let_def ac_simps)

lemma sha1_process_fips:
  assumes "length (sha_blk ctx) = 64"
  shows "sha1_process ctx = Some (ctx\<lparr>sha_digest := fips_compress (sha_digest ctx) (sha_blk ctx), sha_idx := 0\<rparr>)"
proof -
  let ?b = "sha_blk ctx"
  have rounds: "fold (sha1_step f K (sha1_W ?b)) [20 * j..<20 * j + 20] r = fold (fips_step ?b) [20 * j..<20 * j + 20] r"
    if "j < 4" "f = fips_f (20 * j)" "K = fips_K (20 * j)" for f K j r
  proof (rule fold_cong)
    fix t assume "t \<in> set [20 * j..<20 * j + 20]"
    then have "t < 80" "t div 20 = j" using that(1) by auto
    then show "sha1_step f K (sha1_W ?b) t = fips_step ?b t"
      using assms that by (intro sha1_step_fips) (simp_all add: fips_f_def fips_K_def)
  qed simp_all
  have "[0..<80] = [0..<20] @ [20..<40] @ [40..<60] @ [60..<80]"
    using upt_add_eq_append [of 0 20 20] upt_add_eq_append [of 0 40 20] upt_add_eq_append [of 0 60 20] by simp
  with rounds [of 0 fips_Ch "0x5A827999"] rounds [of 1 fips_Parity "0x6ED9EBA1"]
    rounds [of 2 fips_Maj "0x8F1BBCDC"] rounds [of 3 fips_Parity "0xCA62C1D6"] assms
  show ?thesis unfolding sha1_process_def sha1_functions Let_def
    by (simp add: fips_compress_def fips_f_def fips_K_def and_all_ones split: prod.split)
qed

section \<open>The context\<close>

definition sha1_absorbed :: "byte list \<Rightarrow> sha1_ctx \<Rightarrow> bool" where
  "sha1_absorbed m ctx \<longleftrightarrow>
     sha_digest ctx = absorb fips_compress fips_iv m \<and> length (sha_blk ctx) = 64 \<and>
     sha_idx ctx = length m mod 64 \<and> take (length m mod 64) (sha_blk ctx) = unabsorbed m \<and>
     sha_len ctx = of_nat (8 * length m)"

lemma and_byte_ones: "b AND 0xFF = (b :: byte)"
proof -
  have "(0xFF :: byte) = - 1" by simp
  then show ?thesis by (metis and.right_neutral)
qed

lemma sha1_update_byte_absorbs:
  assumes A: "sha1_absorbed m ctx"
  shows "\<exists>ctx'. sha1_update_byte b ctx = Some ctx' \<and> sha1_absorbed (m @ [b]) ctx'"
proof -
  define i where "i = length m mod 64"
  define B where "B = (sha_blk ctx)[i := b]"
  from A have ctx: "sha_digest ctx = absorb fips_compress fips_iv m" "length (sha_blk ctx) = 64"
    "sha_idx ctx = i" "take i (sha_blk ctx) = unabsorbed m" "sha_len ctx = of_nat (8 * length m)"
    by (simp_all add: sha1_absorbed_def i_def)
  have i: "i < 64" "length (unabsorbed m) = i" by (simp_all add: i_def)
  have B: "length B = 64" "take (Suc i) B = unabsorbed m @ [b]"
    using i ctx(2,4) by (simp_all add: B_def take_Suc_conv_app_nth)
  have suc: "length (m @ [b]) mod 64 = (if Suc i = 64 then 0 else Suc i)" by (simp add: i_def mod_Suc)
  show ?thesis
  proof (cases "Suc i = 64")
    case True
    then have "(sha_blk ctx)[63 := b] = unabsorbed m @ [b]" using B by (simp add: B_def)
    with True i ctx suc show ?thesis
      by (simp add: sha1_update_byte_def sha1_put_def and_byte_ones Let_def sha1_process_fips
          sha1_absorbed_def absorb_continue [where m = m] unabsorbed_def [of "unabsorbed m @ [b]"] flip: B_def)
  next
    case False
    then have "length (unabsorbed m @ [b]) < 64" using i by simp
    with False B i ctx suc show ?thesis
      by (simp add: sha1_update_byte_def sha1_put_def and_byte_ones Let_def
          sha1_absorbed_def absorb_continue [where m = m] flip: B_def)
  qed
qed

lemma sha1_update_absorbs:
  "sha1_absorbed m ctx \<Longrightarrow> \<exists>ctx'. sha1_update ctx d = Some ctx' \<and> sha1_absorbed (m @ d) ctx'"
proof (induction d arbitrary: m ctx)
  case (Cons b d)
  obtain c where "sha1_update_byte b ctx = Some c" "sha1_absorbed (m @ [b]) c"
    using sha1_update_byte_absorbs [OF Cons.prems, of b] by blast
  with Cons.IH [of "m @ [b]" c] show ?case by simp
qed simp

lemma sha1_zero_to_fill:
  assumes "sha_blk ctx = u @ x" and "length u = sha_idx ctx" and "sha_idx ctx \<le> n" and "n \<le> length (sha_blk ctx)"
  shows "sha1_zero_to n ctx =
    Some (ctx\<lparr>sha_blk := u @ replicate (n - length u) 0 @ drop (n - length u) x, sha_idx := n\<rparr>)"
  using assms
proof (induction n ctx arbitrary: u x rule: sha1_zero_to.induct)
  case (1 n ctx)
  show ?case
  proof (cases "sha_idx ctx < n")
    case True
    with 1(2,3,5) obtain y z where x: "x = y # z" by (cases x) auto
    let ?c = "ctx\<lparr>sha_blk := (sha_blk ctx)[sha_idx ctx := 0], sha_idx := sha_idx ctx + 1\<rparr>"
    have e: "sha_blk ?c = (u @ [0]) @ z" using x by (simp add: 1(2) list_update_append flip: 1(3))
    have "sha1_zero_to n ?c = Some (?c\<lparr>sha_blk := (u @ [0]) @ replicate (n - length (u @ [0])) 0 @ drop (n - length (u @ [0])) z, sha_idx := n\<rparr>)"
      using True 1(2-5) by (intro 1(1) e) auto
    moreover have "n - length u = Suc (n - length (u @ [0]))" using True 1(3) by simp
    ultimately show ?thesis using True 1(2-5) x by (simp add: sha1_zero_to.simps [of n ctx])
  next
    case False
    with 1 show ?thesis by (simp add: sha1_zero_to.simps [of n ctx])
  qed
qed

lemma masked_byte: "ucast (x AND 0xff) = (ucast (x :: 'a::len word) :: byte)" if "8 \<le> LENGTH('a)"
proof (rule bit_word_eqI)
  fix n assume "n < LENGTH(8)"
  moreover have "(0xff :: 'a word) = mask 8" by (simp add: mask_eq_exp_minus_1)
  ultimately show "bit (ucast (x AND 0xff) :: byte) n \<longleftrightarrow> bit (ucast x :: byte) n"
    using that by (simp only: bit_unsigned_iff bit_and_iff bit_mask_iff) (auto simp: possible_bit_word)
qed

lemma sha1_word_bytes_digits: "sha1_word_bytes w = be_digits 4 (unat w)"
  using byte_of_word [of 0 w] byte_of_word [of 1 w] byte_of_word [of 2 w] byte_of_word [of 3 w]
  by (simp add: sha1_word_bytes_def be_digits_def upt_rec masked_byte)

lemma sha1_len_bytes_digits: "sha1_len_bytes (of_nat (8 * n)) = be_digits 8 (8 * n)"
proof -
  let ?w = "of_nat (8 * n) :: u64"
  have d: "(of_nat (unat ?w div 256 ^ i) :: byte) = of_nat (8 * n div 256 ^ i)" if "i < 8" for i
  proof -
    have p: "(256::nat) ^ i = 2 ^ (8 * i)" by (simp add: power_mult)
    have "take_bit 8 (drop_bit (8 * i) (take_bit 64 (8 * n))) = take_bit 8 (drop_bit (8 * i) (8 * n))"
      using that by (auto intro!: bit_eqI simp: bit_simps)
    then show ?thesis
      unfolding p by (simp add: word_of_nat_eq_iff take_bit_eq_mod drop_bit_eq_div unsigned_of_nat del: of_nat_mult)
  qed
  have "sha1_len_bytes ?w = map (\<lambda>i. of_nat (unat ?w div 256 ^ (7 - i))) [0..<8]"
    using byte_of_word [of 0 ?w] byte_of_word [of 1 ?w] byte_of_word [of 2 ?w] byte_of_word [of 3 ?w]
      byte_of_word [of 4 ?w] byte_of_word [of 5 ?w] byte_of_word [of 6 ?w] byte_of_word [of 7 ?w]
    by (simp add: sha1_len_bytes_def upt_rec masked_byte del: of_nat_mult)
  also have "\<dots> = be_digits 8 (8 * n)"
    unfolding be_digits_def by (rule map_cong) (simp_all add: d del: of_nat_mult)
  finally show ?thesis .
qed

lemma sha1_final_digest:
  assumes A: "sha1_absorbed m ctx"
  shows "\<exists>ctx'. sha1_final ctx = Some (sha1_spec m, ctx')"
proof -
  define r where "r = unabsorbed m"
  define x where "x = drop (length r) (sha_blk ctx)"
  define e where "e = be_digits 8 (8 * length m)"
  have b: "sha_blk ctx = r @ x" and x: "length x = 64 - length r" and r: "length r < 64" "sha_idx ctx = length r"
    using A append_take_drop_id [of "length m mod 64" "sha_blk ctx"] by (auto simp: sha1_absorbed_def r_def x_def)
  have e: "sha1_len_bytes (sha_len ctx) = e" "length e = 8" 
    using A by (simp_all add: sha1_absorbed_def e_def sha1_len_bytes_digits [simplified] be_digits_def)
  have spec: "sha1_spec m = fips_output (absorb fips_compress fips_iv (md_pad (\<lambda>n. be_digits 8 (8 * n)) m))"
    by (simp add: sha1_spec_def md_hash_def)
  have out: "concat (map sha1_word_bytes [a0, a1, a2, a3, a4]) = fips_output (a0, a1, a2, a3, a4)" for a0 a1 a2 a3 a4
    by (simp add: fips_output_def sha1_word_bytes_digits)
  have le: "length (be_digits 8 (8 * length m)) = 8" by (simp add: be_digits_def)
  have regs: "sha_digest ctx = absorb fips_compress fips_iv m" using A by (simp add: sha1_absorbed_def)
  have put: "sha1_put 0x80 ctx = Some (ctx\<lparr>sha_blk := r @ 0x80 # drop 1 x, sha_idx := Suc (length r)\<rparr>)"
    using x r by (cases x) (simp_all add: sha1_put_def b)
  show ?thesis
  proof (cases "length r \<le> 55")
    case True
    define p where "p = r @ 0x80 # replicate (55 - length r) 0"
    have z: "sha1_zero_to 56 (ctx\<lparr>sha_blk := r @ 0x80 # drop 1 x, sha_idx := Suc (length r)\<rparr>) =
        Some (ctx\<lparr>sha_blk := p @ drop (Suc (55 - length r)) x, sha_idx := 56\<rparr>)"
      using sha1_zero_to_fill [of "ctx\<lparr>sha_blk := r @ 0x80 # drop 1 x, sha_idx := Suc (length r)\<rparr>" "r @ [0x80]" "drop 1 x" 56]
        True x by (simp add: p_def)
    have "mem_write (p @ drop (Suc (55 - length r)) x) 56 e = Some (p @ e)"
      using mem_write_behind [of p 56 e "drop (Suc (55 - length r)) x"] x True e(2) by (simp add: p_def)
    moreover have "length (p @ e) = 64" using True e by (simp add: p_def)
    moreover have "absorb fips_compress fips_iv (md_pad (\<lambda>n. be_digits 8 (8 * n)) m) = fips_compress (sha_digest ctx) (p @ e)"
      unfolding absorb_pad [where enc = "\<lambda>n. be_digits 8 (8 * n)", OF le] using True by (simp add: Let_def p_def regs e_def flip: r_def)
    ultimately show ?thesis unfolding spec using True r(2) put z e(1)
      by (simp add: sha1_final_def sha1_pad_def sha1_process_fips out [simplified] split: prod.split)
  next
    case False
    define p where "p = r @ 0x80 # replicate (63 - length r) 0"
    define c where "c = ctx\<lparr>sha_blk := p, sha_idx := 0, sha_digest := fips_compress (sha_digest ctx) p\<rparr>"
    have p: "length p = 64" using r by (simp add: p_def)
    have z: "sha1_zero_to 64 (ctx\<lparr>sha_blk := r @ 0x80 # drop 1 x, sha_idx := Suc (length r)\<rparr>) =
        Some (ctx\<lparr>sha_blk := p, sha_idx := 64\<rparr>)"
      using sha1_zero_to_fill [of "ctx\<lparr>sha_blk := r @ 0x80 # drop 1 x, sha_idx := Suc (length r)\<rparr>" "r @ [0x80]" "drop 1 x" 64]
        r x by (simp add: p_def)
    have z2: "sha1_zero_to 56 c = Some (c\<lparr>sha_blk := replicate 56 0 @ drop 56 p, sha_idx := 56\<rparr>)"
      using sha1_zero_to_fill [of c "[]" p 56] p by (simp add: c_def)
    have "mem_write (replicate 56 0 @ drop 56 p) 56 e = Some (replicate 56 0 @ e)"
      using mem_write_behind [of "replicate 56 0" 56 e "drop 56 p"] p e(2) by simp
    moreover have "absorb fips_compress fips_iv (md_pad (\<lambda>n. be_digits 8 (8 * n)) m) =
        fips_compress (fips_compress (sha_digest ctx) p) (replicate 56 0 @ e)"
      unfolding absorb_pad [where enc = "\<lambda>n. be_digits 8 (8 * n)", OF le] using False by (simp add: Let_def p_def regs e_def flip: r_def)
    moreover have "sha1_process (ctx\<lparr>sha_blk := p, sha_idx := 64\<rparr>) = Some c"
      using p by (simp add: sha1_process_fips c_def)
    ultimately show ?thesis unfolding spec using False r(2) put z z2 e
      by (simp add: sha1_final_def sha1_pad_def sha1_process_fips out [simplified] split: prod.split) (simp add: c_def sha1_process_fips out [simplified] split: prod.split)
  qed
qed

section \<open>The digest\<close>

definition sha1_finish :: "sha1_ctx \<Rightarrow> byte list option" where
  "sha1_finish ctx = map_option fst (sha1_final ctx)"

interpretation sha1: streaming_hash sha1_absorbed sha1_update sha1_finish sha1_spec
proof
  show "\<exists>c'. sha1_update c d = Some c' \<and> sha1_absorbed (m @ d) c'" if "sha1_absorbed m c" for m c d
    using that by (rule sha1_update_absorbs)
  show "sha1_finish c = Some (sha1_spec m)" if "sha1_absorbed m c" for m c
    using sha1_final_digest [OF that] by (auto simp: sha1_finish_def)
qed

lemma sha1_init_absorbed: "length (sha_blk ctx) = 64 \<Longrightarrow> sha1_absorbed [] (sha1_init ctx)"
  by (simp add: sha1_absorbed_def sha1_init_def fips_iv_def unabsorbed_def)

text \<open>
  \<open>sha1_process\<close> on a full 64-byte block replaces the digest by the FIPS 180-1 compression of
  it, with the schedule of 80 words given by the recursion of the standard, and resets the index.\<close>

lemma sha1_process_is_fips_compression:
  "length (sha_blk ctx) = 64 \<Longrightarrow>
   sha1_process ctx = Some (ctx\<lparr>sha_digest := fips_compress (sha_digest ctx) (sha_blk ctx), sha_idx := 0\<rparr>)"
  by (rule sha1_process_fips)

text \<open>
  C12. Hashing a message in any pieces (\<open>sha1_init\<close>, any number of calls of \<open>sha1_update\<close>,
  \<open>sha1_final\<close>) never leaves the 64-byte block and gives the SHA-1 digest of the concatenation;
  \<open>sha1\<close> gives the digest of the message in one call.\<close>

theorem sha1_pieces_digest:
  assumes "length (sha_blk ctx) = 64" and "\<forall>d\<in>set ds. length d < 2 ^ 64"
  shows "hash_pieces sha1_update sha1_finish (sha1_init ctx) ds = Some (sha1_spec (concat ds)) \<and>
    sha1 ctx (concat ds) = Some (sha1_spec (concat ds))"
proof
  note init = sha1_init_absorbed [OF assms(1)]
  show "hash_pieces sha1_update sha1_finish (sha1_init ctx) ds = Some (sha1_spec (concat ds))"
    using sha1.pieces [OF init assms(2)] by simp
  show "sha1 ctx (concat ds) = Some (sha1_spec (concat ds))"
    using sha1_update_absorbs [OF init, of "concat ds"] sha1.finish by (auto simp: sha1_def sha1_finish_def)
qed

theorem sha1_pieces_digest_witness:
  "hash_pieces sha1_update sha1_finish
     (sha1_init \<lparr>sha_digest = (1, 2, 3, 4, 5), sha_len = 7, sha_blk = replicate 64 9, sha_idx = 3\<rparr>)
     [[0x61], [], [0x62, 0x63]] = Some (sha1_spec [0x61, 0x62, 0x63]) \<and>
   sha1 \<lparr>sha_digest = (1, 2, 3, 4, 5), sha_len = 7, sha_blk = replicate 64 9, sha_idx = 3\<rparr>
     [0x61, 0x62, 0x63] = Some (sha1_spec [0x61, 0x62, 0x63])"
  using sha1_pieces_digest [of "\<lparr>sha_digest = (1, 2, 3, 4, 5), sha_len = 7, sha_blk = replicate 64 9, sha_idx = 3\<rparr>"
      "[[0x61], [], [0x62, 0x63]]"] by simp

end
