(* ===== verification/Local_Registry.thy ===== *)
theory Local_Registry
  imports Base_Prelude "HOL-Library.Multiset"
begin

unbundle bit_operations_syntax

text \<open>
  The daemon of the local registry, \<open>lib/local_registry/daemon/local_registry_logic.cpp\<close>: clients
  connect over a Unix socket, register the services they provide, listen to services of others, and
  are notified when a service appears, changes or goes away.

  The daemon runs on one event loop, so a run is a sequence of events: a connection opens, a
  connection closes, a message arrives.  Objects behind a \<open>std::shared_ptr\<close> are cells of two heaps
  (\<open>client_heap\<close>, \<open>service_heap\<close>), a pointer is an index, so that a service item shared by
  \<open>m_services\<close> and \<open>client_produce_services\<close> is one cell.  The enumerations and the message
  structures are those of \<open>json/local_registry_module.json\<close>, from which the headers are generated.
\<close>

section \<open>Messages\<close>

text \<open>The enumerations of the module, as the C code stores them in \<open>uint32_t\<close> fields.\<close>

abbreviation "LOCAL_MSG_TYPE_METHOD_RESPONSE_SYNC \<equiv> (3 :: u32)"
abbreviation "LOCAL_MSG_TYPE_METHOD_RESPONSE_ASYNC \<equiv> (5 :: u32)"
abbreviation "LOCAL_MSG_TYPE_EVENT_NOTIFY \<equiv> (6 :: u32)"
abbreviation "LOCAL_SERVICE_TYPE_UNKNOWN \<equiv> (0 :: u32)"
abbreviation "LOCAL_SERVICE_TYPE_METHOD \<equiv> (1 :: u32)"
abbreviation "LOCAL_SERVICE_TYPE_EVENT \<equiv> (2 :: u32)"
abbreviation "LOCAL_SERVICE_STATUS_DEFAULT \<equiv> (0 :: u32)"
abbreviation "LOCAL_SERVICE_STATUS_AVAILABLE \<equiv> (1 :: u32)"
abbreviation "LOCAL_SERVICE_STATUS_UNAVAILABLE \<equiv> (2 :: u32)"
abbreviation "LOCAL_CLIENT_STATUS_ONLINE \<equiv> (1 :: u32)"
abbreviation "LOCAL_CLIENT_STATUS_OFFLINE \<equiv> (2 :: u32)"

abbreviation "METHOD_REGISTER_CLIENT \<equiv> (1 :: u32)"
abbreviation "METHOD_GET_CLIENT \<equiv> (2 :: u32)"
abbreviation "METHOD_REGISTER_SERVICE \<equiv> (3 :: u32)"
abbreviation "METHOD_LISTEN_SERVICE \<equiv> (4 :: u32)"
abbreviation "METHOD_GET_SERVICE \<equiv> (5 :: u32)"
abbreviation "METHOD_SERVICE_SET_STATUS \<equiv> (6 :: u32)"
abbreviation "EVENT_SERVICE_CHANGE_STATUS \<equiv> (7 :: u32)"
abbreviation "EVENT_LISTENER_CHANGE_TO_PROVIDER \<equiv> (8 :: u32)"
abbreviation "METHOD_CTRL_GET_CLIENTS \<equiv> (9 :: u32)"
abbreviation "METHOD_CTRL_GET_SERVICES \<equiv> (10 :: u32)"

abbreviation "LOCAL_REGISTRY_MSG_SIZE_MAX \<equiv> (8192 :: nat)"
abbreviation "ONCE_COUNT_MAX \<equiv> (128 :: nat)"

record st_local_service_item =
  si_id :: u32
  si_type :: u32
  si_status :: u32

record st_local_client_item =
  ci_id :: u32
  ci_pid :: int
  ci_name :: string
  ci_status :: u32

record st_local_msg_header =
  mh_client_id :: u32
  mh_seqid :: u32
  mh_type :: u32
  mh_service_id :: u32
  mh_len :: u32

text \<open>
  Requests and replies.  An optional sub-message with its \<open>has_\<close> flag is an option, a repeated
  field with its \<open>_count\<close> a list.
\<close>

datatype reg_req =
    Register_Client_Req int string
  | Get_Client_Req u32
  | Register_Service "st_local_service_item list" "st_local_client_item option" bool
  | Listen_Service "st_local_service_item list" "st_local_client_item option" bool
  | Get_Service_Req u32 "st_local_client_item option"
  | Service_Set_Status "st_local_service_item list" "st_local_client_item option"
  | Ctrl_Get_Clients_Req
  | Ctrl_Get_Services_Req

datatype reg_msg =
    Register_Client_Resp int u32
  | Get_Client_Resp "st_local_client_item option"
  | Get_Service_Resp st_local_service_item "st_local_client_item option"
  | Service_Change_Status st_local_service_item "st_local_client_item option"
  | Listener_Change_To_Provider u32 "st_local_client_item list" bool
  | Ctrl_Get_Clients "(st_local_client_item \<times> st_local_service_item list) list" u32
  | Ctrl_Get_Services "(st_local_service_item \<times> st_local_client_item option \<times> st_local_client_item list) list" u32

section \<open>State\<close>

type_synonym cref = nat
type_synonym sref = nat

record local_service_item =
  service_id :: u32
  service_type :: u32
  service_status :: u32
  service_provider :: "cref option"
  service_listeners :: "(u32 \<times> cref) list"

record local_client =
  client_id :: u32
  client_pid :: int
  client_channel_id :: u32
  client_name :: string
  client_localaddr :: string
  client_status :: u32
  client_produce_services :: "(u32 \<times> sref) list"

text \<open>
  \<open>m_channels\<close> is the table of open channels of \<open>UdsServer\<close> with their peer address; \<open>writes\<close> lists
  the calls of \<open>channel->write\<close> so far: the channel, the header and the encoded message.
\<close>

record registry =
  client_heap :: "local_client list"
  service_heap :: "local_service_item list"
  m_clients_by_name :: "(string \<times> cref) list"
  m_services :: "(u32 \<times> sref) list"
  m_next_client_id :: u32
  m_msg_seqid :: u32
  m_channels :: "(u32 \<times> string) list"
  writes :: "(u32 \<times> st_local_msg_header \<times> reg_msg) list"

text \<open>
  What the code relies on and the sources do not fix: the iteration order of \<open>std::unordered_map\<close>
  (\<open>ord_name\<close>, \<open>ord_id\<close> give the order after an insertion), the encoded size of a message
  (\<open>pb_size\<close>, \<^const>\<open>None\<close> when nanopb reports an error), the return value of \<open>channel->write\<close>,
  whether the arguments of the log macros are evaluated (\<open>log_args\<close>, a build without \<open>NDEBUG\<close>), and
  what reading through an erased iterator yields (\<open>erased_iterator\<close>, \<^const>\<open>None\<close> for a fault).
\<close>

record reg_env =
  ord_name :: "(string \<times> nat) list \<Rightarrow> (string \<times> nat) list"
  ord_id :: "(u32 \<times> nat) list \<Rightarrow> (u32 \<times> nat) list"
  pb_size :: "reg_msg \<Rightarrow> nat option"
  chan_write :: "u32 \<Rightarrow> nat \<Rightarrow> int"
  log_args :: bool
  erased_iterator :: "sref \<Rightarrow> sref option"

definition umap_insert :: "(('k \<times> nat) list \<Rightarrow> ('k \<times> nat) list) \<Rightarrow> 'k \<Rightarrow> nat \<Rightarrow> ('k \<times> nat) list \<Rightarrow> ('k \<times> nat) list" where
  "umap_insert ord k v m = (if map_of m k = None then ord ((k, v) # m) else m)"

definition umap_erase :: "'k \<Rightarrow> ('k \<times> nat) list \<Rightarrow> ('k \<times> nat) list" where
  "umap_erase k m = filter (\<lambda>p. fst p \<noteq> k) m"

abbreviation client_at :: "registry \<Rightarrow> cref \<Rightarrow> local_client" where
  "client_at st c \<equiv> client_heap st ! c"

abbreviation service_at :: "registry \<Rightarrow> sref \<Rightarrow> local_service_item" where
  "service_at st s \<equiv> service_heap st ! s"

definition upd_client :: "cref \<Rightarrow> (local_client \<Rightarrow> local_client) \<Rightarrow> registry \<Rightarrow> registry" where
  "upd_client c f st = st\<lparr>client_heap := (client_heap st)[c := f (client_at st c)]\<rparr>"

definition upd_service :: "sref \<Rightarrow> (local_service_item \<Rightarrow> local_service_item) \<Rightarrow> registry \<Rightarrow> registry" where
  "upd_service s f st = st\<lparr>service_heap := (service_heap st)[s := f (service_at st s)]\<rparr>"

section \<open>Sending\<close>

definition getChannelById :: "registry \<Rightarrow> u32 \<Rightarrow> u32 option" where
  "getChannelById st i = (if i \<in> fst ` set (m_channels st) then Some i else None)"

text \<open>
  The message is encoded into a buffer of \<open>LOCAL_REGISTRY_MSG_SIZE_MAX\<close> bytes behind the header; a
  larger encoding overruns it.
\<close>

definition send_msg_to_client :: "reg_env \<Rightarrow> u32 option \<Rightarrow> u32 \<Rightarrow> u32 \<Rightarrow> u32 \<Rightarrow> reg_msg \<Rightarrow> registry \<Rightarrow> (int \<times> registry) option" where
  "send_msg_to_client E client_channel sid msg_seqid msg_type msg st =
     (case client_channel of
        None \<Rightarrow> Some (-1, st)
      | Some ch \<Rightarrow>
          (case pb_size E msg of
             None \<Rightarrow> Some (-1, st)
           | Some encoded_size \<Rightarrow>
               if encoded_size > LOCAL_REGISTRY_MSG_SIZE_MAX then None
               else
                 let ret = chan_write E ch (20 + encoded_size);
                     header = \<lparr>mh_client_id = 0, mh_seqid = msg_seqid, mh_type = msg_type,
                               mh_service_id = sid, mh_len = of_nat encoded_size\<rparr>
                 in Some (if ret < 0 then ret else 0, st\<lparr>writes := writes st @ [(ch, header, msg)]\<rparr>)))"

text \<open>
  A notification of client \<open>c\<close>: \<open>if (client_status == ONLINE) send_msg_to_client(getChannelById(\<dots>),
  \<dots>, m_msg_seqid++, LOCAL_MSG_TYPE_EVENT_NOTIFY, \<dots>)\<close>, with its result ignored.
\<close>

definition notify :: "reg_env \<Rightarrow> cref \<Rightarrow> u32 \<Rightarrow> reg_msg \<Rightarrow> registry \<Rightarrow> registry option" where
  "notify E c sid msg st =
     (if client_status (client_at st c) = LOCAL_CLIENT_STATUS_ONLINE
      then map_option snd
             (send_msg_to_client E (getChannelById st (client_channel_id (client_at st c))) sid
                (m_msg_seqid st) LOCAL_MSG_TYPE_EVENT_NOTIFY msg
                (st\<lparr>m_msg_seqid := m_msg_seqid st + 1\<rparr>))
      else Some st)"

fun notify_all :: "reg_env \<Rightarrow> u32 \<Rightarrow> (cref \<times> reg_msg) list \<Rightarrow> registry \<Rightarrow> registry option" where
  "notify_all E sid [] st = Some st"
| "notify_all E sid ((c, msg) # cs) st =
     (case notify E c sid msg st of None \<Rightarrow> None | Some st \<Rightarrow> notify_all E sid cs st)"

text \<open>A reply on the channel of the request.\<close>

definition reply :: "reg_env \<Rightarrow> u32 option \<Rightarrow> u32 \<Rightarrow> st_local_msg_header \<Rightarrow> reg_msg \<Rightarrow> registry \<Rightarrow> registry option" where
  "reply E ch sid hdr msg st =
     map_option snd (send_msg_to_client E ch sid (mh_seqid hdr) (mh_type hdr + 1) msg st)"

text \<open>\<open>strncpy\<close> into \<open>char client_name[32]\<close>; the fields of a client and of a service in a message.\<close>

definition client_item :: "local_client \<Rightarrow> st_local_client_item" where
  "client_item cl = \<lparr>ci_id = client_id cl, ci_pid = client_pid cl, ci_name = take 32 (client_name cl),
                     ci_status = client_status cl\<rparr>"

definition service_item :: "local_service_item \<Rightarrow> st_local_service_item" where
  "service_item sv = \<lparr>si_id = service_id sv, si_type = service_type sv, si_status = service_status sv\<rparr>"

definition provider_item :: "registry \<Rightarrow> local_service_item \<Rightarrow> st_local_client_item option" where
  "provider_item st sv = map_option (\<lambda>c. client_item (client_at st c)) (service_provider sv)"

section \<open>Connections\<close>

text \<open>\<open>std::string::find\<close> from a position, \<open>rfind\<close>, \<open>substr\<close>, \<open>strstr\<close>; \<^const>\<open>None\<close> is \<open>npos\<close>.\<close>

definition str_find :: "char \<Rightarrow> string \<Rightarrow> nat \<Rightarrow> nat option" where
  "str_find c s from = List.find (\<lambda>i. s ! i = c) [from..<length s]"

definition str_rfind :: "char \<Rightarrow> string \<Rightarrow> nat option" where
  "str_rfind c s = List.find (\<lambda>i. s ! i = c) (rev [0..<length s])"

definition substr :: "string \<Rightarrow> nat \<Rightarrow> nat \<Rightarrow> string" where
  "substr s pos n = take n (drop pos s)"

definition strstr :: "string \<Rightarrow> string \<Rightarrow> bool" where
  "strstr s t = list_ex (\<lambda>i. take (length t) (drop i s) = t) [0..<length s + 1]"

text \<open>\<open>npos + 1\<close> is 0.\<close>

definition after :: "nat option \<Rightarrow> nat" where
  "after p = (case p of None \<Rightarrow> 0 | Some i \<Rightarrow> i + 1)"

text \<open>
  \<open>std::stoi\<close>: white space, a sign, decimal digits; \<^const>\<open>None\<close> is the exception for no digits
  or a value outside \<open>int\<close>, which nothing catches.
\<close>

definition is_space :: "char \<Rightarrow> bool" where
  "is_space c \<longleftrightarrow> c \<in> {CHR '' '', CHR 0x09, CHR 0x0A, CHR 0x0B, CHR 0x0C, CHR 0x0D}"

definition is_digit :: "char \<Rightarrow> bool" where
  "is_digit c \<longleftrightarrow> 48 \<le> (of_char c :: nat) \<and> (of_char c :: nat) \<le> 57"

definition digits_value :: "string \<Rightarrow> int" where
  "digits_value = foldl (\<lambda>n c. 10 * n + (int (of_char c) - 48)) 0"

definition stoi :: "string \<Rightarrow> int option" where
  "stoi s =
     (let s = dropWhile is_space s;
          (neg, s) = (case s of
                        [] \<Rightarrow> (False, s)
                      | c # r \<Rightarrow> if c = CHR ''-'' then (True, r) else if c = CHR ''+'' then (False, r) else (False, s));
          ds = takeWhile is_digit s;
          v = (if neg then - digits_value ds else digits_value ds)
      in if ds = [] \<or> v < - (2 ^ 31) \<or> v \<ge> 2 ^ 31 then None else Some v)"

definition LOCAL_REGISTRY_CTRL_SOCKET_FILE :: string where
  "LOCAL_REGISTRY_CTRL_SOCKET_FILE = ''local_registry_ctrl.ipc''"

text \<open>The pid and the name of the client in the path of its socket, \<open>/tmp/<pid>-<name>.ipc\<close>.\<close>

definition parse_localaddr :: "string \<Rightarrow> (string \<times> string) option" where
  "parse_localaddr addr =
     (let slash = str_rfind (CHR ''/'') addr;
          dash = str_find (CHR ''-'') addr (after slash);
          dot = str_find (CHR ''.'') addr (after dash)
      in case (slash, dash, dot) of
           (Some slash, Some dash, Some dot) \<Rightarrow>
             Some (substr addr (slash + 1) (dash - (slash + 1)), substr addr (dash + 1) (dot - (dash + 1)))
         | _ \<Rightarrow> None)"

definition add_client :: "reg_env \<Rightarrow> u32 \<Rightarrow> string \<Rightarrow> registry \<Rightarrow> (int \<times> registry) option" where
  "add_client E channel_id peeraddr st =
     (case parse_localaddr peeraddr of
        None \<Rightarrow> Some (-1, st)
      | Some (pid_str, name) \<Rightarrow>
          (case stoi pid_str of
             None \<Rightarrow> None
           | Some pid \<Rightarrow>
               (case map_of (m_clients_by_name st) name of
                  Some c \<Rightarrow>
                    if getChannelById st (client_channel_id (client_at st c)) \<noteq> None then Some (1, st)
                    else Some (0, upd_client c (\<lambda>cl. cl\<lparr>client_pid := pid, client_channel_id := channel_id,
                           client_name := name, client_localaddr := peeraddr,
                           client_status := LOCAL_CLIENT_STATUS_ONLINE\<rparr>) st)
                | None \<Rightarrow>
                    Some (0, st\<lparr>client_heap := client_heap st @
                                  [\<lparr>client_id = m_next_client_id st, client_pid = pid,
                                    client_channel_id = channel_id, client_name = name,
                                    client_localaddr = peeraddr, client_status = LOCAL_CLIENT_STATUS_ONLINE,
                                    client_produce_services = []\<rparr>],
                                m_next_client_id := m_next_client_id st + 1,
                                m_clients_by_name :=
                                  umap_insert (ord_name E) name (length (client_heap st)) (m_clients_by_name st)\<rparr>))))"

text \<open>One service of the client that goes away: its listeners are told, then its status is reset.\<close>

definition remove_service :: "reg_env \<Rightarrow> sref \<Rightarrow> registry \<Rightarrow> registry option" where
  "remove_service E s st =
     (let sv = service_at st s;
          change_msg = Service_Change_Status
            \<lparr>si_id = service_id sv, si_type = service_type sv, si_status = LOCAL_SERVICE_STATUS_DEFAULT\<rparr> None
      in case notify_all E EVENT_SERVICE_CHANGE_STATUS
                (map (\<lambda>(_, l). (l, change_msg)) (service_listeners sv)) st of
           None \<Rightarrow> None
         | Some st \<Rightarrow> Some (upd_service s (\<lambda>sv. sv\<lparr>service_status := LOCAL_SERVICE_STATUS_DEFAULT\<rparr>) st))"

fun remove_services :: "reg_env \<Rightarrow> sref list \<Rightarrow> registry \<Rightarrow> registry option" where
  "remove_services E [] st = Some st"
| "remove_services E (s # ss) st =
     (case remove_service E s st of None \<Rightarrow> None | Some st \<Rightarrow> remove_services E ss st)"

definition remove_client :: "reg_env \<Rightarrow> u32 \<Rightarrow> registry \<Rightarrow> registry option" where
  "remove_client E channel_id st =
     (case List.find (\<lambda>(_, c). channel_id = client_channel_id (client_at st c)) (m_clients_by_name st) of
        None \<Rightarrow> Some st
      | Some (_, c) \<Rightarrow>
          (let st = upd_client c (\<lambda>cl. cl\<lparr>client_status := LOCAL_CLIENT_STATUS_OFFLINE\<rparr>) st
           in remove_services E (map snd (client_produce_services (client_at st c))) st))"

text \<open>
  \<open>onConnection\<close> for a channel that is connected and for one that is closed, and the two places of
  \<open>UdsServer\<close> that call it: a new channel is entered in the table before, a closed one removed after.
\<close>

definition onConnection :: "reg_env \<Rightarrow> bool \<Rightarrow> u32 \<Rightarrow> string \<Rightarrow> registry \<Rightarrow> registry option" where
  "onConnection E isConnected channel_id peeraddr st =
     (if isConnected then
        (if strstr peeraddr LOCAL_REGISTRY_CTRL_SOCKET_FILE then Some st
         else map_option snd (add_client E channel_id peeraddr st))
      else
        (if strstr peeraddr LOCAL_REGISTRY_CTRL_SOCKET_FILE then Some st
         else remove_client E channel_id st))"

definition addChannel :: "u32 \<Rightarrow> string \<Rightarrow> registry \<Rightarrow> registry" where
  "addChannel i peeraddr st = st\<lparr>m_channels := (i, peeraddr) # filter (\<lambda>p. fst p \<noteq> i) (m_channels st)\<rparr>"

definition removeChannel :: "u32 \<Rightarrow> registry \<Rightarrow> registry" where
  "removeChannel i st = st\<lparr>m_channels := filter (\<lambda>p. fst p \<noteq> i) (m_channels st)\<rparr>"

definition newConnEvent :: "reg_env \<Rightarrow> u32 \<Rightarrow> string \<Rightarrow> registry \<Rightarrow> registry option" where
  "newConnEvent E i peeraddr st = onConnection E True i peeraddr (addChannel i peeraddr st)"

definition onclose :: "reg_env \<Rightarrow> u32 \<Rightarrow> registry \<Rightarrow> registry option" where
  "onclose E i st =
     (case map_of (m_channels st) i of
        None \<Rightarrow> Some st
      | Some peeraddr \<Rightarrow> map_option (removeChannel i) (onConnection E False i peeraddr st))"

section \<open>Requests\<close>

definition register_client :: "reg_env \<Rightarrow> st_local_msg_header \<Rightarrow> int \<Rightarrow> string \<Rightarrow> u32 option \<Rightarrow> registry \<Rightarrow> registry option" where
  "register_client E hdr req_pid req_name ch st =
     (case map_of (m_clients_by_name st) req_name of
        None \<Rightarrow>
          if log_args E then None
          else reply E ch METHOD_REGISTER_CLIENT hdr (Register_Client_Resp 0 0) st
      | Some c \<Rightarrow>
          reply E ch METHOD_REGISTER_CLIENT hdr
            (Register_Client_Resp (client_pid (client_at st c)) (client_id (client_at st c))) st)"

definition get_client :: "reg_env \<Rightarrow> st_local_msg_header \<Rightarrow> u32 \<Rightarrow> u32 option \<Rightarrow> registry \<Rightarrow> registry option" where
  "get_client E hdr req_id ch st =
     (case List.find (\<lambda>(_, c). client_id (client_at st c) = req_id) (m_clients_by_name st) of
        None \<Rightarrow> reply E ch METHOD_GET_CLIENT hdr (Get_Client_Resp None) st
      | Some (_, c) \<Rightarrow> reply E ch METHOD_GET_CLIENT hdr (Get_Client_Resp (Some (client_item (client_at st c)))) st)"

text \<open>
  One service of a registration: the item is found or made, entered among the services of the
  client, the client is sent the listeners of the service, and the listeners of a method are
  notified.  The name in the notification is copied from the listener.
\<close>

definition enter_service :: "reg_env \<Rightarrow> cref \<Rightarrow> st_local_service_item \<Rightarrow> registry \<Rightarrow> sref \<times> registry" where
  "enter_service E c msg st =
     (let (s, st) =
        (case map_of (m_services st) (si_id msg) of
           None \<Rightarrow>
             (length (service_heap st),
              st\<lparr>service_heap := service_heap st @
                   [\<lparr>service_id = si_id msg, service_type = si_type msg,
                     service_status = LOCAL_SERVICE_STATUS_AVAILABLE,
                     service_provider = Some c, service_listeners = []\<rparr>],
                 m_services := umap_insert (ord_id E) (si_id msg) (length (service_heap st)) (m_services st)\<rparr>)
         | Some s \<Rightarrow>
             (s, upd_service s (\<lambda>sv. sv\<lparr>service_id := si_id msg, service_type := si_type msg,
                   service_status := LOCAL_SERVICE_STATUS_AVAILABLE, service_provider := Some c\<rparr>) st))
      in (s, upd_client c (\<lambda>cl. cl\<lparr>client_produce_services :=
                umap_insert (ord_id E) (si_id msg) s (client_produce_services cl)\<rparr>) st))"

definition register_one :: "reg_env \<Rightarrow> cref \<Rightarrow> st_local_service_item \<Rightarrow> registry \<Rightarrow> registry option" where
  "register_one E c msg st =
     (let (s, st) = enter_service E c msg st;
          sv = service_at st s;
          cl = client_at st c
      in case (if client_status cl = LOCAL_CLIENT_STATUS_ONLINE then
                 (if length (service_listeners sv) > ONCE_COUNT_MAX then None
                  else notify E c EVENT_LISTENER_CHANGE_TO_PROVIDER
                         (Listener_Change_To_Provider (service_id sv)
                            (map (\<lambda>(_, l). client_item (client_at st l)) (service_listeners sv)) True) st)
               else Some st) of
           None \<Rightarrow> None
         | Some st \<Rightarrow>
             if service_type sv = LOCAL_SERVICE_TYPE_METHOD then
               notify_all E EVENT_SERVICE_CHANGE_STATUS
                 (map (\<lambda>(_, l). (l, Service_Change_Status
                    \<lparr>si_id = service_id sv, si_type = service_type sv, si_status = LOCAL_SERVICE_STATUS_AVAILABLE\<rparr>
                    (Some \<lparr>ci_id = client_id cl, ci_pid = client_pid cl,
                           ci_name = take 32 (client_name (client_at st l)), ci_status = client_status cl\<rparr>)))
                   (service_listeners sv)) st
             else Some st)"

text \<open>
  One service of an unregistration.  \<open>it3\<close> is read after \<open>erase\<close> has invalidated it.
\<close>

definition unregister_one :: "reg_env \<Rightarrow> cref \<Rightarrow> st_local_service_item \<Rightarrow> registry \<Rightarrow> registry option" where
  "unregister_one E c msg st =
     (case map_of (m_services st) (si_id msg) of
        None \<Rightarrow> Some st
      | Some _ \<Rightarrow>
          (let st = st\<lparr>m_services := umap_erase (si_id msg) (m_services st)\<rparr>
           in case map_of (client_produce_services (client_at st c)) (si_id msg) of
                None \<Rightarrow> Some st
              | Some it3 \<Rightarrow>
                  (let st = upd_client c (\<lambda>cl. cl\<lparr>client_produce_services :=
                              umap_erase (si_id msg) (client_produce_services cl)\<rparr>) st
                   in case erased_iterator E it3 of
                        None \<Rightarrow> None
                      | Some s \<Rightarrow>
                          (let sv = service_at st s in
                           if service_type sv = LOCAL_SERVICE_TYPE_METHOD then
                             notify_all E EVENT_SERVICE_CHANGE_STATUS
                               (map (\<lambda>(_, l). (l, Service_Change_Status
                                  \<lparr>si_id = service_id sv, si_type = service_type sv,
                                    si_status = LOCAL_SERVICE_STATUS_UNAVAILABLE\<rparr> None))
                                 (service_listeners sv)) st
                           else Some st))))"

fun each :: "('a \<Rightarrow> registry \<Rightarrow> registry option) \<Rightarrow> 'a list \<Rightarrow> registry \<Rightarrow> registry option" where
  "each f [] st = Some st"
| "each f (x # xs) st = (case f x st of None \<Rightarrow> None | Some st \<Rightarrow> each f xs st)"

definition register_service :: "reg_env \<Rightarrow> st_local_service_item list \<Rightarrow> st_local_client_item option \<Rightarrow> bool \<Rightarrow> registry \<Rightarrow> (int \<times> registry) option" where
  "register_service E produce_services provider_client reg st =
     (case provider_client of
        None \<Rightarrow> Some (-1, st)
      | Some provider \<Rightarrow>
          if produce_services = [] then Some (0, st)
          else
            (case map_of (m_clients_by_name st) (ci_name provider) of
               None \<Rightarrow> Some (-1, st)
             | Some c \<Rightarrow>
                 map_option (Pair 0)
                   (if reg then each (register_one E c) produce_services st
                    else each (unregister_one E c) produce_services st)))"

text \<open>One service of \<open>listen_service\<close>: the item is found or made, then the listener is entered or removed.\<close>

definition find_or_new_service :: "reg_env \<Rightarrow> st_local_service_item \<Rightarrow> registry \<Rightarrow> sref \<times> registry" where
  "find_or_new_service E msg st =
     (case map_of (m_services st) (si_id msg) of
        None \<Rightarrow>
          (length (service_heap st),
           st\<lparr>service_heap := service_heap st @
                [\<lparr>service_id = si_id msg, service_type = si_type msg,
                  service_status = LOCAL_SERVICE_STATUS_DEFAULT,
                  service_provider = None, service_listeners = []\<rparr>],
              m_services := umap_insert (ord_id E) (si_id msg) (length (service_heap st)) (m_services st)\<rparr>)
      | Some s \<Rightarrow> (s, st))"

definition listen_or_cancel :: "reg_env \<Rightarrow> cref \<Rightarrow> bool \<Rightarrow> sref \<Rightarrow> registry \<Rightarrow> registry option" where
  "listen_or_cancel E c reg s st =
     (if reg then
        (let st = upd_service s (\<lambda>sv. sv\<lparr>service_listeners :=
                    umap_insert (ord_id E) (client_id (client_at st c)) c (service_listeners sv)\<rparr>) st;
             sv = service_at st s
         in if service_type sv = LOCAL_SERVICE_TYPE_METHOD \<and> service_status sv = LOCAL_SERVICE_STATUS_AVAILABLE
            then notify E c EVENT_SERVICE_CHANGE_STATUS
                   (Service_Change_Status (service_item sv) (provider_item st sv)) st
            else Some st)
      else
        (if service_type (service_at st s) = LOCAL_SERVICE_TYPE_METHOD
         then Some (upd_service s (\<lambda>sv. sv\<lparr>service_listeners :=
                umap_erase (client_id (client_at st c)) (service_listeners sv)\<rparr>) st)
         else Some st))"

definition listen_one :: "reg_env \<Rightarrow> cref \<Rightarrow> bool \<Rightarrow> st_local_service_item \<Rightarrow> registry \<Rightarrow> registry option" where
  "listen_one E c reg msg st =
     (let (s, st) = find_or_new_service E msg st
      in case listen_or_cancel E c reg s st of
           None \<Rightarrow> None
         | Some st \<Rightarrow>
             (case service_provider (service_at st s) of
                None \<Rightarrow> Some st
              | Some p \<Rightarrow>
                  notify E p EVENT_LISTENER_CHANGE_TO_PROVIDER
                    (Listener_Change_To_Provider (service_id (service_at st s))
                       [client_item (client_at st c)] reg) st))"

definition listen_service :: "reg_env \<Rightarrow> st_local_service_item list \<Rightarrow> st_local_client_item option \<Rightarrow> bool \<Rightarrow> registry \<Rightarrow> (int \<times> registry) option" where
  "listen_service E listen_services listener_client reg st =
     (case listener_client of
        None \<Rightarrow> Some (-1, st)
      | Some listener \<Rightarrow>
          if listen_services = [] then Some (0, st)
          else
            (case map_of (m_clients_by_name st) (ci_name listener) of
               None \<Rightarrow> Some (-1, st)
             | Some c \<Rightarrow> map_option (Pair 0) (each (listen_one E c reg) listen_services st)))"

definition get_service_resp :: "registry \<Rightarrow> u32 \<Rightarrow> reg_msg" where
  "get_service_resp st sid =
     (case map_of (m_services st) sid of
        None \<Rightarrow> Get_Service_Resp \<lparr>si_id = sid, si_type = LOCAL_SERVICE_TYPE_UNKNOWN,
                                   si_status = LOCAL_SERVICE_STATUS_UNAVAILABLE\<rparr> None
      | Some s \<Rightarrow> Get_Service_Resp (service_item (service_at st s)) (provider_item st (service_at st s)))"

definition get_service :: "reg_env \<Rightarrow> st_local_msg_header \<Rightarrow> u32 \<Rightarrow> st_local_client_item option \<Rightarrow> registry \<Rightarrow> (int \<times> registry) option" where
  "get_service E hdr sid listener_client st =
     (case listener_client of
        None \<Rightarrow> Some (-1, st)
      | Some listener \<Rightarrow>
          (case map_of (m_clients_by_name st) (ci_name listener) of
             None \<Rightarrow> Some (-1, st)
           | Some c \<Rightarrow>
               map_option (Pair 0)
                 (if client_status (client_at st c) = LOCAL_CLIENT_STATUS_ONLINE
                  then reply E (getChannelById st (client_channel_id (client_at st c))) METHOD_GET_SERVICE hdr
                         (get_service_resp st sid) st
                  else Some st)))"

definition set_status_one :: "reg_env \<Rightarrow> st_local_service_item \<Rightarrow> registry \<Rightarrow> registry option" where
  "set_status_one E msg st =
     (case map_of (m_services st) (si_id msg) of
        None \<Rightarrow> Some st
      | Some s \<Rightarrow>
          if service_status (service_at st s) \<noteq> si_status msg then
            (let st = upd_service s (\<lambda>sv. sv\<lparr>service_status := si_status msg\<rparr>) st;
                 sv = service_at st s
             in if service_type sv = LOCAL_SERVICE_TYPE_METHOD
                then notify_all E EVENT_SERVICE_CHANGE_STATUS
                       (map (\<lambda>(_, l). (l, Service_Change_Status (service_item sv) (provider_item st sv)))
                         (service_listeners sv)) st
                else Some st)
          else Some st)"

definition service_set_status :: "reg_env \<Rightarrow> st_local_service_item list \<Rightarrow> st_local_client_item option \<Rightarrow> registry \<Rightarrow> (int \<times> registry) option" where
  "service_set_status E services provider_client st =
     (case provider_client of
        None \<Rightarrow> Some (-1, st)
      | Some provider \<Rightarrow>
          if services = [] then Some (-1, st)
          else
            (case map_of (m_clients_by_name st) (ci_name provider) of
               None \<Rightarrow> Some (-1, st)
             | Some _ \<Rightarrow> map_option (Pair 0) (each (set_status_one E) services st)))"

section \<open>Control requests\<close>

text \<open>
  The tables of clients and services go out in pages of at most \<open>each\<close> entries (\<open>ARRAY_SIZE(resp.clients)\<close>
  is 1, as is \<open>ARRAY_SIZE(resp.services)\<close>), numbered by \<open>more_flag\<close>, then a page with flag 0.  The
  loop keeps the page \<open>resp\<close> under construction and the last \<open>more_flag\<close>; an entry with 128
  sub-entries ends its page.
\<close>

fun ctrl_pages :: "nat \<Rightarrow> ('a \<times> nat) list \<Rightarrow> 'a list \<Rightarrow> u32 \<Rightarrow> ('a list \<times> u32) list" where
  "ctrl_pages n [] resp more_flag =
     (if length resp \<noteq> 0 then [(resp, more_flag + 1), ([], 0)] else [([], 0)])"
| "ctrl_pages n ((x, j) # xs) resp more_flag =
     (let resp = resp @ [x]
      in if j \<ge> ONCE_COUNT_MAX then (resp, more_flag + 1) # ctrl_pages n xs [] (more_flag + 1)
         else if length resp \<ge> n then (resp, more_flag + 1) # ctrl_pages n xs [] (more_flag + 1)
         else ctrl_pages n xs resp more_flag)"

fun send_pages :: "reg_env \<Rightarrow> u32 option \<Rightarrow> u32 \<Rightarrow> st_local_msg_header \<Rightarrow> reg_msg list \<Rightarrow> registry \<Rightarrow> registry option" where
  "send_pages E ch sid hdr [] st = Some st"
| "send_pages E ch sid hdr (m # ms) st =
     (case reply E ch sid hdr m st of None \<Rightarrow> None | Some st \<Rightarrow> send_pages E ch sid hdr ms st)"

definition client_info :: "registry \<Rightarrow> cref \<Rightarrow> st_local_client_item \<times> st_local_service_item list" where
  "client_info st c =
     (client_item (client_at st c),
      map (\<lambda>(k, s). \<lparr>si_id = k, si_type = service_type (service_at st s), si_status = service_status (service_at st s)\<rparr>)
        (take ONCE_COUNT_MAX (client_produce_services (client_at st c))))"

definition service_info :: "registry \<Rightarrow> sref \<Rightarrow> st_local_service_item \<times> st_local_client_item option \<times> st_local_client_item list" where
  "service_info st s =
     (service_item (service_at st s), provider_item st (service_at st s),
      map (\<lambda>(_, l). client_item (client_at st l)) (take ONCE_COUNT_MAX (service_listeners (service_at st s))))"

definition ctr_get_clients :: "reg_env \<Rightarrow> st_local_msg_header \<Rightarrow> u32 option \<Rightarrow> registry \<Rightarrow> registry option" where
  "ctr_get_clients E hdr ch st =
     send_pages E ch METHOD_CTRL_GET_CLIENTS hdr
       (map (\<lambda>(resp, more_flag). Ctrl_Get_Clients resp more_flag)
         (ctrl_pages 1 (map (\<lambda>(_, c). (client_info st c, length (snd (client_info st c)))) (m_clients_by_name st)) [] 0)) st"

definition ctr_get_services :: "reg_env \<Rightarrow> st_local_msg_header \<Rightarrow> u32 option \<Rightarrow> registry \<Rightarrow> registry option" where
  "ctr_get_services E hdr ch st =
     send_pages E ch METHOD_CTRL_GET_SERVICES hdr
       (map (\<lambda>(resp, more_flag). Ctrl_Get_Services resp more_flag)
         (ctrl_pages 1 (map (\<lambda>(_, s). (service_info st s, length (snd (snd (service_info st s))))) (m_services st)) [] 0)) st"

section \<open>Messages from the socket\<close>

text \<open>
  The generated table of services and nanopb, as far as \<open>onMessage\<close> uses them: \<open>map_size\<close> is the length
  of the array \<open>gst_autolib_servicemap\<close> of modules, \<open>items_size\<close> gives the number of services of a module
  (\<^const>\<open>None\<close> for a null entry of the array), \<open>fields_size\<close> the size of the request or reply structure
  of a service (0 for none), \<open>pb_decode\<close> the structure decoded from the payload, and the \<open>view_\<close>
  functions the structure cast to a request type.
\<close>

record pb_env =
  map_size :: nat
  items_size :: "nat \<Rightarrow> nat option"
  fields_size :: "bool \<Rightarrow> u32 \<Rightarrow> nat"
  pb_decode :: "bool \<Rightarrow> u32 \<Rightarrow> byte list \<Rightarrow> byte list option"
  view_register_client_req :: "byte list \<Rightarrow> int \<times> string"
  view_get_client_req :: "byte list \<Rightarrow> u32"
  view_register_service :: "byte list \<Rightarrow> st_local_service_item list \<times> st_local_client_item option \<times> bool"
  view_listen_service :: "byte list \<Rightarrow> st_local_service_item list \<times> st_local_client_item option \<times> bool"
  view_get_service_req :: "byte list \<Rightarrow> u32 \<times> st_local_client_item option"
  view_service_set_status :: "byte list \<Rightarrow> st_local_service_item list \<times> st_local_client_item option"

definition le_word :: "byte list \<Rightarrow> nat \<Rightarrow> u32" where
  "le_word b i =
     ucast (b ! i) OR push_bit 8 (ucast (b ! (i + 1))) OR push_bit 16 (ucast (b ! (i + 2))) OR
     push_bit 24 (ucast (b ! (i + 3)))"

definition parse_header :: "byte list \<Rightarrow> st_local_msg_header" where
  "parse_header b = \<lparr>mh_client_id = le_word b 0, mh_seqid = le_word b 4, mh_type = le_word b 8,
                     mh_service_id = le_word b 12, mh_len = le_word b 16\<rparr>"

text \<open>
  The structure a payload is decoded into; the outer option is undefined behaviour, the inner an early
  return.  Neither index comes with a check in the code: a module id beyond the array of modules and a
  message id of 0 or beyond the items of its module are reads outside the tables.
\<close>

definition decode_payload :: "pb_env \<Rightarrow> st_local_msg_header \<Rightarrow> byte list \<Rightarrow> byte list option option" where
  "decode_payload P hdr payload =
     (let module_id = unat (drop_bit 16 (mh_service_id hdr));
          msg_id = unat (mh_service_id hdr AND 0xFFFF)
      in if module_id \<ge> map_size P then None
         else case items_size P module_id of
           None \<Rightarrow> Some None
         | Some n \<Rightarrow>
             if msg_id = 0 \<or> msg_id > n then None
             else
               let out = (mh_type hdr = LOCAL_MSG_TYPE_METHOD_RESPONSE_SYNC \<or>
                          mh_type hdr = LOCAL_MSG_TYPE_METHOD_RESPONSE_ASYNC)
               in if mh_len hdr > 0 then
                    (if fields_size P out (mh_service_id hdr) = 0 then Some None
                     else Some (pb_decode P out (mh_service_id hdr) payload))
                  else Some (Some (replicate LOCAL_REGISTRY_MSG_SIZE_MAX 0)))"

text \<open>The \<open>switch\<close> over the service id: the structure is cast to the request type of the case.\<close>

definition request_of :: "pb_env \<Rightarrow> u32 \<Rightarrow> byte list \<Rightarrow> reg_req option" where
  "request_of P sid pstruct =
     (if sid = METHOD_REGISTER_CLIENT then
        (case view_register_client_req P pstruct of (pid, name) \<Rightarrow> Some (Register_Client_Req pid name))
      else if sid = METHOD_GET_CLIENT then Some (Get_Client_Req (view_get_client_req P pstruct))
      else if sid = METHOD_REGISTER_SERVICE then
        (case view_register_service P pstruct of (services, provider, reg) \<Rightarrow> Some (Register_Service services provider reg))
      else if sid = METHOD_LISTEN_SERVICE then
        (case view_listen_service P pstruct of (services, listener, reg) \<Rightarrow> Some (Listen_Service services listener reg))
      else if sid = METHOD_GET_SERVICE then
        (case view_get_service_req P pstruct of (i, listener) \<Rightarrow> Some (Get_Service_Req i listener))
      else if sid = METHOD_SERVICE_SET_STATUS then
        (case view_service_set_status P pstruct of (services, provider) \<Rightarrow> Some (Service_Set_Status services provider))
      else if sid = METHOD_CTRL_GET_CLIENTS then Some Ctrl_Get_Clients_Req
      else if sid = METHOD_CTRL_GET_SERVICES then Some Ctrl_Get_Services_Req
      else None)"

definition dispatch :: "reg_env \<Rightarrow> st_local_msg_header \<Rightarrow> reg_req \<Rightarrow> u32 option \<Rightarrow> registry \<Rightarrow> registry option" where
  "dispatch E hdr req ch st =
     (case req of
        Register_Client_Req pid name \<Rightarrow> register_client E hdr pid name ch st
      | Get_Client_Req cid \<Rightarrow> get_client E hdr cid ch st
      | Register_Service services provider reg \<Rightarrow> map_option snd (register_service E services provider reg st)
      | Listen_Service services listener reg \<Rightarrow> map_option snd (listen_service E services listener reg st)
      | Get_Service_Req sid listener \<Rightarrow> map_option snd (get_service E hdr sid listener st)
      | Service_Set_Status services provider \<Rightarrow> map_option snd (service_set_status E services provider st)
      | Ctrl_Get_Clients_Req \<Rightarrow> ctr_get_clients E hdr ch st
      | Ctrl_Get_Services_Req \<Rightarrow> ctr_get_services E hdr ch st)"

definition onMessage :: "reg_env \<Rightarrow> pb_env \<Rightarrow> u32 option \<Rightarrow> byte list \<Rightarrow> registry \<Rightarrow> registry option" where
  "onMessage E P channel inbuf st =
     (if length inbuf < 20 then Some st
      else
        let hdr = parse_header inbuf;
            real_readbytes = of_nat (length inbuf - 20) :: u32
        in if real_readbytes \<noteq> mh_len hdr then Some st
           else
             (case decode_payload P hdr (drop 20 inbuf) of
                None \<Rightarrow> None
              | Some None \<Rightarrow> Some st
              | Some (Some pstruct) \<Rightarrow>
                  (case request_of P (mh_service_id hdr) pstruct of
                     None \<Rightarrow> Some st
                   | Some req \<Rightarrow> dispatch E hdr req channel st)))"

section \<open>Runs\<close>

datatype reg_event = Connect u32 string | Close u32 | Receive u32 "byte list"

definition reg_step :: "reg_env \<Rightarrow> pb_env \<Rightarrow> reg_event \<Rightarrow> registry \<Rightarrow> registry option" where
  "reg_step E P ev st =
     (case ev of
        Connect i peeraddr \<Rightarrow> newConnEvent E i peeraddr st
      | Close i \<Rightarrow> onclose E i st
      | Receive i inbuf \<Rightarrow> onMessage E P (Some i) inbuf st)"

definition reg_init :: registry where
  "reg_init = \<lparr>client_heap = [], service_heap = [], m_clients_by_name = [], m_services = [],
               m_next_client_id = 1, m_msg_seqid = 1, m_channels = [], writes = []\<rparr>"

end
