(* ===== verification/Local_Registry_Props.thy ===== *)
theory Local_Registry_Props
  imports Local_Registry
begin

text \<open>
  What the registry daemon guarantees: the invariant of its tables under every event, the absence of
  undefined behaviour for the events it is prepared for, that a registered service can be looked
  up, that listeners are notified and services go down with their provider, and what
  unregistration and cancelling do.
\<close>

section \<open>The environment\<close>

text \<open>
  An iteration order is a permutation of the entries, and an encoded message fits the buffer
  of \<open>send_msg_to_client\<close>.
\<close>

definition env_ok :: "reg_env \<Rightarrow> bool" where
  "env_ok E \<longleftrightarrow> (\<forall>m. mset (ord_name E m) = mset m) \<and> (\<forall>m. mset (ord_id E m) = mset m) \<and>
     (\<forall>msg n. pb_size E msg = Some n \<longrightarrow> n \<le> LOCAL_REGISTRY_MSG_SIZE_MAX)"

lemma env_okD:
  assumes "env_ok E"
  shows "set (ord_name E m) = set m" "distinct (map fst (ord_name E m)) = distinct (map fst m)"
    "set (ord_id E m') = set m'" "distinct (map fst (ord_id E m')) = distinct (map fst m')"
  using assms mset_eq_setD [of "ord_name E m" m] mset_eq_setD [of "ord_id E m'" m']
    mset_eq_imp_distinct_iff [of "map fst (ord_name E m)" "map fst m"]
    mset_eq_imp_distinct_iff [of "map fst (ord_id E m')" "map fst m'"]
  by (simp_all add: env_ok_def)

text \<open>
  What nanopb encodes: every string ends within its array of 32 bytes, and the repeated fields have at
  most the 128 entries (1 for the pages of the control requests) of their arrays.  The largest such
  message, a page of services, takes at most 7511 bytes.  A name of 32 bytes or more is cut by \<open>strncpy\<close> without
  a terminating zero, and nanopb refuses to encode a string that is not terminated.
\<close>

definition terminated :: "st_local_client_item \<Rightarrow> bool" where
  "terminated ci \<longleftrightarrow> length (ci_name ci) < 32"

definition terminated_opt :: "st_local_client_item option \<Rightarrow> bool" where
  "terminated_opt c = (case c of None \<Rightarrow> True | Some ci \<Rightarrow> terminated ci)"

fun encodable :: "reg_msg \<Rightarrow> bool" where
  "encodable (Register_Client_Resp pid cid) = True"
| "encodable (Get_Client_Resp c) = terminated_opt c"
| "encodable (Get_Service_Resp sv c) = terminated_opt c"
| "encodable (Service_Change_Status sv c) = terminated_opt c"
| "encodable (Listener_Change_To_Provider sid ls reg) = (length ls \<le> ONCE_COUNT_MAX \<and> list_all terminated ls)"
| "encodable (Ctrl_Get_Clients cs flag) =
     (length cs \<le> 1 \<and> list_all (\<lambda>(c, svs). terminated c \<and> length svs \<le> ONCE_COUNT_MAX) cs)"
| "encodable (Ctrl_Get_Services ss flag) =
     (length ss \<le> 1 \<and> list_all (\<lambda>(sv, c, ls). terminated_opt c \<and>
        length ls \<le> ONCE_COUNT_MAX \<and> list_all terminated ls) ss)"

definition nanopb_ok :: "reg_env \<Rightarrow> bool" where
  "nanopb_ok E \<longleftrightarrow> (\<forall>msg. encodable msg \<longrightarrow> (\<exists>n \<le> LOCAL_REGISTRY_MSG_SIZE_MAX. pb_size E msg = Some n))"

lemma nanopb_okD: "\<lbrakk>nanopb_ok E; encodable msg\<rbrakk> \<Longrightarrow> pb_size E msg \<noteq> None"
  by (auto simp: nanopb_ok_def)

section \<open>Sending only adds writes\<close>

definition traffic :: "u32 \<Rightarrow> (u32 \<times> st_local_msg_header \<times> reg_msg) list \<Rightarrow> registry \<Rightarrow> registry" where
  "traffic q w st = st\<lparr>m_msg_seqid := q, writes := w\<rparr>"

lemma traffic_simps [simp]:
  "client_heap (traffic q w st) = client_heap st" "service_heap (traffic q w st) = service_heap st"
  "m_clients_by_name (traffic q w st) = m_clients_by_name st" "m_services (traffic q w st) = m_services st"
  "m_next_client_id (traffic q w st) = m_next_client_id st" "m_channels (traffic q w st) = m_channels st"
  "traffic q w (traffic q' w' st) = traffic q w st" "writes (traffic q w st) = w"
  "m_msg_seqid (traffic q w st) = q"
  by (simp_all add: traffic_def)

lemma traffic_id: "traffic (m_msg_seqid st) (writes st) st = st"
  by (simp add: traffic_def)

text \<open>\<open>only_sends st st'\<close>: \<open>st'\<close> is \<open>st\<close> after some writes.\<close>

definition only_sends :: "registry \<Rightarrow> registry \<Rightarrow> bool" where
  "only_sends st st' \<longleftrightarrow> (\<exists>q w. st' = traffic q (writes st @ w) st)"

named_theorems sends

lemma only_sends_refl [sends]: "only_sends st st"
  unfolding only_sends_def by (rule exI [of _ "m_msg_seqid st"], rule exI [of _ "[]"]) (simp add: traffic_id)

lemma only_sends_trans: "\<lbrakk>only_sends st st1; only_sends st1 st2\<rbrakk> \<Longrightarrow> only_sends st st2"
  unfolding only_sends_def by (metis append.assoc traffic_simps(7,8))

lemma only_sendsI: "st' = st\<lparr>writes := writes st @ w\<rparr> \<Longrightarrow> only_sends st st'"
  unfolding only_sends_def by (rule exI [of _ "m_msg_seqid st"], rule exI [of _ w]) (simp add: traffic_def)

lemma only_sendsD:
  assumes "only_sends st st'"
  shows "client_heap st' = client_heap st" "service_heap st' = service_heap st"
    "m_clients_by_name st' = m_clients_by_name st" "m_services st' = m_services st"
    "m_next_client_id st' = m_next_client_id st" "m_channels st' = m_channels st"
    "\<exists>w. writes st' = writes st @ w"
  using assms by (auto simp: only_sends_def)

lemma send_traffic:
  "send_msg_to_client E ch sid q ty msg st = Some (r, st') \<Longrightarrow> only_sends st st'"
  by (auto simp: send_msg_to_client_def Let_def split: option.splits if_splits intro: only_sends_refl only_sendsI)

lemma notify_traffic [sends]:
  assumes "notify E c sid msg st = Some st'"
  shows "only_sends st st'"
proof (cases "client_status (client_at st c) = LOCAL_CLIENT_STATUS_ONLINE")
  case True
  with assms obtain r where "send_msg_to_client E (getChannelById st (client_channel_id (client_at st c))) sid
      (m_msg_seqid st) LOCAL_MSG_TYPE_EVENT_NOTIFY msg (st\<lparr>m_msg_seqid := m_msg_seqid st + 1\<rparr>) = Some (r, st')"
    by (auto simp: notify_def)
  from send_traffic [OF this] show ?thesis by (auto simp: only_sends_def traffic_def)
next
  case False
  with assms show ?thesis by (simp add: notify_def only_sends_refl)
qed

lemma notify_all_traffic [sends]: "notify_all E sid cs st = Some st' \<Longrightarrow> only_sends st st'"
  by (induction E sid cs st rule: notify_all.induct)
    (auto split: option.splits intro: only_sends_refl only_sends_trans [OF notify_traffic])

lemma reply_traffic [sends]: "reply E ch sid hdr msg st = Some st' \<Longrightarrow> only_sends st st'"
  using send_traffic by (fastforce simp: reply_def)

lemma send_pages_traffic [sends]: "send_pages E ch sid hdr ms st = Some st' \<Longrightarrow> only_sends st st'"
  by (induction E ch sid hdr ms st rule: send_pages.induct)
    (auto split: option.splits intro: only_sends_refl only_sends_trans [OF reply_traffic])

text \<open>With an encoder that respects the buffer, sending is always defined.\<close>

lemma send_defined [sends]: "env_ok E \<Longrightarrow> \<exists>r st'. send_msg_to_client E ch sid q ty msg st = Some (r, st')"
  by (fastforce simp: send_msg_to_client_def env_ok_def Let_def split: option.split)

lemma notify_defined [sends]: "env_ok E \<Longrightarrow> \<exists>st'. notify E c sid msg st = Some st'"
  using send_defined [of E] by (fastforce simp: notify_def)

lemma notify_all_defined [sends]: "env_ok E \<Longrightarrow> \<exists>st'. notify_all E sid cs st = Some st'"
proof (induction cs arbitrary: st)
  case (Cons x cs)
  obtain c m where "x = (c, m)" by (cases x)
  with Cons notify_defined [OF Cons.prems, of c sid m st] show ?case by auto
qed simp

lemma reply_defined [sends]: "env_ok E \<Longrightarrow> \<exists>st'. reply E ch sid hdr msg st = Some st'"
  using send_defined [of E] by (fastforce simp: reply_def)

lemma send_pages_defined [sends]: "env_ok E \<Longrightarrow> \<exists>st'. send_pages E ch sid hdr ms st = Some st'"
proof (induction ms arbitrary: st)
  case (Cons m ms)
  with reply_defined [OF Cons.prems, of ch sid hdr m st] show ?case by auto
qed simp

section \<open>The invariant\<close>

text \<open>
  \<open>refs_ok ids m\<close>: the table \<open>m\<close> maps distinct service ids to items of the heap with that id, where
  \<open>ids\<close> are the ids of the heap.  \<open>service_ok n sv\<close>: provider and listeners are among the \<open>n\<close> clients,
  and a listener is filed under its client id.
\<close>

definition refs_ok :: "u32 list \<Rightarrow> (u32 \<times> sref) list \<Rightarrow> bool" where
  "refs_ok ids m \<longleftrightarrow> distinct (map fst m) \<and> (\<forall>(k, s)\<in>set m. s < length ids \<and> ids ! s = k)"

definition service_ok :: "nat \<Rightarrow> local_service_item \<Rightarrow> bool" where
  "service_ok n sv \<longleftrightarrow> (\<forall>c. service_provider sv = Some c \<longrightarrow> c < n) \<and>
     distinct (map fst (service_listeners sv)) \<and>
     (\<forall>(k, l)\<in>set (service_listeners sv). l < n \<and> k = of_nat (l + 1))"

definition names_ok :: "local_client list \<Rightarrow> (string \<times> cref) list \<Rightarrow> bool" where
  "names_ok cls m \<longleftrightarrow> distinct (map fst m) \<and>
     (\<forall>(n, c)\<in>set m. c < length cls \<and> client_name (cls ! c) = n) \<and> snd ` set m = {..<length cls}"

text \<open>
  The channels of clients are those not opened by the control tool.  An online client has one of
  them, and no two clients have the same channel.
\<close>

definition user_channels :: "(u32 \<times> string) list \<Rightarrow> u32 set" where
  "user_channels chs = fst ` set (filter (\<lambda>p. \<not> strstr (snd p) LOCAL_REGISTRY_CTRL_SOCKET_FILE) chs)"

definition channels_ok :: "local_client list \<Rightarrow> (u32 \<times> string) list \<Rightarrow> bool" where
  "channels_ok cls chs \<longleftrightarrow> distinct (map fst chs) \<and> distinct (map client_channel_id cls) \<and>
     (\<forall>cl\<in>set cls. client_status cl = LOCAL_CLIENT_STATUS_ONLINE \<longrightarrow> client_channel_id cl \<in> user_channels chs)"

definition reg_inv :: "registry \<Rightarrow> bool" where
  "reg_inv st \<longleftrightarrow>
     names_ok (client_heap st) (m_clients_by_name st) \<and>
     map client_id (client_heap st) = map (\<lambda>c. of_nat (c + 1)) [0..<length (client_heap st)] \<and>
     m_next_client_id st = of_nat (length (client_heap st) + 1) \<and>
     refs_ok (map service_id (service_heap st)) (m_services st) \<and>
     (\<forall>cl\<in>set (client_heap st). refs_ok (map service_id (service_heap st)) (client_produce_services cl)) \<and>
     (\<forall>sv\<in>set (service_heap st). service_ok (length (client_heap st)) sv) \<and>
     channels_ok (client_heap st) (m_channels st)"

lemma reg_inv_traffic [simp]: "reg_inv (traffic q w st) = reg_inv st"
  by (simp add: reg_inv_def)

lemma reg_inv_sends: "only_sends st st' \<Longrightarrow> reg_inv st' = reg_inv st"
  by (auto simp: only_sends_def)

lemma reg_inv_init: "reg_inv reg_init"
  by (simp add: reg_inv_def reg_init_def names_ok_def refs_ok_def channels_ok_def)

lemma refs_ok_more: "refs_ok ids m \<Longrightarrow> refs_ok (ids @ xs) m"
  by (auto simp: refs_ok_def nth_append)

lemma service_ok_more: "service_ok n sv \<Longrightarrow> service_ok (Suc n) sv"
  by (fastforce simp: service_ok_def)

lemma refs_ok_insert:
  "\<lbrakk>env_ok E; refs_ok ids m; s < length ids; ids ! s = k\<rbrakk> \<Longrightarrow> refs_ok ids (umap_insert (ord_id E) k s m)"
  by (auto simp: refs_ok_def umap_insert_def env_okD map_of_eq_None_iff)

lemma refs_ok_erase: "refs_ok ids m \<Longrightarrow> refs_ok ids (umap_erase k m)"
  by (auto simp: refs_ok_def umap_erase_def distinct_map_filter)

lemma refs_ok_find: "\<lbrakk>refs_ok ids m; map_of m k = Some s\<rbrakk> \<Longrightarrow> s < length ids \<and> ids ! s = k"
  by (auto simp: refs_ok_def dest!: map_of_SomeD)

lemma names_find:
  "\<lbrakk>names_ok cls m; map_of m n = Some c\<rbrakk> \<Longrightarrow> c < length cls \<and> client_name (cls ! c) = n"
  by (auto simp: names_ok_def dest!: map_of_SomeD)

section \<open>Every step keeps the invariant\<close>

lemma upd_client_inv:
  assumes I: "reg_inv st" and c: "c < length (client_heap st)"
    and "client_id (f (client_at st c)) = client_id (client_at st c)"
    and "client_name (f (client_at st c)) = client_name (client_at st c)"
    and "client_channel_id (f (client_at st c)) = client_channel_id (client_at st c)"
    and "client_status (f (client_at st c)) = LOCAL_CLIENT_STATUS_ONLINE \<Longrightarrow>
      client_status (client_at st c) = LOCAL_CLIENT_STATUS_ONLINE"
    and "refs_ok (map service_id (service_heap st)) (client_produce_services (f (client_at st c)))"
  shows "reg_inv (upd_client c f st)"
proof -
  let ?cls = "(client_heap st)[c := f (client_at st c)]"
  have m: "map client_id ?cls = map client_id (client_heap st)"
    "map client_channel_id ?cls = map client_channel_id (client_heap st)"
    using assms by (simp_all add: map_update list_update_same_conv)
  have "names_ok ?cls (m_clients_by_name st)"
    using I assms(4) c by (fastforce simp: reg_inv_def names_ok_def nth_list_update)
  moreover have "channels_ok ?cls (m_channels st)"
    using I assms(5,6) c unfolding reg_inv_def channels_ok_def m
    by (auto dest!: set_update_subset_insert [THEN subsetD])
  ultimately show ?thesis
    using I assms(7) c m(1) by (auto simp: reg_inv_def upd_client_def dest!: set_update_subset_insert [THEN subsetD])
qed

lemma upd_service_inv:
  assumes I: "reg_inv st" and s: "s < length (service_heap st)"
    and "service_id (f (service_at st s)) = service_id (service_at st s)"
    and "service_ok (length (client_heap st)) (f (service_at st s))"
  shows "reg_inv (upd_service s f st)"
proof -
  have "map service_id ((service_heap st)[s := f (service_at st s)]) = map service_id (service_heap st)"
    using assms by (simp add: map_update list_update_same_conv)
  then show ?thesis
    using I assms(4) by (auto simp: reg_inv_def upd_service_def dest!: set_update_subset_insert [THEN subsetD])
qed

lemma new_service_inv:
  assumes E: "env_ok E" and I: "reg_inv st" and k: "k = service_id sv"
    and ok: "service_ok (length (client_heap st)) sv"
  shows "reg_inv (st\<lparr>service_heap := service_heap st @ [sv],
    m_services := umap_insert (ord_id E) k (length (service_heap st)) (m_services st)\<rparr>)"
proof -
  have "refs_ok (map service_id (service_heap st @ [sv]))
      (umap_insert (ord_id E) k (length (service_heap st)) (m_services st))"
    using I by (intro refs_ok_insert [OF E]) (auto simp: reg_inv_def k nth_append refs_ok_more)
  then show ?thesis using I ok by (auto simp: reg_inv_def refs_ok_more)
qed

lemma find_service:
  assumes "reg_inv st" and "map_of (m_services st) k = Some s"
  shows "s < length (service_heap st)" "service_id (service_at st s) = k" "service_ok (length (client_heap st)) (service_at st s)"
  using assms refs_ok_find [of "map service_id (service_heap st)" "m_services st" k s] by (auto simp: reg_inv_def)

lemma find_client:
  assumes "reg_inv st" and "map_of (m_clients_by_name st) n = Some c"
  shows "c < length (client_heap st)" "client_name (client_at st c) = n"
    "refs_ok (map service_id (service_heap st)) (client_produce_services (client_at st c))"
  using assms names_find [of "client_heap st" "m_clients_by_name st" n c] by (auto simp: reg_inv_def)

lemma client_id_at: "\<lbrakk>reg_inv st; c < length (client_heap st)\<rbrakk> \<Longrightarrow> client_id (client_at st c) = of_nat (c + 1)"
  unfolding reg_inv_def by (metis (no_types, lifting) add_0 diff_zero length_map length_upt nth_map nth_upt)

lemma enter_service_inv:
  assumes E: "env_ok E" and I: "reg_inv st" and c: "c < length (client_heap st)"
    and e: "enter_service E c msg st = (s, st')"
  shows "reg_inv st'" "s < length (service_heap st')" "length (client_heap st') = length (client_heap st)"
proof -
  define st1 where "st1 = (case map_of (m_services st) (si_id msg) of
      None \<Rightarrow> st\<lparr>service_heap := service_heap st @
          [\<lparr>service_id = si_id msg, service_type = si_type msg, service_status = LOCAL_SERVICE_STATUS_AVAILABLE,
            service_provider = Some c, service_listeners = []\<rparr>],
        m_services := umap_insert (ord_id E) (si_id msg) (length (service_heap st)) (m_services st)\<rparr>
    | Some s \<Rightarrow> upd_service s (\<lambda>sv. sv\<lparr>service_id := si_id msg, service_type := si_type msg,
        service_status := LOCAL_SERVICE_STATUS_AVAILABLE, service_provider := Some c\<rparr>) st)"
  have st': "st' = upd_client c (\<lambda>cl. cl\<lparr>client_produce_services :=
      umap_insert (ord_id E) (si_id msg) s (client_produce_services cl)\<rparr>) st1"
    and s: "s = (case map_of (m_services st) (si_id msg) of None \<Rightarrow> length (service_heap st) | Some s \<Rightarrow> s)"
    using e by (auto simp: enter_service_def st1_def split: option.splits)
  have h: "client_heap st1 = client_heap st" by (simp add: st1_def upd_service_def split: option.split)
  have st1: "reg_inv st1 \<and> s < length (service_heap st1) \<and> service_id (service_at st1 s) = si_id msg"
  proof (cases "map_of (m_services st) (si_id msg)")
    case None
    with E I c s show ?thesis by (auto simp: st1_def service_ok_def intro!: new_service_inv)
  next
    case (Some s')
    from find_service [OF I Some] I Some c s show ?thesis
      by (auto simp: st1_def upd_service_def [of s'] service_ok_def
          intro!: upd_service_inv [unfolded upd_service_def])
  qed
  then show "s < length (service_heap st')" "length (client_heap st') = length (client_heap st)"
    by (simp_all add: st' upd_client_def h)
  show "reg_inv st'" unfolding st'
    using st1 c h by (intro upd_client_inv) (auto simp: reg_inv_def intro!: refs_ok_insert [OF E])
qed

lemma register_one_inv:
  assumes E: "env_ok E" and I: "reg_inv st" and c: "c < length (client_heap st)"
    and r: "register_one E c msg st = Some st'"
  shows "reg_inv st'" "length (client_heap st') = length (client_heap st)"
proof -
  obtain s st1 where e: "enter_service E c msg st = (s, st1)" by (cases "enter_service E c msg st")
  note e' = enter_service_inv [OF E I c e]
  have "only_sends st1 st'"
    using r by (auto simp: register_one_def e Let_def split: option.splits if_splits
        intro: only_sends_refl notify_all_traffic notify_traffic only_sends_trans [OF notify_traffic])
  with e' show "reg_inv st'" "length (client_heap st') = length (client_heap st)"
    by (simp_all add: reg_inv_sends only_sendsD)
qed

lemma unregister_one_inv:
  assumes I: "reg_inv st" and c: "c < length (client_heap st)" and r: "unregister_one E c msg st = Some st'"
  shows "reg_inv st'" "length (client_heap st') = length (client_heap st)"
proof -
  define st1 where "st1 = st\<lparr>m_services := umap_erase (si_id msg) (m_services st)\<rparr>"
  define st2 where "st2 = upd_client c (\<lambda>cl. cl\<lparr>client_produce_services :=
    umap_erase (si_id msg) (client_produce_services cl)\<rparr>) st1"
  have I1: "reg_inv st1" using I by (simp add: reg_inv_def st1_def refs_ok_erase)
  then have I2: "reg_inv st2" unfolding st2_def using c
    by (intro upd_client_inv) (auto simp: st1_def reg_inv_def refs_ok_erase)
  have "st' = st \<or> st' = st1 \<or> only_sends st2 st'"
    using r by (auto simp: unregister_one_def st1_def st2_def Let_def split: option.splits if_splits
        intro: only_sends_refl notify_all_traffic)
  with I I1 I2 show "reg_inv st'" "length (client_heap st') = length (client_heap st)"
    by (auto simp: reg_inv_sends only_sendsD st1_def st2_def upd_client_def)
qed

lemma find_or_new_inv:
  assumes E: "env_ok E" and I: "reg_inv st" and e: "find_or_new_service E msg st = (s, st')"
  shows "reg_inv st' \<and> s < length (service_heap st') \<and> client_heap st' = client_heap st"
proof (cases "map_of (m_services st) (si_id msg)")
  case None
  then have st': "s = length (service_heap st)"
    "st' = st\<lparr>service_heap := service_heap st @
      [\<lparr>service_id = si_id msg, service_type = si_type msg, service_status = LOCAL_SERVICE_STATUS_DEFAULT,
        service_provider = None, service_listeners = []\<rparr>],
      m_services := umap_insert (ord_id E) (si_id msg) (length (service_heap st)) (m_services st)\<rparr>"
    using e by (auto simp: find_or_new_service_def)
  have "reg_inv st'" unfolding st'(2) using E I by (intro new_service_inv) (auto simp: service_ok_def)
  then show ?thesis using st' by simp
next
  case (Some s')
  with e I find_service [OF I Some] show ?thesis
    by (auto simp: find_or_new_service_def)
qed

lemma service_ok_listen:
  assumes "env_ok E" and "service_ok n sv" and "c < n"
  shows "service_ok n (sv\<lparr>service_listeners := umap_insert (ord_id E) (of_nat (c + 1)) c (service_listeners sv)\<rparr>)"
  using assms by (auto simp: service_ok_def umap_insert_def env_okD map_of_eq_None_iff)

lemma service_ok_cancel:
  "service_ok n sv \<Longrightarrow> service_ok n (sv\<lparr>service_listeners := umap_erase k (service_listeners sv)\<rparr>)"
  by (auto simp: service_ok_def umap_erase_def distinct_map_filter)

lemma service_ok_at: "\<lbrakk>reg_inv st; s < length (service_heap st)\<rbrakk> \<Longrightarrow> service_ok (length (client_heap st)) (service_at st s)"
  by (simp add: reg_inv_def)

lemma listen_or_cancel_inv:
  assumes E: "env_ok E" and I: "reg_inv st" and c: "c < length (client_heap st)" and s: "s < length (service_heap st)"
    and r: "listen_or_cancel E c reg s st = Some st'"
  shows "reg_inv st'" "length (client_heap st') = length (client_heap st)"
proof -
  define f :: "local_service_item \<Rightarrow> local_service_item" where "f = (\<lambda>sv. sv\<lparr>service_listeners := if reg
    then umap_insert (ord_id E) (client_id (client_at st c)) c (service_listeners sv)
    else umap_erase (client_id (client_at st c)) (service_listeners sv)\<rparr>)"
  have I1: "reg_inv (upd_service s f st)"
    using service_ok_listen [OF E service_ok_at [OF I s] c] service_ok_cancel [OF service_ok_at [OF I s]] client_id_at [OF I c]
    by (intro upd_service_inv I s) (simp_all add: f_def)
  have "only_sends (upd_service s f st) st' \<or> only_sends st st'"
    using r by (auto simp: listen_or_cancel_def f_def Let_def split: if_splits intro: notify_traffic only_sends_refl)
  with I I1 show "reg_inv st'" "length (client_heap st') = length (client_heap st)"
    by (auto simp: reg_inv_sends only_sendsD upd_service_def)
qed

lemma listen_one_inv:
  assumes E: "env_ok E" and I: "reg_inv st" and c: "c < length (client_heap st)"
    and r: "listen_one E c reg msg st = Some st'"
  shows "reg_inv st'" "length (client_heap st') = length (client_heap st)"
proof -
  obtain s st1 where e: "find_or_new_service E msg st = (s, st1)" by (cases "find_or_new_service E msg st")
  have e': "reg_inv st1" "s < length (service_heap st1)" "client_heap st1 = client_heap st"
    using find_or_new_inv [OF E I e] by simp_all
  from r obtain st2 where l: "listen_or_cancel E c reg s st1 = Some st2" and o: "only_sends st2 st'"
    by (auto simp: listen_one_def e split: option.splits intro: only_sends_refl notify_traffic)
  from listen_or_cancel_inv [OF E e'(1) _ e'(2) l] c e'(3) o
  show "reg_inv st'" "length (client_heap st') = length (client_heap st)"
    by (simp_all add: reg_inv_sends only_sendsD)
qed

lemma set_status_one_inv:
  assumes I: "reg_inv st" and r: "set_status_one E msg st = Some st'"
  shows "reg_inv st'" "length (client_heap st') = length (client_heap st)"
proof -
  have "only_sends st st' \<or> (\<exists>s. map_of (m_services st) (si_id msg) = Some s \<and>
      only_sends (upd_service s (\<lambda>sv. sv\<lparr>service_status := si_status msg\<rparr>) st) st')"
    using r by (auto simp: set_status_one_def Let_def split: option.splits if_splits
        intro: only_sends_refl notify_all_traffic)
  then show "reg_inv st'"
    using I find_service [OF I]
    by (auto simp: reg_inv_sends service_ok_def intro!: upd_service_inv)
  show "length (client_heap st') = length (client_heap st)"
    using \<open>only_sends st st' \<or> _\<close> by (auto simp: only_sendsD upd_service_def)
qed

lemma each_keeps:
  assumes "each f xs st = Some st'" and "reg_inv st"
    and "\<And>x s s'. \<lbrakk>reg_inv s; length (client_heap s) = length (client_heap st); f x s = Some s'\<rbrakk> \<Longrightarrow>
      reg_inv s' \<and> length (client_heap s') = length (client_heap s)"
  shows "reg_inv st'"
  using assms
proof (induction f xs st rule: each.induct)
  case (2 f x xs st)
  from 2(2) obtain s1 where s1: "f x st = Some s1" "each f xs s1 = Some st'" by (auto split: option.splits)
  have k: "reg_inv s1 \<and> length (client_heap s1) = length (client_heap st)"
    by (rule 2(4) [OF 2(3) _ s1(1)]) simp
  show ?case
  proof (rule 2(1) [OF s1])
    fix y s s' assume "reg_inv s" "length (client_heap s) = length (client_heap s1)" "f y s = Some s'"
    then show "reg_inv s' \<and> length (client_heap s') = length (client_heap s)"
      by (intro 2(4)) (simp_all add: k)
  qed (simp add: k)
qed simp

lemma remove_services_inv:
  assumes "remove_services E ss st = Some st'" and "reg_inv st" and "\<forall>s\<in>set ss. s < length (service_heap st)"
  shows "reg_inv st' \<and> client_heap st' = client_heap st \<and> m_channels st' = m_channels st"
  using assms
proof (induction E ss st rule: remove_services.induct)
  case (2 E s ss st)
  then obtain st1 where r: "remove_service E s st = Some st1" and rs: "remove_services E ss st1 = Some st'"
    by (auto split: option.splits)
  from r obtain st0 where o: "only_sends st st0"
    and st1: "st1 = upd_service s (\<lambda>sv. sv\<lparr>service_status := LOCAL_SERVICE_STATUS_DEFAULT\<rparr>) st0"
    by (auto simp: remove_service_def Let_def split: option.splits intro: notify_all_traffic)
  have "reg_inv st1" unfolding st1
    using 2(3,4) o service_ok_at [OF 2(3), of s]
    by (intro upd_service_inv) (auto simp: reg_inv_sends only_sendsD service_ok_def)
  with 2(1) [OF r rs] 2(4) o show ?case by (simp add: st1 upd_service_def only_sendsD)
qed simp

lemma produce_at:
  "\<lbrakk>reg_inv st; c < length (client_heap st)\<rbrakk> \<Longrightarrow>
   refs_ok (map service_id (service_heap st)) (client_produce_services (client_at st c))"
  by (simp add: reg_inv_def)

lemma find_SomeD: "List.find Q xs = Some x \<Longrightarrow> x \<in> set xs \<and> Q x"
  by (auto simp: find_Some_iff)

lemma find_entry:
  assumes "reg_inv st" and "List.find Q (m_clients_by_name st) = Some (n, c)"
  shows "c < length (client_heap st)"
  using find_SomeD [OF assms(2)] assms(1) by (auto simp: reg_inv_def names_ok_def)

lemma remove_client_inv:
  assumes I: "reg_inv st" and r: "remove_client E i st = Some st'"
  shows "reg_inv st' \<and> m_channels st' = m_channels st \<and>
    (\<forall>cl\<in>set (client_heap st'). client_channel_id cl = i \<longrightarrow> client_status cl \<noteq> LOCAL_CLIENT_STATUS_ONLINE)"
proof (cases "List.find (\<lambda>(_, c). i = client_channel_id (client_at st c)) (m_clients_by_name st)")
  case None
  have "snd ` set (m_clients_by_name st) = {..<length (client_heap st)}"
    using I by (simp add: reg_inv_def names_ok_def)
  moreover have "\<forall>c\<in>snd ` set (m_clients_by_name st). i \<noteq> client_channel_id (client_at st c)"
    using None by (force simp: find_None_iff)
  ultimately have "\<forall>c<length (client_heap st). i \<noteq> client_channel_id (client_at st c)" by simp
  with None r I show ?thesis by (auto simp: remove_client_def in_set_conv_nth)
next
  case (Some p)
  obtain n c where p: "p = (n, c)" by (cases p)
  define st1 where "st1 = upd_client c (\<lambda>cl. cl\<lparr>client_status := LOCAL_CLIENT_STATUS_OFFLINE\<rparr>) st"
  have c: "c < length (client_heap st)" "client_channel_id (client_at st c) = i"
    using find_entry [OF I Some [unfolded p]] Some p by (auto simp: find_Some_iff)
  have I1: "reg_inv st1" unfolding st1_def using I c by (intro upd_client_inv) (auto simp: reg_inv_def)
  have rs: "remove_services E (map snd (client_produce_services (client_at st1 c))) st1 = Some st'"
    using r Some by (simp add: remove_client_def p st1_def Let_def)
  moreover have "\<forall>s\<in>set (map snd (client_produce_services (client_at st1 c))). s < length (service_heap st1)"
    using produce_at [OF I c(1)] c(1) by (auto simp: st1_def upd_client_def refs_ok_def)
  ultimately have "reg_inv st' \<and> client_heap st' = client_heap st1 \<and> m_channels st' = m_channels st1"
    using I1 by (intro remove_services_inv)
  moreover have "client_status (client_at st1 k) \<noteq> LOCAL_CLIENT_STATUS_ONLINE"
    if "k < length (client_heap st)" "client_channel_id (client_at st1 k) = i" for k
  proof -
    have "k = c" using that c I nth_eq_iff_index_eq [of "map client_channel_id (client_heap st)" k c]
      by (auto simp: reg_inv_def channels_ok_def st1_def upd_client_def nth_list_update split: if_splits)
    with c show ?thesis by (simp add: st1_def upd_client_def)
  qed
  moreover have "length (client_heap st1) = length (client_heap st)" by (simp add: st1_def upd_client_def)
  ultimately show ?thesis by (auto simp: in_set_conv_nth) (simp add: st1_def upd_client_def)
qed

text \<open>The server gives a new channel an id that no open channel and no known client has.\<close>

definition event_ok :: "registry \<Rightarrow> reg_event \<Rightarrow> bool" where
  "event_ok st ev = (case ev of
     Connect i addr \<Rightarrow> i \<notin> fst ` set (m_channels st) \<and> i \<notin> client_channel_id ` set (client_heap st)
   | _ \<Rightarrow> True)"

lemma names_ok_add:
  assumes "env_ok E" and "names_ok cls m" and "map_of m n = None" and "client_name cl = n"
  shows "names_ok (cls @ [cl]) (umap_insert (ord_name E) n (length cls) m)"
proof -
  have "\<forall>(k, c)\<in>set m. c < length (cls @ [cl]) \<and> client_name ((cls @ [cl]) ! c) = k"
    using assms(2) by (auto simp: names_ok_def nth_append)
  then show ?thesis using assms
    by (auto simp: names_ok_def umap_insert_def env_okD map_of_eq_None_iff less_Suc_eq lessThan_Suc)
qed

lemma channels_ok_join:
  assumes "channels_ok cls chs" and "i \<in> user_channels chs" and "i \<notin> client_channel_id ` set cls"
    and "client_channel_id cl = i"
  shows "channels_ok (cls[c := cl]) chs" "channels_ok (cls @ [cl]) chs"
proof -
  have "distinct ((map client_channel_id cls)[c := i])"
    using assms by (intro distinct_list_update) (auto simp: channels_ok_def)
  then show "channels_ok (cls[c := cl]) chs" "channels_ok (cls @ [cl]) chs"
    using assms set_update_subset_insert [of cls c cl] unfolding channels_ok_def
    by (auto simp: map_update)
qed

lemma add_client_cases:
  assumes "add_client E i addr st = Some (v, st')"
  obtains (same) "st' = st"
    | (old) c n pid where "map_of (m_clients_by_name st) n = Some c"
        "st' = upd_client c (\<lambda>cl. cl\<lparr>client_pid := pid, client_channel_id := i, client_name := n,
           client_localaddr := addr, client_status := LOCAL_CLIENT_STATUS_ONLINE\<rparr>) st"
    | (new) n pid where "map_of (m_clients_by_name st) n = None"
        "st' = st\<lparr>client_heap := client_heap st @ [\<lparr>client_id = m_next_client_id st, client_pid = pid,
           client_channel_id = i, client_name = n, client_localaddr = addr,
           client_status = LOCAL_CLIENT_STATUS_ONLINE, client_produce_services = []\<rparr>],
           m_next_client_id := m_next_client_id st + 1,
           m_clients_by_name := umap_insert (ord_name E) n (length (client_heap st)) (m_clients_by_name st)\<rparr>"
proof (cases "parse_localaddr addr")
  case None
  with assms same show ?thesis by (simp add: add_client_def)
next
  case (Some p)
  obtain ps n where p: "p = (ps, n)" by (cases p)
  with Some assms obtain pid where pid: "stoi ps = Some pid" by (auto simp: add_client_def split: option.splits)
  show ?thesis
  proof (cases "map_of (m_clients_by_name st) n")
    case None
    show ?thesis by (rule new [OF None, of pid]) (use assms Some p pid None in \<open>simp add: add_client_def\<close>)
  next
    case (Some c)
    show ?thesis
    proof (cases "getChannelById st (client_channel_id (client_at st c)) \<noteq> None")
      case True
      with assms \<open>parse_localaddr addr = Some p\<close> p pid Some same show ?thesis by (simp add: add_client_def)
    next
      case False
      show ?thesis
        by (rule old [OF Some, of pid])
          (use assms \<open>parse_localaddr addr = Some p\<close> p pid Some False in \<open>simp add: add_client_def\<close>)
    qed
  qed
qed

lemma add_client_inv:
  assumes E: "env_ok E" and I: "reg_inv st"
    and i: "i \<in> user_channels (m_channels st)" "i \<notin> client_channel_id ` set (client_heap st)"
    and r: "add_client E i addr st = Some (v, st')"
  shows "reg_inv st'"
proof -
  have ch: "channels_ok (client_heap st) (m_channels st)" using I by (simp add: reg_inv_def)
  show ?thesis
  using r
  proof (cases rule: add_client_cases)
    case (old c n pid)
    let ?cl = "(client_at st c)\<lparr>client_pid := pid, client_channel_id := i, client_name := n,
           client_localaddr := addr, client_status := LOCAL_CLIENT_STATUS_ONLINE\<rparr>"
    note c = find_client [OF I old(1)]
    have "map client_id ((client_heap st)[c := ?cl]) = map client_id (client_heap st)"
      using c by (simp add: map_update list_update_same_conv)
    moreover have "names_ok ((client_heap st)[c := ?cl]) (m_clients_by_name st)"
      using I c by (fastforce simp: reg_inv_def names_ok_def nth_list_update)
    moreover have "channels_ok ((client_heap st)[c := ?cl]) (m_channels st)"
      by (rule channels_ok_join(1) [OF ch i]) simp
    ultimately show ?thesis using I c unfolding old(2)
      by (auto simp: reg_inv_def upd_client_def dest!: set_update_subset_insert [THEN subsetD])
  next
    case (new n pid)
    have "names_ok (client_heap st') (m_clients_by_name st')"
      unfolding new(2) using I new(1) by (simp add: reg_inv_def names_ok_add [OF E])
    moreover have "channels_ok (client_heap st') (m_channels st')"
      unfolding new(2) using channels_ok_join(2) [OF ch i] by simp
    moreover have "\<forall>sv\<in>set (service_heap st). service_ok (Suc (length (client_heap st))) sv"
      using I by (simp add: reg_inv_def service_ok_more)
    moreover have "refs_ok ids []" for ids by (simp add: refs_ok_def)
    ultimately show ?thesis using I unfolding new(2) by (simp add: reg_inv_def)
  qed (use I in simp)
qed

lemma addChannel_fresh:
  assumes "i \<notin> fst ` set (m_channels st)"
  shows "addChannel i addr st = st\<lparr>m_channels := (i, addr) # m_channels st\<rparr>"
proof -
  have "filter (\<lambda>p. fst p \<noteq> i) (m_channels st) = m_channels st"
    using assms by (intro filter_True) auto
  then show ?thesis by (simp add: addChannel_def)
qed

lemma channels_ok_open:
  "\<lbrakk>channels_ok cls chs; i \<notin> fst ` set chs\<rbrakk> \<Longrightarrow> channels_ok cls ((i, addr) # chs)"
  by (simp add: channels_ok_def user_channels_def)

lemma newConnEvent_inv:
  assumes E: "env_ok E" and I: "reg_inv st" and ok: "event_ok st (Connect i addr)"
    and r: "newConnEvent E i addr st = Some st'"
  shows "reg_inv st'"
proof -
  define st1 where "st1 = st\<lparr>m_channels := (i, addr) # m_channels st\<rparr>"
  have i: "i \<notin> fst ` set (m_channels st)" "i \<notin> client_channel_id ` set (client_heap st1)"
    using ok by (simp_all add: event_ok_def st1_def)
  have I1: "reg_inv st1"
    using I channels_ok_open [OF _ i(1)] by (simp add: reg_inv_def st1_def)
  have r1: "onConnection E True i addr st1 = Some st'"
    using r addChannel_fresh [OF i(1)] by (simp add: newConnEvent_def st1_def)
  show ?thesis
  proof (cases "strstr addr LOCAL_REGISTRY_CTRL_SOCKET_FILE")
    case True
    with r1 I1 show ?thesis by (simp add: onConnection_def)
  next
    case False
    then have "i \<in> user_channels (m_channels st1)" by (simp add: user_channels_def st1_def)
    moreover obtain v where "add_client E i addr st1 = Some (v, st')"
      using False r1 by (auto simp: onConnection_def)
    ultimately show ?thesis using i(2) by (intro add_client_inv [OF E I1])
  qed
qed

lemma channels_ok_close:
  assumes "channels_ok cls chs" and "i \<in> user_channels chs \<Longrightarrow>
    \<forall>cl\<in>set cls. client_channel_id cl = i \<longrightarrow> client_status cl \<noteq> LOCAL_CLIENT_STATUS_ONLINE"
  shows "channels_ok cls (filter (\<lambda>p. fst p \<noteq> i) chs)"
proof -
  have "user_channels (filter (\<lambda>p. fst p \<noteq> i) chs) = user_channels chs - {i}"
    by (auto simp: user_channels_def)
  then show ?thesis using assms by (auto simp: channels_ok_def distinct_map_filter)
qed

lemma onclose_inv:
  assumes I: "reg_inv st" and r: "onclose E i st = Some st'"
  shows "reg_inv st'"
proof (cases "map_of (m_channels st) i")
  case None
  with r I show ?thesis by (simp add: onclose_def)
next
  case (Some addr)
  then obtain st1 where st1: "onConnection E False i addr st = Some st1" "st' = removeChannel i st1"
    using r by (auto simp: onclose_def)
  have d: "distinct (map fst (m_channels st))" using I by (simp add: reg_inv_def channels_ok_def)
  have "reg_inv st1 \<and> m_channels st1 = m_channels st \<and> (i \<in> user_channels (m_channels st) \<longrightarrow>
      (\<forall>cl\<in>set (client_heap st1). client_channel_id cl = i \<longrightarrow> client_status cl \<noteq> LOCAL_CLIENT_STATUS_ONLINE))"
  proof (cases "strstr addr LOCAL_REGISTRY_CTRL_SOCKET_FILE")
    case True
    then have "i \<notin> user_channels (m_channels st)"
      using Some eq_key_imp_eq_value [OF d, of i addr] by (auto simp: user_channels_def dest!: map_of_SomeD)
    with True st1 I show ?thesis by (simp add: onConnection_def)
  next
    case False
    with st1(1) have "remove_client E i st = Some st1" by (simp add: onConnection_def)
    from remove_client_inv [OF I this] show ?thesis by simp
  qed
  then show ?thesis unfolding st1(2) reg_inv_def removeChannel_def by (auto intro!: channels_ok_close)
qed

lemma register_service_inv:
  assumes E: "env_ok E" and I: "reg_inv st" and r: "register_service E svs prov reg st = Some (v, st')"
  shows "reg_inv st'"
proof (cases "st' = st")
  case False
  then obtain n c where c: "map_of (m_clients_by_name st) n = Some c"
    and e: "(if reg then each (register_one E c) svs st else each (unregister_one E c) svs st) = Some st'"
    using r by (auto simp: register_service_def split: option.splits if_splits)
  note c = find_client(1) [OF I c]
  show ?thesis
  proof (cases reg)
    case True
    with e have e': "each (register_one E c) svs st = Some st'" by simp
    show ?thesis
    proof (rule each_keeps [OF e' I])
      fix x s s' assume s: "reg_inv s" "length (client_heap s) = length (client_heap st)" "register_one E c x s = Some s'"
      have c': "c < length (client_heap s)" using c s(2) by simp
      show "reg_inv s' \<and> length (client_heap s') = length (client_heap s)" using register_one_inv [OF E s(1) c' s(3)] by simp
    qed
  next
    case False
    with e have e': "each (unregister_one E c) svs st = Some st'" by simp
    show ?thesis
    proof (rule each_keeps [OF e' I])
      fix x s s' assume s: "reg_inv s" "length (client_heap s) = length (client_heap st)" "unregister_one E c x s = Some s'"
      have c': "c < length (client_heap s)" using c s(2) by simp
      show "reg_inv s' \<and> length (client_heap s') = length (client_heap s)" using unregister_one_inv [OF s(1) c' s(3)] by simp
    qed
  qed
qed (use I in simp)

lemma listen_service_inv:
  assumes E: "env_ok E" and I: "reg_inv st" and r: "listen_service E svs l reg st = Some (v, st')"
  shows "reg_inv st'"
proof (cases "st' = st")
  case False
  then obtain n c where c: "map_of (m_clients_by_name st) n = Some c"
    and e: "each (listen_one E c reg) svs st = Some st'"
    using r by (auto simp: listen_service_def split: option.splits if_splits)
  show ?thesis
  proof (rule each_keeps [OF e I])
    fix x s s' assume s: "reg_inv s" "length (client_heap s) = length (client_heap st)" "listen_one E c reg x s = Some s'"
    have c': "c < length (client_heap s)" using find_client(1) [OF I c] s(2) by simp
    show "reg_inv s' \<and> length (client_heap s') = length (client_heap s)" using listen_one_inv [OF E s(1) c' s(3)] by simp
  qed
qed (use I in simp)

lemma service_set_status_inv:
  assumes I: "reg_inv st" and r: "service_set_status E svs l st = Some (v, st')"
  shows "reg_inv st'"
proof (cases "st' = st")
  case False
  then have e: "each (set_status_one E) svs st = Some st'"
    using r by (auto simp: service_set_status_def split: option.splits if_splits)
  show ?thesis
  proof (rule each_keeps [OF e I])
    fix x s s' assume s: "reg_inv s" "length (client_heap s) = length (client_heap st)" "set_status_one E x s = Some s'"
    show "reg_inv s' \<and> length (client_heap s') = length (client_heap s)" using set_status_one_inv [OF s(1,3)] by simp
  qed
qed (use I in simp)

lemma dispatch_inv:
  assumes E: "env_ok E" and I: "reg_inv st" and r: "dispatch E hdr req ch st = Some st'"
  shows "reg_inv st'"
proof (cases req)
  case (Register_Client_Req pid name)
  with r have "only_sends st st'"
    by (auto simp: dispatch_def register_client_def split: option.splits if_splits intro: reply_traffic)
  with I show ?thesis by (simp add: reg_inv_sends)
next
  case (Get_Client_Req cid)
  with r have "only_sends st st'"
    by (auto simp: dispatch_def get_client_def split: option.splits intro: reply_traffic)
  with I show ?thesis by (simp add: reg_inv_sends)
next
  case (Register_Service svs prov reg)
  with r show ?thesis by (auto simp: dispatch_def intro: register_service_inv [OF E I])
next
  case (Listen_Service svs l reg)
  with r show ?thesis by (auto simp: dispatch_def intro: listen_service_inv [OF E I])
next
  case (Get_Service_Req sid l)
  with r have "only_sends st st'"
    by (auto simp: dispatch_def get_service_def split: option.splits if_splits intro: reply_traffic only_sends_refl)
  with I show ?thesis by (simp add: reg_inv_sends)
next
  case (Service_Set_Status svs prov)
  with r show ?thesis by (auto simp: dispatch_def intro: service_set_status_inv [OF I])
next
  case Ctrl_Get_Clients_Req
  with r I show ?thesis by (auto simp: dispatch_def ctr_get_clients_def reg_inv_sends dest!: send_pages_traffic)
next
  case Ctrl_Get_Services_Req
  with r I show ?thesis by (auto simp: dispatch_def ctr_get_services_def reg_inv_sends dest!: send_pages_traffic)
qed

lemma onMessage_inv:
  assumes "env_ok E" and "reg_inv st" and "onMessage E P ch inbuf st = Some st'"
  shows "reg_inv st'"
  using assms dispatch_inv by (auto simp: onMessage_def Let_def split: if_splits option.splits)

lemma reg_step_inv:
  assumes "env_ok E" and "reg_inv st" and "event_ok st ev" and "reg_step E P ev st = Some st'"
  shows "reg_inv st'"
proof (cases ev)
  case (Connect i addr)
  with assms show ?thesis using newConnEvent_inv [OF assms(1,2), of i addr] by (simp add: reg_step_def)
next
  case (Close i)
  with assms show ?thesis using onclose_inv [OF assms(2), of E i] by (simp add: reg_step_def)
next
  case (Receive i inbuf)
  with assms show ?thesis using onMessage_inv [OF assms(1,2), of P "Some i" inbuf] by (simp add: reg_step_def)
qed

section \<open>Runs from the start\<close>

inductive reg_reach :: "reg_env \<Rightarrow> pb_env \<Rightarrow> registry \<Rightarrow> bool" for E P where
  start: "reg_reach E P reg_init"
| event: "\<lbrakk>reg_reach E P st; event_ok st ev; reg_step E P ev st = Some st'\<rbrakk> \<Longrightarrow> reg_reach E P st'"

lemma reg_reach_inv: "\<lbrakk>reg_reach E P st; env_ok E\<rbrakk> \<Longrightarrow> reg_inv st"
  by (induction rule: reg_reach.induct) (auto intro: reg_inv_init reg_step_inv)

section \<open>No undefined behaviour\<close>

text \<open>The requests and events the code handles without undefined behaviour or an uncaught exception.\<close>

definition request_safe :: "reg_env \<Rightarrow> registry \<Rightarrow> reg_req \<Rightarrow> bool" where
  "request_safe E st req = (case req of
     Register_Client_Req pid name \<Rightarrow> log_args E \<longrightarrow> map_of (m_clients_by_name st) name \<noteq> None
   | Register_Service svs prov reg \<Rightarrow> reg
   | _ \<Rightarrow> True)"

definition event_safe :: "reg_env \<Rightarrow> pb_env \<Rightarrow> registry \<Rightarrow> reg_event \<Rightarrow> bool" where
  "event_safe E P st ev = (case ev of
     Connect i addr \<Rightarrow> strstr addr LOCAL_REGISTRY_CTRL_SOCKET_FILE \<or>
       (case parse_localaddr addr of None \<Rightarrow> True | Some (pid_str, name) \<Rightarrow> stoi pid_str \<noteq> None)
   | Close i \<Rightarrow> True
   | Receive i inbuf \<Rightarrow> 20 \<le> length inbuf \<longrightarrow> of_nat (length inbuf - 20) = mh_len (parse_header inbuf) \<longrightarrow>
       (case decode_payload P (parse_header inbuf) (drop 20 inbuf) of
          None \<Rightarrow> False
        | Some None \<Rightarrow> True
        | Some (Some pstruct) \<Rightarrow>
            (case request_of P (mh_service_id (parse_header inbuf)) pstruct of
               None \<Rightarrow> True | Some req \<Rightarrow> request_safe E st req)))"

lemma listeners_bound:
  assumes "service_ok n sv"
  shows "length (service_listeners sv) \<le> n"
proof -
  have "set (map fst (service_listeners sv)) \<subseteq> (\<lambda>l. of_nat (l + 1)) ` {..<n}"
    using assms by (auto simp: service_ok_def)
  then have "card (set (map fst (service_listeners sv))) \<le> card {..<n}"
    by (meson card_image_le card_mono finite_imageI finite_lessThan order_trans)
  then show ?thesis using assms distinct_card [of "map fst (service_listeners sv)"] by (simp add: service_ok_def)
qed

lemma register_one_defined:
  assumes E: "env_ok E" and I: "reg_inv st" and c: "c < length (client_heap st)"
    and n: "length (client_heap st) \<le> ONCE_COUNT_MAX"
  shows "\<exists>st'. register_one E c msg st = Some st'"
proof -
  obtain s st1 where e: "enter_service E c msg st = (s, st1)" by (cases "enter_service E c msg st")
  note e' = enter_service_inv [OF E I c e]
  have "length (service_listeners (service_at st1 s)) \<le> ONCE_COUNT_MAX"
    using listeners_bound [OF service_ok_at [OF e'(1,2)]] e'(3) n by simp
  moreover obtain st2 where "notify E c EVENT_LISTENER_CHANGE_TO_PROVIDER
      (Listener_Change_To_Provider (service_id (service_at st1 s))
         (map (\<lambda>(_, l). client_item (client_at st1 l)) (service_listeners (service_at st1 s))) True) st1 = Some st2"
    using notify_defined [OF E] by blast
  ultimately show ?thesis using notify_all_defined [OF E] by (simp add: register_one_def e Let_def)
qed

lemma listen_one_defined:
  assumes E: "env_ok E" shows "\<exists>st'. listen_one E c reg msg st = Some st'"
proof -
  obtain s st1 where e: "find_or_new_service E msg st = (s, st1)" by (cases "find_or_new_service E msg st")
  have "\<exists>st2. listen_or_cancel E c reg s st1 = Some st2"
    using notify_defined [OF E] by (simp add: listen_or_cancel_def Let_def)
  then show ?thesis using notify_defined [OF E] by (auto simp: listen_one_def e split: option.split)
qed

lemma set_status_one_defined: "env_ok E \<Longrightarrow> \<exists>st'. set_status_one E msg st = Some st'"
  using notify_all_defined by (auto simp: set_status_one_def Let_def split: option.split)

lemma remove_service_defined: "env_ok E \<Longrightarrow> \<exists>st'. remove_service E s st = Some st'"
proof -
  assume E: "env_ok E"
  obtain st1 where "notify_all E EVENT_SERVICE_CHANGE_STATUS
      (map (\<lambda>(_, l). (l, Service_Change_Status \<lparr>si_id = service_id (service_at st s), si_type = service_type (service_at st s),
         si_status = LOCAL_SERVICE_STATUS_DEFAULT\<rparr> None)) (service_listeners (service_at st s))) st = Some st1"
    using notify_all_defined [OF E] by blast
  then show ?thesis by (simp add: remove_service_def Let_def)
qed

lemma remove_services_defined: "env_ok E \<Longrightarrow> \<exists>st'. remove_services E ss st = Some st'"
proof (induction ss arbitrary: st)
  case (Cons s ss)
  with remove_service_defined [OF Cons.prems, of s st] show ?case by auto
qed simp

lemma each_defined:
  assumes "\<And>x s. \<exists>s'. f x s = Some s'"
  shows "\<exists>st'. each f xs st = Some st'"
proof (induction xs arbitrary: st)
  case (Cons x xs)
  with assms [of x st] show ?case by auto
qed simp

lemma each_register_defined:
  assumes E: "env_ok E" and "reg_inv st" and "c < length (client_heap st)" and "length (client_heap st) \<le> ONCE_COUNT_MAX"
  shows "\<exists>st'. each (register_one E c) svs st = Some st'"
  using assms(2-)
proof (induction svs arbitrary: st)
  case (Cons x svs)
  obtain s1 where s1: "register_one E c x st = Some s1" using register_one_defined [OF E Cons.prems] by blast
  with register_one_inv [OF E Cons.prems(1,2) s1] Cons show ?case by simp
qed simp

lemma dispatch_defined:
  assumes E: "env_ok E" and I: "reg_inv st" and n: "length (client_heap st) \<le> ONCE_COUNT_MAX"
    and s: "request_safe E st req"
  shows "\<exists>st'. dispatch E hdr req ch st = Some st'"
proof (cases req)
  case (Register_Client_Req pid name)
  with s reply_defined [OF E] show ?thesis
    by (auto simp: dispatch_def register_client_def request_safe_def split: option.split)
next
  case (Get_Client_Req cid)
  with reply_defined [OF E] show ?thesis by (auto simp: dispatch_def get_client_def split: option.split)
next
  case (Register_Service svs prov reg)
  then have reg using s by (simp add: request_safe_def)
  have "\<exists>v st'. register_service E svs prov True st = Some (v, st')"
  proof (cases prov)
    case (Some p)
    then show ?thesis using each_register_defined [OF E I _ n] find_client(1) [OF I]
      by (auto simp: register_service_def split: option.split)
  qed (simp add: register_service_def)
  with Register_Service \<open>reg\<close> show ?thesis by (auto simp: dispatch_def)
next
  case (Listen_Service svs l reg)
  have "\<exists>v st'. listen_service E svs l reg st = Some (v, st')"
    using each_defined [of "listen_one E c reg" for c, OF listen_one_defined [OF E]]
    by (auto simp: listen_service_def split: option.split)
  with Listen_Service show ?thesis by (auto simp: dispatch_def)
next
  case (Get_Service_Req sid l)
  have "\<exists>v st'. get_service E hdr sid l st = Some (v, st')"
    using reply_defined [OF E] by (auto simp: get_service_def split: option.split)
  with Get_Service_Req show ?thesis by (auto simp: dispatch_def)
next
  case (Service_Set_Status svs prov)
  have "\<exists>v st'. service_set_status E svs prov st = Some (v, st')"
    using each_defined [of "set_status_one E", OF set_status_one_defined [OF E]]
    by (auto simp: service_set_status_def split: option.split)
  with Service_Set_Status show ?thesis by (auto simp: dispatch_def)
qed (use send_pages_defined [OF E] in \<open>auto simp: dispatch_def ctr_get_clients_def ctr_get_services_def\<close>)

lemma reg_step_defined:
  assumes E: "env_ok E" and I: "reg_inv st" and n: "length (client_heap st) \<le> ONCE_COUNT_MAX"
    and s: "event_safe E P st ev"
  shows "\<exists>st'. reg_step E P ev st = Some st'"
proof (cases ev)
  case (Connect i addr)
  with s show ?thesis
    by (auto simp: reg_step_def newConnEvent_def onConnection_def event_safe_def add_client_def split: option.splits)
next
  case (Close i)
  have "\<exists>st'. remove_client E i st = Some st'"
    using remove_services_defined [OF E] by (auto simp: remove_client_def Let_def split: option.split)
  with Close show ?thesis by (auto simp: reg_step_def onclose_def onConnection_def split: option.split)
next
  case (Receive i inbuf)
  with s dispatch_defined [OF E I n] show ?thesis
    by (auto simp: reg_step_def onMessage_def Let_def event_safe_def split: option.splits)
qed

section \<open>Registering and looking up\<close>

lemma map_of_insert:
  assumes E: "env_ok E" and d: "distinct (map fst m)"
  shows "map_of (umap_insert (ord_id E) k v m) = (if map_of m k = None then (map_of m)(k \<mapsto> v) else map_of m)"
proof (cases "map_of m k = None")
  case True
  then have "distinct (map fst ((k, v) # m))" using d by (auto simp: map_of_eq_None_iff)
  then have "map_of (ord_id E ((k, v) # m)) = map_of ((k, v) # m)"
    using map_of_inject_set [of "ord_id E ((k, v) # m)" "(k, v) # m"] E by (simp add: env_okD)
  with True show ?thesis by (simp add: umap_insert_def)
qed (auto simp: umap_insert_def)

lemma get_service_resp_cong:
  assumes "map_of (m_services st') k = map_of (m_services st) k"
    and "\<And>s. map_of (m_services st) k = Some s \<Longrightarrow> service_at st' s = service_at st s"
    and "\<And>s c. \<lbrakk>map_of (m_services st) k = Some s; service_provider (service_at st s) = Some c\<rbrakk> \<Longrightarrow>
      client_item (client_at st' c) = client_item (client_at st c)"
  shows "get_service_resp st' k = get_service_resp st k"
  using assms by (auto simp: get_service_resp_def provider_item_def split: option.split)
    (metis (no_types, lifting) option.map_cong option.set_cases)

lemma enter_service_lookup:
  assumes E: "env_ok E" and I: "reg_inv st" and c: "c < length (client_heap st)"
    and e: "enter_service E c msg st = (s, st')"
  shows "map_of (m_services st') (si_id msg) = Some s"
    "service_item (service_at st' s) = \<lparr>si_id = si_id msg, si_type = si_type msg, si_status = LOCAL_SERVICE_STATUS_AVAILABLE\<rparr>"
    "service_provider (service_at st' s) = Some c"
    "\<And>c'. client_item (client_at st' c') = client_item (client_at st c')"
    "\<And>k. k \<noteq> si_id msg \<Longrightarrow> map_of (m_services st') k = map_of (m_services st) k"
    "\<And>k s'. \<lbrakk>k \<noteq> si_id msg; map_of (m_services st) k = Some s'\<rbrakk> \<Longrightarrow> service_at st' s' = service_at st s'"
proof -
  have d: "distinct (map fst (m_services st))" using I by (simp add: reg_inv_def refs_ok_def)
  note [simp] = map_of_insert [OF E d]
  have cl: "client_item ((client_heap st)[c := (client_at st c)\<lparr>client_produce_services := p\<rparr>] ! c') = client_item (client_at st c')" for c' p
    using c by (cases "c' = c") (simp_all add: client_item_def)
  show "map_of (m_services st') (si_id msg) = Some s"
    "service_item (service_at st' s) = \<lparr>si_id = si_id msg, si_type = si_type msg, si_status = LOCAL_SERVICE_STATUS_AVAILABLE\<rparr>"
    "service_provider (service_at st' s) = Some c"
    using e find_service(1) [OF I]
    by (auto simp: enter_service_def upd_client_def upd_service_def service_item_def split: option.splits)
  show "client_item (client_at st' c') = client_item (client_at st c')" for c'
    using e cl by (auto simp: enter_service_def upd_client_def upd_service_def split: option.splits)
  show "map_of (m_services st') k = map_of (m_services st) k" if "k \<noteq> si_id msg" for k
    using e that by (auto simp: enter_service_def upd_client_def upd_service_def split: option.splits)
  show "service_at st' s' = service_at st s'" if "k \<noteq> si_id msg" "map_of (m_services st) k = Some s'" for k s'
  proof -
    have "s \<noteq> s'" if "map_of (m_services st) (si_id msg) = Some s"
      using find_service(2) [OF I that] find_service(2) [OF I \<open>map_of (m_services st) k = Some s'\<close>] \<open>k \<noteq> si_id msg\<close> by auto
    then show ?thesis
      using e that find_service(1) [OF I that(2)]
      by (auto simp: enter_service_def upd_client_def upd_service_def nth_append split: option.splits)
  qed
qed

definition available :: "registry \<Rightarrow> cref \<Rightarrow> st_local_service_item \<Rightarrow> reg_msg" where
  "available st c msg = Get_Service_Resp
     \<lparr>si_id = si_id msg, si_type = si_type msg, si_status = LOCAL_SERVICE_STATUS_AVAILABLE\<rparr>
     (Some (client_item (client_at st c)))"

lemma register_one_lookup:
  assumes E: "env_ok E" and I: "reg_inv st" and c: "c < length (client_heap st)"
    and r: "register_one E c msg st = Some st'"
  shows "get_service_resp st' (si_id msg) = available st c msg"
    "k \<noteq> si_id msg \<Longrightarrow> get_service_resp st' k = get_service_resp st k"
    "client_item (client_at st' c') = client_item (client_at st c')"
proof -
  obtain s st1 where e: "enter_service E c msg st = (s, st1)" by (cases "enter_service E c msg st")
  note l = enter_service_lookup [OF E I c e]
  have o: "only_sends st1 st'"
    using r by (auto simp: register_one_def e Let_def split: option.splits if_splits
        intro: only_sends_refl notify_all_traffic notify_traffic only_sends_trans [OF notify_traffic])
  have g: "get_service_resp st' k = get_service_resp st1 k" for k
    by (rule get_service_resp_cong) (simp_all add: only_sendsD [OF o])
  show "client_item (client_at st' c') = client_item (client_at st c')"
    using l(4) by (simp add: only_sendsD [OF o])
  show "get_service_resp st' (si_id msg) = available st c msg"
    unfolding g by (simp add: get_service_resp_def provider_item_def available_def l)
  show "get_service_resp st' k = get_service_resp st k" if "k \<noteq> si_id msg"
    unfolding g using that l(4-6) by (intro get_service_resp_cong) simp_all
qed

lemma each_register_lookup:
  assumes E: "env_ok E" and "reg_inv st" and "c < length (client_heap st)"
    and "each (register_one E c) svs st = Some st'" and "distinct (map si_id svs)"
  shows "(\<forall>sv\<in>set svs. get_service_resp st' (si_id sv) = available st c sv) \<and>
    (\<forall>k. k \<notin> si_id ` set svs \<longrightarrow> get_service_resp st' k = get_service_resp st k)"
  using assms(2-)
proof (induction svs arbitrary: st)
  case (Cons x svs)
  obtain s1 where s1: "register_one E c x st = Some s1" and r: "each (register_one E c) svs s1 = Some st'"
    using Cons.prems(3) by (auto split: option.splits)
  note l = register_one_lookup [OF E Cons.prems(1,2) s1]
  have a: "available s1 c sv = available st c sv" for sv by (simp add: available_def l(3))
  have "c < length (client_heap s1)" using register_one_inv(2) [OF E Cons.prems(1,2) s1] Cons.prems(2) by simp
  from Cons.IH [OF register_one_inv(1) [OF E Cons.prems(1,2) s1] this r] Cons.prems(4) l(1,2)
  show ?case by (auto simp: a)
qed simp

section \<open>Notifications arrive\<close>

text \<open>\<open>written st' c sid msg\<close>: a notification \<open>msg\<close> with service id \<open>sid\<close> was written to the channel of client \<open>c\<close>.\<close>

definition written :: "registry \<Rightarrow> registry \<Rightarrow> cref \<Rightarrow> u32 \<Rightarrow> reg_msg \<Rightarrow> bool" where
  "written st st' c sid msg \<longleftrightarrow> (\<exists>hdr w. writes st' = writes st @ w \<and> mh_service_id hdr = sid \<and>
     mh_type hdr = LOCAL_MSG_TYPE_EVENT_NOTIFY \<and> (client_channel_id (client_at st c), hdr, msg) \<in> set w)"

definition reachable_client :: "registry \<Rightarrow> cref \<Rightarrow> bool" where
  "reachable_client st c \<longleftrightarrow> client_status (client_at st c) = LOCAL_CLIENT_STATUS_ONLINE \<and>
     getChannelById st (client_channel_id (client_at st c)) = Some (client_channel_id (client_at st c))"

lemma online_reachable:
  assumes "reg_inv st" and "c < length (client_heap st)"
    and "client_status (client_at st c) = LOCAL_CLIENT_STATUS_ONLINE"
  shows "reachable_client st c"
proof -
  have "client_channel_id (client_at st c) \<in> user_channels (m_channels st)"
    using assms by (simp add: reg_inv_def channels_ok_def)
  then have "client_channel_id (client_at st c) \<in> fst ` set (m_channels st)"
    by (auto simp: user_channels_def)
  with assms(3) show ?thesis by (simp add: reachable_client_def getChannelById_def)
qed

definition later :: "registry \<Rightarrow> registry \<Rightarrow> bool" where
  "later st st' \<longleftrightarrow> client_heap st' = client_heap st \<and> m_channels st' = m_channels st \<and>
     (\<exists>w. writes st' = writes st @ w)"

lemma later_sends: "only_sends st st' \<Longrightarrow> later st st'"
  by (simp add: later_def only_sendsD)

lemma later_refl: "later st st"
  by (simp add: later_def)

lemma written_between:
  assumes "later st st1" and "written st1 st2 c sid msg" and "later st2 st'"
  shows "written st st' c sid msg"
proof -
  obtain u v where "writes st1 = writes st @ u" "writes st' = writes st2 @ v"
    using assms(1,3) unfolding later_def by blast
  moreover obtain hdr w where "writes st2 = writes st1 @ w" "mh_service_id hdr = sid"
      "mh_type hdr = LOCAL_MSG_TYPE_EVENT_NOTIFY" "(client_channel_id (client_at st1 c), hdr, msg) \<in> set w"
    using assms(2) by (auto simp: written_def)
  moreover have "client_heap st1 = client_heap st" using assms(1) by (simp add: later_def)
  ultimately show ?thesis unfolding written_def
    by (intro exI [of _ hdr] exI [of _ "u @ w @ v"]) simp
qed

lemma reachable_later: "later st st' \<Longrightarrow> reachable_client st' c = reachable_client st c"
  by (simp add: reachable_client_def getChannelById_def later_def)

lemma notify_written:
  assumes "reachable_client st c" and "pb_size E msg \<noteq> None" and "notify E c sid msg st = Some st'"
  shows "written st st' c sid msg"
  using assms
  by (auto simp: notify_def reachable_client_def send_msg_to_client_def Let_def written_def split: if_splits)

lemma notify_all_written:
  assumes "notify_all E sid cs st = Some st'" and "(c, msg) \<in> set cs" and "reachable_client st c"
    and "pb_size E msg \<noteq> None"
  shows "written st st' c sid msg"
  using assms
proof (induction E sid cs st rule: notify_all.induct)
  case (2 E sid c' msg' cs st)
  then obtain s1 where n: "notify E c' sid msg' st = Some s1" and r: "notify_all E sid cs s1 = Some st'"
    by (auto split: option.splits)
  note o = later_sends [OF notify_traffic [OF n]]
  show ?case
  proof (cases "(c, msg) \<in> set cs")
    case True
    then have "written s1 st' c sid msg"
      using 2(1) [OF n r] 2(4,5) by (simp add: reachable_later [OF o])
    then show ?thesis by (rule written_between [OF o _ later_refl])
  next
    case False
    then have "c' = c" "msg' = msg" using 2(3) by simp_all
    then have "written st s1 c sid msg" using notify_written [of st c E msg sid s1] n 2(4,5) by simp
    then show ?thesis by (rule written_between [OF later_refl _ later_sends [OF notify_all_traffic [OF r]]])
  qed
qed simp

text \<open>
  What a registration sends to the listeners of a method, and a closed connection to the
  listeners of each service of the client.
\<close>

lemma register_one_notifies:
  assumes E: "env_ok E" and I: "reg_inv st" and c: "c < length (client_heap st)"
    and r: "register_one E c msg st = Some st'" and m: "si_type msg = LOCAL_SERVICE_TYPE_METHOD"
    and s: "map_of (m_services st) (si_id msg) = Some s" "(k, l) \<in> set (service_listeners (service_at st s))"
    and on: "client_status (client_at st l) = LOCAL_CLIENT_STATUS_ONLINE"
    and pb: "nanopb_ok E" and name: "length (client_name (client_at st l)) < 32"
  shows "written st st' l EVENT_SERVICE_CHANGE_STATUS (Service_Change_Status
    \<lparr>si_id = si_id msg, si_type = LOCAL_SERVICE_TYPE_METHOD, si_status = LOCAL_SERVICE_STATUS_AVAILABLE\<rparr>
    (Some \<lparr>ci_id = client_id (client_at st c), ci_pid = client_pid (client_at st c),
           ci_name = take 32 (client_name (client_at st l)), ci_status = client_status (client_at st c)\<rparr>))"
proof -
  let ?M = "\<lambda>cl. Service_Change_Status
    \<lparr>si_id = si_id msg, si_type = LOCAL_SERVICE_TYPE_METHOD, si_status = LOCAL_SERVICE_STATUS_AVAILABLE\<rparr>
    (Some \<lparr>ci_id = client_id (client_at st c), ci_pid = client_pid (client_at st c),
           ci_name = take 32 (client_name cl), ci_status = client_status (client_at st c)\<rparr>)"
  obtain s' st1 where e: "enter_service E c msg st = (s', st1)" by (cases "enter_service E c msg st")
  note inv = enter_service_inv [OF E I c e]
  have l: "l < length (client_heap st)" using find_service(3) [OF I s(1)] s(2) by (auto simp: service_ok_def)
  have st1: "s' = s" "service_listeners (service_at st1 s) = service_listeners (service_at st s)"
    "service_id (service_at st1 s) = si_id msg" "service_type (service_at st1 s) = si_type msg"
    "writes st1 = writes st" "m_channels st1 = m_channels st"
    "client_at st1 x = (client_at st x)\<lparr>client_produce_services := client_produce_services (client_at st1 x)\<rparr>" for x
    using e s(1) find_service(1) [OF I s(1)] c
    by (auto simp: enter_service_def upd_client_def upd_service_def nth_list_update)
  have cl: "client_id (client_at st1 x) = client_id (client_at st x)" "client_pid (client_at st1 x) = client_pid (client_at st x)"
    "client_name (client_at st1 x) = client_name (client_at st x)" "client_status (client_at st1 x) = client_status (client_at st x)"
    "client_channel_id (client_at st1 x) = client_channel_id (client_at st x)" for x
    using st1(7) [of x] by (metis local_client.select_convs local_client.surjective local_client.update_convs(7))+
  obtain st2 where o': "only_sends st1 st2" and n: "notify_all E EVENT_SERVICE_CHANGE_STATUS
      (map (\<lambda>(_, l). (l, ?M (client_at st2 l)))
        (service_listeners (service_at st s))) st2 = Some st'"
    using r m by (auto simp: register_one_def e Let_def st1(1-4) cl split: option.splits if_splits
        intro: only_sends_refl notify_traffic)
  note o = later_sends [OF o']
  have "reachable_client st2 l"
    using online_reachable [OF inv(1)] l inv(3) on by (simp add: reachable_later [OF o] cl)
  moreover have "pb_size E (?M (client_at st2 l)) \<noteq> None"
    using name by (intro nanopb_okD [OF pb]) (simp add: terminated_opt_def terminated_def only_sendsD(1) [OF o'] cl)
  ultimately have "written st2 st' l EVENT_SERVICE_CHANGE_STATUS (?M (client_at st2 l))"
    using notify_all_written [OF n, of l] s(2) by (force simp: case_prod_unfold)
  then have "written st1 st' l EVENT_SERVICE_CHANGE_STATUS (?M (client_at st2 l))"
    by (rule written_between [OF o _ later_refl])
  then show ?thesis by (simp add: written_def st1(5) cl only_sendsD(1) [OF o'])
qed

lemma register_one_frame:
  assumes E: "env_ok E" and I: "reg_inv st" and c: "c < length (client_heap st)" and r: "register_one E c msg st = Some st'"
  shows "\<exists>w. writes st' = writes st @ w"
    "client_id (client_at st' x) = client_id (client_at st x)" "client_pid (client_at st' x) = client_pid (client_at st x)"
    "client_name (client_at st' x) = client_name (client_at st x)"
    "client_status (client_at st' x) = client_status (client_at st x)"
    "client_channel_id (client_at st' x) = client_channel_id (client_at st x)"
    "map_of (m_services st) k = Some s \<Longrightarrow>
      map_of (m_services st') k = Some s \<and> service_listeners (service_at st' s) = service_listeners (service_at st s)"
proof -
  obtain s' st1 where e: "enter_service E c msg st = (s', st1)" by (cases "enter_service E c msg st")
  have o: "only_sends st1 st'"
    using r by (auto simp: register_one_def e Let_def split: option.splits if_splits
        intro: only_sends_refl notify_all_traffic notify_traffic only_sends_trans [OF notify_traffic])
  have "writes st1 = writes st" using e by (auto simp: enter_service_def upd_client_def upd_service_def split: option.splits)
  with only_sendsD(7) [OF o] show "\<exists>w. writes st' = writes st @ w" by simp
  have "client_at st1 x = (client_at st x)\<lparr>client_produce_services := client_produce_services (client_at st1 x)\<rparr>"
    using e c by (auto simp: enter_service_def upd_client_def upd_service_def nth_list_update split: option.splits)
  then show "client_id (client_at st' x) = client_id (client_at st x)" "client_pid (client_at st' x) = client_pid (client_at st x)"
    "client_name (client_at st' x) = client_name (client_at st x)" "client_status (client_at st' x) = client_status (client_at st x)"
    "client_channel_id (client_at st' x) = client_channel_id (client_at st x)"
    unfolding only_sendsD(1) [OF o]
    by (metis local_client.select_convs local_client.surjective local_client.update_convs(7))+
  show "map_of (m_services st') k = Some s \<and> service_listeners (service_at st' s) = service_listeners (service_at st s)"
    if k: "map_of (m_services st) k = Some s"
  proof -
    have "distinct (map fst (m_services st))" using I by (simp add: reg_inv_def refs_ok_def)
    then have "map_of (m_services st1) k = Some s"
      using e k by (auto simp: enter_service_def upd_client_def upd_service_def map_of_insert [OF E] split: option.splits)
    moreover have "service_listeners (service_at st1 s) = service_listeners (service_at st s)"
      using e find_service(1) [OF I k] find_service(1) [OF I]
      by (auto simp: enter_service_def upd_client_def upd_service_def nth_list_update nth_append split: option.splits)
    ultimately show ?thesis by (simp add: only_sendsD [OF o])
  qed
qed

lemma each_register_writes:
  assumes E: "env_ok E" and "reg_inv st" and "c < length (client_heap st)" and "each (register_one E c) svs st = Some st'"
  shows "\<exists>w. writes st' = writes st @ w"
  using assms(2-)
proof (induction svs arbitrary: st)
  case (Cons x svs)
  obtain s1 where s1: "register_one E c x st = Some s1" and r: "each (register_one E c) svs s1 = Some st'"
    using Cons.prems(3) by (auto split: option.splits)
  note i = register_one_inv [OF E Cons.prems(1,2) s1]
  have "c < length (client_heap s1)" using i(2) Cons.prems(2) by simp
  from Cons.IH [OF i(1) this r] register_one_frame(1) [OF E Cons.prems(1,2) s1] show ?case by auto
qed simp

lemma each_register_notifies:
  assumes E: "env_ok E" and "reg_inv st" and "c < length (client_heap st)"
    and "each (register_one E c) svs st = Some st'" and "msg \<in> set svs" and m: "si_type msg = LOCAL_SERVICE_TYPE_METHOD"
    and "map_of (m_services st) (si_id msg) = Some s" and "(k, l) \<in> set (service_listeners (service_at st s))"
    and "client_status (client_at st l) = LOCAL_CLIENT_STATUS_ONLINE"
    and pb: "nanopb_ok E" and "length (client_name (client_at st l)) < 32"
  shows "written st st' l EVENT_SERVICE_CHANGE_STATUS (Service_Change_Status
    \<lparr>si_id = si_id msg, si_type = LOCAL_SERVICE_TYPE_METHOD, si_status = LOCAL_SERVICE_STATUS_AVAILABLE\<rparr>
    (Some \<lparr>ci_id = client_id (client_at st c), ci_pid = client_pid (client_at st c),
           ci_name = take 32 (client_name (client_at st l)), ci_status = client_status (client_at st c)\<rparr>))"
  using assms(2-5,7-9,11)
proof (induction svs arbitrary: st)
  case (Cons x svs)
  obtain s1 where s1: "register_one E c x st = Some s1" and r: "each (register_one E c) svs s1 = Some st'"
    using Cons.prems(3) by (auto split: option.splits)
  note i = register_one_inv [OF E Cons.prems(1,2) s1]
  note f = register_one_frame [OF E Cons.prems(1,2) s1]
  have c1: "c < length (client_heap s1)" using i(2) Cons.prems(2) by simp
  show ?case
  proof (cases "msg = x")
    case True
    with register_one_notifies [OF E Cons.prems(1,2) s1 _ _ Cons.prems(6,7) pb Cons.prems(8)] m Cons.prems(5)
      each_register_writes [OF E i(1) c1 r]
    show ?thesis by (fastforce simp: written_def)
  next
    case False
    with Cons.prems(4) have x: "msg \<in> set svs" by simp
    from Cons.IH [OF i(1) c1 r x] f(7) [OF Cons.prems(5)] Cons.prems(6-8) f(1) show ?thesis
      by (auto simp: written_def f(2-6))
  qed
qed simp

lemma remove_service_effect:
  assumes r: "remove_service E s st = Some st'" and s: "s < length (service_heap st)"
  shows "later st st'" "m_services st' = m_services st"
    "service_heap st' = (service_heap st)[s := (service_at st s)\<lparr>service_status := LOCAL_SERVICE_STATUS_DEFAULT\<rparr>]"
    "\<lbrakk>(i, l) \<in> set (service_listeners (service_at st s)); reachable_client st l; nanopb_ok E\<rbrakk> \<Longrightarrow>
      written st st' l EVENT_SERVICE_CHANGE_STATUS (Service_Change_Status \<lparr>si_id = service_id (service_at st s),
        si_type = service_type (service_at st s), si_status = LOCAL_SERVICE_STATUS_DEFAULT\<rparr> None)"
proof -
  let ?m = "Service_Change_Status \<lparr>si_id = service_id (service_at st s),
    si_type = service_type (service_at st s), si_status = LOCAL_SERVICE_STATUS_DEFAULT\<rparr> None"
  obtain st1 where n: "notify_all E EVENT_SERVICE_CHANGE_STATUS
      (map (\<lambda>(_, l). (l, ?m)) (service_listeners (service_at st s))) st = Some st1"
    and st': "st' = upd_service s (\<lambda>sv. sv\<lparr>service_status := LOCAL_SERVICE_STATUS_DEFAULT\<rparr>) st1"
    using r by (auto simp: remove_service_def Let_def split: option.splits)
  note o = notify_all_traffic [OF n]
  have l1: "later st1 st'" by (simp add: st' upd_service_def later_def)
  show "later st st'" "m_services st' = m_services st"
    "service_heap st' = (service_heap st)[s := (service_at st s)\<lparr>service_status := LOCAL_SERVICE_STATUS_DEFAULT\<rparr>]"
    using only_sendsD [OF o] by (simp_all add: later_def st' upd_service_def)
  show "written st st' l EVENT_SERVICE_CHANGE_STATUS ?m"
    if "(i, l) \<in> set (service_listeners (service_at st s))" "reachable_client st l" "nanopb_ok E"
    using notify_all_written [OF n, of l ?m] that nanopb_okD [OF that(3), of ?m]
    by (intro written_between [OF later_refl _ l1]) (force simp: terminated_opt_def)
qed

lemma remove_services_effect:
  assumes "remove_services E ss st = Some st'" and "\<forall>s\<in>set ss. s < length (service_heap st)"
    and "nanopb_ok E"
  shows "later st st' \<and> length (service_heap st') = length (service_heap st) \<and> (\<forall>s. service_at st' s =
      (if s \<in> set ss then (service_at st s)\<lparr>service_status := LOCAL_SERVICE_STATUS_DEFAULT\<rparr> else service_at st s)) \<and>
    (\<forall>s\<in>set ss. \<forall>(i, l)\<in>set (service_listeners (service_at st s)). reachable_client st l \<longrightarrow>
      written st st' l EVENT_SERVICE_CHANGE_STATUS (Service_Change_Status \<lparr>si_id = service_id (service_at st s),
        si_type = service_type (service_at st s), si_status = LOCAL_SERVICE_STATUS_DEFAULT\<rparr> None))"
  using assms
proof (induction ss arbitrary: st)
  case (Cons s ss)
  obtain s1 where r: "remove_service E s st = Some s1" and rs: "remove_services E ss s1 = Some st'"
    using Cons.prems(1) by (auto split: option.splits)
  have s: "s < length (service_heap st)" using Cons.prems(2) by simp
  note e = remove_service_effect [OF r s]
  have at1: "service_at s1 x = (if x = s then (service_at st s)\<lparr>service_status := LOCAL_SERVICE_STATUS_DEFAULT\<rparr> else service_at st x)" for x
    using s by (simp add: e(3) nth_list_update)
  have "\<forall>x\<in>set ss. x < length (service_heap s1)" using Cons.prems(2) by (simp add: e(3))
  note IH = Cons.IH [OF rs this Cons.prems(3)]
  then have l: "later s1 st'" by simp
  show ?case
  proof (intro conjI ballI allI)
    show "later st st'" using e(1) l by (auto simp: later_def)
    show "length (service_heap st') = length (service_heap st)" using IH e(3) by simp
    show "service_at st' x = (if x \<in> set (s # ss) then (service_at st x)\<lparr>service_status := LOCAL_SERVICE_STATUS_DEFAULT\<rparr>
        else service_at st x)" for x
      using IH by (simp add: at1)
    fix x p assume x: "x \<in> set (s # ss)" "p \<in> set (service_listeners (service_at st x))"
    obtain i l' where p: "p = (i, l')" by (cases p)
    let ?m = "Service_Change_Status \<lparr>si_id = service_id (service_at st x),
        si_type = service_type (service_at st x), si_status = LOCAL_SERVICE_STATUS_DEFAULT\<rparr> None"
    have "written st st' l' EVENT_SERVICE_CHANGE_STATUS ?m" if re: "reachable_client st l'"
    proof (cases "x \<in> set ss")
      case True
      then have "written s1 st' l' EVENT_SERVICE_CHANGE_STATUS ?m"
        using IH x(2) re p by (fastforce simp: at1 reachable_later [OF e(1)] split: if_splits)
      then show ?thesis by (rule written_between [OF e(1) _ later_refl])
    next
      case False
      then have "written st s1 l' EVENT_SERVICE_CHANGE_STATUS ?m"
        using e(4) [of i l'] x p re Cons.prems(3) by simp
      then show ?thesis by (rule written_between [OF later_refl _ l])
    qed
    then show "case p of (i, l) \<Rightarrow> reachable_client st l \<longrightarrow> written st st' l EVENT_SERVICE_CHANGE_STATUS ?m"
      by (simp add: p)
  qed
qed (simp add: later_refl)

lemma find_channel:
  assumes I: "reg_inv st" and c: "c < length (client_heap st)"
  shows "\<exists>n. List.find (\<lambda>(_, c'). client_channel_id (client_at st c) = client_channel_id (client_at st c'))
    (m_clients_by_name st) = Some (n, c)"
proof -
  let ?Q = "\<lambda>(_ :: string, c'). client_channel_id (client_at st c) = client_channel_id (client_at st c')"
  have names: "snd ` set (m_clients_by_name st) = {..<length (client_heap st)}"
    using I by (simp add: reg_inv_def names_ok_def)
  with c have "c \<in> snd ` set (m_clients_by_name st)" by simp
  then obtain n where p: "(n, c) \<in> set (m_clients_by_name st)" by auto
  then have "List.find ?Q (m_clients_by_name st) \<noteq> None" by (auto simp: find_None_iff)
  then obtain n c' where f: "List.find ?Q (m_clients_by_name st) = Some (n, c')" by auto
  then have "client_channel_id (client_at st c) = client_channel_id (client_at st c')"
    using find_SomeD [OF f] by simp
  moreover have "c' < length (client_heap st)" using find_entry [OF I f] .
  ultimately have "c' = c"
    using I c nth_eq_iff_index_eq [of "map client_channel_id (client_heap st)" c c']
    by (simp add: reg_inv_def channels_ok_def)
  with f show ?thesis by blast
qed

lemma onclose_effect:
  assumes E: "env_ok E" and I: "reg_inv st" and c: "c < length (client_heap st)"
    and on: "client_status (client_at st c) = LOCAL_CLIENT_STATUS_ONLINE"
    and pb: "nanopb_ok E"
    and r: "onclose E (client_channel_id (client_at st c)) st = Some st'"
  defines "i \<equiv> client_channel_id (client_at st c)"
  shows "client_status (client_at st' c) = LOCAL_CLIENT_STATUS_OFFLINE" "getChannelById st' i = None"
    "\<forall>(k, s)\<in>set (client_produce_services (client_at st c)).
       service_at st' s = (service_at st s)\<lparr>service_status := LOCAL_SERVICE_STATUS_DEFAULT\<rparr> \<and>
       (\<forall>(j, l)\<in>set (service_listeners (service_at st s)).
          l \<noteq> c \<and> client_status (client_at st l) = LOCAL_CLIENT_STATUS_ONLINE \<longrightarrow>
          written st st' l EVENT_SERVICE_CHANGE_STATUS (Service_Change_Status
            \<lparr>si_id = k, si_type = service_type (service_at st s), si_status = LOCAL_SERVICE_STATUS_DEFAULT\<rparr> None))"
proof -
  have "i \<in> user_channels (m_channels st)" using I c on by (simp add: i_def reg_inv_def channels_ok_def)
  then obtain addr where a: "(i, addr) \<in> set (m_channels st)" "\<not> strstr addr LOCAL_REGISTRY_CTRL_SOCKET_FILE"
    by (auto simp: user_channels_def)
  then have "map_of (m_channels st) i = Some addr" using I by (simp add: reg_inv_def channels_ok_def)
  then obtain st2 where r2: "remove_client E i st = Some st2" and st': "st' = removeChannel i st2"
    using r a(2) by (auto simp: onclose_def onConnection_def i_def)
  define st1 where "st1 = upd_client c (\<lambda>cl. cl\<lparr>client_status := LOCAL_CLIENT_STATUS_OFFLINE\<rparr>) st"
  define ss where "ss = map snd (client_produce_services (client_at st c))"
  have ss: "remove_services E ss st1 = Some st2"
    using r2 find_channel [OF I c] c by (auto simp: remove_client_def Let_def st1_def ss_def i_def upd_client_def)
  have "\<forall>s\<in>set ss. s < length (service_heap st1)"
    using produce_at [OF I c] by (auto simp: ss_def st1_def upd_client_def refs_ok_def)
  note eff = remove_services_effect [OF ss this pb]
  have h: "client_heap st2 = client_heap st1" using eff by (simp add: later_def)
  show "client_status (client_at st' c) = LOCAL_CLIENT_STATUS_OFFLINE"
    using c h by (simp add: st' removeChannel_def st1_def upd_client_def)
  show "getChannelById st' i = None" by (auto simp: st' removeChannel_def getChannelById_def)
  show "\<forall>(k, s)\<in>set (client_produce_services (client_at st c)).
       service_at st' s = (service_at st s)\<lparr>service_status := LOCAL_SERVICE_STATUS_DEFAULT\<rparr> \<and>
       (\<forall>(j, l)\<in>set (service_listeners (service_at st s)).
          l \<noteq> c \<and> client_status (client_at st l) = LOCAL_CLIENT_STATUS_ONLINE \<longrightarrow>
          written st st' l EVENT_SERVICE_CHANGE_STATUS (Service_Change_Status
            \<lparr>si_id = k, si_type = service_type (service_at st s), si_status = LOCAL_SERVICE_STATUS_DEFAULT\<rparr> None))"
  proof (clarify, intro conjI ballI)
    fix k s assume ks: "(k, s) \<in> set (client_produce_services (client_at st c))"
    then have s: "s \<in> set ss" "s < length (service_heap st)" "service_id (service_at st s) = k"
      using produce_at [OF I c] by (force simp: ss_def refs_ok_def)+
    show "service_at st' s = (service_at st s)\<lparr>service_status := LOCAL_SERVICE_STATUS_DEFAULT\<rparr>"
      using eff s(1) by (simp add: st' removeChannel_def st1_def upd_client_def)
    fix p assume p: "p \<in> set (service_listeners (service_at st s))"
    obtain j l where jl: "p = (j, l)" by (cases p)
    have "written st st' l EVENT_SERVICE_CHANGE_STATUS (Service_Change_Status
        \<lparr>si_id = k, si_type = service_type (service_at st s), si_status = LOCAL_SERVICE_STATUS_DEFAULT\<rparr> None)"
      if l: "l \<noteq> c" "client_status (client_at st l) = LOCAL_CLIENT_STATUS_ONLINE"
    proof -
      have "l < length (client_heap st)" using service_ok_at [OF I s(2)] p jl by (auto simp: service_ok_def)
      from online_reachable [OF I this l(2)] l(1) have "reachable_client st1 l"
        by (simp add: reachable_client_def getChannelById_def st1_def upd_client_def)
      then have "written st1 st2 l EVENT_SERVICE_CHANGE_STATUS (Service_Change_Status
        \<lparr>si_id = k, si_type = service_type (service_at st s), si_status = LOCAL_SERVICE_STATUS_DEFAULT\<rparr> None)"
        using eff s(1,3) p jl by (fastforce simp: st1_def upd_client_def)
      then show ?thesis using l(1) by (simp add: written_def st' removeChannel_def st1_def upd_client_def)
    qed
    then show "case p of (j, l) \<Rightarrow> l \<noteq> c \<and> client_status (client_at st l) = LOCAL_CLIENT_STATUS_ONLINE \<longrightarrow>
        written st st' l EVENT_SERVICE_CHANGE_STATUS (Service_Change_Status
          \<lparr>si_id = k, si_type = service_type (service_at st s), si_status = LOCAL_SERVICE_STATUS_DEFAULT\<rparr> None)"
      by (simp add: jl)
  qed
qed

section \<open>Control pages\<close>

text \<open>With pages of one entry, every entry is on a page of its own, in order, numbered from 1.\<close>

lemma ctrl_pages_one:
  "ctrl_pages 1 xs [] m = map (\<lambda>i. ([fst (xs ! i)], m + of_nat (i + 1))) [0..<length xs] @ [([], 0)]"
proof (induction xs arbitrary: m)
  case (Cons x xs)
  obtain a j where x: "x = (a, j)" by (cases x)
  have "[0..<length (x # xs)] = 0 # map Suc [0..<length xs]" by (simp add: upt_conv_Cons map_Suc_upt del: upt_Suc)
  with Cons [of "m + 1"] show ?case by (simp add: x Let_def comp_def ac_simps del: upt_Suc)
qed simp

lemma ctrl_pages_map:
  "ctrl_pages 1 (map f xs) [] 0 = map (\<lambda>i. ([fst (f (xs ! i))], of_nat (i + 1))) [0..<length xs] @ [([], 0)]"
  unfolding ctrl_pages_one by simp

lemma send_pages_writes:
  assumes "\<forall>m\<in>set ms. \<exists>n \<le> LOCAL_REGISTRY_MSG_SIZE_MAX. pb_size E m = Some n"
  shows "\<exists>st' hs. send_pages E (Some ch) sid hdr ms st = Some st' \<and> length hs = length ms \<and>
    writes st' = writes st @ map (\<lambda>(h, m). (ch, h, m)) (zip hs ms) \<and>
    (\<forall>h\<in>set hs. mh_service_id h = sid \<and> mh_seqid h = mh_seqid hdr \<and> mh_type h = mh_type hdr + 1)"
  using assms
proof (induction ms arbitrary: st)
  case (Cons m ms)
  then obtain n where n: "n \<le> LOCAL_REGISTRY_MSG_SIZE_MAX" "pb_size E m = Some n" by auto
  define h where "h = \<lparr>mh_client_id = 0, mh_seqid = mh_seqid hdr, mh_type = mh_type hdr + 1, mh_service_id = sid, mh_len = of_nat n\<rparr>"
  have "reply E (Some ch) sid hdr m st = Some (st\<lparr>writes := writes st @ [(ch, h, m)]\<rparr>)"
    using n by (simp add: reply_def send_msg_to_client_def Let_def h_def)
  moreover obtain st' hs where "send_pages E (Some ch) sid hdr ms (st\<lparr>writes := writes st @ [(ch, h, m)]\<rparr>) = Some st'"
      "length hs = length ms" "writes st' = writes st @ [(ch, h, m)] @ map (\<lambda>(h, m). (ch, h, m)) (zip hs ms)"
      "\<forall>h\<in>set hs. mh_service_id h = sid \<and> mh_seqid h = mh_seqid hdr \<and> mh_type h = mh_type hdr + 1"
    using Cons.IH [of "st\<lparr>writes := writes st @ [(ch, h, m)]\<rparr>"] Cons.prems by auto
  ultimately show ?case by (intro exI [of _ st'] exI [of _ "h # hs"]) (simp add: h_def)
qed simp

text \<open>In a well-formed registry whose names are shorter than 32 bytes every page can be encoded.\<close>

lemma client_page_encodable:
  assumes "reg_inv st" and "\<forall>cl\<in>set (client_heap st). length (client_name cl) < 32" and "i < length (m_clients_by_name st)"
  shows "encodable (Ctrl_Get_Clients [client_info st (snd (m_clients_by_name st ! i))] flag)"
proof -
  have "snd (m_clients_by_name st ! i) \<in> snd ` set (m_clients_by_name st)" using assms(3) by simp
  then have "snd (m_clients_by_name st ! i) < length (client_heap st)" using assms(1) by (simp add: reg_inv_def names_ok_def)
  then show ?thesis using assms(2) by (simp add: client_info_def client_item_def terminated_def)
qed

lemma service_page_encodable:
  assumes I: "reg_inv st" and n: "\<forall>cl\<in>set (client_heap st). length (client_name cl) < 32" and i: "i < length (m_services st)"
  shows "encodable (Ctrl_Get_Services [service_info st (snd (m_services st ! i))] flag)"
proof -
  have "snd (m_services st ! i) < length (service_heap st)"
    using I nth_mem [OF i] by (cases "m_services st ! i") (auto simp: reg_inv_def refs_ok_def)
  then have "service_ok (length (client_heap st)) (service_at st (snd (m_services st ! i)))" by (rule service_ok_at [OF I])
  then show ?thesis using n
    by (auto simp: service_info_def client_item_def provider_item_def terminated_def service_ok_def list_all_iff
        terminated_opt_def split: option.split dest!: in_set_takeD)
qed

section \<open>Socket paths\<close>

lemma find_append: "List.find P (xs @ ys) = (case List.find P xs of None \<Rightarrow> List.find P ys | Some x \<Rightarrow> Some x)"
  by (induction xs) simp_all

lemma upt_split: "\<lbrakk>a \<le> n; n < m\<rbrakk> \<Longrightarrow> [a..<m] = [a..<n] @ n # [Suc n..<m]"
  using upt_add_eq_append [of a n "m - n"] by (simp add: upt_conv_Cons)

lemma str_find_at:
  assumes "a \<le> length u" and "c \<notin> set (drop a u)"
  shows "str_find c (u @ c # v) a = Some (length u)"
proof -
  have "u ! i \<noteq> c" if "a \<le> i" "i < length u" for i
    using assms(2) that nth_mem [of "i - a" "drop a u"] by auto
  then have "List.find (\<lambda>i. (u @ c # v) ! i = c) [a..<length u] = None" by (auto simp: find_None_iff nth_append)
  then show ?thesis
    unfolding str_find_def using upt_split [OF assms(1), of "length (u @ c # v)"] by (simp add: find_append)
qed

lemma str_rfind_at:
  assumes "c \<notin> set v"
  shows "str_rfind c (u @ c # v) = Some (length u)"
proof -
  have "(u @ c # v) ! i \<noteq> c" if "length u < i" "i < length (u @ c # v)" for i
    using assms that by (auto simp: nth_append nth_Cons')
  then have "List.find (\<lambda>i. (u @ c # v) ! i = c) (rev [Suc (length u)..<length (u @ c # v)]) = None"
    by (simp only: find_None_iff set_rev set_upt) auto
  then show ?thesis
    unfolding str_rfind_def using upt_split [OF le0, of "length u" "length (u @ c # v)"] by (simp add: find_append)
qed

lemma parse_path:
  assumes "CHR ''/'' \<notin> set ps" "CHR ''-'' \<notin> set ps"
    and "CHR ''/'' \<notin> set n" "CHR ''.'' \<notin> set n"
  shows "parse_localaddr (''/tmp/'' @ ps @ ''-'' @ n @ ''.ipc'') = Some (ps, n)"
proof -
  let ?s = "''/tmp/'' @ ps @ ''-'' @ n @ ''.ipc''"
  have "str_rfind (CHR ''/'') ?s = Some 4"
    using str_rfind_at [of "CHR ''/''" "ps @ ''-'' @ n @ ''.ipc''" "''/tmp''"] assms(1,3) by simp
  moreover have "str_find (CHR ''-'') ?s 5 = Some (5 + length ps)"
    using str_find_at [of 5 "''/tmp/'' @ ps" "CHR ''-''" "n @ ''.ipc''"] assms(2) by simp
  moreover have "str_find (CHR ''.'') ?s (6 + length ps) = Some (6 + length ps + length n)"
    "drop (6 + length ps) ?s = n @ ''.ipc''"
  proof -
    define w where "w = ''/tmp/'' @ ps @ ''-''"
    have "str_find (CHR ''.'') (w @ n @ ''.ipc'') (length w) = Some (length w + length n)"
      "drop (length w) (w @ n @ ''.ipc'') = n @ ''.ipc''"
      using str_find_at [of "length w" "w @ n" "CHR ''.''" "''ipc''"] assms(4) by simp_all
    moreover have "length w = 6 + length ps" "w @ n @ ''.ipc'' = ?s" by (simp_all add: w_def)
    ultimately show "str_find (CHR ''.'') ?s (6 + length ps) = Some (6 + length ps + length n)"
      "drop (6 + length ps) ?s = n @ ''.ipc''" by simp_all
  qed
  ultimately show ?thesis
    by (simp add: parse_localaddr_def Let_def after_def substr_def)
qed

text \<open>The decimal digits of the process id, as \<open>snprintf\<close> writes \<open>%u\<close>.\<close>

fun decimal :: "nat \<Rightarrow> string" where
  "decimal n = (if n < 10 then [char_of (48 + n)] else decimal (n div 10) @ [char_of (48 + n mod 10)])"

declare decimal.simps [simp del]

lemma decimal_char: "d < 10 \<Longrightarrow> (of_char (char_of (48 + d) :: char) :: nat) = 48 + d"
  by (simp add: take_bit_nat_eq_self)

lemma decimal_digits: "list_all is_digit (decimal n) \<and> decimal n \<noteq> []"
proof (induction n rule: decimal.induct)
  case (1 n)
  have "is_digit (char_of (48 + d))" if "d < 10" for d :: nat
    using that decimal_char [OF that] by (simp add: is_digit_def del: of_char_of)
  with 1 show ?case by (simp add: decimal.simps [of n])
qed

lemma digits_value_decimal: "digits_value (decimal n) = int n"
proof (induction n rule: decimal.induct)
  case (1 n)
  show ?case
  proof (cases "n < 10")
    case True
    then show ?thesis by (simp add: decimal.simps [of n] digits_value_def decimal_char)
  next
    case False
    have "digits_value (decimal n) = 10 * int (n div 10) + int (n mod 10)"
      using 1 [OF False] False decimal_char [of "n mod 10"]
      by (simp add: decimal.simps [of n] digits_value_def)
    then show ?thesis by presburger
  qed
qed

lemma digit_not: "is_digit c \<Longrightarrow> \<not> is_space c \<and> c \<noteq> CHR ''-'' \<and> c \<noteq> CHR ''+'' \<and> c \<noteq> CHR ''/''"
  by (auto simp: is_digit_def is_space_def)

lemma stoi_decimal:
  assumes "n < 2 ^ 31"
  shows "stoi (decimal n) = Some (int n)"
proof -
  obtain c r where d: "decimal n = c # r" "is_digit c" "list_all is_digit r"
    using decimal_digits [of n] by (cases "decimal n") auto
  have tw: "takeWhile is_digit r = r" using d(3) by (simp add: takeWhile_eq_all_conv list_all_iff)
  have "digits_value (c # r) = int n" using digits_value_decimal [of n] d(1) by simp
  then show ?thesis using d(1,2) digit_not [OF d(2)] assms
    by (simp add: stoi_def Let_def tw)
qed

section \<open>Properties of the daemon\<close>

text \<open>A concrete environment for the examples: insertion in front, ten bytes for what can be encoded, no debug output.\<close>

definition plain_env :: reg_env where
  "plain_env = \<lparr>ord_name = (\<lambda>m. m), ord_id = (\<lambda>m. m), pb_size = (\<lambda>m. if encodable m then Some 10 else None), chan_write = (\<lambda>ch n. int n),
                log_args = False, erased_iterator = (\<lambda>s. None)\<rparr>"

definition plain_pb :: pb_env where
  "plain_pb = \<lparr>map_size = 2, items_size = (\<lambda>m. if m = 0 then Some 10 else None), fields_size = (\<lambda>out sid. 4),
               pb_decode = (\<lambda>out sid b. Some b), view_register_client_req = (\<lambda>b. (0, '''')),
               view_get_client_req = (\<lambda>b. ucast (b ! 0)),
               view_register_service = (\<lambda>b. ([], None, True)), view_listen_service = (\<lambda>b. ([], None, True)),
               view_get_service_req = (\<lambda>b. (0, None)), view_service_set_status = (\<lambda>b. ([], None))\<rparr>"

lemma plain_env_ok: "env_ok plain_env"
  by (simp add: env_ok_def plain_env_def)

lemma plain_nanopb_ok: "nanopb_ok plain_env"
  by (simp add: nanopb_ok_def plain_env_def)

text \<open>
  C1. In every state the daemon reaches from its start, by any sequence of connections,
  disconnections and messages with fresh channel ids, the registry is well formed: the table of
  names lists every client once under its name, client ids are given in the order of first
  connection, the tables of services lead to items with the id they are filed under, providers
  and listeners are known clients filed under their ids, and every online client has an open
  channel of its own.\<close>

theorem registry_invariant_holds:
  "\<lbrakk>env_ok E; reg_reach E P st\<rbrakk> \<Longrightarrow> reg_inv st"
  by (rule reg_reach_inv)

lemma plain_connect:
  "reg_step plain_env plain_pb (Connect 5 ''/tmp/42-a.ipc'') reg_init =
   Some \<lparr>client_heap = [\<lparr>client_id = 1, client_pid = 42, client_channel_id = 5, client_name = ''a'',
            client_localaddr = ''/tmp/42-a.ipc'', client_status = LOCAL_CLIENT_STATUS_ONLINE,
            client_produce_services = []\<rparr>],
         service_heap = [], m_clients_by_name = [(''a'', 0)], m_services = [], m_next_client_id = 2,
         m_msg_seqid = 1, m_channels = [(5, ''/tmp/42-a.ipc'')], writes = []\<rparr>"
  by code_simp

theorem registry_invariant_holds_witness:
  "reg_inv \<lparr>client_heap = [\<lparr>client_id = 1, client_pid = 42, client_channel_id = 5, client_name = ''a'',
            client_localaddr = ''/tmp/42-a.ipc'', client_status = LOCAL_CLIENT_STATUS_ONLINE,
            client_produce_services = []\<rparr>],
         service_heap = [], m_clients_by_name = [(''a'', 0)], m_services = [], m_next_client_id = 2,
         m_msg_seqid = 1, m_channels = [(5, ''/tmp/42-a.ipc'')], writes = []\<rparr>"
proof -
  have "event_ok reg_init (Connect 5 ''/tmp/42-a.ipc'')" by (simp add: event_ok_def reg_init_def)
  from reg_reach.event [OF reg_reach.start this plain_connect] show ?thesis
    by (rule registry_invariant_holds [OF plain_env_ok])
qed

text \<open>A registry with two connected clients; the second listens to a method nobody provides yet.\<close>

definition demo_client :: "u32 \<Rightarrow> int \<Rightarrow> u32 \<Rightarrow> string \<Rightarrow> (u32 \<times> sref) list \<Rightarrow> local_client" where
  "demo_client i pid ch n p = \<lparr>client_id = i, client_pid = pid, client_channel_id = ch, client_name = n,
     client_localaddr = ''/tmp/x'', client_status = LOCAL_CLIENT_STATUS_ONLINE, client_produce_services = p\<rparr>"

definition demo_registry :: registry where
  "demo_registry =
     \<lparr>client_heap = [demo_client 1 42 5 ''a'' [], demo_client 2 43 6 ''b'' []],
      service_heap = [\<lparr>service_id = 0x10001, service_type = LOCAL_SERVICE_TYPE_METHOD,
        service_status = LOCAL_SERVICE_STATUS_DEFAULT, service_provider = None, service_listeners = [(2, 1)]\<rparr>],
      m_clients_by_name = [(''b'', 1), (''a'', 0)], m_services = [(0x10001, 0)], m_next_client_id = 3,
      m_msg_seqid = 1, m_channels = [(6, ''/tmp/43-b.ipc''), (5, ''/tmp/42-a.ipc'')], writes = []\<rparr>"

definition demo_a :: st_local_client_item where
  "demo_a = \<lparr>ci_id = 1, ci_pid = 42, ci_name = ''a'', ci_status = LOCAL_CLIENT_STATUS_ONLINE\<rparr>"

definition demo_method :: st_local_service_item where
  "demo_method = \<lparr>si_id = 0x10001, si_type = LOCAL_SERVICE_TYPE_METHOD, si_status = 0\<rparr>"

lemma demo_inv: "reg_inv demo_registry"
proof -
  have "\<not> strstr ''/tmp/43-b.ipc'' LOCAL_REGISTRY_CTRL_SOCKET_FILE" "\<not> strstr ''/tmp/42-a.ipc'' LOCAL_REGISTRY_CTRL_SOCKET_FILE"
    by code_simp+
  then show ?thesis
    by (auto simp: reg_inv_def demo_registry_def demo_client_def names_ok_def refs_ok_def service_ok_def
        channels_ok_def user_channels_def less_Suc_eq numeral_2_eq_2)
qed

text \<open>A registry in which the first client provides an event the second listens to.\<close>

definition demo_events :: registry where
  "demo_events = demo_registry\<lparr>
     service_heap := [\<lparr>service_id = 0x10002, service_type = LOCAL_SERVICE_TYPE_EVENT,
       service_status = LOCAL_SERVICE_STATUS_AVAILABLE, service_provider = Some 0, service_listeners = [(2, 1)]\<rparr>],
     m_services := [(0x10002, 0)],
     client_heap := [demo_client 1 42 5 ''a'' [(0x10002, 0)], demo_client 2 43 6 ''b'' []]\<rparr>"

lemma demo_events_inv: "reg_inv demo_events"
  using demo_inv
  by (simp add: reg_inv_def demo_events_def demo_registry_def demo_client_def names_ok_def refs_ok_def
      service_ok_def channels_ok_def)

text \<open>A request of the first client for its own data, with sequence number 7, as it arrives from the socket.\<close>

definition demo_request :: "byte list" where
  "demo_request = [1, 0, 0, 0, 7, 0, 0, 0, 2, 0, 0, 0, 2, 0, 0, 0, 4, 0, 0, 0, 1, 0, 0, 0]"

text \<open>
  C2. In a state the daemon reaches, with at most 128 known clients, an event the code is prepared for
  is handled without undefined behaviour and keeps the invariant: the listener array of 128 entries is
  not overrun, the send buffer is not overrun, and no exception escapes.  Not covered are a socket path
  whose process id is not a number, a message whose module id is beyond the generated array of modules
  or whose message id is not among the services of its module (the code indexes both tables without a
  check), an unknown name in a client registration of a debug build, and the unregistration of services.\<close>

theorem registry_no_undefined_behaviour:
  assumes "env_ok E" and "reg_reach E P st" and "length (client_heap st) \<le> ONCE_COUNT_MAX"
    and "event_ok st ev" and "event_safe E P st ev"
  shows "\<exists>st'. reg_step E P ev st = Some st' \<and> reg_inv st'"
proof -
  have I: "reg_inv st" by (rule reg_reach_inv [OF assms(2,1)])
  obtain st' where "reg_step E P ev st = Some st'" using reg_step_defined [OF assms(1) I assms(3,5)] by blast
  with reg_step_inv [OF assms(1) I assms(4)] show ?thesis by blast
qed

theorem registry_no_undefined_behaviour_witness:
  "\<exists>st st'. reg_step plain_env plain_pb (Connect 5 ''/tmp/42-a.ipc'') reg_init = Some st \<and>
     reg_step plain_env plain_pb (Receive 5 demo_request) st = Some st' \<and> reg_inv st' \<and>
     \<not> event_safe plain_env plain_pb st (Receive 5 (demo_request[14 := 2]))"
proof -
  obtain st where st: "reg_step plain_env plain_pb (Connect 5 ''/tmp/42-a.ipc'') reg_init = Some st"
    using plain_connect by blast
  have "event_ok reg_init (Connect 5 ''/tmp/42-a.ipc'')" by (simp add: event_ok_def reg_init_def)
  then have r: "reg_reach plain_env plain_pb st" by (rule reg_reach.event [OF reg_reach.start _ st])
  have "event_safe plain_env plain_pb st (Receive 5 demo_request)"
    "\<not> event_safe plain_env plain_pb st (Receive 5 (demo_request[14 := 2]))"
  proof -
    have "map_option (\<lambda>st. event_safe plain_env plain_pb st (Receive 5 demo_request) \<and>
        \<not> event_safe plain_env plain_pb st (Receive 5 (demo_request[14 := 2])))
      (reg_step plain_env plain_pb (Connect 5 ''/tmp/42-a.ipc'') reg_init) = Some True" by code_simp
    then show "event_safe plain_env plain_pb st (Receive 5 demo_request)"
      "\<not> event_safe plain_env plain_pb st (Receive 5 (demo_request[14 := 2]))" by (simp_all add: st)
  qed
  moreover have "length (client_heap st) \<le> ONCE_COUNT_MAX" "event_ok st (Receive 5 demo_request)"
    using st unfolding plain_connect by (auto simp: event_ok_def)
  ultimately show ?thesis using registry_no_undefined_behaviour [OF plain_env_ok r] st by blast
qed

text \<open>
  C21. A registration of services with distinct ids by a known client makes each of them available:
  a lookup then reports the registered type, status available and the registering client as
  provider, and lookups of all other services answer as before.\<close>

theorem register_then_get_service:
  assumes "env_ok E" and "reg_inv st" and "distinct (map si_id svs)" and "svs \<noteq> []"
    and "map_of (m_clients_by_name st) (ci_name provider) = Some c"
    and "register_service E svs (Some provider) True st = Some (ret, st')"
  shows "ret = 0 \<and>
    (\<forall>sv\<in>set svs. get_service_resp st' (si_id sv) = Get_Service_Resp
       \<lparr>si_id = si_id sv, si_type = si_type sv, si_status = LOCAL_SERVICE_STATUS_AVAILABLE\<rparr>
       (Some (client_item (client_at st c)))) \<and>
    (\<forall>k. k \<notin> si_id ` set svs \<longrightarrow> get_service_resp st' k = get_service_resp st k)"
proof -
  have "ret = 0" "each (register_one E c) svs st = Some st'"
    using assms(4-) by (auto simp: register_service_def)
  with each_register_lookup [OF assms(1,2) find_client(1) [OF assms(2,5)] _ assms(3)] show ?thesis
    by (simp add: available_def)
qed

lemma demo_register:
  "\<exists>st'. register_service plain_env [demo_method] (Some demo_a) True demo_registry = Some (0, st')"
proof -
  have "map_option fst (register_service plain_env [demo_method] (Some demo_a) True demo_registry) = Some 0"
    by code_simp
  then show ?thesis by auto
qed

theorem register_then_get_service_witness:
  "\<exists>st'. register_service plain_env [demo_method] (Some demo_a) True demo_registry = Some (0, st') \<and>
    get_service_resp st' 0x10001 = Get_Service_Resp
      \<lparr>si_id = 0x10001, si_type = LOCAL_SERVICE_TYPE_METHOD, si_status = LOCAL_SERVICE_STATUS_AVAILABLE\<rparr> (Some demo_a)"
proof -
  obtain st' where r: "register_service plain_env [demo_method] (Some demo_a) True demo_registry = Some (0, st')"
    using demo_register by blast
  have "map_of (m_clients_by_name demo_registry) (ci_name demo_a) = Some 0"
    by (simp add: demo_registry_def demo_a_def)
  from register_then_get_service [OF plain_env_ok demo_inv _ _ this r]
  have "get_service_resp st' 0x10001 = Get_Service_Resp
      \<lparr>si_id = 0x10001, si_type = LOCAL_SERVICE_TYPE_METHOD, si_status = LOCAL_SERVICE_STATUS_AVAILABLE\<rparr> (Some demo_a)"
    by (simp add: demo_method_def demo_registry_def demo_client_def client_item_def demo_a_def)
  with r show ?thesis by blast
qed

text \<open>
  C22. When a client registers services, every online listener of each method among them is sent a
  notification, provided that the listener's name is shorter than 32 bytes: status available, the id,
  process id and status of the provider.  The name in it is the name of the listener itself, not of
  the provider.  Of nanopb it is assumed that it encodes messages with terminated strings and at most
  128 entries in their arrays.\<close>

theorem register_notifies_listeners:
  assumes "env_ok E" and "nanopb_ok E" and "reg_inv st"
    and "map_of (m_clients_by_name st) (ci_name provider) = Some c"
    and "register_service E svs (Some provider) True st = Some (ret, st')"
    and "msg \<in> set svs" and "si_type msg = LOCAL_SERVICE_TYPE_METHOD"
    and "map_of (m_services st) (si_id msg) = Some s" and "(k, l) \<in> set (service_listeners (service_at st s))"
    and "client_status (client_at st l) = LOCAL_CLIENT_STATUS_ONLINE" and "length (client_name (client_at st l)) < 32"
  shows "written st st' l EVENT_SERVICE_CHANGE_STATUS (Service_Change_Status
    \<lparr>si_id = si_id msg, si_type = LOCAL_SERVICE_TYPE_METHOD, si_status = LOCAL_SERVICE_STATUS_AVAILABLE\<rparr>
    (Some \<lparr>ci_id = client_id (client_at st c), ci_pid = client_pid (client_at st c),
           ci_name = client_name (client_at st l), ci_status = client_status (client_at st c)\<rparr>))"
proof -
  have "each (register_one E c) svs st = Some st'"
    using assms(4-6) by (auto simp: register_service_def split: option.splits if_splits)
  from each_register_notifies [OF assms(1,3) find_client(1) [OF assms(3,4)] this assms(6-10,2,11)] assms(11)
  show ?thesis by simp
qed

definition demo_services :: "st_local_service_item list" where
  "demo_services = [\<lparr>si_id = 0x10007, si_type = LOCAL_SERVICE_TYPE_EVENT, si_status = 0\<rparr>, demo_method]"

theorem register_notifies_listeners_witness:
  "\<exists>st'. register_service plain_env demo_services (Some demo_a) True demo_registry = Some (0, st') \<and>
    written demo_registry st' 1 EVENT_SERVICE_CHANGE_STATUS (Service_Change_Status
      \<lparr>si_id = 0x10001, si_type = LOCAL_SERVICE_TYPE_METHOD, si_status = LOCAL_SERVICE_STATUS_AVAILABLE\<rparr>
      (Some \<lparr>ci_id = 1, ci_pid = 42, ci_name = ''b'', ci_status = LOCAL_CLIENT_STATUS_ONLINE\<rparr>))"
proof -
  have "map_option fst (register_service plain_env demo_services (Some demo_a) True demo_registry) = Some 0" by code_simp
  then obtain st' where r: "register_service plain_env demo_services (Some demo_a) True demo_registry = Some (0, st')"
    by auto
  have "map_of (m_clients_by_name demo_registry) (ci_name demo_a) = Some 0" "demo_method \<in> set demo_services"
    by (simp_all add: demo_registry_def demo_a_def demo_services_def)
  from register_notifies_listeners [OF plain_env_ok plain_nanopb_ok demo_inv this(1) r this(2), of 0 2 1]
  show ?thesis using r by (auto simp: demo_method_def demo_registry_def demo_client_def)
qed

text \<open>
  C23. When the connection of an online client closes, the client is offline and its channel gone,
  every service it produces is back to the default status, and every other online listener of
  such a service, method or event, is notified of that.  The notification carries no name, so that
  nanopb encodes it whatever the clients are called.\<close>

theorem close_takes_services_down:
  assumes "env_ok E" and "nanopb_ok E" and "reg_inv st" and "c < length (client_heap st)"
    and "client_status (client_at st c) = LOCAL_CLIENT_STATUS_ONLINE"
    and "onclose E (client_channel_id (client_at st c)) st = Some st'"
  shows "client_status (client_at st' c) = LOCAL_CLIENT_STATUS_OFFLINE \<and>
    getChannelById st' (client_channel_id (client_at st c)) = None \<and>
    (\<forall>(k, s)\<in>set (client_produce_services (client_at st c)).
       service_status (service_at st' s) = LOCAL_SERVICE_STATUS_DEFAULT \<and>
       (\<forall>(j, l)\<in>set (service_listeners (service_at st s)).
          l \<noteq> c \<and> client_status (client_at st l) = LOCAL_CLIENT_STATUS_ONLINE \<longrightarrow>
          written st st' l EVENT_SERVICE_CHANGE_STATUS (Service_Change_Status
            \<lparr>si_id = k, si_type = service_type (service_at st s), si_status = LOCAL_SERVICE_STATUS_DEFAULT\<rparr> None)))"
  using onclose_effect [OF assms(1,3,4,5,2,6)] by fastforce

theorem close_takes_services_down_witness:
  "\<exists>st'. onclose plain_env 5 demo_events = Some st' \<and>
    client_status (client_at st' 0) = LOCAL_CLIENT_STATUS_OFFLINE \<and> getChannelById st' 5 = None \<and>
    service_status (service_at demo_events 0) = LOCAL_SERVICE_STATUS_AVAILABLE \<and>
    service_status (service_at st' 0) = LOCAL_SERVICE_STATUS_DEFAULT \<and>
    written demo_events st' 1 EVENT_SERVICE_CHANGE_STATUS (Service_Change_Status
      \<lparr>si_id = 0x10002, si_type = LOCAL_SERVICE_TYPE_EVENT, si_status = LOCAL_SERVICE_STATUS_DEFAULT\<rparr> None)"
proof -
  have "map_option (\<lambda>st. m_msg_seqid st) (onclose plain_env 5 demo_events) = Some 2" by code_simp
  then obtain st' where r: "onclose plain_env 5 demo_events = Some st'" by auto
  have d: "client_channel_id (client_at demo_events 0) = 5" "0 < length (client_heap demo_events)"
    "client_status (client_at demo_events 0) = LOCAL_CLIENT_STATUS_ONLINE"
    "client_status (client_at demo_events 1) = LOCAL_CLIENT_STATUS_ONLINE"
    "client_produce_services (client_at demo_events 0) = [(0x10002, 0)]"
    "service_at demo_events 0 = \<lparr>service_id = 0x10002, service_type = LOCAL_SERVICE_TYPE_EVENT,
       service_status = LOCAL_SERVICE_STATUS_AVAILABLE, service_provider = Some 0, service_listeners = [(2, 1)]\<rparr>"
    by (simp_all add: demo_events_def demo_client_def)
  with close_takes_services_down [OF plain_env_ok plain_nanopb_ok demo_events_inv d(2,3), of st'] r show ?thesis by simp
qed

text \<open>
  C24. When no client has a name of 32 bytes or more, the control requests list the tables completely
  and in order: one page per client and one per service, numbered from 1, each with the sequence number
  of the request, closed by an empty page with flag 0.  A page shows at most the first 128 services of its
  client or the first 128 listeners of its service; what is beyond is left out.  Of nanopb it is assumed
  that it encodes messages with terminated strings and at most 128 entries in their arrays.\<close>

theorem control_pages_are_complete:
  assumes "nanopb_ok E" and "reg_inv st" and "\<forall>cl\<in>set (client_heap st). length (client_name cl) < 32"
  shows "(\<exists>st' hs. ctr_get_clients E hdr (Some ch) st = Some st' \<and>
      (\<forall>h\<in>set hs. mh_service_id h = METHOD_CTRL_GET_CLIENTS \<and> mh_seqid h = mh_seqid hdr \<and> mh_type h = mh_type hdr + 1) \<and>
      length hs = length (m_clients_by_name st) + 1 \<and>
      writes st' = writes st @ map (\<lambda>(h, m). (ch, h, m)) (zip hs
        (map (\<lambda>i. Ctrl_Get_Clients [client_info st (snd (m_clients_by_name st ! i))] (of_nat (i + 1)))
           [0..<length (m_clients_by_name st)] @ [Ctrl_Get_Clients [] 0]))) \<and>
    (\<exists>st' hs. ctr_get_services E hdr (Some ch) st = Some st' \<and>
      (\<forall>h\<in>set hs. mh_service_id h = METHOD_CTRL_GET_SERVICES \<and> mh_seqid h = mh_seqid hdr \<and> mh_type h = mh_type hdr + 1) \<and>
      length hs = length (m_services st) + 1 \<and>
      writes st' = writes st @ map (\<lambda>(h, m). (ch, h, m)) (zip hs
        (map (\<lambda>i. Ctrl_Get_Services [service_info st (snd (m_services st ! i))] (of_nat (i + 1)))
           [0..<length (m_services st)] @ [Ctrl_Get_Services [] 0])))"
proof
  let ?c = "map (\<lambda>i. Ctrl_Get_Clients [client_info st (snd (m_clients_by_name st ! i))] (of_nat (i + 1)))
    [0..<length (m_clients_by_name st)] @ [Ctrl_Get_Clients [] 0]"
  have pages_c: "\<forall>m\<in>set ?c. \<exists>n \<le> LOCAL_REGISTRY_MSG_SIZE_MAX. pb_size E m = Some n"
    using client_page_encodable [OF assms(2,3)] assms(1) by (auto simp: nanopb_ok_def simp del: of_nat_Suc of_nat_add)
  have "ctr_get_clients E hdr (Some ch) st = send_pages E (Some ch) METHOD_CTRL_GET_CLIENTS hdr ?c st"
    unfolding ctr_get_clients_def ctrl_pages_map by (simp add: comp_def case_prod_unfold)
  then show "\<exists>st' hs. ctr_get_clients E hdr (Some ch) st = Some st' \<and>
      (\<forall>h\<in>set hs. mh_service_id h = METHOD_CTRL_GET_CLIENTS \<and> mh_seqid h = mh_seqid hdr \<and> mh_type h = mh_type hdr + 1) \<and>
      length hs = length (m_clients_by_name st) + 1 \<and>
      writes st' = writes st @ map (\<lambda>(h, m). (ch, h, m)) (zip hs ?c)"
    using send_pages_writes [of ?c E ch METHOD_CTRL_GET_CLIENTS hdr st, OF pages_c] by auto
  let ?s = "map (\<lambda>i. Ctrl_Get_Services [service_info st (snd (m_services st ! i))] (of_nat (i + 1)))
    [0..<length (m_services st)] @ [Ctrl_Get_Services [] 0]"
  have pages_s: "\<forall>m\<in>set ?s. \<exists>n \<le> LOCAL_REGISTRY_MSG_SIZE_MAX. pb_size E m = Some n"
    using service_page_encodable [OF assms(2,3)] assms(1) by (auto simp: nanopb_ok_def simp del: of_nat_Suc of_nat_add)
  have "ctr_get_services E hdr (Some ch) st = send_pages E (Some ch) METHOD_CTRL_GET_SERVICES hdr ?s st"
    unfolding ctr_get_services_def ctrl_pages_map by (simp add: comp_def case_prod_unfold)
  then show "\<exists>st' hs. ctr_get_services E hdr (Some ch) st = Some st' \<and>
      (\<forall>h\<in>set hs. mh_service_id h = METHOD_CTRL_GET_SERVICES \<and> mh_seqid h = mh_seqid hdr \<and> mh_type h = mh_type hdr + 1) \<and>
      length hs = length (m_services st) + 1 \<and>
      writes st' = writes st @ map (\<lambda>(h, m). (ch, h, m)) (zip hs ?s)"
    using send_pages_writes [of ?s E ch METHOD_CTRL_GET_SERVICES hdr st, OF pages_s] by auto
qed

theorem control_pages_are_complete_witness:
  "\<exists>st' hs. ctr_get_clients plain_env (parse_header (replicate 20 0)) (Some 9) demo_registry = Some st' \<and>
    length hs = 3 \<and>
    writes st' = map (\<lambda>(h, m). (9, h, m)) (zip hs
      [Ctrl_Get_Clients [client_info demo_registry 1] 1, Ctrl_Get_Clients [client_info demo_registry 0] 2,
       Ctrl_Get_Clients [] 0])"
proof -
  have "\<forall>cl\<in>set (client_heap demo_registry). length (client_name cl) < 32"
    by (simp add: demo_registry_def demo_client_def)
  from conjunct1 [OF control_pages_are_complete [OF plain_nanopb_ok demo_inv this, of "parse_header (replicate 20 0)" 9]]
  obtain st' hs where "ctr_get_clients plain_env (parse_header (replicate 20 0)) (Some 9) demo_registry = Some st'"
    "length hs = length (m_clients_by_name demo_registry) + 1"
    "writes st' = writes demo_registry @ map (\<lambda>(h, m). (9, h, m)) (zip hs
        (map (\<lambda>i. Ctrl_Get_Clients [client_info demo_registry (snd (m_clients_by_name demo_registry ! i))] (of_nat (i + 1)))
           [0..<length (m_clients_by_name demo_registry)] @ [Ctrl_Get_Clients [] 0]))" by blast
  moreover have "m_clients_by_name demo_registry = [(''b'', 1), (''a'', 0)]" "writes demo_registry = []"
    by (simp_all add: demo_registry_def)
  ultimately show ?thesis by (intro exI [of _ st'] exI [of _ hs]) (simp add: upt_rec)
qed

text \<open>
  A client that connects from \<open>/tmp/<pid>-<name>.ipc\<close>, with a name that has no dot and no slash
  and is not known yet, is entered under exactly this name and process id, online, with the next
  client id.\<close>

lemma connect_reads_socket_path:
  assumes "env_ok E" and "reg_inv st" and "pid < 2 ^ 31"
    and "CHR ''/'' \<notin> set name" and "CHR ''.'' \<notin> set name" and "map_of (m_clients_by_name st) name = None"
  shows "\<exists>st'. add_client E i (''/tmp/'' @ decimal pid @ ''-'' @ name @ ''.ipc'') st = Some (0, st') \<and>
    map_of (m_clients_by_name st') name = Some (length (client_heap st)) \<and>
    client_heap st' = client_heap st @ [\<lparr>client_id = of_nat (length (client_heap st) + 1), client_pid = int pid,
      client_channel_id = i, client_name = name, client_localaddr = ''/tmp/'' @ decimal pid @ ''-'' @ name @ ''.ipc'',
      client_status = LOCAL_CLIENT_STATUS_ONLINE, client_produce_services = []\<rparr>]"
proof -
  have "CHR ''/'' \<notin> set (decimal pid)" "CHR ''-'' \<notin> set (decimal pid)"
    using decimal_digits [of pid] digit_not by (auto simp: list_all_iff)
  then have p: "parse_localaddr (''/tmp/'' @ decimal pid @ ''-'' @ name @ ''.ipc'') = Some (decimal pid, name)"
    using assms(4,5) by (intro parse_path)
  have d: "distinct (map fst ((name, length (client_heap st)) # m_clients_by_name st))"
    using assms(2,6) by (auto simp: reg_inv_def names_ok_def map_of_eq_None_iff)
  then have "map_of (ord_name E ((name, length (client_heap st)) # m_clients_by_name st)) name = Some (length (client_heap st))"
    using env_okD [OF assms(1)] by (simp add: map_of_eq_Some_iff)
  then show ?thesis
    using assms(2,6) stoi_decimal [OF assms(3)] unfolding add_client_def p by (simp add: reg_inv_def umap_insert_def)
qed

text \<open>
  C34. Unregistration: for a service the client itself produces, the handler reads an iterator it has
  just erased and the result is undefined; a client that does not produce the service removes
  it all the same from the table, without a word to its provider or listeners.\<close>

theorem unregister_service_outcomes:
  assumes "map_of (m_clients_by_name st) (ci_name client) = Some c"
    and "map_of (m_services st) (si_id msg) = Some s"
  shows "(map_of (client_produce_services (client_at st c)) (si_id msg) \<noteq> None \<and> (\<forall>s. erased_iterator E s = None) \<longrightarrow>
      register_service E [msg] (Some client) False st = None) \<and>
    (map_of (client_produce_services (client_at st c)) (si_id msg) = None \<longrightarrow>
      (\<exists>st'. register_service E [msg] (Some client) False st = Some (0, st') \<and> writes st' = writes st \<and>
        get_service_resp st' (si_id msg) = Get_Service_Resp
          \<lparr>si_id = si_id msg, si_type = LOCAL_SERVICE_TYPE_UNKNOWN, si_status = LOCAL_SERVICE_STATUS_UNAVAILABLE\<rparr> None))"
proof -
  have "map_of (umap_erase k m) k = None" for k and m :: "(u32 \<times> nat) list"
    by (auto simp: umap_erase_def map_of_eq_None_iff)
  then show ?thesis using assms
    by (auto simp: register_service_def unregister_one_def Let_def get_service_resp_def split: option.split)
qed

theorem unregister_service_outcomes_witness:
  "register_service plain_env [\<lparr>si_id = 0x10002, si_type = LOCAL_SERVICE_TYPE_EVENT, si_status = 0\<rparr>]
      (Some demo_a) False demo_events = None \<and>
   (\<exists>st'. register_service plain_env [demo_method] (Some demo_a) False demo_registry = Some (0, st') \<and>
    writes st' = [] \<and> get_service_resp st' 0x10001 = Get_Service_Resp
      \<lparr>si_id = 0x10001, si_type = LOCAL_SERVICE_TYPE_UNKNOWN, si_status = LOCAL_SERVICE_STATUS_UNAVAILABLE\<rparr> None)"
proof
  show "register_service plain_env [\<lparr>si_id = 0x10002, si_type = LOCAL_SERVICE_TYPE_EVENT, si_status = 0\<rparr>]
      (Some demo_a) False demo_events = None"
    using unregister_service_outcomes [of demo_events demo_a 0 "\<lparr>si_id = 0x10002, si_type = LOCAL_SERVICE_TYPE_EVENT, si_status = 0\<rparr>" 0 plain_env]
    by (simp add: demo_events_def demo_registry_def demo_a_def demo_client_def plain_env_def)
  show "\<exists>st'. register_service plain_env [demo_method] (Some demo_a) False demo_registry = Some (0, st') \<and>
    writes st' = [] \<and> get_service_resp st' 0x10001 = Get_Service_Resp
      \<lparr>si_id = 0x10001, si_type = LOCAL_SERVICE_TYPE_UNKNOWN, si_status = LOCAL_SERVICE_STATUS_UNAVAILABLE\<rparr> None"
    using unregister_service_outcomes [of demo_registry demo_a 0 demo_method 0 plain_env]
    by (simp add: demo_registry_def demo_a_def demo_method_def demo_client_def)
qed

text \<open>
  C35. Cancelling to listen to an event has no effect on the registry: the client stays among the
  listeners of the service, while the provider, if it is online and nanopb encodes the message, is told
  that it left.\<close>

theorem cancel_listen_keeps_event_listener:
  assumes "env_ok E" and "reg_inv st" and "map_of (m_clients_by_name st) (ci_name client) = Some c"
    and "map_of (m_services st) (si_id msg) = Some s" and "service_type (service_at st s) = LOCAL_SERVICE_TYPE_EVENT"
    and "listen_service E [msg] (Some client) False st = Some (ret, st')"
  shows "service_heap st' = service_heap st \<and>
    (\<forall>p. service_provider (service_at st s) = Some p \<and> client_status (client_at st p) = LOCAL_CLIENT_STATUS_ONLINE \<and>
      pb_size E (Listener_Change_To_Provider (si_id msg) [client_item (client_at st c)] False) \<noteq> None \<longrightarrow>
      written st st' p EVENT_LISTENER_CHANGE_TO_PROVIDER
        (Listener_Change_To_Provider (si_id msg) [client_item (client_at st c)] False))"
proof -
  have l: "listen_one E c False msg st = Some st'"
    using assms(3,6) by (auto simp: listen_service_def split: option.splits)
  show ?thesis
  proof (cases "service_provider (service_at st s)")
    case None
    with l assms(4,5) show ?thesis by (simp add: listen_one_def find_or_new_service_def listen_or_cancel_def)
  next
    case (Some p)
    then have n: "notify E p EVENT_LISTENER_CHANGE_TO_PROVIDER
        (Listener_Change_To_Provider (si_id msg) [client_item (client_at st c)] False) st = Some st'"
      using l assms(4,5) find_service(2) [OF assms(2,4)]
      by (simp add: listen_one_def find_or_new_service_def listen_or_cancel_def)
    have "p < length (client_heap st)" using find_service(3) [OF assms(2,4)] Some by (simp add: service_ok_def)
    with notify_written [OF online_reachable [OF assms(2)] _ n] only_sendsD(2) [OF notify_traffic [OF n]] Some
    show ?thesis by simp
  qed
qed

theorem cancel_listen_keeps_event_listener_witness:
  "\<exists>st'. listen_service plain_env [\<lparr>si_id = 0x10002, si_type = LOCAL_SERVICE_TYPE_EVENT, si_status = 0\<rparr>]
      (Some \<lparr>ci_id = 2, ci_pid = 43, ci_name = ''b'', ci_status = LOCAL_CLIENT_STATUS_ONLINE\<rparr>) False demo_events = Some (0, st') \<and>
    service_listeners (service_at st' 0) = [(2, 1)]"
proof -
  let ?m = "\<lparr>si_id = 0x10002, si_type = LOCAL_SERVICE_TYPE_EVENT, si_status = 0\<rparr>"
  let ?b = "\<lparr>ci_id = 2, ci_pid = 43, ci_name = ''b'', ci_status = LOCAL_CLIENT_STATUS_ONLINE\<rparr>"
  have "map_option fst (listen_service plain_env [?m] (Some ?b) False demo_events) = Some 0" by code_simp
  then obtain st' where r: "listen_service plain_env [?m] (Some ?b) False demo_events = Some (0, st')" by auto
  have "map_of (m_clients_by_name demo_events) (ci_name ?b) = Some 1" "map_of (m_services demo_events) (si_id ?m) = Some 0"
    "service_type (service_at demo_events 0) = LOCAL_SERVICE_TYPE_EVENT"
    by (simp_all add: demo_events_def demo_registry_def)
  from cancel_listen_keeps_event_listener [OF plain_env_ok demo_events_inv this r] r show ?thesis
    by (simp add: demo_events_def)
qed

end
