(* ===== verification/Thread_Queue.thy ===== *)
theory Thread_Queue
  imports Interfaces
begin

text \<open>
  The blocking queues of \<open>base/src/utility/threadqueue.c\<close>: a bounded ring of nodes, and an
  unbounded tail queue.  Every operation is a critical section under the mutex of the queue, which a
  blocking operation leaves only in \<open>pthread_cond_wait\<close>.  The first part models the critical
  sections.  The second part interleaves any number of threads: a thread runs a section to its end, to
  its wait, or from a wake-up on; a wake-up comes from a signal, from \<open>stop\<close>, or from nowhere, as
  POSIX allows.
\<close>

section \<open>Return codes\<close>

datatype tq_ret = SUCCESS | ERR_ARG | ERR_MEM | ERR_LEN | ERR_CONFLICT | ERR_NO_MSG | ERR_FULL
  | ERR_EMPTY | ERR_TIMEOUT | ERR_STOP | ERR_OTHER

primrec tq_code :: "tq_ret \<Rightarrow> int" where
  "tq_code SUCCESS = 0"
| "tq_code ERR_ARG = -1"
| "tq_code ERR_MEM = -2"
| "tq_code ERR_LEN = -3"
| "tq_code ERR_CONFLICT = -4"
| "tq_code ERR_NO_MSG = -5"
| "tq_code ERR_FULL = -6"
| "tq_code ERR_EMPTY = -7"
| "tq_code ERR_TIMEOUT = -8"
| "tq_code ERR_STOP = -9"
| "tq_code ERR_OTHER = -16"

section \<open>The bounded queue\<close>

text \<open>
  A node holds its data in place, or behind \<open>p_extern\<close> when it is longer than \<open>node_size\<close>.
  Sizes and indices are \<open>size_t\<close>; no index exceeds the number of nodes, so they do not wrap.
\<close>

record tb_node =
  is_extern :: bool
  nd_len :: nat
  p_extern :: "byte list option"
  nd_data :: "byte list"

record tbq =
  tb_is_run :: bool
  tb_nodes :: "tb_node list"
  tb_node_size :: nat
  tb_capacity :: nat
  tb_count :: nat
  tb_head :: nat
  tb_tail :: nat

text \<open>
  \<open>mem\<close> says for each \<open>calloc\<close> of a call whether it succeeds.  Sizes are natural numbers and nodes are values:
  the model is that of node sizes for which \<open>sizeof(threadboundedqueue_node_t) + node_size\<close> does not wrap in
  \<open>size_t\<close>, on a machine that allows the nodes to lie at the offsets this sum gives, which need not be
  multiples of their alignment.
\<close>

definition threadboundedqueue_create :: "bool \<Rightarrow> bool \<Rightarrow> nat \<Rightarrow> nat \<Rightarrow> tbq option" where
  "threadboundedqueue_create mem1 mem2 node_num node_size =
     (if \<not> mem1 then None
      else if \<not> mem2 then None
      else Some \<lparr>tb_is_run = True,
                 tb_nodes = replicate node_num
                   \<lparr>is_extern = False, nd_len = 0, p_extern = None, nd_data = replicate node_size 0\<rparr>,
                 tb_node_size = node_size, tb_capacity = node_num, tb_count = 0, tb_head = 0, tb_tail = 0\<rparr>)"

text \<open>The free of an external buffer, as every operation does it.\<close>

definition free_extern :: "tb_node \<Rightarrow> tb_node" where
  "free_extern node =
     (if is_extern node \<and> p_extern node \<noteq> None then node\<lparr>p_extern := None, is_extern := False\<rparr> else node)"

text \<open>The end of both push operations, from \<open>threadboundedqueue_get_node_ptr\<close> on.\<close>

definition tb_put :: "bool \<Rightarrow> byte list \<Rightarrow> tbq \<Rightarrow> (tq_ret \<times> tbq) option" where
  "tb_put mem data q =
     (if tb_head q < length (tb_nodes q) then
        let node = free_extern (tb_nodes q ! tb_head q)
        in if length data > tb_node_size q \<and> \<not> mem
           then Some (ERR_MEM, q\<lparr>tb_nodes := (tb_nodes q)[tb_head q := node\<lparr>p_extern := None\<rparr>]\<rparr>)
           else
             (case (if length data > tb_node_size q
                    then Some (node\<lparr>p_extern := Some data, is_extern := True\<rparr>)
                    else map_option (\<lambda>d. node\<lparr>nd_data := d\<rparr>) (memcpy_to (nd_data node) 0 data 0 (length data))) of
                None \<Rightarrow> None
              | Some node \<Rightarrow>
                  if tb_capacity q = 0 then None
                  else Some (SUCCESS,
                    q\<lparr>tb_nodes := (tb_nodes q)[tb_head q := node\<lparr>nd_len := length data\<rparr>],
                      tb_head := (tb_head q + 1) mod tb_capacity q,
                      tb_count := tb_count q + 1\<rparr>))
      else None)"

text \<open>The end of both pop operations; \<open>len\<close> is the size of the caller's buffer.\<close>

definition tb_take :: "nat \<Rightarrow> tbq \<Rightarrow> (tq_ret \<times> byte list \<times> tbq) option" where
  "tb_take len q =
     (if tb_tail q < length (tb_nodes q) then
        let node = tb_nodes q ! tb_tail q
        in if nd_len node > len then Some (ERR_LEN, [], q)
           else
             (case (case p_extern node of
                      Some b \<Rightarrow> if is_extern node then mem_read b 0 (nd_len node) else mem_read (nd_data node) 0 (nd_len node)
                    | None \<Rightarrow> mem_read (nd_data node) 0 (nd_len node)) of
                None \<Rightarrow> None
              | Some out \<Rightarrow>
                  if tb_capacity q = 0 then None
                  else Some (SUCCESS, out,
                    q\<lparr>tb_nodes := (tb_nodes q)[tb_tail q := (free_extern node)\<lparr>nd_len := 0\<rparr>],
                      tb_tail := (tb_tail q + 1) mod tb_capacity q,
                      tb_count := tb_count q - 1\<rparr>))
      else None)"

text \<open>
  The data of a push is \<open>None\<close> for a null pointer; the size of the buffer of a pop is \<open>None\<close> when
  the buffer or \<open>len\<close> is a null pointer.
\<close>

definition threadboundedqueue_push_nonblock :: "bool \<Rightarrow> byte list option \<Rightarrow> tbq \<Rightarrow> (tq_ret \<times> tbq) option" where
  "threadboundedqueue_push_nonblock mem data q =
     (if data = None \<or> length (the data) = 0 then Some (ERR_ARG, q)
      else if \<not> tb_is_run q then Some (ERR_STOP, q)
      else if tb_count q \<ge> tb_capacity q then Some (ERR_FULL, q)
      else tb_put mem (the data) q)"

definition threadboundedqueue_pop_nonblock :: "nat option \<Rightarrow> tbq \<Rightarrow> (tq_ret \<times> byte list \<times> tbq) option" where
  "threadboundedqueue_pop_nonblock len q =
     (if len = None then Some (ERR_ARG, [], q)
      else if \<not> tb_is_run q then Some (ERR_STOP, [], q)
      else if tb_count q = 0 then Some (ERR_NO_MSG, [], q)
      else tb_take (the len) q)"

text \<open>
  One pass of a blocking operation, from the mutex to a wait (\<open>Blocks\<close>) or to the return.
\<close>

datatype 'r pass = Blocks | Returns 'r

definition threadboundedqueue_push_block :: "bool \<Rightarrow> byte list option \<Rightarrow> tbq \<Rightarrow> (tq_ret \<times> tbq) pass option" where
  "threadboundedqueue_push_block mem data q =
     (if data = None \<or> length (the data) = 0 then Some (Returns (ERR_ARG, q))
      else if tb_is_run q \<and> tb_count q \<ge> tb_capacity q then Some Blocks
      else if \<not> tb_is_run q then Some (Returns (ERR_STOP, q))
      else map_option Returns (tb_put mem (the data) q))"

definition threadboundedqueue_pop_block :: "nat option \<Rightarrow> tbq \<Rightarrow> (tq_ret \<times> byte list \<times> tbq) pass option" where
  "threadboundedqueue_pop_block len q =
     (if len = None then Some (Returns (ERR_ARG, [], q))
      else if tb_is_run q \<and> 0 = tb_count q then Some Blocks
      else if \<not> tb_is_run q then Some (Returns (ERR_STOP, [], q))
      else map_option Returns (tb_take (the len) q))"

definition threadboundedqueue_is_full :: "tbq \<Rightarrow> bool" where
  "threadboundedqueue_is_full q = (tb_count q \<ge> tb_capacity q)"

definition threadboundedqueue_is_empty :: "tbq \<Rightarrow> bool" where
  "threadboundedqueue_is_empty q = (tb_count q = 0)"

definition threadboundedqueue_stop :: "tbq \<Rightarrow> bool \<times> tbq" where
  "threadboundedqueue_stop q = (if \<not> tb_is_run q then (False, q) else (True, q\<lparr>tb_is_run := False\<rparr>))"

text \<open>\<open>uninit\<close> frees the external buffers, the nodes and the queue: the buffers it frees.\<close>

fun uninit_nodes :: "tb_node list \<Rightarrow> byte list list" where
  "uninit_nodes [] = []"
| "uninit_nodes (node # nodes) =
     (if is_extern node \<and> p_extern node \<noteq> None then the (p_extern node) # uninit_nodes nodes else uninit_nodes nodes)"

definition threadboundedqueue_uninit :: "tbq \<Rightarrow> byte list list" where
  "threadboundedqueue_uninit q = uninit_nodes (take (tb_capacity q) (tb_nodes q))"

section \<open>The unbounded queue\<close>

text \<open>
  The tail queue of nodes as a list of their contents.  \<open>tu_live\<close> counts the nodes that have been
  allocated and not freed.
\<close>

record tuq =
  tu_is_run :: bool
  tu_queue :: "byte list list"
  tu_size :: nat
  tu_live :: nat

definition threadunboundedqueue_create :: "bool \<Rightarrow> tuq option" where
  "threadunboundedqueue_create mem =
     (if \<not> mem then None else Some \<lparr>tu_is_run = True, tu_queue = [], tu_size = 0, tu_live = 0\<rparr>)"

definition threadunboundedqueue_push :: "bool \<Rightarrow> byte list option \<Rightarrow> tuq \<Rightarrow> tq_ret \<times> tuq" where
  "threadunboundedqueue_push mem data q =
     (if data = None \<or> length (the data) = 0 then (ERR_ARG, q)
      else if \<not> mem then (ERR_MEM, q)
      else
        let q = q\<lparr>tu_live := tu_live q + 1\<rparr>
        in if \<not> tu_is_run q then (ERR_STOP, q)
           else (SUCCESS, q\<lparr>tu_queue := tu_queue q @ [the data], tu_size := tu_size q + 1\<rparr>))"

text \<open>The end of both pop operations: \<open>TAILQ_FIRST\<close> of an empty queue is a null pointer.\<close>

definition tu_take :: "nat \<Rightarrow> tuq \<Rightarrow> (tq_ret \<times> byte list \<times> tuq) option" where
  "tu_take len q =
     (case tu_queue q of
        [] \<Rightarrow> None
      | d # ds \<Rightarrow>
          if length d > len then Some (ERR_LEN, [], q)
          else Some (SUCCESS, d, q\<lparr>tu_queue := ds, tu_size := tu_size q - 1, tu_live := tu_live q - 1\<rparr>))"

definition threadunboundedqueue_pop_nonblock :: "nat option \<Rightarrow> tuq \<Rightarrow> (tq_ret \<times> byte list \<times> tuq) option" where
  "threadunboundedqueue_pop_nonblock len q =
     (if len = None then Some (ERR_ARG, [], q)
      else if \<not> tu_is_run q then Some (ERR_STOP, [], q)
      else if tu_size q = 0 then Some (ERR_NO_MSG, [], q)
      else tu_take (the len) q)"

definition threadunboundedqueue_pop_block :: "nat option \<Rightarrow> tuq \<Rightarrow> (tq_ret \<times> byte list \<times> tuq) pass option" where
  "threadunboundedqueue_pop_block len q =
     (if len = None then Some (Returns (ERR_ARG, [], q))
      else if tu_is_run q \<and> 0 = tu_size q then Some Blocks
      else if \<not> tu_is_run q then Some (Returns (ERR_STOP, [], q))
      else map_option Returns (tu_take (the len) q))"

definition threadunboundedqueue_is_empty :: "tuq \<Rightarrow> bool" where
  "threadunboundedqueue_is_empty q = (tu_size q = 0)"

definition threadunboundedqueue_stop :: "tuq \<Rightarrow> bool \<times> tuq" where
  "threadunboundedqueue_stop q = (if \<not> tu_is_run q then (False, q) else (True, q\<lparr>tu_is_run := False\<rparr>))"

fun uninit_loop :: "byte list list \<Rightarrow> nat \<Rightarrow> nat" where
  "uninit_loop [] live = live"
| "uninit_loop (node # queue) live = uninit_loop queue (live - 1)"

definition threadunboundedqueue_uninit :: "tuq \<Rightarrow> nat" where
  "threadunboundedqueue_uninit q = uninit_loop (tu_queue q) (tu_live q)"

section \<open>Threads\<close>

text \<open>
  What a thread is doing: nothing, or a blocking call, waiting in \<open>pthread_cond_wait\<close> (or
  \<open>timedwait\<close> for a timeout that is not 0) or woken and about to take the mutex again.
\<close>

datatype thr = Idle
  | Push_Wait "byte list option" nat | Push_Ready "byte list option" nat
  | Pop_Wait "nat option" nat | Pop_Ready "nat option" nat

datatype tb_log = Put "byte list" | Got "byte list"

record tb_sys =
  sy_queue :: tbq
  sy_threads :: "thr list"
  sy_log :: "tb_log list"

primrec wake :: "thr \<Rightarrow> thr" where
  "wake Idle = Idle"
| "wake (Push_Wait d t) = Push_Ready d t"
| "wake (Push_Ready d t) = Push_Ready d t"
| "wake (Pop_Wait n t) = Pop_Ready n t"
| "wake (Pop_Ready n t) = Pop_Ready n t"

fun is_push_wait :: "thr \<Rightarrow> bool" where
  "is_push_wait (Push_Wait d t) = True" | "is_push_wait _ = False"
fun is_pop_wait :: "thr \<Rightarrow> bool" where
  "is_pop_wait (Pop_Wait n t) = True" | "is_pop_wait _ = False"
fun is_push_ready :: "thr \<Rightarrow> bool" where
  "is_push_ready (Push_Ready d t) = True" | "is_push_ready _ = False"
fun is_pop_ready :: "thr \<Rightarrow> bool" where
  "is_pop_ready (Pop_Ready n t) = True" | "is_pop_ready _ = False"

text \<open>\<open>pthread_cond_signal\<close>: one of the threads that wait on the condition is woken, if there is one.\<close>

inductive signal :: "(thr \<Rightarrow> bool) \<Rightarrow> thr list \<Rightarrow> thr list \<Rightarrow> bool" for waits where
  nobody: "\<forall>x\<in>set ts. \<not> waits x \<Longrightarrow> signal waits ts ts"
| one: "\<lbrakk>i < length ts; waits (ts ! i)\<rbrakk> \<Longrightarrow> signal waits ts (ts[i := wake (ts ! i)])"

text \<open>
  The steps of the system.  \<open>wait_ends\<close> is a timeout or an error of the wait, after which the call
  returns.  A timed wait may also report the timeout although it has consumed a signal, as POSIX allows
  when the two coincide; the code then returns without a look at the queue (\<open>timeout_signalled\<close>).
  With \<open>strict\<close> the steps are excluded in which a blocking call fails for want of memory or because the
  buffer of the caller is too small, and those in which a timeout has consumed a signal.
\<close>

inductive tb_step :: "bool \<Rightarrow> tb_sys \<Rightarrow> tb_sys \<Rightarrow> bool" for strict where
  push_waits: "\<lbrakk>t < length (sy_threads s); sy_threads s ! t = Idle \<or> sy_threads s ! t = Push_Ready d tm;
    threadboundedqueue_push_block mem d (sy_queue s) = Some Blocks\<rbrakk> \<Longrightarrow>
    tb_step strict s (s\<lparr>sy_threads := (sy_threads s)[t := Push_Wait d tm]\<rparr>)"
| push_fails: "\<lbrakk>t < length (sy_threads s); sy_threads s ! t = Idle \<or> sy_threads s ! t = Push_Ready d tm;
    threadboundedqueue_push_block mem d (sy_queue s) = Some (Returns (ret, q)); ret \<noteq> SUCCESS;
    strict \<Longrightarrow> ret \<noteq> ERR_MEM\<rbrakk> \<Longrightarrow>
    tb_step strict s (s\<lparr>sy_queue := q, sy_threads := (sy_threads s)[t := Idle]\<rparr>)"
| push_done: "\<lbrakk>t < length (sy_threads s); sy_threads s ! t = Idle \<or> sy_threads s ! t = Push_Ready d tm;
    threadboundedqueue_push_block mem d (sy_queue s) = Some (Returns (SUCCESS, q));
    signal is_pop_wait ((sy_threads s)[t := Idle]) ts\<rbrakk> \<Longrightarrow>
    tb_step strict s (s\<lparr>sy_queue := q, sy_threads := ts, sy_log := sy_log s @ [Put (the d)]\<rparr>)"
| push_nonblock: "\<lbrakk>t < length (sy_threads s); sy_threads s ! t = Idle;
    threadboundedqueue_push_nonblock mem d (sy_queue s) = Some (ret, q);
    if ret = SUCCESS then signal is_pop_wait (sy_threads s) ts else ts = sy_threads s\<rbrakk> \<Longrightarrow>
    tb_step strict s (s\<lparr>sy_queue := q, sy_threads := ts, sy_log := sy_log s @ (if ret = SUCCESS then [Put (the d)] else [])\<rparr>)"
| pop_waits: "\<lbrakk>t < length (sy_threads s); sy_threads s ! t = Idle \<or> sy_threads s ! t = Pop_Ready n tm;
    threadboundedqueue_pop_block n (sy_queue s) = Some Blocks\<rbrakk> \<Longrightarrow>
    tb_step strict s (s\<lparr>sy_threads := (sy_threads s)[t := Pop_Wait n tm]\<rparr>)"
| pop_fails: "\<lbrakk>t < length (sy_threads s); sy_threads s ! t = Idle \<or> sy_threads s ! t = Pop_Ready n tm;
    threadboundedqueue_pop_block n (sy_queue s) = Some (Returns (ret, d, q)); ret \<noteq> SUCCESS;
    strict \<Longrightarrow> ret \<noteq> ERR_LEN\<rbrakk> \<Longrightarrow>
    tb_step strict s (s\<lparr>sy_queue := q, sy_threads := (sy_threads s)[t := Idle]\<rparr>)"
| pop_done: "\<lbrakk>t < length (sy_threads s); sy_threads s ! t = Idle \<or> sy_threads s ! t = Pop_Ready n tm;
    threadboundedqueue_pop_block n (sy_queue s) = Some (Returns (SUCCESS, d, q));
    signal is_push_wait ((sy_threads s)[t := Idle]) ts\<rbrakk> \<Longrightarrow>
    tb_step strict s (s\<lparr>sy_queue := q, sy_threads := ts, sy_log := sy_log s @ [Got d]\<rparr>)"
| pop_nonblock: "\<lbrakk>t < length (sy_threads s); sy_threads s ! t = Idle;
    threadboundedqueue_pop_nonblock n (sy_queue s) = Some (ret, d, q);
    if ret = SUCCESS then signal is_push_wait (sy_threads s) ts else ts = sy_threads s\<rbrakk> \<Longrightarrow>
    tb_step strict s (s\<lparr>sy_queue := q, sy_threads := ts, sy_log := sy_log s @ (if ret = SUCCESS then [Got d] else [])\<rparr>)"
| spurious: "t < length (sy_threads s) \<Longrightarrow>
    tb_step strict s (s\<lparr>sy_threads := (sy_threads s)[t := wake (sy_threads s ! t)]\<rparr>)"
| wait_ends: "\<lbrakk>t < length (sy_threads s); is_push_wait (sy_threads s ! t) \<or> is_pop_wait (sy_threads s ! t)\<rbrakk> \<Longrightarrow>
    tb_step strict s (s\<lparr>sy_threads := (sy_threads s)[t := Idle]\<rparr>)"
| timeout_signalled: "\<lbrakk>t < length (sy_threads s);
    sy_threads s ! t = Push_Ready d tm \<or> sy_threads s ! t = Pop_Ready n tm; 0 < tm; \<not> strict\<rbrakk> \<Longrightarrow>
    tb_step strict s (s\<lparr>sy_threads := (sy_threads s)[t := Idle]\<rparr>)"
| stops: "threadboundedqueue_stop (sy_queue s) = (r, q) \<Longrightarrow>
    tb_step strict s (s\<lparr>sy_queue := q, sy_threads := (if r then map wake (sy_threads s) else sy_threads s)\<rparr>)"

inductive tb_reach :: "bool \<Rightarrow> nat \<Rightarrow> nat \<Rightarrow> nat \<Rightarrow> tb_sys \<Rightarrow> bool" for strict threads num size where
  start: "threadboundedqueue_create True True num size = Some q \<Longrightarrow>
    tb_reach strict threads num size \<lparr>sy_queue = q, sy_threads = replicate threads Idle, sy_log = []\<rparr>"
| more: "\<lbrakk>tb_reach strict threads num size s; tb_step strict s s'\<rbrakk> \<Longrightarrow> tb_reach strict threads num size s'"

section \<open>What the bounded queue holds\<close>

definition node_bytes :: "tb_node \<Rightarrow> byte list" where
  "node_bytes n = (case p_extern n of None \<Rightarrow> take (nd_len n) (nd_data n) | Some b \<Rightarrow> b)"

definition tb_content :: "tbq \<Rightarrow> byte list list" where
  "tb_content q = map node_bytes (window (tb_nodes q) (tb_capacity q) (tb_tail q) (tb_count q))"

definition node_ok :: "nat \<Rightarrow> tb_node \<Rightarrow> bool" where
  "node_ok sz n \<longleftrightarrow> length (nd_data n) = sz \<and> (is_extern n \<longleftrightarrow> p_extern n \<noteq> None)"

definition node_full :: "tb_node \<Rightarrow> bool" where
  "node_full n \<longleftrightarrow> (case p_extern n of None \<Rightarrow> nd_len n \<le> length (nd_data n) | Some b \<Rightarrow> nd_len n = length b)"

definition tb_inv :: "tbq \<Rightarrow> bool" where
  "tb_inv q \<longleftrightarrow>
     length (tb_nodes q) = tb_capacity q \<and> tb_count q \<le> tb_capacity q \<and>
     (0 < tb_capacity q \<longrightarrow>
        tb_tail q < tb_capacity q \<and> tb_head q = (tb_tail q + tb_count q) mod tb_capacity q) \<and>
     list_all (node_ok (tb_node_size q)) (tb_nodes q) \<and>
     list_all node_full (window (tb_nodes q) (tb_capacity q) (tb_tail q) (tb_count q))"

definition same_queue :: "tbq \<Rightarrow> tbq \<Rightarrow> bool" where
  "same_queue q q' \<longleftrightarrow> tb_is_run q' = tb_is_run q \<and> tb_capacity q' = tb_capacity q \<and> tb_node_size q' = tb_node_size q"

lemma tb_content_length [simp]: "length (tb_content q) = tb_count q"
  by (simp add: tb_content_def)

lemma tb_inv_node:
  "\<lbrakk>tb_inv q; i < tb_capacity q\<rbrakk> \<Longrightarrow> node_ok (tb_node_size q) (tb_nodes q ! i)"
  by (auto simp: tb_inv_def list_all_length)

lemma list_all_update: "\<lbrakk>list_all P xs; P x\<rbrakk> \<Longrightarrow> list_all P (xs[i := x])"
  using set_update_subset_insert [of xs i x] by (auto simp: list_all_iff)

lemma create_inv:
  assumes "threadboundedqueue_create m1 m2 num sz = Some q"
  shows "tb_inv q \<and> tb_content q = [] \<and> tb_is_run q \<and> tb_capacity q = num \<and> tb_count q = 0"
  using assms by (auto simp: threadboundedqueue_create_def tb_inv_def tb_content_def node_ok_def
      list_all_iff split: if_splits)

lemma tb_put_cases:
  assumes inv: "tb_inv q" and room: "tb_count q < tb_capacity q"
  obtains (mem) q' where "tb_put mem d q = Some (ERR_MEM, q')" "\<not> mem" "tb_node_size q < length d"
      "tb_inv q'" "same_queue q q'" "tb_content q' = tb_content q" "tb_count q' = tb_count q"
    | (put) q' where "tb_put mem d q = Some (SUCCESS, q')" "tb_inv q'" "same_queue q q'"
      "tb_content q' = tb_content q @ [d]" "tb_count q' = Suc (tb_count q)"
proof -
  let ?h = "tb_head q" and ?c = "tb_capacity q" and ?n = "tb_count q" and ?t = "tb_tail q"
  define nd where "nd = free_extern (tb_nodes q ! ?h)"
  have h: "?h < ?c" "?h = (?t + ?n) mod ?c" "length (tb_nodes q) = ?c" and t: "?t < ?c"
    using inv room by (auto simp: tb_inv_def)
  have nd: "length (nd_data nd) = tb_node_size q" "\<not> is_extern nd" "p_extern nd = None"
    using tb_inv_node [OF inv h(1)] by (auto simp: nd_def node_ok_def free_extern_def)
  have same: "window ((tb_nodes q)[?h := x]) ?c ?t ?n = window (tb_nodes q) ?c ?t ?n" for x
    using h room by (intro window_list_update [of _ ?n]) auto
  have upd: "list_all (node_ok (tb_node_size q)) ((tb_nodes q)[?h := x])" if "node_ok (tb_node_size q) x" for x
    using inv that by (intro list_all_update) (auto simp: tb_inv_def)
  have full: "list_all node_full (window (tb_nodes q) ?c ?t ?n)" using inv by (simp add: tb_inv_def)
  show thesis
  proof (cases "tb_node_size q < length d \<and> \<not> mem")
    case True
    let ?q = "q\<lparr>tb_nodes := (tb_nodes q)[?h := nd\<lparr>p_extern := None\<rparr>]\<rparr>"
    have "tb_put mem d q = Some (ERR_MEM, ?q)"
      using True h(1,3) by (simp add: tb_put_def nd_def)
    moreover have "tb_inv ?q" using inv h nd full upd [of "nd\<lparr>p_extern := None\<rparr>"]
      by (simp add: tb_inv_def same [unfolded h(2)] node_ok_def)
    ultimately show thesis using True by (intro mem [of ?q]) (auto simp: same_queue_def tb_content_def same)
  next
    case False
    define nd' where "nd' = (if tb_node_size q < length d then nd\<lparr>p_extern := Some d, is_extern := True\<rparr>
      else nd\<lparr>nd_data := d @ drop (length d) (nd_data nd)\<rparr>)\<lparr>nd_len := length d\<rparr>"
    let ?q = "q\<lparr>tb_nodes := (tb_nodes q)[?h := nd'], tb_head := (?h + 1) mod ?c, tb_count := ?n + 1\<rparr>"
    have ok: "node_ok (tb_node_size q) nd'" "node_full nd'" "node_bytes nd' = d"
      using nd by (auto simp: nd'_def node_ok_def node_full_def node_bytes_def)
    have "tb_put mem d q = Some (SUCCESS, ?q)"
      using False h(1,3) nd memcpy_prefix [where b = "nd_data nd" and d = d and n = "length d"] 
      by (auto simp: tb_put_def nd_def [symmetric] nd'_def)
    moreover have "(?t + ?n) mod ?c < length (tb_nodes q)" using h by simp
    then have win: "window ((tb_nodes q)[?h := nd']) ?c ?t (Suc ?n) = window (tb_nodes q) ?c ?t ?n @ [nd']"
      using h by (simp add: window_snoc same [unfolded h(2)])
    moreover have "tb_inv ?q" using inv room h t ok full upd [OF ok(1)]
      by (simp add: tb_inv_def win [unfolded h(2)] mod_Suc_eq)
    ultimately show thesis using ok by (intro put [of ?q]) (auto simp: same_queue_def tb_content_def win)
  qed
qed

lemma tb_take_cases:
  assumes inv: "tb_inv q" and some: "0 < tb_count q"
  obtains (len) "tb_take m q = Some (ERR_LEN, [], q)" "m < length (hd (tb_content q))"
    | (got) q' where "tb_take m q = Some (SUCCESS, hd (tb_content q), q')" "length (hd (tb_content q)) \<le> m" "tb_inv q'"
      "same_queue q q'" "tb_content q = hd (tb_content q) # tb_content q'" "tb_count q = Suc (tb_count q')"
proof -
  let ?c = "tb_capacity q" and ?t = "tb_tail q"
  obtain n where n: "tb_count q = Suc n" using some by (cases "tb_count q") auto
  define nd where "nd = tb_nodes q ! ?t"
  have t: "?t < ?c" "length (tb_nodes q) = ?c" "Suc n \<le> ?c" "tb_head q = (?t + Suc n) mod ?c"
    using inv n by (auto simp: tb_inv_def)
  have win: "window (tb_nodes q) ?c ?t (tb_count q) = nd # window (tb_nodes q) ?c (Suc ?t mod ?c) n"
    using t n by (simp add: window_Suc nd_def window_mod)
  then have c: "tb_content q = node_bytes nd # map node_bytes (window (tb_nodes q) ?c (Suc ?t mod ?c) n)"
    by (simp add: tb_content_def)
  have ok: "node_ok (tb_node_size q) nd" using tb_inv_node [OF inv t(1)] by (simp add: nd_def)
  have full: "node_full nd" "list_all node_full (window (tb_nodes q) ?c (Suc ?t mod ?c) n)"
    using inv win by (simp_all add: tb_inv_def)
  have lenb: "length (node_bytes nd) = nd_len nd" using full by (auto simp: node_full_def node_bytes_def split: option.splits)
  show thesis
  proof (cases "m < nd_len nd")
    case True
    then show thesis using t by (intro len) (simp_all add: tb_take_def nd_def [symmetric] c lenb)
  next
    case False
    define nd' where "nd' = (free_extern nd)\<lparr>nd_len := 0\<rparr>"
    let ?q = "q\<lparr>tb_nodes := (tb_nodes q)[?t := nd'], tb_tail := (?t + 1) mod ?c, tb_count := tb_count q - 1\<rparr>"
    have rd: "(case p_extern nd of Some b \<Rightarrow> if is_extern nd then mem_read b 0 (nd_len nd) else mem_read (nd_data nd) 0 (nd_len nd)
        | None \<Rightarrow> mem_read (nd_data nd) 0 (nd_len nd)) = Some (node_bytes nd)"
      using ok full by (auto simp: mem_read_def node_ok_def node_full_def node_bytes_def split: option.splits)
    have "(Suc ?t mod ?c + (?c - 1)) mod ?c = ?t" using t by (cases "Suc ?t = ?c") auto
    then have same: "window ((tb_nodes q)[?t := nd']) ?c (Suc ?t mod ?c) n = window (tb_nodes q) ?c (Suc ?t mod ?c) n"
      using t by (intro window_list_update [of _ "?c - 1"]) auto
    have ok': "node_ok (tb_node_size q) nd'" using ok by (auto simp: nd'_def node_ok_def free_extern_def)
    have "tb_take m q = Some (SUCCESS, node_bytes nd, ?q)"
      using False t rd unfolding tb_take_def nd'_def by (simp add: nd_def [symmetric] Let_def)
    moreover have "tb_inv ?q" using inv t n full list_all_update [of "node_ok (tb_node_size q)" "tb_nodes q" nd' ?t] ok'
      by (simp add: tb_inv_def same mod_simps)
    moreover have "tb_content ?q = tl (tb_content q)" by (simp add: c) (simp add: tb_content_def n same)
    ultimately show thesis using n False lenb by (intro got [of ?q]) (simp_all add: c same_queue_def)
  qed
qed

definition put_effect :: "tq_ret \<Rightarrow> byte list option \<Rightarrow> tbq \<Rightarrow> tbq \<Rightarrow> bool" where
  "put_effect ret d q q' \<longleftrightarrow> tb_inv q' \<and> same_queue q q' \<and>
     (if ret = SUCCESS then tb_is_run q \<and> tb_count q < tb_capacity q \<and> tb_content q' = tb_content q @ [the d]
      else tb_content q' = tb_content q) \<and>
     (ret = ERR_ARG \<longrightarrow> d = None \<or> the d = []) \<and> (ret = ERR_STOP \<longrightarrow> \<not> tb_is_run q)"

definition got_effect :: "tq_ret \<Rightarrow> nat option \<Rightarrow> byte list \<Rightarrow> tbq \<Rightarrow> tbq \<Rightarrow> bool" where
  "got_effect ret n d q q' \<longleftrightarrow> tb_inv q' \<and> same_queue q q' \<and>
     (if ret = SUCCESS then tb_is_run q \<and> length d \<le> the n \<and> tb_content q = d # tb_content q'
      else q' = q) \<and>
     (ret = ERR_ARG \<longrightarrow> n = None) \<and> (ret = ERR_STOP \<longrightarrow> \<not> tb_is_run q)"

lemma same_queue_refl [simp]: "same_queue q q"
  by (simp add: same_queue_def)

lemma put_effect_refl:
  "\<lbrakk>tb_inv q; ret \<noteq> SUCCESS; ret = ERR_ARG \<Longrightarrow> d = None \<or> the d = []; ret = ERR_STOP \<Longrightarrow> \<not> tb_is_run q\<rbrakk> \<Longrightarrow>
   put_effect ret d q q"
  by (simp add: put_effect_def)

lemma got_effect_refl:
  "\<lbrakk>tb_inv q; ret \<noteq> SUCCESS; ret = ERR_ARG \<Longrightarrow> n = None; ret = ERR_STOP \<Longrightarrow> \<not> tb_is_run q\<rbrakk> \<Longrightarrow> got_effect ret n d q q"
  by (simp add: got_effect_def)

lemma tb_put_effect:
  assumes "tb_inv q" and "tb_count q < tb_capacity q" and "tb_is_run q"
  obtains ret q' where "tb_put mem (the d) q = Some (ret, q')" "put_effect ret d q q'" "ret \<in> {SUCCESS, ERR_MEM}"
  using tb_put_cases [OF assms(1,2), of mem "the d"] by cases (use assms that in \<open>auto simp: put_effect_def\<close>)

lemma tb_take_effect:
  assumes "tb_inv q" and "0 < tb_count q" and "tb_is_run q"
  obtains ret d q' where "tb_take (the n) q = Some (ret, d, q')" "got_effect ret n d q q'" "ret \<in> {SUCCESS, ERR_LEN}"
  using tb_take_cases [OF assms(1,2), of "the n"] by cases (use assms that in \<open>auto simp: got_effect_def\<close>)

lemma push_nonblock_effect:
  assumes "tb_inv q"
  shows "\<exists>ret q'. threadboundedqueue_push_nonblock mem d q = Some (ret, q') \<and> put_effect ret d q q'"
proof (cases "(d = None \<or> the d = []) \<or> \<not> tb_is_run q \<or> tb_capacity q \<le> tb_count q")
  case True
  then show ?thesis using assms
    by (auto simp: threadboundedqueue_push_nonblock_def intro!: put_effect_refl)
next
  case False
  with tb_put_effect [OF assms, of mem d] obtain ret q' where
    "tb_put mem (the d) q = Some (ret, q')" "put_effect ret d q q'" "ret \<in> {SUCCESS, ERR_MEM}" by (auto simp: not_le)
  with False show ?thesis by (auto simp: threadboundedqueue_push_nonblock_def)
qed

lemma push_block_effect:
  assumes "tb_inv q"
  shows "(threadboundedqueue_push_block mem d q = Some Blocks \<and> tb_is_run q \<and> tb_capacity q \<le> tb_count q \<and>
            d \<noteq> None \<and> the d \<noteq> []) \<or>
    (\<exists>ret q'. threadboundedqueue_push_block mem d q = Some (Returns (ret, q')) \<and> put_effect ret d q q' \<and>
       ret \<in> {SUCCESS, ERR_ARG, ERR_STOP, ERR_MEM})"
proof (cases "(d = None \<or> the d = []) \<or> \<not> tb_is_run q \<or> tb_capacity q \<le> tb_count q")
  case True
  then show ?thesis using assms
    by (auto simp: threadboundedqueue_push_block_def intro!: put_effect_refl)
next
  case False
  with tb_put_effect [OF assms, of mem d] obtain ret q' where
    "tb_put mem (the d) q = Some (ret, q')" "put_effect ret d q q'" "ret \<in> {SUCCESS, ERR_MEM}" by (auto simp: not_le)
  with False show ?thesis by (auto simp: threadboundedqueue_push_block_def)
qed

lemma pop_nonblock_effect:
  assumes "tb_inv q"
  shows "\<exists>ret d q'. threadboundedqueue_pop_nonblock n q = Some (ret, d, q') \<and> got_effect ret n d q q'"
proof (cases "n = None \<or> \<not> tb_is_run q \<or> tb_count q = 0")
  case True
  then show ?thesis using assms
    by (auto simp: threadboundedqueue_pop_nonblock_def intro!: got_effect_refl)
next
  case False
  with tb_take_effect [OF assms, of n] obtain ret d q' where
    "tb_take (the n) q = Some (ret, d, q')" "got_effect ret n d q q'" "ret \<in> {SUCCESS, ERR_LEN}" by auto
  with False show ?thesis by (auto simp: threadboundedqueue_pop_nonblock_def)
qed

lemma pop_block_effect:
  assumes "tb_inv q"
  shows "(threadboundedqueue_pop_block n q = Some Blocks \<and> tb_is_run q \<and> tb_count q = 0 \<and> n \<noteq> None) \<or>
    (\<exists>ret d q'. threadboundedqueue_pop_block n q = Some (Returns (ret, d, q')) \<and> got_effect ret n d q q' \<and>
       ret \<in> {SUCCESS, ERR_ARG, ERR_STOP, ERR_LEN})"
proof (cases "n = None \<or> \<not> tb_is_run q \<or> tb_count q = 0")
  case True
  then show ?thesis using assms
    by (auto simp: threadboundedqueue_pop_block_def intro!: got_effect_refl)
next
  case False
  with tb_take_effect [OF assms, of n] obtain ret d q' where
    "tb_take (the n) q = Some (ret, d, q')" "got_effect ret n d q q'" "ret \<in> {SUCCESS, ERR_LEN}" by auto
  with False show ?thesis by (auto simp: threadboundedqueue_pop_block_def)
qed

lemma put_effect_count:
  "put_effect ret d q q' \<Longrightarrow> tb_count q' = (if ret = SUCCESS then Suc (tb_count q) else tb_count q)"
  using tb_content_length [of q] tb_content_length [of q']
  by (auto simp: put_effect_def simp del: tb_content_length split: if_splits)

lemma got_effect_count:
  "got_effect ret n d q q' \<Longrightarrow> tb_count q = (if ret = SUCCESS then Suc (tb_count q') else tb_count q')"
  using tb_content_length [of q] tb_content_length [of q']
  by (auto simp: got_effect_def simp del: tb_content_length split: if_splits)

section \<open>Every interleaving is a queue\<close>

fun puts :: "tb_log list \<Rightarrow> byte list list" where
  "puts [] = []"
| "puts (Put d # l) = d # puts l"
| "puts (Got d # l) = puts l"

fun gots :: "tb_log list \<Rightarrow> byte list list" where
  "gots [] = []"
| "gots (Put d # l) = gots l"
| "gots (Got d # l) = d # gots l"

lemma puts_append [simp]: "puts (l @ l') = puts l @ puts l'"
  by (induction l rule: puts.induct) auto

lemma gots_append [simp]: "gots (l @ l') = gots l @ gots l'"
  by (induction l rule: gots.induct) auto

definition sys_inv :: "nat \<Rightarrow> tb_sys \<Rightarrow> bool" where
  "sys_inv num s \<longleftrightarrow> tb_inv (sy_queue s) \<and> tb_capacity (sy_queue s) = num \<and>
     puts (sy_log s) = gots (sy_log s) @ tb_content (sy_queue s)"

lemma sys_inv_put:
  "\<lbrakk>sys_inv num s; put_effect ret d (sy_queue s) q\<rbrakk> \<Longrightarrow>
   sys_inv num (s\<lparr>sy_queue := q, sy_threads := ts, sy_log := sy_log s @ (if ret = SUCCESS then [Put (the d)] else [])\<rparr>)"
  by (auto simp: sys_inv_def put_effect_def same_queue_def split: if_splits)

lemma sys_inv_got:
  "\<lbrakk>sys_inv num s; got_effect ret n d (sy_queue s) q\<rbrakk> \<Longrightarrow>
   sys_inv num (s\<lparr>sy_queue := q, sy_threads := ts, sy_log := sy_log s @ (if ret = SUCCESS then [Got d] else [])\<rparr>)"
  by (auto simp: sys_inv_def got_effect_def same_queue_def split: if_splits)

lemma sys_inv_threads: "sys_inv num s \<Longrightarrow> sys_inv num (s\<lparr>sy_threads := ts\<rparr>)"
  by (simp add: sys_inv_def)

lemma sys_inv_stop:
  "\<lbrakk>sys_inv num s; threadboundedqueue_stop (sy_queue s) = (r, q)\<rbrakk> \<Longrightarrow> sys_inv num (s\<lparr>sy_queue := q, sy_threads := ts\<rparr>)"
  by (auto simp: sys_inv_def threadboundedqueue_stop_def tb_inv_def tb_content_def split: if_splits)

lemma sys_inv_step:
  assumes "tb_step strict s s'" and inv: "sys_inv num s"
  shows "sys_inv num s'"
  using assms(1)
proof cases
  case (push_waits t d tm mem)
  then show ?thesis using sys_inv_threads [OF inv] by simp
next
  case (push_fails t d tm mem ret q)
  then have "put_effect ret d (sy_queue s) q" using inv push_block_effect [of "sy_queue s" mem d] by (auto simp: sys_inv_def)
  from sys_inv_put [OF inv this, of "(sy_threads s)[t := Idle]"] show ?thesis using push_fails by simp
next
  case (push_done t d tm mem q ts)
  then have "put_effect SUCCESS d (sy_queue s) q" using inv push_block_effect [of "sy_queue s" mem d] by (auto simp: sys_inv_def)
  from sys_inv_put [OF inv this, of ts] show ?thesis using push_done by simp
next
  case (push_nonblock t mem d ret q ts)
  then have "put_effect ret d (sy_queue s) q" using inv push_nonblock_effect [of "sy_queue s" mem d] by (auto simp: sys_inv_def)
  from sys_inv_put [OF inv this, of ts] show ?thesis using push_nonblock by simp
next
  case (pop_waits t n tm)
  then show ?thesis using sys_inv_threads [OF inv] by simp
next
  case (pop_fails t n tm ret d q)
  then have "got_effect ret n d (sy_queue s) q" using inv pop_block_effect [of "sy_queue s" n] by (auto simp: sys_inv_def)
  from sys_inv_got [OF inv this, of "(sy_threads s)[t := Idle]"] show ?thesis using pop_fails by simp
next
  case (pop_done t n tm d q ts)
  then have "got_effect SUCCESS n d (sy_queue s) q" using inv pop_block_effect [of "sy_queue s" n] by (auto simp: sys_inv_def)
  from sys_inv_got [OF inv this, of ts] show ?thesis using pop_done by simp
next
  case (pop_nonblock t n ret d q ts)
  then have "got_effect ret n d (sy_queue s) q" using inv pop_nonblock_effect [of "sy_queue s" n] by (auto simp: sys_inv_def)
  from sys_inv_got [OF inv this, of ts] show ?thesis using pop_nonblock by simp
next
  case (spurious t)
  then show ?thesis using sys_inv_threads [OF inv] by simp
next
  case (wait_ends t)
  then show ?thesis using sys_inv_threads [OF inv] by simp
next
  case (timeout_signalled t d tm n)
  then show ?thesis using sys_inv_threads [OF inv] by simp
next
  case (stops r q)
  then show ?thesis using sys_inv_stop [OF inv] by simp
qed

lemma sys_inv_reach: "tb_reach strict k num sz s \<Longrightarrow> sys_inv num s"
proof (induction rule: tb_reach.induct)
  case (start q)
  then show ?case using create_inv [OF start] by (simp add: sys_inv_def)
next
  case (more s s')
  then show ?case using sys_inv_step by blast
qed

section \<open>No wake-up is lost\<close>

definition cnt :: "(thr \<Rightarrow> bool) \<Rightarrow> thr list \<Rightarrow> nat" where
  "cnt P ts = length (filter P ts)"

lemma cnt_update:
  "i < length ts \<Longrightarrow> cnt P (ts[i := x]) + of_bool (P (ts ! i)) = cnt P ts + of_bool (P x)"
proof (induction ts arbitrary: i)
  case (Cons a ts)
  then show ?case
  proof (cases i)
    case (Suc j)
    with Cons.IH [of j] Cons.prems show ?thesis by (simp add: cnt_def)
  qed (simp add: cnt_def)
qed simp

lemma cnt_eq_0: "cnt P ts = 0 \<longleftrightarrow> (\<forall>x\<in>set ts. \<not> P x)"
  by (auto simp: cnt_def filter_empty_conv)

lemma cnt_pos: "0 < cnt P ts \<longleftrightarrow> (\<exists>x\<in>set ts. P x)"
  using cnt_eq_0 [of P ts] by auto

lemma signal_pop_census:
  assumes "signal is_pop_wait ts ts'"
  shows "cnt is_push_wait ts' = cnt is_push_wait ts \<and> cnt is_push_ready ts' = cnt is_push_ready ts \<and>
    (cnt is_pop_wait ts' = 0 \<and> cnt is_pop_ready ts \<le> cnt is_pop_ready ts' \<or>
     cnt is_pop_wait ts = Suc (cnt is_pop_wait ts') \<and> cnt is_pop_ready ts' = Suc (cnt is_pop_ready ts))"
  using assms
proof cases
  case nobody
  then show ?thesis by (simp add: cnt_eq_0)
next
  case (one i)
  then obtain n t where "ts ! i = Pop_Wait n t" by (cases "ts ! i") auto
  with one show ?thesis
    using cnt_update [of i ts is_pop_wait "wake (ts ! i)"] cnt_update [of i ts is_pop_ready "wake (ts ! i)"]
      cnt_update [of i ts is_push_wait "wake (ts ! i)"] cnt_update [of i ts is_push_ready "wake (ts ! i)"]
    by simp
qed

lemma signal_push_census:
  assumes "signal is_push_wait ts ts'"
  shows "cnt is_pop_wait ts' = cnt is_pop_wait ts \<and> cnt is_pop_ready ts' = cnt is_pop_ready ts \<and>
    (cnt is_push_wait ts' = 0 \<and> cnt is_push_ready ts \<le> cnt is_push_ready ts' \<or>
     cnt is_push_wait ts = Suc (cnt is_push_wait ts') \<and> cnt is_push_ready ts' = Suc (cnt is_push_ready ts))"
  using assms
proof cases
  case nobody
  then show ?thesis by (simp add: cnt_eq_0)
next
  case (one i)
  then obtain n t where "ts ! i = Push_Wait n t" by (cases "ts ! i") auto
  with one show ?thesis
    using cnt_update [of i ts is_pop_wait "wake (ts ! i)"] cnt_update [of i ts is_pop_ready "wake (ts ! i)"]
      cnt_update [of i ts is_push_wait "wake (ts ! i)"] cnt_update [of i ts is_push_ready "wake (ts ! i)"]
    by simp
qed

text \<open>Only calls with valid arguments wait.\<close>

primrec args_ok :: "thr \<Rightarrow> bool" where
  "args_ok Idle = True"
| "args_ok (Push_Wait d t) = (d \<noteq> None \<and> the d \<noteq> [])"
| "args_ok (Push_Ready d t) = (d \<noteq> None \<and> the d \<noteq> [])"
| "args_ok (Pop_Wait n t) = (n \<noteq> None)"
| "args_ok (Pop_Ready n t) = (n \<noteq> None)"

definition wake_inv :: "bool \<Rightarrow> tb_sys \<Rightarrow> bool" where
  "wake_inv strict s \<longleftrightarrow> list_all args_ok (sy_threads s) \<and>
     (let q = sy_queue s; ts = sy_threads s
      in if tb_is_run q
         then strict \<longrightarrow>
           (0 < cnt is_pop_wait ts \<longrightarrow> tb_count q \<le> cnt is_pop_ready ts) \<and>
           (0 < cnt is_push_wait ts \<longrightarrow> tb_capacity q \<le> tb_count q + cnt is_push_ready ts)
         else cnt is_pop_wait ts = 0 \<and> cnt is_push_wait ts = 0)"

lemma args_ok_wake [simp]: "args_ok (wake x) = args_ok x"
  by (cases x) auto

lemma args_ok_signal: "\<lbrakk>signal P ts ts'; list_all args_ok ts\<rbrakk> \<Longrightarrow> list_all args_ok ts'"
  by (induction rule: signal.induct) (auto intro!: list_all_update intro: list_all_length [THEN iffD1, rule_format])

text \<open>How a step changes the census of the threads, for each way the thread was before.\<close>

lemma census_idle:
  assumes "t < length ts" and "ts ! t = Idle"
  shows "cnt is_push_wait (ts[t := Idle]) = cnt is_push_wait ts"
    "cnt is_push_ready (ts[t := Idle]) = cnt is_push_ready ts"
    "cnt is_pop_wait (ts[t := Idle]) = cnt is_pop_wait ts"
    "cnt is_pop_ready (ts[t := Idle]) = cnt is_pop_ready ts"
  using assms list_update_id [of ts t] by simp_all

lemma census_update:
  assumes "t < length ts"
  shows "cnt is_push_wait (ts[t := x]) + of_bool (is_push_wait (ts ! t)) = cnt is_push_wait ts + of_bool (is_push_wait x) \<and>
    cnt is_push_ready (ts[t := x]) + of_bool (is_push_ready (ts ! t)) = cnt is_push_ready ts + of_bool (is_push_ready x) \<and>
    cnt is_pop_wait (ts[t := x]) + of_bool (is_pop_wait (ts ! t)) = cnt is_pop_wait ts + of_bool (is_pop_wait x) \<and>
    cnt is_pop_ready (ts[t := x]) + of_bool (is_pop_ready (ts ! t)) = cnt is_pop_ready ts + of_bool (is_pop_ready x)"
  using assms by (simp only: cnt_update)

lemma wake_inv_push_waits:
  assumes inv: "sys_inv num s" "wake_inv strict s" and t: "t < length (sy_threads s)"
    "sy_threads s ! t = Idle \<or> sy_threads s ! t = Push_Ready d tm"
    and blocks: "threadboundedqueue_push_block mem d (sy_queue s) = Some Blocks"
  shows "wake_inv strict (s\<lparr>sy_threads := (sy_threads s)[t := Push_Wait d tm]\<rparr>)"
proof -
  have "tb_is_run (sy_queue s)" "tb_capacity (sy_queue s) \<le> tb_count (sy_queue s)" "d \<noteq> None" "the d \<noteq> []"
    using blocks push_block_effect [of "sy_queue s" mem d] inv(1) by (auto simp: sys_inv_def)
  then show ?thesis using inv(2) t census_update [OF t(1), of "Push_Wait d tm"]
    by (auto simp: wake_inv_def Let_def intro!: list_all_update)
qed

lemma wake_inv_pop_waits:
  assumes inv: "sys_inv num s" "wake_inv strict s" and t: "t < length (sy_threads s)"
    "sy_threads s ! t = Idle \<or> sy_threads s ! t = Pop_Ready n tm"
    and blocks: "threadboundedqueue_pop_block n (sy_queue s) = Some Blocks"
  shows "wake_inv strict (s\<lparr>sy_threads := (sy_threads s)[t := Pop_Wait n tm]\<rparr>)"
proof -
  have "tb_is_run (sy_queue s)" "tb_count (sy_queue s) = 0" "n \<noteq> None"
    using blocks pop_block_effect [of "sy_queue s" n] inv(1) by (auto simp: sys_inv_def)
  then show ?thesis using inv(2) t census_update [OF t(1), of "Pop_Wait n tm"]
    by (auto simp: wake_inv_def Let_def intro!: list_all_update)
qed

lemma wake_inv_put:
  assumes inv: "wake_inv strict s" and t: "t < length (sy_threads s)"
    "sy_threads s ! t = Idle \<or> sy_threads s ! t = Push_Ready d tm"
    and eff: "put_effect SUCCESS d (sy_queue s) q" and sig: "signal is_pop_wait ((sy_threads s)[t := Idle]) ts"
  shows "wake_inv strict (s\<lparr>sy_queue := q, sy_threads := ts, sy_log := l\<rparr>)"
proof -
  have "list_all args_ok ts" using inv sig by (auto simp: wake_inv_def intro!: args_ok_signal [OF sig] list_all_update)
  moreover have "tb_is_run (sy_queue s)" "tb_is_run q" "tb_capacity q = tb_capacity (sy_queue s)"
    "tb_count q = Suc (tb_count (sy_queue s))" "tb_count (sy_queue s) < tb_capacity (sy_queue s)"
    using eff put_effect_count [OF eff] by (auto simp: put_effect_def same_queue_def)
  ultimately show ?thesis using inv t(2) census_update [OF t(1), of Idle] signal_pop_census [OF sig]
    by (auto simp: wake_inv_def Let_def)
qed

lemma wake_inv_got:
  assumes inv: "wake_inv strict s" and t: "t < length (sy_threads s)"
    "sy_threads s ! t = Idle \<or> sy_threads s ! t = Pop_Ready n tm"
    and eff: "got_effect SUCCESS n d (sy_queue s) q" and sig: "signal is_push_wait ((sy_threads s)[t := Idle]) ts"
  shows "wake_inv strict (s\<lparr>sy_queue := q, sy_threads := ts, sy_log := l\<rparr>)"
proof -
  have "list_all args_ok ts" using inv sig by (auto simp: wake_inv_def intro!: args_ok_signal [OF sig] list_all_update)
  moreover have "tb_is_run (sy_queue s)" "tb_is_run q" "tb_capacity q = tb_capacity (sy_queue s)"
    "tb_count (sy_queue s) = Suc (tb_count q)"
    using eff got_effect_count [OF eff] by (auto simp: got_effect_def same_queue_def)
  ultimately show ?thesis using inv t(2) census_update [OF t(1), of Idle] signal_push_census [OF sig]
    by (auto simp: wake_inv_def Let_def)
qed

text \<open>A call that fails leaves the numbers of the queue; a woken call fails only once the queue has stopped.\<close>

lemma wake_inv_fails:
  assumes inv: "wake_inv strict s" and t: "t < length (sy_threads s)"
    "strict \<and> tb_is_run (sy_queue s) \<longrightarrow> sy_threads s ! t = Idle"
    and w: "\<not> is_push_wait (sy_threads s ! t)" "\<not> is_pop_wait (sy_threads s ! t)"
    and q: "same_queue (sy_queue s) q" "tb_count q = tb_count (sy_queue s)"
  shows "wake_inv strict (s\<lparr>sy_queue := q, sy_threads := (sy_threads s)[t := Idle], sy_log := l\<rparr>)"
  using inv t(2) w q census_update [OF t(1), of Idle] census_idle [OF t(1)]
  by (auto simp: wake_inv_def Let_def same_queue_def intro!: list_all_update split: if_splits)

lemma wake_inv_wakes:
  assumes "wake_inv strict s" and "t < length (sy_threads s)"
  shows "wake_inv strict (s\<lparr>sy_threads := (sy_threads s)[t := wake (sy_threads s ! t)]\<rparr>)"
proof -
  have "args_ok (wake (sy_threads s ! t))" using assms by (auto simp: wake_inv_def list_all_length)
  then show ?thesis using assms census_update [OF assms(2), of "wake (sy_threads s ! t)"]
    by (cases "sy_threads s ! t") (auto simp: wake_inv_def Let_def intro!: list_all_update)
qed

lemma wake_inv_wait_ends:
  assumes "wake_inv strict s" and "t < length (sy_threads s)"
    and "is_push_wait (sy_threads s ! t) \<or> is_pop_wait (sy_threads s ! t)"
  shows "wake_inv strict (s\<lparr>sy_threads := (sy_threads s)[t := Idle]\<rparr>)"
  using assms census_update [OF assms(2), of Idle]
  by (cases "sy_threads s ! t") (auto simp: wake_inv_def Let_def intro!: list_all_update)

lemma not_wait_wake [simp]: "\<not> is_push_wait (wake x)" "\<not> is_pop_wait (wake x)"
  by (cases x; simp)+

lemma wake_inv_stop:
  assumes "wake_inv strict s" and "threadboundedqueue_stop (sy_queue s) = (r, q)"
  shows "wake_inv strict (s\<lparr>sy_queue := q, sy_threads := (if r then map wake (sy_threads s) else sy_threads s)\<rparr>)"
  using assms by (auto simp: wake_inv_def Let_def threadboundedqueue_stop_def list_all_iff cnt_eq_0 split: if_splits)

lemma wake_inv_push_fails:
  assumes inv: "sys_inv num s" "wake_inv strict s" and t: "t < length (sy_threads s)"
    "sy_threads s ! t = Idle \<or> sy_threads s ! t = Push_Ready d tm"
    and ret: "threadboundedqueue_push_block mem d (sy_queue s) = Some (Returns (ret, q))" "ret \<noteq> SUCCESS"
    "strict \<longrightarrow> ret \<noteq> ERR_MEM"
  shows "wake_inv strict (s\<lparr>sy_queue := q, sy_threads := (sy_threads s)[t := Idle]\<rparr>)"
proof -
  have eff: "put_effect ret d (sy_queue s) q" and r: "ret \<in> {ERR_ARG, ERR_STOP, ERR_MEM}"
    using ret push_block_effect [of "sy_queue s" mem d] inv(1) by (auto simp: sys_inv_def)
  have ok: "args_ok (sy_threads s ! t)" using inv(2) t(1) by (auto simp: wake_inv_def list_all_length)
  have "wake_inv strict (s\<lparr>sy_queue := q, sy_threads := (sy_threads s)[t := Idle], sy_log := sy_log s\<rparr>)"
  proof (rule wake_inv_fails [OF inv(2) t(1)])
    show "strict \<and> tb_is_run (sy_queue s) \<longrightarrow> sy_threads s ! t = Idle" using eff r ret(3) t(2) ok by (auto simp: put_effect_def)
    show "\<not> is_push_wait (sy_threads s ! t)" "\<not> is_pop_wait (sy_threads s ! t)" using t(2) by auto
    show "same_queue (sy_queue s) q" using eff by (simp add: put_effect_def)
    show "tb_count q = tb_count (sy_queue s)" using put_effect_count [OF eff] ret(2) by simp
  qed
  then show ?thesis by simp
qed

lemma wake_inv_pop_fails:
  assumes inv: "sys_inv num s" "wake_inv strict s" and t: "t < length (sy_threads s)"
    "sy_threads s ! t = Idle \<or> sy_threads s ! t = Pop_Ready n tm"
    and ret: "threadboundedqueue_pop_block n (sy_queue s) = Some (Returns (ret, d, q))" "ret \<noteq> SUCCESS"
    "strict \<longrightarrow> ret \<noteq> ERR_LEN"
  shows "wake_inv strict (s\<lparr>sy_queue := q, sy_threads := (sy_threads s)[t := Idle]\<rparr>)"
proof -
  have eff: "got_effect ret n d (sy_queue s) q" and r: "ret \<in> {ERR_ARG, ERR_STOP, ERR_LEN}"
    using ret pop_block_effect [of "sy_queue s" n] inv(1) by (auto simp: sys_inv_def)
  have ok: "args_ok (sy_threads s ! t)" using inv(2) t(1) by (auto simp: wake_inv_def list_all_length)
  have "wake_inv strict (s\<lparr>sy_queue := q, sy_threads := (sy_threads s)[t := Idle], sy_log := sy_log s\<rparr>)"
  proof (rule wake_inv_fails [OF inv(2) t(1)])
    show "strict \<and> tb_is_run (sy_queue s) \<longrightarrow> sy_threads s ! t = Idle" using eff r ret(3) t(2) ok by (auto simp: got_effect_def)
    show "\<not> is_push_wait (sy_threads s ! t)" "\<not> is_pop_wait (sy_threads s ! t)" using t(2) by auto
    show "same_queue (sy_queue s) q" using eff by (simp add: got_effect_def)
    show "tb_count q = tb_count (sy_queue s)" using got_effect_count [OF eff] ret(2) by simp
  qed
  then show ?thesis by simp
qed

lemma wake_inv_push_nonblock:
  assumes inv: "sys_inv num s" "wake_inv strict s" and t: "t < length (sy_threads s)" "sy_threads s ! t = Idle"
    and ret: "threadboundedqueue_push_nonblock mem d (sy_queue s) = Some (ret, q)"
    "if ret = SUCCESS then signal is_pop_wait (sy_threads s) ts else ts = sy_threads s"
  shows "wake_inv strict (s\<lparr>sy_queue := q, sy_threads := ts, sy_log := l\<rparr>)"
proof -
  have eff: "put_effect ret d (sy_queue s) q"
    using ret(1) push_nonblock_effect [of "sy_queue s" mem d] inv(1) by (auto simp: sys_inv_def)
  have id: "(sy_threads s)[t := Idle] = sy_threads s" using t(2) list_update_id [of "sy_threads s" t] by simp
  show ?thesis
  proof (cases "ret = SUCCESS")
    case True
    then show ?thesis using wake_inv_put [OF inv(2) t(1), of d 0 q ts l] t(2) eff ret(2) id by simp
  next
    case False
    then show ?thesis using wake_inv_fails [OF inv(2) t(1), of q l] t(2) eff ret(2) id put_effect_count [OF eff]
      by (simp add: put_effect_def)
  qed
qed

lemma wake_inv_pop_nonblock:
  assumes inv: "sys_inv num s" "wake_inv strict s" and t: "t < length (sy_threads s)" "sy_threads s ! t = Idle"
    and ret: "threadboundedqueue_pop_nonblock n (sy_queue s) = Some (ret, d, q)"
    "if ret = SUCCESS then signal is_push_wait (sy_threads s) ts else ts = sy_threads s"
  shows "wake_inv strict (s\<lparr>sy_queue := q, sy_threads := ts, sy_log := l\<rparr>)"
proof -
  have eff: "got_effect ret n d (sy_queue s) q"
    using ret(1) pop_nonblock_effect [of "sy_queue s" n] inv(1) by (auto simp: sys_inv_def)
  have id: "(sy_threads s)[t := Idle] = sy_threads s" using t(2) list_update_id [of "sy_threads s" t] by simp
  show ?thesis
  proof (cases "ret = SUCCESS")
    case True
    then show ?thesis using wake_inv_got [OF inv(2) t(1), of n 0 d q ts l] t(2) eff ret(2) id by simp
  next
    case False
    then show ?thesis using wake_inv_fails [OF inv(2) t(1), of q l] t(2) eff ret(2) id got_effect_count [OF eff]
      by (simp add: got_effect_def)
  qed
qed

lemma wake_inv_step:
  assumes "tb_step strict s s'" and inv: "sys_inv num s" "wake_inv strict s"
  shows "wake_inv strict s'"
  using assms(1)
proof cases
  case (push_waits t d tm mem)
  then show ?thesis using wake_inv_push_waits [OF inv] by simp
next
  case (push_fails t d tm mem ret q)
  then show ?thesis using wake_inv_push_fails [OF inv] by simp
next
  case (push_done t d tm mem q ts)
  then have "put_effect SUCCESS d (sy_queue s) q" using inv push_block_effect [of "sy_queue s" mem d] by (auto simp: sys_inv_def)
  then show ?thesis using wake_inv_put [OF inv(2)] push_done by simp
next
  case (push_nonblock t mem d ret q ts)
  then show ?thesis using wake_inv_push_nonblock [OF inv push_nonblock(2-5)] by simp
next
  case (pop_waits t n tm)
  then show ?thesis using wake_inv_pop_waits [OF inv] by simp
next
  case (pop_fails t n tm ret d q)
  then show ?thesis using wake_inv_pop_fails [OF inv] by simp
next
  case (pop_done t n tm d q ts)
  then have "got_effect SUCCESS n d (sy_queue s) q" using inv pop_block_effect [of "sy_queue s" n] by (auto simp: sys_inv_def)
  then show ?thesis using wake_inv_got [OF inv(2)] pop_done by simp
next
  case (pop_nonblock t n ret d q ts)
  then show ?thesis using wake_inv_pop_nonblock [OF inv pop_nonblock(2-5)] by simp
next
  case (spurious t)
  then show ?thesis using wake_inv_wakes [OF inv(2)] by simp
next
  case (wait_ends t)
  then show ?thesis using wake_inv_wait_ends [OF inv(2)] by simp
next
  case (timeout_signalled t d tm n)
  then show ?thesis using wake_inv_fails [OF inv(2), of t "sy_queue s" "sy_log s"] by auto
next
  case (stops r q)
  then show ?thesis using wake_inv_stop [OF inv(2)] by simp
qed

lemma wake_inv_reach: "tb_reach strict k num sz s \<Longrightarrow> wake_inv strict s"
proof (induction rule: tb_reach.induct)
  case (start q)
  then show ?case using create_inv [OF start] by (simp add: wake_inv_def Let_def cnt_def list_all_iff)
next
  case (more s s')
  then show ?case using wake_inv_step sys_inv_reach by blast
qed

section \<open>The unbounded queue as a queue\<close>

text \<open>
  The operations of the unbounded queue are critical sections too: a concurrent run is a sequence of
  them, in which a blocking pop that has to wait is the result \<open>Blocked\<close> and is tried again later.
\<close>

datatype tu_op = Tu_Push bool "byte list option" | Tu_Pop_Block "nat option" | Tu_Pop_Nonblock "nat option"
  | Tu_Stop | Tu_Is_Empty

datatype tu_res = Ret tq_ret "byte list" | Blocked | Flag bool

fun tu_step :: "tu_op \<Rightarrow> tuq \<Rightarrow> (tu_res \<times> tuq) option" where
  "tu_step (Tu_Push mem d) q = (case threadunboundedqueue_push mem d q of (ret, q') \<Rightarrow> Some (Ret ret [], q'))"
| "tu_step (Tu_Pop_Block n) q =
     (case threadunboundedqueue_pop_block n q of
        None \<Rightarrow> None
      | Some Blocks \<Rightarrow> Some (Blocked, q)
      | Some (Returns (ret, d, q')) \<Rightarrow> Some (Ret ret d, q'))"
| "tu_step (Tu_Pop_Nonblock n) q =
     (case threadunboundedqueue_pop_nonblock n q of None \<Rightarrow> None | Some (ret, d, q') \<Rightarrow> Some (Ret ret d, q'))"
| "tu_step Tu_Stop q = (case threadunboundedqueue_stop q of (b, q') \<Rightarrow> Some (Flag b, q'))"
| "tu_step Tu_Is_Empty q = Some (Flag (threadunboundedqueue_is_empty q), q)"

definition tu_inv :: "tuq \<Rightarrow> bool" where
  "tu_inv q \<longleftrightarrow> tu_size q = length (tu_queue q) \<and> length (tu_queue q) \<le> tu_live q"

definition tu_pop_spec :: "nat option \<Rightarrow> byte list list \<Rightarrow> tu_res \<Rightarrow> byte list list \<Rightarrow> bool" where
  "tu_pop_spec n q r q' \<longleftrightarrow>
     (\<exists>d. r = Ret SUCCESS d \<and> n \<noteq> None \<and> length d \<le> the n \<and> q = d # q') \<or>
     (q' = q \<and> (r = Ret ERR_ARG [] \<and> n = None \<or> r = Ret ERR_STOP [] \<or>
        (r = Ret ERR_NO_MSG [] \<or> r = Blocked) \<and> q = [] \<or>
        r = Ret ERR_LEN [] \<and> n \<noteq> None \<and> q \<noteq> [] \<and> the n < length (hd q)))"

fun tu_spec :: "tu_op \<Rightarrow> byte list list \<Rightarrow> tu_res \<Rightarrow> byte list list \<Rightarrow> bool" where
  "tu_spec (Tu_Push mem d) q r q' \<longleftrightarrow>
     (r = Ret SUCCESS [] \<and> d \<noteq> None \<and> the d \<noteq> [] \<and> q' = q @ [the d]) \<or>
     (q' = q \<and> (r = Ret ERR_ARG [] \<and> (d = None \<or> the d = []) \<or> r = Ret ERR_MEM [] \<and> \<not> mem \<or> r = Ret ERR_STOP []))"
| "tu_spec (Tu_Pop_Block n) q r q' \<longleftrightarrow> tu_pop_spec n q r q' \<and> r \<noteq> Ret ERR_NO_MSG []"
| "tu_spec (Tu_Pop_Nonblock n) q r q' \<longleftrightarrow> tu_pop_spec n q r q' \<and> r \<noteq> Blocked"
| "tu_spec Tu_Stop q r q' \<longleftrightarrow> q' = q \<and> (\<exists>b. r = Flag b)"
| "tu_spec Tu_Is_Empty q r q' \<longleftrightarrow> q' = q \<and> r = Flag (q = [])"

fun tu_ins :: "tu_op \<Rightarrow> tu_res \<Rightarrow> byte list list" where
  "tu_ins (Tu_Push mem d) (Ret SUCCESS v) = [the d]"
| "tu_ins _ _ = []"

fun tu_outs :: "tu_op \<Rightarrow> tu_res \<Rightarrow> byte list list" where
  "tu_outs (Tu_Pop_Block n) (Ret SUCCESS d) = [d]"
| "tu_outs (Tu_Pop_Nonblock n) (Ret SUCCESS d) = [d]"
| "tu_outs _ _ = []"

lemma tu_take_spec:
  assumes "tu_inv q" and "0 < tu_size q" and "n \<noteq> None"
  shows "\<exists>ret d q'. tu_take (the n) q = Some (ret, d, q') \<and> tu_inv q' \<and>
    tu_pop_spec n (tu_queue q) (Ret ret d) (tu_queue q') \<and> ret \<noteq> ERR_NO_MSG"
  using assms by (cases "tu_queue q") (auto simp: tu_take_def tu_inv_def tu_pop_spec_def)

lemma tu_sim:
  assumes "tu_inv q"
  shows "\<exists>r q'. tu_step x q = Some (r, q') \<and> tu_inv q' \<and> tu_spec x (tu_queue q) r (tu_queue q')"
proof (cases x)
  case (Tu_Push mem d)
  with assms show ?thesis by (auto simp: threadunboundedqueue_push_def tu_inv_def Let_def)
next
  case (Tu_Pop_Block n)
  show ?thesis
  proof (cases "n \<noteq> None \<and> tu_is_run q \<and> 0 < tu_size q")
    case True
    then show ?thesis using tu_take_spec [OF assms, of n] Tu_Pop_Block
      by (auto simp: threadunboundedqueue_pop_block_def)
  next
    case False
    then show ?thesis using assms Tu_Pop_Block
      by (auto simp: threadunboundedqueue_pop_block_def tu_pop_spec_def tu_inv_def)
  qed
next
  case (Tu_Pop_Nonblock n)
  show ?thesis
  proof (cases "n \<noteq> None \<and> tu_is_run q \<and> 0 < tu_size q")
    case True
    then show ?thesis using tu_take_spec [OF assms, of n] Tu_Pop_Nonblock
      by (auto simp: threadunboundedqueue_pop_nonblock_def)
  next
    case False
    then show ?thesis using assms Tu_Pop_Nonblock
      by (auto simp: threadunboundedqueue_pop_nonblock_def tu_pop_spec_def tu_inv_def)
  qed
next
  case Tu_Stop
  with assms show ?thesis by (auto simp: threadunboundedqueue_stop_def tu_inv_def)
next
  case Tu_Is_Empty
  with assms show ?thesis by (auto simp: threadunboundedqueue_is_empty_def tu_inv_def)
qed

lemma tu_spec_flow: "tu_spec x q r q' \<Longrightarrow> q @ tu_ins x r = tu_outs x r @ q'"
  by (cases x) (auto simp: tu_pop_spec_def)

interpretation tuq: fifo tu_inv tu_queue "\<lambda>_ _. True" tu_step tu_spec tu_ins tu_outs
  by unfold_locales (simp_all add: tu_sim tu_spec_flow)

text \<open>The nodes that are allocated and not in the queue are those of the pushes refused after the stop.\<close>

fun refused :: "tu_op \<Rightarrow> tu_res \<Rightarrow> nat" where
  "refused (Tu_Push mem d) (Ret ERR_STOP v) = 1"
| "refused _ _ = 0"

lemma tu_live_step:
  assumes "tu_inv q" and "tu_step x q = Some (r, q')"
  shows "tu_live q' + length (tu_queue q) = tu_live q + length (tu_queue q') + refused x r"
  using assms
  by (cases x) (auto simp: tu_inv_def threadunboundedqueue_push_def threadunboundedqueue_pop_block_def
      threadunboundedqueue_pop_nonblock_def tu_take_def threadunboundedqueue_stop_def Let_def
      split: if_splits list.splits option.splits pass.splits)

lemma tu_live_run:
  "\<lbrakk>tu_inv q; run_ops tu_step xs q = Some (rs, q')\<rbrakk> \<Longrightarrow>
   tu_live q' + length (tu_queue q) = tu_live q + length (tu_queue q') + sum_list (map2 refused xs rs)"
proof (induction xs arbitrary: q rs)
  case (Cons x xs)
  then obtain r q1 rs1 where 1: "tu_step x q = Some (r, q1)" "run_ops tu_step xs q1 = Some (rs1, q')" "rs = r # rs1"
    by (auto split: option.splits)
  moreover have "tu_inv q1" using tu_sim [OF Cons.prems(1), of x] 1 by auto
  ultimately show ?case using Cons.IH [of q1 rs1] tu_live_step [OF Cons.prems(1) 1(1)] by simp
qed simp

lemma uninit_loop_eq: "uninit_loop xs n = n - length xs"
  by (induction xs arbitrary: n) auto

lemma tu_create: "threadunboundedqueue_create mem = Some q \<Longrightarrow> tu_inv q \<and> tu_queue q = [] \<and> tu_live q = 0"
  by (auto simp: threadunboundedqueue_create_def tu_inv_def split: if_splits)

section \<open>A run with two consumers\<close>

definition demo_empty :: tbq where
  "demo_empty = \<lparr>tb_is_run = True, tb_nodes = replicate 2 \<lparr>is_extern = False, nd_len = 0, p_extern = None, nd_data = [0, 0]\<rparr>,
     tb_node_size = 2, tb_capacity = 2, tb_count = 0, tb_head = 0, tb_tail = 0\<rparr>"

definition demo_one :: tbq where
  "demo_one = demo_empty\<lparr>tb_nodes := [\<lparr>is_extern = True, nd_len = 3, p_extern = Some [1, 2, 3], nd_data = [0, 0]\<rparr>,
     \<lparr>is_extern = False, nd_len = 0, p_extern = None, nd_data = [0, 0]\<rparr>], tb_count := 1, tb_head := 1\<rparr>"

text \<open>The first consumer has a buffer of \<open>b\<close> bytes and the timeout \<open>tm\<close>, and the message has woken it.\<close>

definition demo_woken :: "nat \<Rightarrow> nat \<Rightarrow> tb_sys" where
  "demo_woken b tm = \<lparr>sy_queue = demo_one, sy_threads = [Pop_Ready (Some b) tm, Pop_Wait (Some 8) 0, Idle],
     sy_log = [Put [1, 2, 3]]\<rparr>"

abbreviation demo_sys :: tb_sys where
  "demo_sys \<equiv> demo_woken 1 0"

lemma demo_create: "threadboundedqueue_create True True 2 2 = Some demo_empty"
  by (simp add: threadboundedqueue_create_def demo_empty_def numeral_2_eq_2)

lemma demo_put: "threadboundedqueue_push_block True (Some [1, 2, 3]) demo_empty = Some (Returns (SUCCESS, demo_one))"
  by (simp add: threadboundedqueue_push_block_def tb_put_def demo_empty_def demo_one_def free_extern_def numeral_2_eq_2)

lemma demo_blocks: "n \<noteq> None \<Longrightarrow> threadboundedqueue_pop_block n demo_empty = Some Blocks"
  by (auto simp: threadboundedqueue_pop_block_def demo_empty_def)

lemma demo_reach: "tb_reach strict 3 2 2 (demo_woken b tm)"
proof -
  let ?s = "\<lambda>ts. \<lparr>sy_queue = demo_empty, sy_threads = ts, sy_log = []\<rparr>"
  have "tb_reach strict 3 2 2 (?s [Idle, Idle, Idle])"
    using tb_reach.start [OF demo_create, of strict 3] by (simp add: numeral_3_eq_3)
  moreover have "tb_step strict (?s [Idle, Idle, Idle]) (?s [Pop_Wait (Some b) tm, Idle, Idle])"
    using tb_step.pop_waits [of 0 "?s [Idle, Idle, Idle]" "Some b" tm strict] by (simp add: demo_blocks)
  moreover have "tb_step strict (?s [Pop_Wait (Some b) tm, Idle, Idle]) (?s [Pop_Wait (Some b) tm, Pop_Wait (Some 8) 0, Idle])"
    using tb_step.pop_waits [of 1 "?s [Pop_Wait (Some b) tm, Idle, Idle]" "Some 8" 0 strict] by (simp add: demo_blocks)
  moreover have "signal is_pop_wait [Pop_Wait (Some b) tm, Pop_Wait (Some 8) 0, Idle] (sy_threads (demo_woken b tm))"
    using signal.one [of 0 "[Pop_Wait (Some b) tm, Pop_Wait (Some 8) 0, Idle]" is_pop_wait] by (simp add: demo_woken_def)
  then have "tb_step strict (?s [Pop_Wait (Some b) tm, Pop_Wait (Some 8) 0, Idle]) (demo_woken b tm)"
    using tb_step.push_done [of 2 "?s [Pop_Wait (Some b) tm, Pop_Wait (Some 8) 0, Idle]" "Some [1, 2, 3]" 0 True demo_one _ strict]
    by (simp add: demo_put demo_woken_def)
  ultimately show ?thesis by (blast intro: tb_reach.more)
qed

lemma tq_code_inj: "tq_code r = tq_code r' \<longleftrightarrow> r = r'"
  by (cases r; cases r') auto

lemma uninit_frees:
  "list_all (node_ok sz) ns \<Longrightarrow> uninit_nodes ns = List.map_filter p_extern ns"
  by (induction ns) (auto simp: node_ok_def List.map_filter_def)

section \<open>Properties\<close>

text \<open>
  C4. The bounded queue is a linearizable queue with room for \<open>num\<close> messages: however the calls of any
  number of threads interleave, blocking, woken, timed out or stopped, the messages accepted so far are
  the messages delivered so far, in the same order, followed by what the queue holds; it never holds
  more than \<open>num\<close>; whatever a thread calls next runs no undefined behaviour; and \<open>uninit\<close> frees
  every external buffer there is.
\<close>

theorem tbq_interleavings_are_fifo:
  assumes "tb_reach strict threads num sz s"
  shows "puts (sy_log s) = gots (sy_log s) @ tb_content (sy_queue s) \<and>
    length (tb_content (sy_queue s)) \<le> num \<and>
    threadboundedqueue_is_full (sy_queue s) = (length (tb_content (sy_queue s)) = num) \<and>
    threadboundedqueue_is_empty (sy_queue s) = (tb_content (sy_queue s) = []) \<and>
    threadboundedqueue_push_block mem d (sy_queue s) \<noteq> None \<and>
    threadboundedqueue_push_nonblock mem d (sy_queue s) \<noteq> None \<and>
    threadboundedqueue_pop_block n (sy_queue s) \<noteq> None \<and>
    threadboundedqueue_pop_nonblock n (sy_queue s) \<noteq> None \<and>
    threadboundedqueue_uninit (sy_queue s) = List.map_filter p_extern (tb_nodes (sy_queue s))"
proof -
  let ?q = "sy_queue s"
  from sys_inv_reach [OF assms] have inv: "tb_inv ?q" "tb_capacity ?q = num"
    and log: "puts (sy_log s) = gots (sy_log s) @ tb_content ?q" by (auto simp: sys_inv_def)
  have "length (tb_content ?q) \<le> num" using inv by (simp add: tb_inv_def)
  moreover have "threadboundedqueue_is_full ?q = (length (tb_content ?q) = num)"
    using inv by (auto simp: threadboundedqueue_is_full_def tb_inv_def)
  moreover have "threadboundedqueue_is_empty ?q = (tb_content ?q = [])"
    using tb_content_length [of ?q] by (auto simp: threadboundedqueue_is_empty_def simp del: tb_content_length)
  moreover have "threadboundedqueue_push_block mem d ?q \<noteq> None" "threadboundedqueue_push_nonblock mem d ?q \<noteq> None"
    using push_block_effect [OF inv(1), of mem d] push_nonblock_effect [OF inv(1), of mem d] by auto
  moreover have "threadboundedqueue_pop_block n ?q \<noteq> None" "threadboundedqueue_pop_nonblock n ?q \<noteq> None"
    using pop_block_effect [OF inv(1), of n] pop_nonblock_effect [OF inv(1), of n] by auto
  moreover have "threadboundedqueue_uninit ?q = List.map_filter p_extern (tb_nodes ?q)"
    using inv uninit_frees by (auto simp: threadboundedqueue_uninit_def tb_inv_def)
  ultimately show ?thesis using log by blast
qed

theorem tbq_interleavings_are_fifo_witness:
  "tb_reach False 3 2 2 demo_sys \<and> tb_content (sy_queue demo_sys) = [[1, 2, 3]] \<and>
   puts (sy_log demo_sys) = gots (sy_log demo_sys) @ [[1, 2, 3]]"
proof -
  have "tb_content (sy_queue demo_sys) = [[1, 2, 3]]"
    by (simp add: demo_woken_def demo_one_def demo_empty_def tb_content_def window_def node_bytes_def)
  then show ?thesis using demo_reach tbq_interleavings_are_fifo [OF demo_reach [of False 1 0]] by simp
qed

text \<open>
  C19. No wake-up is lost and the stop reaches everyone.  As long as no blocking call fails for want of
  memory or with too small a buffer, and no timed wait ends by a timeout that has consumed a signal: while the queue runs, a consumer waits only if every message in the
  queue has a consumer that is already woken for it, and a producer waits only if every free node has a
  producer that is already woken for it; once the queue is stopped, no thread waits.
\<close>

theorem tbq_no_lost_wakeup:
  assumes "tb_reach True threads num sz s" and "x \<in> set (sy_threads s)"
  shows "if tb_is_run (sy_queue s)
    then (is_pop_wait x \<longrightarrow>
        length (tb_content (sy_queue s)) \<le> length (filter is_pop_ready (sy_threads s))) \<and>
      (is_push_wait x \<longrightarrow>
        num - length (tb_content (sy_queue s)) \<le> length (filter is_push_ready (sy_threads s)))
    else \<not> is_pop_wait x \<and> \<not> is_push_wait x"
proof -
  note w = wake_inv_reach [OF assms(1), unfolded wake_inv_def Let_def]
  have cap: "tb_capacity (sy_queue s) = num" using sys_inv_reach [OF assms(1)] by (simp add: sys_inv_def)
  have "0 < cnt is_pop_wait (sy_threads s)" if "is_pop_wait x" using that assms(2) cnt_pos by blast
  moreover have "0 < cnt is_push_wait (sy_threads s)" if "is_push_wait x" using that assms(2) cnt_pos by blast
  ultimately show ?thesis using w cap by (auto simp: cnt_def split: if_splits)
qed

theorem tbq_no_lost_wakeup_witness:
  "tb_reach True 3 2 2 demo_sys \<and> Pop_Wait (Some 8) 0 \<in> set (sy_threads demo_sys) \<and> tb_is_run (sy_queue demo_sys) \<and>
   length (tb_content (sy_queue demo_sys)) \<le> length (filter is_pop_ready (sy_threads demo_sys))"
proof -
  have 1: "Pop_Wait (Some 8) 0 \<in> set (sy_threads demo_sys)" "tb_is_run (sy_queue demo_sys)"
    by (simp_all add: demo_woken_def demo_one_def demo_empty_def)
  then show ?thesis using demo_reach tbq_no_lost_wakeup [OF demo_reach [of True 1 0] 1(1)] by simp
qed

text \<open>
  C36. Calls that lose a wake-up.  Two consumers wait, one with a buffer of one byte and one with a
  buffer of eight; a message of three bytes arrives and the signal wakes the first, which returns
  \<open>ERR_LEN\<close>, leaves the message in the queue and wakes nobody.  In the state this leads to, the second
  consumer waits on a running queue that holds a message its call would take, and no thread is left
  that is woken.  The same happens when the first has a large buffer and a timeout that expires as the
  signal arrives.
\<close>

theorem tbq_lost_wakeups:
  "(\<exists>s q. tb_reach False 3 2 2 s \<and> tb_is_run (sy_queue s) \<and>
     sy_threads s = [Idle, Pop_Wait (Some 8) 0, Idle] \<and>
     threadboundedqueue_pop_block (Some 8) (sy_queue s) = Some (Returns (SUCCESS, [1, 2, 3], q))) \<and>
   (\<exists>s s' q. tb_reach False 3 2 2 s \<and> sy_threads s = [Pop_Ready (Some 8) 5, Pop_Wait (Some 8) 0, Idle] \<and>
     tb_step False s s' \<and> tb_is_run (sy_queue s') \<and> sy_threads s' = [Idle, Pop_Wait (Some 8) 0, Idle] \<and>
     threadboundedqueue_pop_block (Some 8) (sy_queue s') = Some (Returns (SUCCESS, [1, 2, 3], q)))"
proof -
  let ?s' = "\<lambda>b tm. (demo_woken b tm)\<lparr>sy_threads := [Idle, Pop_Wait (Some 8) 0, Idle]\<rparr>"
  have "threadboundedqueue_pop_block (Some 1) demo_one = Some (Returns (ERR_LEN, [], demo_one))"
    by (simp add: threadboundedqueue_pop_block_def tb_take_def demo_one_def demo_empty_def)
  then have "tb_step False demo_sys (?s' 1 0)"
    using tb_step.pop_fails [of 0 demo_sys "Some 1" 0 ERR_LEN "[]" demo_one False] by (simp add: demo_woken_def)
  with demo_reach have short: "tb_reach False 3 2 2 (?s' 1 0)" by (rule tb_reach.more)
  have late: "tb_step False (demo_woken 8 5) (?s' 8 5)"
    using tb_step.timeout_signalled [of 0 "demo_woken 8 5" _ 5 "Some 8" False] by (simp add: demo_woken_def)
  obtain q where q: "threadboundedqueue_pop_block (Some 8) demo_one = Some (Returns (SUCCESS, [1, 2, 3], q))"
    by (simp add: threadboundedqueue_pop_block_def tb_take_def demo_one_def demo_empty_def mem_read_def)
  have run: "tb_is_run demo_one" by (simp add: demo_one_def demo_empty_def)
  show ?thesis
  proof
    show "\<exists>s q. tb_reach False 3 2 2 s \<and> tb_is_run (sy_queue s) \<and>
        sy_threads s = [Idle, Pop_Wait (Some 8) 0, Idle] \<and>
        threadboundedqueue_pop_block (Some 8) (sy_queue s) = Some (Returns (SUCCESS, [1, 2, 3], q))"
      using short q run by (intro exI [of _ "?s' 1 0"] exI [of _ q]) (simp add: demo_woken_def)
    show "\<exists>s s' q. tb_reach False 3 2 2 s \<and> sy_threads s = [Pop_Ready (Some 8) 5, Pop_Wait (Some 8) 0, Idle] \<and>
        tb_step False s s' \<and> tb_is_run (sy_queue s') \<and> sy_threads s' = [Idle, Pop_Wait (Some 8) 0, Idle] \<and>
        threadboundedqueue_pop_block (Some 8) (sy_queue s') = Some (Returns (SUCCESS, [1, 2, 3], q))"
      using demo_reach [of False 8 5] late q run
      by (intro exI [of _ "demo_woken 8 5"] exI [of _ "?s' 8 5"] exI [of _ q]) (simp add: demo_woken_def)
  qed
qed

text \<open>
  C37. The unbounded queue delivers in order and its memory is accounted for.  Every sequence of calls on
  a new queue runs without undefined behaviour; the messages accepted are those delivered followed by
  those still queued; and after \<open>uninit\<close> the nodes never freed are exactly those of the pushes that
  returned \<open>ERR_STOP\<close>: each of them leaks its node, and nothing else does.
\<close>

theorem tuq_fifo_and_leak:
  assumes "threadunboundedqueue_create mem = Some q0"
  shows "\<exists>rs q. run_ops tu_step xs q0 = Some (rs, q) \<and>
    concat (map2 tu_ins xs rs) = concat (map2 tu_outs xs rs) @ tu_queue q \<and>
    threadunboundedqueue_uninit q = sum_list (map2 refused xs rs)"
proof -
  have q0: "tu_inv q0" "tu_queue q0 = []" "tu_live q0 = 0" using tu_create [OF assms] by auto
  obtain rs q where r: "run_ops tu_step xs q0 = Some (rs, q)"
      "concat (map2 tu_ins xs rs) = concat (map2 tu_outs xs rs) @ tu_queue q"
    using tuq.run_fifo [OF q0(1) admissible_total, of xs] q0(2) by auto
  moreover have "threadunboundedqueue_uninit q = sum_list (map2 refused xs rs)"
    using tu_live_run [OF q0(1) r(1)] q0 by (simp add: threadunboundedqueue_uninit_def uninit_loop_eq)
  ultimately show ?thesis by blast
qed

theorem tuq_fifo_and_leak_witness:
  "\<exists>q0 rs q. threadunboundedqueue_create True = Some q0 \<and>
     run_ops tu_step [Tu_Push True (Some [1]), Tu_Stop, Tu_Push True (Some [2])] q0 = Some (rs, q) \<and>
     threadunboundedqueue_uninit q = 1"
proof -
  let ?xs = "[Tu_Push True (Some [1]), Tu_Stop, Tu_Push True (Some [2])]"
  obtain q0 where q0: "threadunboundedqueue_create True = Some q0" by (simp add: threadunboundedqueue_create_def)
  obtain rs q where r: "run_ops tu_step ?xs q0 = Some (rs, q)" "threadunboundedqueue_uninit q = sum_list (map2 refused ?xs rs)"
    using tuq_fifo_and_leak [OF q0, of ?xs] by blast
  have "rs = [Ret SUCCESS [], Flag True, Ret ERR_STOP []]"
    using r(1) q0 by (auto simp: threadunboundedqueue_create_def threadunboundedqueue_push_def threadunboundedqueue_stop_def)
  with q0 r show ?thesis by auto
qed

end
