(* ===== verification/Pointer_Store.thy ===== *)
theory Pointer_Store
  imports Base_Prelude "HOL-Library.Monad_Syntax"
begin

text \<open>
  Linked nodes in memory.  A store maps the addresses of the live nodes to their contents; a pointer
  is an address or null.  Reading or writing through a null pointer, or through one to a node that is
  not live, has no value.
\<close>

type_synonym addr = nat
type_synonym ptr = "addr option"
type_synonym 'n store = "addr \<Rightarrow> 'n option"

definition deref :: "'n store \<Rightarrow> ptr \<Rightarrow> 'n option" where
  "deref m p = (case p of None \<Rightarrow> None | Some r \<Rightarrow> m r)"

definition assign :: "ptr \<Rightarrow> ('n \<Rightarrow> 'n) \<Rightarrow> 'n store \<Rightarrow> 'n store option" where
  "assign p f m = (case p of None \<Rightarrow> None | Some r \<Rightarrow> (case m r of None \<Rightarrow> None | Some n \<Rightarrow> Some (m(r \<mapsto> f n))))"

text \<open>The assignment guarded by a test for null.\<close>

definition assign_if :: "ptr \<Rightarrow> ('n \<Rightarrow> 'n) \<Rightarrow> 'n store \<Rightarrow> 'n store option" where
  "assign_if p f m = (if p = None then Some m else assign p f m)"

text \<open>
  The store after an assignment, as a function of the address: the proofs compute with it, because it
  needs no case distinction on the pointer.
\<close>

definition patch :: "ptr \<Rightarrow> ('n \<Rightarrow> 'n) \<Rightarrow> 'n store \<Rightarrow> 'n store" where
  "patch p f m = (\<lambda>r. if p = Some r then map_option f (m r) else m r)"

definition live :: "'n store \<Rightarrow> ptr \<Rightarrow> bool" where
  "live m p \<longleftrightarrow> (\<forall>r. p = Some r \<longrightarrow> r \<in> dom m)"

lemma deref_simps [simp]: "deref m None = None" "deref m (Some r) = m r"
  by (simp_all add: deref_def)

lemma live_simps [simp]: "live m None" "live m (Some r) \<longleftrightarrow> r \<in> dom m"
  by (simp_all add: live_def)

lemma patch_None [simp]: "patch None f m = m"
  by (simp add: patch_def)

lemma dom_patch [simp]: "dom (patch p f m) = dom m"
  by (auto simp: patch_def dom_def)

lemma live_patch [simp]: "live (patch p f m) q = live m q"
  by (simp add: live_def)

lemma assign_patch: "r \<in> dom m \<Longrightarrow> assign (Some r) f m = Some (patch (Some r) f m)"
  by (auto simp: assign_def patch_def fun_eq_iff)

lemma assign_if_patch: "live m p \<Longrightarrow> assign_if p f m = Some (patch p f m)"
  by (cases p) (auto simp: assign_if_def assign_patch)

lemma patch_apply: "patch p f m r = (if p = Some r then map_option f (m r) else m r)"
  by (simp add: patch_def)

end
