(* ===== verification/Binary_Heap.thy ===== *)
theory Binary_Heap
  imports Pointer_Store
begin

text \<open>
  The heap of \<open>base/inc/dsa/heap.h\<close>: a complete binary tree of nodes linked by parent, left and
  right pointers, ordered by a comparison function.  The store holds the nodes, inside the heap or
  not.  \<open>nelts\<close> and \<open>path\<close> are of type \<open>int\<close>; a heap has fewer than \<open>2 ^ 31\<close> nodes, so they are
  taken as natural numbers.
\<close>

section \<open>The code\<close>

record heap_node =
  hn_parent :: ptr
  hn_left :: ptr
  hn_right :: ptr

record heap =
  h_mem :: "heap_node store"
  h_root :: ptr
  h_nelts :: nat

type_synonym heap_compare = "(addr \<Rightarrow> addr \<Rightarrow> bool) option"

definition heap_init :: "heap \<Rightarrow> heap" where
  "heap_init h = h\<lparr>h_root := None, h_nelts := 0\<rparr>"

definition on_mem :: "(heap_node store \<Rightarrow> heap_node store option) \<Rightarrow> heap \<Rightarrow> heap option" where
  "on_mem f h = map_option (\<lambda>m. h\<lparr>h_mem := m\<rparr>) (f (h_mem h))"

text \<open>The first statement of \<open>heap_replace\<close> and of \<open>heap_swap\<close>: the parent of \<open>s\<close> gets the child \<open>r\<close>.\<close>

definition relink :: "ptr \<Rightarrow> addr \<Rightarrow> ptr \<Rightarrow> heap \<Rightarrow> heap option" where
  "relink p s r h =
     (if p = None then Some (h\<lparr>h_root := r\<rparr>)
      else on_mem (assign p (\<lambda>n. if hn_left n = Some s then n\<lparr>hn_left := r\<rparr>
                                 else if hn_right n = Some s then n\<lparr>hn_right := r\<rparr> else n)) h)"

definition heap_replace :: "addr \<Rightarrow> ptr \<Rightarrow> heap \<Rightarrow> heap option" where
  "heap_replace s r h =
     do { ns \<leftarrow> h_mem h s;
          h \<leftarrow> relink (hn_parent ns) s r h;
          ns \<leftarrow> h_mem h s;
          h \<leftarrow> on_mem (assign_if (hn_left ns) (\<lambda>n. n\<lparr>hn_parent := r\<rparr>)) h;
          ns \<leftarrow> h_mem h s;
          h \<leftarrow> on_mem (assign_if (hn_right ns) (\<lambda>n. n\<lparr>hn_parent := r\<rparr>)) h;
          ns \<leftarrow> h_mem h s;
          on_mem (assign_if r (\<lambda>n. n\<lparr>hn_parent := hn_parent ns, hn_left := hn_left ns, hn_right := hn_right ns\<rparr>)) h }"

definition heap_swap :: "addr \<Rightarrow> addr \<Rightarrow> heap \<Rightarrow> heap option" where
  "heap_swap parent child h =
     do { np \<leftarrow> h_mem h parent;
          nc \<leftarrow> h_mem h child;
          if \<not> (hn_parent nc = Some parent \<and> (hn_left np = Some child \<or> hn_right np = Some child)) then None
          else
            do { h \<leftarrow> relink (hn_parent np) parent (Some child) h;
                 h \<leftarrow> on_mem (assign_if (hn_left nc) (\<lambda>n. n\<lparr>hn_parent := Some parent\<rparr>)) h;
                 h \<leftarrow> on_mem (assign_if (hn_right nc) (\<lambda>n. n\<lparr>hn_parent := Some parent\<rparr>)) h;
                 h \<leftarrow> on_mem (assign (Some child) (\<lambda>n. n\<lparr>hn_parent := hn_parent np\<rparr>)) h;
                 np \<leftarrow> h_mem h parent;
                 let sibling = (if hn_left np = Some child then hn_right np else hn_left np);
                 h \<leftarrow> on_mem (assign (Some child)
                   (\<lambda>n. if hn_left np = Some child then n\<lparr>hn_left := Some parent, hn_right := sibling\<rparr>
                        else n\<lparr>hn_left := sibling, hn_right := Some parent\<rparr>)) h;
                 h \<leftarrow> on_mem (assign_if sibling (\<lambda>n. n\<lparr>hn_parent := Some child\<rparr>)) h;
                 on_mem (assign (Some parent)
                   (\<lambda>n. n\<lparr>hn_parent := Some child, hn_left := hn_left nc, hn_right := hn_right nc\<rparr>)) h } }"

text \<open>The path to the last node, from the bottom up: the pair \<open>(path, d)\<close> after the loop.\<close>

fun heap_path :: "nat \<Rightarrow> nat \<Rightarrow> nat \<Rightarrow> nat \<times> nat" where
  "heap_path path d n = (if n \<ge> 2 then heap_path (2 * path + n mod 2) (d + 1) (n div 2) else (path, d))"

fun heap_walk :: "heap_node store \<Rightarrow> nat \<Rightarrow> nat \<Rightarrow> ptr \<Rightarrow> (nat \<times> ptr) option" where
  "heap_walk m d path parent =
     (if d > 1
      then do { n \<leftarrow> deref m parent;
                heap_walk m (d - 1) (path div 2) (if path mod 2 = 1 then hn_right n else hn_left n) }
      else Some (path, parent))"

partial_function (option) sift_up :: "(addr \<Rightarrow> addr \<Rightarrow> bool) \<Rightarrow> addr \<Rightarrow> heap \<Rightarrow> heap option" where
  "sift_up compare node h =
     do { n \<leftarrow> h_mem h node;
          case hn_parent n of
            None \<Rightarrow> Some h
          | Some p \<Rightarrow> if compare node p then do { h \<leftarrow> heap_swap p node h; sift_up compare node h } else Some h }"

partial_function (option) sift_down :: "(addr \<Rightarrow> addr \<Rightarrow> bool) \<Rightarrow> addr \<Rightarrow> heap \<Rightarrow> heap option" where
  "sift_down compare v h =
     do { n \<leftarrow> h_mem h v;
          let est = (case hn_left n of None \<Rightarrow> v | Some l \<Rightarrow> if compare v l then v else l);
          let est = (case hn_right n of None \<Rightarrow> est | Some r \<Rightarrow> if compare est r then est else r);
          if est = v then Some h
          else do { h \<leftarrow> heap_swap v est h; sift_down compare v h } }"

definition heap_insert :: "heap_compare \<Rightarrow> addr \<Rightarrow> heap \<Rightarrow> heap option" where
  "heap_insert compare node h =
     do { let h = h\<lparr>h_nelts := h_nelts h + 1\<rparr>;
          let (path, d) = heap_path 0 0 (h_nelts h);
          (path, parent) \<leftarrow> heap_walk (h_mem h) d path (h_root h);
          h \<leftarrow> on_mem (assign (Some node) (\<lambda>n. n\<lparr>hn_parent := parent\<rparr>)) h;
          h \<leftarrow> (if parent = None then Some (h\<lparr>h_root := Some node\<rparr>)
                else on_mem (assign parent (\<lambda>n. if path mod 2 = 1 then n\<lparr>hn_right := Some node\<rparr>
                                                else n\<lparr>hn_left := Some node\<rparr>)) h);
          case compare of None \<Rightarrow> Some h | Some cmp \<Rightarrow> sift_up cmp node h }"

definition heap_remove :: "heap_compare \<Rightarrow> addr \<Rightarrow> heap \<Rightarrow> heap option" where
  "heap_remove compare node h =
     (if h_nelts h = 0 then Some h
      else
        do { let (path, d) = heap_path 0 0 (h_nelts h);
             let h = h\<lparr>h_nelts := h_nelts h - 1\<rparr>;
             (path, parent) \<leftarrow> heap_walk (h_mem h) d path (h_root h);
             case parent of
               None \<Rightarrow> Some h
             | Some p \<Rightarrow>
                 do { np \<leftarrow> h_mem h p;
                      let last = (if path mod 2 = 1 then hn_right np else hn_left np);
                      h \<leftarrow> on_mem (assign parent (\<lambda>n. if path mod 2 = 1 then n\<lparr>hn_right := None\<rparr>
                                                      else n\<lparr>hn_left := None\<rparr>)) h;
                      case last of
                        None \<Rightarrow> Some (if h_root h = Some node then h\<lparr>h_root := None\<rparr> else h)
                      | Some v \<Rightarrow>
                          do { h \<leftarrow> heap_replace node last h;
                               h \<leftarrow> on_mem (assign (Some node)
                                 (\<lambda>n. n\<lparr>hn_parent := None, hn_left := None, hn_right := None\<rparr>)) h;
                               case compare of
                                 None \<Rightarrow> Some h
                               | Some cmp \<Rightarrow> do { h \<leftarrow> sift_down cmp v h; sift_up cmp v h } } } })"

definition heap_dequeue :: "heap_compare \<Rightarrow> heap \<Rightarrow> heap option" where
  "heap_dequeue compare h =
     (case h_root h of
        None \<Rightarrow> if h_nelts h = 0 then Some h else None
      | Some r \<Rightarrow> heap_remove compare r h)"

declare heap_path.simps [simp del] heap_walk.simps [simp del]

section \<open>Positions\<close>

text \<open>
  The nodes of a complete tree are numbered from 1, level by level: the children of position \<open>k\<close> are
  \<open>2 k\<close> and \<open>2 k + 1\<close>.  \<open>arr k\<close> is the node at position \<open>k\<close>.
\<close>

definition pos :: "(nat \<Rightarrow> addr) \<Rightarrow> nat \<Rightarrow> nat \<Rightarrow> ptr" where
  "pos arr n k = (if 1 \<le> k \<and> k \<le> n then Some (arr k) else None)"

definition links :: "(nat \<Rightarrow> addr) \<Rightarrow> nat \<Rightarrow> nat \<Rightarrow> heap_node" where
  "links arr n k = \<lparr>hn_parent = pos arr n (k div 2), hn_left = pos arr n (2 * k), hn_right = pos arr n (2 * k + 1)\<rparr>"

definition layout :: "heap \<Rightarrow> (nat \<Rightarrow> addr) \<Rightarrow> nat \<Rightarrow> bool" where
  "layout h arr n \<longleftrightarrow> h_nelts h = n \<and> h_root h = pos arr n 1 \<and> inj_on arr {1..n} \<and>
     (\<forall>k\<in>{1..n}. h_mem h (arr k) = Some (links arr n k))"

lemma layout_mem: "\<lbrakk>layout h arr n; 1 \<le> k; k \<le> n\<rbrakk> \<Longrightarrow> h_mem h (arr k) = Some (links arr n k)"
  by (simp add: layout_def)

lemma layout_inj: "\<lbrakk>layout h arr n; 1 \<le> j; j \<le> n; 1 \<le> k; k \<le> n\<rbrakk> \<Longrightarrow> arr j = arr k \<longleftrightarrow> j = k"
  by (auto simp: layout_def dest: inj_onD)

lemma pos_0 [simp]: "pos arr n 0 = None"
  by (simp add: pos_def)

lemma pos_in: "1 \<le> k \<Longrightarrow> k \<le> n \<Longrightarrow> pos arr n k = Some (arr k)"
  by (simp add: pos_def)

lemma pos_eq_None: "pos arr n k = None \<longleftrightarrow> k = 0 \<or> n < k"
  by (auto simp: pos_def)

lemma pos_eq_arr: "\<lbrakk>layout h arr n; 1 \<le> j; j \<le> n\<rbrakk> \<Longrightarrow> pos arr n k = Some (arr j) \<longleftrightarrow> k = j"
  by (auto simp: pos_def layout_inj)

lemma layout_live: "layout h arr n \<Longrightarrow> live (h_mem h) (pos arr n k)"
  by (auto simp: pos_def layout_mem)

lemma links_simps [simp]:
  "hn_parent (links arr n k) = pos arr n (k div 2)"
  "hn_left (links arr n k) = pos arr n (2 * k)"
  "hn_right (links arr n k) = pos arr n (2 * k + 1)"
  by (simp_all add: links_def)

lemma on_mem_simps:
  "r \<in> dom (h_mem h) \<Longrightarrow> on_mem (assign (Some r) f) h = Some (h\<lparr>h_mem := patch (Some r) f (h_mem h)\<rparr>)"
  "live (h_mem h) p \<Longrightarrow> on_mem (assign_if p f) h = Some (h\<lparr>h_mem := patch p f (h_mem h)\<rparr>)"
  by (simp_all add: on_mem_def assign_patch assign_if_patch)

definition relink_fn :: "addr \<Rightarrow> ptr \<Rightarrow> heap_node \<Rightarrow> heap_node" where
  "relink_fn s r n = (if hn_left n = Some s then n\<lparr>hn_left := r\<rparr> else if hn_right n = Some s then n\<lparr>hn_right := r\<rparr> else n)"

lemma relink_eq:
  "live (h_mem h) p \<Longrightarrow> relink p s r h =
     Some (h\<lparr>h_mem := patch p (relink_fn s r) (h_mem h), h_root := if p = None then r else h_root h\<rparr>)"
  by (cases p) (auto simp: relink_def on_mem_simps relink_fn_def [abs_def])

definition swap_at :: "nat \<Rightarrow> nat \<Rightarrow> (nat \<Rightarrow> addr) \<Rightarrow> nat \<Rightarrow> addr" where
  "swap_at i j arr = arr(i := arr j, j := arr i)"

lemma heap_swap_eq:
  assumes mem: "h_mem h p = Some np" "h_mem h c = Some nc" "p \<noteq> c"
    and par: "hn_parent nc = Some p" "hn_left np = Some c \<or> hn_right np = Some c"
    and lv: "live (h_mem h) (hn_parent np)" "live (h_mem h) (hn_left np)" "live (h_mem h) (hn_right np)"
      "live (h_mem h) (hn_left nc)" "live (h_mem h) (hn_right nc)"
    and ne: "hn_parent np \<noteq> Some p" "hn_left nc \<noteq> Some p" "hn_right nc \<noteq> Some p"
    and sib: "sib = (if hn_left np = Some c then hn_right np else hn_left np)"
  shows "heap_swap p c h = Some (h\<lparr>h_mem :=
      patch (Some p) (\<lambda>x. x\<lparr>hn_parent := Some c, hn_left := hn_left nc, hn_right := hn_right nc\<rparr>)
      (patch sib (\<lambda>x. x\<lparr>hn_parent := Some c\<rparr>)
      (patch (Some c) (\<lambda>x. if hn_left np = Some c then x\<lparr>hn_left := Some p, hn_right := sib\<rparr>
                        else x\<lparr>hn_left := sib, hn_right := Some p\<rparr>)
      (patch (Some c) (\<lambda>x. x\<lparr>hn_parent := hn_parent np\<rparr>)
      (patch (hn_right nc) (\<lambda>x. x\<lparr>hn_parent := Some p\<rparr>)
      (patch (hn_left nc) (\<lambda>x. x\<lparr>hn_parent := Some p\<rparr>)
      (patch (hn_parent np) (relink_fn p (Some c)) (h_mem h))))))),
    h_root := if hn_parent np = None then Some c else h_root h\<rparr>)"
proof -
  have dm: "p \<in> dom (h_mem h)" "c \<in> dom (h_mem h)" using mem by auto
  have "live (h_mem h) sib" using lv sib by simp
  then show ?thesis using mem par ne unfolding heap_swap_def
    by (simp add: relink_eq lv on_mem_simps dm patch_apply Let_def sib)
qed

lemma swap_at_inj: "\<lbrakk>inj_on arr A; i \<in> A; j \<in> A\<rbrakk> \<Longrightarrow> inj_on (swap_at i j arr) A"
  unfolding inj_on_def swap_at_def by simp blast

lemma pos_swap_at:
  "\<lbrakk>1 \<le> i; i \<le> n; 1 \<le> j; j \<le> n\<rbrakk> \<Longrightarrow>
   pos (swap_at i j arr) n k = (if k = j then Some (arr i) else if k = i then Some (arr j) else pos arr n k)"
  by (simp add: pos_def swap_at_def)

lemma patch_pos:
  "\<lbrakk>layout h arr n; 1 \<le> k; k \<le> n\<rbrakk> \<Longrightarrow>
   patch (pos arr n j) f m (arr k) = (if j = k then map_option f (m (arr k)) else m (arr k))"
  by (simp add: patch_apply pos_eq_arr)

lemma patch_frame: "r \<notin> arr ` {1..n} \<Longrightarrow> patch (pos arr n j) f m r = m r"
  by (auto simp: patch_apply pos_def)

lemma patch_frame_arr: "\<lbrakk>r \<notin> arr ` {1..n}; 1 \<le> j; j \<le> n\<rbrakk> \<Longrightarrow> patch (Some (arr j)) f m r = m r"
  by (auto simp: patch_apply)

lemma patch_arr:
  "\<lbrakk>layout h arr n; 1 \<le> k; k \<le> n; 1 \<le> j; j \<le> n\<rbrakk> \<Longrightarrow>
   patch (Some (arr j)) f m (arr k) = (if j = k then map_option f (m (arr k)) else m (arr k))"
  using layout_inj by (simp add: patch_apply)

text \<open>The store after a swap of the nodes at position \<open>i\<close> and at its parent position \<open>p\<close>.\<close>

definition swap_mem :: "(nat \<Rightarrow> addr) \<Rightarrow> nat \<Rightarrow> nat \<Rightarrow> nat \<Rightarrow> heap_node store \<Rightarrow> heap_node store" where
  "swap_mem arr n p i m =
     (let sib = pos arr n (if i = 2 * p then 2 * p + 1 else 2 * p)
      in patch (Some (arr p)) (\<lambda>x. x\<lparr>hn_parent := Some (arr i), hn_left := pos arr n (2 * i), hn_right := pos arr n (2 * i + 1)\<rparr>)
        (patch sib (\<lambda>x. x\<lparr>hn_parent := Some (arr i)\<rparr>)
        (patch (Some (arr i)) (\<lambda>x. if i = 2 * p then x\<lparr>hn_left := Some (arr p), hn_right := sib\<rparr>
                            else x\<lparr>hn_left := sib, hn_right := Some (arr p)\<rparr>)
        (patch (Some (arr i)) (\<lambda>x. x\<lparr>hn_parent := pos arr n (p div 2)\<rparr>)
        (patch (pos arr n (2 * i + 1)) (\<lambda>x. x\<lparr>hn_parent := Some (arr p)\<rparr>)
        (patch (pos arr n (2 * i)) (\<lambda>x. x\<lparr>hn_parent := Some (arr p)\<rparr>)
        (patch (pos arr n (p div 2)) (relink_fn (arr p) (Some (arr i))) m)))))))"

lemma heap_swap_mem:
  assumes lay: "layout h arr n" and i: "2 \<le> i" "i \<le> n" and p: "p = i div 2"
  shows "heap_swap (arr p) (arr i) h =
    Some (h\<lparr>h_mem := swap_mem arr n p i (h_mem h), h_root := if p div 2 = 0 then Some (arr i) else h_root h\<rparr>)"
proof -
  have pn: "1 \<le> p" "p \<le> n" "p < i" "1 \<le> i" and ip: "i = 2 * p \<or> i = 2 * p + 1" using i p by auto
  note mem = layout_mem [OF lay] and eqs = pos_eq_arr [OF lay] and lv = layout_live [OF lay]
  let ?s = "pos arr n (if i = 2 * p then 2 * p + 1 else 2 * p)"
  have ne: "arr p \<noteq> arr i" using layout_inj [OF lay] pn i by simp
  have lp: "pos arr n (2 * p) = Some (arr i) \<longleftrightarrow> i = 2 * p" "pos arr n (2 * p + 1) = Some (arr i) \<longleftrightarrow> i = 2 * p + 1"
    using eqs [of i] i pn by auto
  have up: "pos arr n (p div 2) = None \<longleftrightarrow> p div 2 = 0" using pn by (auto simp: pos_eq_None)
  show ?thesis
    unfolding swap_mem_def up [symmetric] Let_def
    by (rule heap_swap_eq [OF mem [OF pn(1,2)] mem [OF pn(4) i(2)] ne, of ?s, unfolded links_simps lp])
      (use pn i ip in \<open>simp_all add: lv eqs p [symmetric] pos_in\<close>)
qed

lemma swap_mem_links:
  assumes lay: "layout h arr n" and i: "2 \<le> i" "i \<le> n" and p: "p = i div 2" and k: "1 \<le> k" "k \<le> n"
  shows "swap_mem arr n p i (h_mem h) (swap_at p i arr k) = Some (links (swap_at p i arr) n k)"
proof -
  let ?m = "swap_mem arr n p i (h_mem h)" and ?s = "if i = 2 * p then 2 * p + 1 else 2 * p"
  have pn: "1 \<le> p" "p \<le> n" "p < i" "1 \<le> i" "p \<noteq> i" and ip: "i = 2 * p \<or> i = 2 * p + 1" using i p by auto
  have pd: "p div 2 < p" "p div 2 \<noteq> p" "p div 2 < i" "p div 2 \<noteq> i" using pn by auto
  note mem = layout_mem [OF lay] and eqs = pos_eq_arr [OF lay]
  note pa = patch_arr [OF lay] patch_pos [OF lay]
  consider "k = p" | "k = i" | "k = ?s" "k \<noteq> p" "k \<noteq> i" | "k = 2 * i" | "k = 2 * i + 1" | "k = p div 2"
    | "k \<noteq> p" "k \<noteq> i" "k \<noteq> ?s" "k \<noteq> 2 * i" "k \<noteq> 2 * i + 1" "k \<noteq> p div 2" by blast
  then show ?thesis
  proof cases
    case 1
    have "?m (arr i) = Some (links (swap_at p i arr) n p)"
      using ip by (rule disjE) (use pn pd i in \<open>simp_all add: swap_mem_def Let_def pa mem links_def pos_swap_at\<close>)
    with 1 show ?thesis using pn by (simp add: swap_at_def)
  next
    case 2
    have "?m (arr p) = Some (links (swap_at p i arr) n i)"
      using ip by (rule disjE) (use pn pd i in \<open>simp_all add: swap_mem_def Let_def pa mem links_def pos_swap_at\<close>)
    with 2 show ?thesis using pn by (simp add: swap_at_def)
  next
    case 3
    have "?m (arr k) = Some (links (swap_at p i arr) n k)"
      using ip by (rule disjE) (use 3 k pn pd i in \<open>simp_all add: swap_mem_def Let_def pa mem links_def pos_swap_at\<close>)
    with 3 show ?thesis by (simp add: swap_at_def)
  next
    case 4
    have "?m (arr k) = Some (links (swap_at p i arr) n k)"
      using ip by (rule disjE) (use 4 k pn pd i in \<open>simp_all add: swap_mem_def Let_def pa mem links_def pos_swap_at\<close>)
    with 4 show ?thesis using pn by (simp add: swap_at_def)
  next
    case 5
    have "?m (arr k) = Some (links (swap_at p i arr) n k)"
      using ip by (rule disjE) (use 5 k pn pd i in \<open>simp_all add: swap_mem_def Let_def pa mem links_def pos_swap_at\<close>)
    with 5 show ?thesis using pn by (simp add: swap_at_def)
  next
    case 6
    then have pk: "p = 2 * k \<or> p = 2 * k + 1" by auto
    have "?m (arr k) = Some (links (swap_at p i arr) n k)"
      using ip pk by (elim disjE) (use k pn i div_le_dividend [of k 2] in \<open>auto simp: swap_mem_def Let_def pa mem links_def pos_swap_at relink_fn_def eqs\<close>)
    with 6 show ?thesis using pd by (simp add: swap_at_def)
  next
    case 7
    have ki: "2 * k \<noteq> i" "2 * k + 1 \<noteq> i" using 7(1) ip by presburger+
    from 7 have ks: "2 * k \<noteq> p" "2 * k + 1 \<noteq> p" "k div 2 \<noteq> p" "k div 2 \<noteq> i" using ip by (auto simp: split: if_splits)
    have "?m (arr k) = Some (links (swap_at p i arr) n k)"
      using ip by (rule disjE) (use 7 ks ki k pn pd i in \<open>simp_all add: swap_mem_def Let_def pa mem links_def pos_swap_at\<close>)
    with 7 show ?thesis by (simp add: swap_at_def)
  qed
qed

lemma heap_swap_layout:
  assumes lay: "layout h arr n" and i: "2 \<le> i" "i \<le> n" and p: "p = i div 2"
  shows "\<exists>h'. heap_swap (arr p) (arr i) h = Some h' \<and> layout h' (swap_at p i arr) n \<and> dom (h_mem h') = dom (h_mem h) \<and>
    (\<forall>r. r \<notin> arr ` {1..n} \<longrightarrow> h_mem h' r = h_mem h r)"
proof -
  let ?h = "h\<lparr>h_mem := swap_mem arr n p i (h_mem h), h_root := if p div 2 = 0 then Some (arr i) else h_root h\<rparr>"
  have pn: "1 \<le> p" "p \<le> n" "1 \<le> i" "i \<le> n" using i p by auto
  have "h_root h = pos arr n 1" "p div 2 = 0 \<longleftrightarrow> p = 1" "i \<noteq> 1" using lay pn i by (auto simp: layout_def)
  then have "h_root ?h = pos (swap_at p i arr) n 1" using pos_swap_at [OF pn, of arr 1] by simp
  moreover have "inj_on (swap_at p i arr) {1..n}"
    using lay pn i by (intro swap_at_inj) (simp_all add: layout_def)
  ultimately have "layout ?h (swap_at p i arr) n" using lay swap_mem_links [OF lay i p] by (simp add: layout_def)
  moreover have "dom (h_mem ?h) = dom (h_mem h)" by (simp add: swap_mem_def Let_def)
  moreover have "h_mem ?h r = h_mem h r" if "r \<notin> arr ` {1..n}" for r
    using pn by (simp add: swap_mem_def Let_def patch_frame [OF that] patch_frame_arr [OF that])
  ultimately show ?thesis using heap_swap_mem [OF lay i p] by blast
qed

section \<open>The order\<close>

definition heap_ordered :: "(addr \<Rightarrow> addr \<Rightarrow> bool) \<Rightarrow> (nat \<Rightarrow> addr) \<Rightarrow> nat \<Rightarrow> bool" where
  "heap_ordered cmp arr n \<longleftrightarrow> (\<forall>k. 2 \<le> k \<and> k \<le> n \<longrightarrow> \<not> cmp (arr k) (arr (k div 2)))"

text \<open>The order with position \<open>i\<close> exempted, and the order between \<open>i\<close> and its children.\<close>

definition hole :: "(addr \<Rightarrow> addr \<Rightarrow> bool) \<Rightarrow> (nat \<Rightarrow> addr) \<Rightarrow> nat \<Rightarrow> nat \<Rightarrow> bool" where
  "hole cmp arr n i \<longleftrightarrow>
     (\<forall>k. 2 \<le> k \<and> k \<le> n \<and> k \<noteq> i \<and> k div 2 \<noteq> i \<longrightarrow> \<not> cmp (arr k) (arr (k div 2))) \<and>
     (\<forall>k. 2 \<le> i \<and> k \<le> n \<and> k div 2 = i \<longrightarrow> \<not> cmp (arr k) (arr (i div 2)))"

definition below :: "(addr \<Rightarrow> addr \<Rightarrow> bool) \<Rightarrow> (nat \<Rightarrow> addr) \<Rightarrow> nat \<Rightarrow> nat \<Rightarrow> bool" where
  "below cmp arr n i \<longleftrightarrow> (\<forall>k. k \<le> n \<and> k div 2 = i \<longrightarrow> \<not> cmp (arr k) (arr i))"

text \<open>What the operations leave alone: the set of live nodes, and the nodes outside a set.\<close>

definition only_changes :: "addr set \<Rightarrow> heap \<Rightarrow> heap \<Rightarrow> bool" where
  "only_changes S h h' \<longleftrightarrow> dom (h_mem h') = dom (h_mem h) \<and> (\<forall>r. r \<notin> S \<longrightarrow> h_mem h' r = h_mem h r)"

lemma only_changes_refl [simp]: "only_changes S h h"
  by (simp add: only_changes_def)

lemma only_changes_trans: "\<lbrakk>only_changes S h h'; only_changes S h' h''\<rbrakk> \<Longrightarrow> only_changes S h h''"
  by (simp add: only_changes_def)

lemma only_changes_mono: "\<lbrakk>only_changes S h h'; S \<subseteq> T\<rbrakk> \<Longrightarrow> only_changes T h h'"
  by (auto simp: only_changes_def)

lemma swap_at_image: "\<lbrakk>i \<in> A; j \<in> A\<rbrakk> \<Longrightarrow> swap_at i j arr ` A = arr ` A"
  by (auto simp: swap_at_def image_iff)

lemma heap_swap_step:
  assumes "layout h arr n" and "2 \<le> i" "i \<le> n"
  obtains h' where "heap_swap (arr (i div 2)) (arr i) h = Some h'" "layout h' (swap_at (i div 2) i arr) n"
    "only_changes (arr ` {1..n}) h h'" "swap_at (i div 2) i arr ` {1..n} = arr ` {1..n}"
proof -
  have "swap_at (i div 2) i arr ` {1..n} = arr ` {1..n}" using assms by (intro swap_at_image) auto
  with that heap_swap_layout [OF assms refl] show thesis by (auto simp: only_changes_def)
qed

text \<open>The child that \<open>sift_down\<close> picks: the least of the node and its children.\<close>

definition est_of :: "(addr \<Rightarrow> addr \<Rightarrow> bool) \<Rightarrow> (nat \<Rightarrow> addr) \<Rightarrow> nat \<Rightarrow> nat \<Rightarrow> nat" where
  "est_of cmp arr n i =
     (let e = (if 2 * i \<le> n then if cmp (arr i) (arr (2 * i)) then i else 2 * i else i)
      in if 2 * i + 1 \<le> n then if cmp (arr e) (arr (2 * i + 1)) then e else 2 * i + 1 else e)"

locale heap_order =
  fixes cmp :: "addr \<Rightarrow> addr \<Rightarrow> bool"
  assumes asym: "cmp a b \<Longrightarrow> \<not> cmp b a"
    and neg_trans: "\<lbrakk>\<not> cmp a b; \<not> cmp b c\<rbrakk> \<Longrightarrow> \<not> cmp a c"
begin

lemma less_trans_neg: "\<lbrakk>\<not> cmp a b; cmp c b\<rbrakk> \<Longrightarrow> \<not> cmp a c"
  using neg_trans asym by blast

lemma hole_done:
  "\<lbrakk>hole cmp arr n i; below cmp arr n i; i = 1 \<or> \<not> cmp (arr i) (arr (i div 2))\<rbrakk> \<Longrightarrow> heap_ordered cmp arr n"
  by (fastforce simp: hole_def below_def heap_ordered_def)

lemma hole_up:
  assumes hole: "hole cmp arr n i" "below cmp arr n i" and i: "2 \<le> i" "i \<le> n"
    and lt: "cmp (arr i) (arr (i div 2))"
  defines "p \<equiv> i div 2" and "arr' \<equiv> swap_at (i div 2) i arr"
  shows "hole cmp arr' n p \<and> below cmp arr' n p"
proof
  have p: "1 \<le> p" "p < i" "p \<noteq> i" using i by (auto simp: p_def)
  have at: "arr' p = arr i" "arr' i = arr p" "\<And>k. k \<noteq> p \<Longrightarrow> k \<noteq> i \<Longrightarrow> arr' k = arr k"
    using p by (auto simp: arr'_def swap_at_def p_def)
  have sib: "\<not> cmp (arr k) (arr p)" if "k \<le> n" "k div 2 = p" "k \<noteq> i" for k
    using hole(1) that p unfolding hole_def by auto
  have gp: "\<not> cmp (arr p) (arr (p div 2))" if "2 \<le> p" using hole(1) that p i unfolding hole_def by auto
  show "below cmp arr' n p"
  proof (unfold below_def, intro allI impI)
    fix k assume k: "k \<le> n \<and> k div 2 = p"
    then have "k \<noteq> p" using p by auto
    show "\<not> cmp (arr' k) (arr' p)"
    proof (cases "k = i")
      case True
      then show ?thesis using asym [OF lt] at by (simp add: p_def)
    next
      case False
      then show ?thesis using less_trans_neg [OF sib [of k]] lt k at \<open>k \<noteq> p\<close> by (simp add: p_def)
    qed
  qed
  show "hole cmp arr' n p"
  proof (unfold hole_def, intro conjI allI impI)
    fix k assume k: "2 \<le> k \<and> k \<le> n \<and> k \<noteq> p \<and> k div 2 \<noteq> p"
    then have "k \<noteq> i" by (auto simp: p_def)
    show "\<not> cmp (arr' k) (arr' (k div 2))"
    proof (cases "k div 2 = i")
      case True
      then show ?thesis using hole(1) k i at \<open>k \<noteq> i\<close> unfolding hole_def by (auto simp: p_def)
    next
      case False
      then show ?thesis using hole(1) k at \<open>k \<noteq> i\<close> unfolding hole_def by auto
    qed
  next
    fix k assume k: "2 \<le> p \<and> k \<le> n \<and> k div 2 = p"
    then have ne: "k \<noteq> p" "p div 2 \<noteq> p" "p div 2 \<noteq> i" using p by auto
    show "\<not> cmp (arr' k) (arr' (p div 2))"
    proof (cases "k = i")
      case True
      then show ?thesis using gp k at ne by simp
    next
      case False
      then show ?thesis using neg_trans [OF sib gp] k at ne by simp
    qed
  qed
qed

lemma hole_down:
  assumes hole: "hole cmp arr n i" and c: "c div 2 = i" "1 \<le> i" "c \<le> n"
    and least: "\<And>k. k \<le> n \<Longrightarrow> k div 2 = i \<Longrightarrow> \<not> cmp (arr k) (arr c)"
  shows "hole cmp (swap_at i c arr) n c"
proof -
  have ic: "i < c" "i \<noteq> c" "2 \<le> c" using c by auto
  show ?thesis
  proof (unfold hole_def, intro conjI allI impI)
    fix k assume k: "2 \<le> k \<and> k \<le> n \<and> k \<noteq> c \<and> k div 2 \<noteq> c"
    consider "k = i" | "k \<noteq> i" "k div 2 = i" | "k \<noteq> i" "k div 2 \<noteq> i" by blast
    then show "\<not> cmp (swap_at i c arr k) (swap_at i c arr (k div 2))"
    proof cases
      case 1
      then show ?thesis using hole k c ic unfolding hole_def by (auto simp: swap_at_def)
    next
      case 2
      then show ?thesis using least k ic by (simp add: swap_at_def)
    next
      case 3
      then show ?thesis using hole k ic unfolding hole_def by (simp add: swap_at_def)
    qed
  next
    fix k assume k: "2 \<le> c \<and> k \<le> n \<and> k div 2 = c"
    then have "2 \<le> k" "k \<noteq> c" "k \<noteq> i" "k div 2 \<noteq> i" using ic by auto
    then show "\<not> cmp (swap_at i c arr k) (swap_at i c arr (c div 2))"
      using hole k c ic unfolding hole_def by (auto simp: swap_at_def)
  qed
qed

lemma sift_up_layout:
  "\<lbrakk>layout h arr n; 1 \<le> i; i \<le> n; hole cmp arr n i; below cmp arr n i\<rbrakk> \<Longrightarrow>
   \<exists>h' arr'. sift_up cmp (arr i) h = Some h' \<and> layout h' arr' n \<and> heap_ordered cmp arr' n \<and>
     arr' ` {1..n} = arr ` {1..n} \<and> only_changes (arr ` {1..n}) h h'"
proof (induction i arbitrary: h arr rule: less_induct)
  case (less i)
  note lay = less.prems(1)
  show ?case
  proof (cases "2 \<le> i \<and> cmp (arr i) (arr (i div 2))")
    case True
    let ?arr = "swap_at (i div 2) i arr"
    obtain h1 where h1: "heap_swap (arr (i div 2)) (arr i) h = Some h1" "layout h1 ?arr n"
      "only_changes (arr ` {1..n}) h h1" "?arr ` {1..n} = arr ` {1..n}"
      using heap_swap_step [OF lay] True less.prems by blast
    have div: "i div 2 < i" "1 \<le> i div 2" "i div 2 \<le> n" using True less.prems by auto
    have "hole cmp ?arr n (i div 2) \<and> below cmp ?arr n (i div 2)"
      using hole_up less.prems True by blast
    then obtain h' arr' where h': "sift_up cmp (?arr (i div 2)) h1 = Some h'" "layout h' arr' n" "heap_ordered cmp arr' n"
      "arr' ` {1..n} = arr ` {1..n}" "only_changes (arr ` {1..n}) h1 h'"
      using less.IH [OF div(1) h1(2) div(2,3)] h1(4) by auto
    have "?arr (i div 2) = arr i" using True by (auto simp: swap_at_def)
    then have "sift_up cmp (arr i) h = Some h'"
      using h1 h' True less.prems div by (subst sift_up.simps) (simp add: layout_mem [OF lay] pos_in)
    with h' only_changes_trans [OF h1(3)] show ?thesis by blast
  next
    case False
    then have "sift_up cmp (arr i) h = Some h"
      using less.prems by (subst sift_up.simps) (auto simp: layout_mem [OF lay] pos_def split: option.split)
    moreover have "heap_ordered cmp arr n" using hole_done less.prems False by (cases "i = 1") auto
    ultimately show ?thesis using lay by auto
  qed
qed

lemma est_of_least:
  assumes "k \<le> n" and "k div 2 = i" and "1 \<le> i"
  shows "\<not> cmp (arr k) (arr (est_of cmp arr n i))"
proof -
  define e where "e = (if 2 * i \<le> n then if cmp (arr i) (arr (2 * i)) then i else 2 * i else i)"
  have est: "est_of cmp arr n i = (if 2 * i + 1 \<le> n then if cmp (arr e) (arr (2 * i + 1)) then e else 2 * i + 1 else e)"
    by (simp add: est_of_def Let_def e_def)
  have irr: "\<not> cmp a a" for a using asym by blast
  have e: "\<not> cmp (arr (2 * i)) (arr e)" if "2 * i \<le> n" using that asym irr by (simp add: e_def)
  consider "k = 2 * i" | "k = 2 * i + 1" using assms by linarith
  then show ?thesis
  proof cases
    case 1
    with assms e have "\<not> cmp (arr k) (arr e)" by simp
    then show ?thesis using neg_trans [of "arr k" "arr e" "arr (2 * i + 1)"] by (simp add: est)
  next
    case 2
    then show ?thesis using assms irr asym [of "arr e" "arr (2 * i + 1)"] by (simp add: est)
  qed
qed

lemma est_of_child: "est_of cmp arr n i = i \<or> (est_of cmp arr n i \<le> n \<and> est_of cmp arr n i div 2 = i)"
  by (auto simp: est_of_def Let_def)

lemma sift_down_unfold:
  assumes lay: "layout h arr n" and i: "1 \<le> i" "i \<le> n"
  shows "sift_down cmp (arr i) h =
    (if est_of cmp arr n i = i then Some h
     else do { h \<leftarrow> heap_swap (arr i) (arr (est_of cmp arr n i)) h; sift_down cmp (arr i) h })"
proof -
  have inj: "arr j = arr i \<longleftrightarrow> j = i" if "1 \<le> j" "j \<le> n" for j using layout_inj [OF lay that i] .
  show ?thesis
    by (subst sift_down.simps) (use i inj in \<open>auto simp: layout_mem [OF lay] pos_def est_of_def Let_def\<close>)
qed

lemma sift_down_layout:
  "\<lbrakk>layout h arr n; 1 \<le> i; i \<le> n; hole cmp arr n i\<rbrakk> \<Longrightarrow>
   \<exists>h' arr' j. sift_down cmp (arr i) h = Some h' \<and> layout h' arr' n \<and> 1 \<le> j \<and> j \<le> n \<and> arr' j = arr i \<and>
     hole cmp arr' n j \<and> below cmp arr' n j \<and> arr' ` {1..n} = arr ` {1..n} \<and> only_changes (arr ` {1..n}) h h'"
proof (induction "n - i" arbitrary: i h arr rule: less_induct)
  case less
  note lay = less.prems(1)
  let ?e = "est_of cmp arr n i"
  show ?case
  proof (cases "?e = i")
    case True
    then have "below cmp arr n i" using est_of_least [of _ n i arr] less.prems(2) by (simp add: below_def)
    moreover have "sift_down cmp (arr i) h = Some h" using sift_down_unfold [OF less.prems(1-3)] True by simp
    ultimately show ?thesis using less.prems by auto
  next
    case False
    let ?arr = "swap_at i ?e arr"
    have e: "?e \<le> n" "?e div 2 = i" using est_of_child [of arr n i] False by auto
    then have e2: "2 \<le> ?e" "i < ?e" "1 \<le> ?e" using less.prems by auto
    then have down: "n - ?e < n - i" using e(1) by linarith
    obtain h1 where h1: "heap_swap (arr i) (arr ?e) h = Some h1" "layout h1 ?arr n"
      "only_changes (arr ` {1..n}) h h1" "?arr ` {1..n} = arr ` {1..n}"
      using heap_swap_step [OF lay e2(1) e(1)] e(2) by auto
    have "hole cmp ?arr n ?e" using hole_down [OF less.prems(4) e(2)] less.prems e est_of_least by blast
    then obtain h' arr' j where h': "sift_down cmp (?arr ?e) h1 = Some h'" "layout h' arr' n" "1 \<le> j" "j \<le> n"
      "arr' j = ?arr ?e" "hole cmp arr' n j" "below cmp arr' n j" "arr' ` {1..n} = arr ` {1..n}"
      "only_changes (arr ` {1..n}) h1 h'"
      using less.hyps [OF down h1(2) e2(3) e(1)] h1(4) by auto
    have at: "?arr ?e = arr i" by (simp add: swap_at_def)
    then have "sift_down cmp (arr i) h = Some h'" using h1 h' False by (subst sift_down_unfold [OF less.prems(1-3)]) simp
    with h' at only_changes_trans [OF h1(3)] show ?thesis by (metis (no_types, lifting))
  qed
qed

end

section \<open>The last position\<close>

fun goto :: "nat \<Rightarrow> nat \<Rightarrow> nat \<Rightarrow> nat" where
  "goto path 0 j = j"
| "goto path (Suc d) j = goto (path div 2) d (2 * j + path mod 2)"

lemma path_goto:
  "\<lbrakk>heap_path path d n = (path', d'); 1 \<le> n\<rbrakk> \<Longrightarrow> goto path' d' 1 = goto path d n"
proof (induction path d n rule: heap_path.induct)
  case (1 path d n)
  show ?case
  proof (cases "2 \<le> n")
    case True
    have "goto path' d' 1 = goto (2 * path + n mod 2) (d + 1) (n div 2)"
      using "1.IH" [OF True] "1.prems" True heap_path.simps [of path d n] by simp
    also have "\<dots> = goto path d n" by (simp add: div_add1_eq)
    finally show ?thesis .
  next
    case False
    then show ?thesis using "1.prems" heap_path.simps [of path d n] by (cases "n = 1") auto
  qed
qed

lemma goto_ge: "2 ^ d * j \<le> goto path d j"
proof (induction d arbitrary: path j)
  case (Suc d)
  have "2 ^ Suc d * j \<le> 2 ^ d * (2 * j + path mod 2)" by (simp add: algebra_simps)
  also have "\<dots> \<le> goto (path div 2) d (2 * j + path mod 2)" by (rule Suc)
  finally show ?case by simp
qed simp

lemma heap_walk_pos:
  "\<lbrakk>layout h arr n; 1 \<le> j; goto path (Suc d) j = N; N div 2 \<le> n\<rbrakk> \<Longrightarrow>
   \<exists>path'. heap_walk (h_mem h) (Suc d) path (pos arr n j) = Some (path', pos arr n (N div 2)) \<and> path' mod 2 = N mod 2"
proof (induction d arbitrary: path j)
  case 0
  then show ?case by (auto simp: heap_walk.simps)
next
  case (Suc d)
  let ?j = "2 * j + path mod 2"
  have "2 ^ Suc (Suc d) * j \<le> N" using goto_ge [of "Suc (Suc d)" j path] Suc.prems by simp
  moreover have "2 * j \<le> 2 ^ Suc (Suc d) * j" by simp
  ultimately have "j \<le> n" using Suc.prems by linarith
  then have "heap_walk (h_mem h) (Suc (Suc d)) path (pos arr n j) = heap_walk (h_mem h) (Suc d) (path div 2) (pos arr n ?j)"
    using Suc.prems by (subst heap_walk.simps) (auto simp: pos_in layout_mem mod_2_eq_odd)
  then show ?case using Suc.IH [of ?j "path div 2"] Suc.prems by simp
qed

lemma heap_locate:
  assumes lay: "layout h arr n" and N: "2 \<le> N" "N div 2 \<le> n" and path: "heap_path 0 0 N = (path, d)"
  obtains path' where "heap_walk (h_mem h) d path (h_root h) = Some (path', pos arr n (N div 2))" "path' mod 2 = N mod 2"
proof -
  have "goto path d 1 = N" using path_goto [OF path] N by simp
  moreover from this obtain d' where "d = Suc d'" using N by (cases d) auto
  moreover have "h_root h = pos arr n 1" using lay by (simp add: layout_def)
  ultimately show thesis using that heap_walk_pos [OF lay, of 1 path d' N] N by auto
qed

lemma heap_path_1: "heap_path 0 0 (Suc 0) = (0, 0)"
  by (simp add: heap_path.simps)

lemma heap_walk_0: "heap_walk m 0 path p = Some (path, p)"
  by (simp add: heap_walk.simps)

section \<open>Insertion\<close>

lemma pos_snoc: "pos (arr(Suc n := x)) (Suc n) k = (if k = Suc n then Some x else pos arr n k)"
  by (auto simp: pos_def)

lemma append_layout:
  assumes lay: "layout h arr n" and x: "x \<notin> arr ` {1..n}" "h_mem h x = Some nd" "hn_left nd = None" "hn_right nd = None"
  defines "N \<equiv> Suc n"
  defines "link \<equiv> (\<lambda>y. if N mod 2 = 1 then y\<lparr>hn_right := Some x\<rparr> else y\<lparr>hn_left := Some x\<rparr>)"
  defines "h' \<equiv> h\<lparr>h_nelts := N,
    h_mem := patch (pos arr n (N div 2)) link (patch (Some x) (\<lambda>y. y\<lparr>hn_parent := pos arr n (N div 2)\<rparr>) (h_mem h)), h_root := if n = 0 then Some x else h_root h\<rparr>"
  shows "layout h' (arr(N := x)) N"
proof -
  let ?m = "h_mem h'"
  have ne: "arr k \<noteq> x" if "1 \<le> k" "k \<le> n" for k using x(1) that by auto
  have ps: "pos (arr(N := x)) N k = (if k = N then Some x else pos arr n k)" for k by (simp add: N_def pos_snoc)
  have "inj_on (arr(N := x)) {1..n}" using lay x(1) by (intro inj_on_fun_updI) (simp_all add: layout_def)
  moreover have "{1..N} = insert N {1..n}" by (auto simp: N_def)
  moreover have "(arr(N := x)) ` ({1..n} - {N}) = arr ` {1..n}" by (auto simp: N_def)
  ultimately have inj: "inj_on (arr(N := x)) {1..N}" using x(1) by (simp add: inj_on_insert)
  have "pos arr n (N div 2) \<noteq> Some x" using ne by (auto simp: pos_def)
  then have mx: "?m x = Some (links (arr(N := x)) N N)"
    using x by (simp add: h'_def patch_apply links_def ps) (simp add: pos_def N_def)
  have mk: "?m (arr k) = Some (links (arr(N := x)) N k)" if k: "1 \<le> k" "k \<le> n" for k
  proof -
    have v: "?m (arr k) = Some (if N div 2 = k then link (links arr n k) else links arr n k)"
      using ne [OF k] k by (simp add: h'_def patch_apply pos_eq_arr [OF lay k] layout_mem [OF lay])
    have lk: "links (arr(N := x)) N k = \<lparr>hn_parent = if k div 2 = N then Some x else pos arr n (k div 2),
        hn_left = if 2 * k = N then Some x else pos arr n (2 * k), hn_right = if 2 * k + 1 = N then Some x else pos arr n (2 * k + 1)\<rparr>"
      by (simp add: links_def ps)
    show ?thesis
    proof (cases "N div 2 = k")
      case True
      then have "N = 2 * k + N mod 2" "k div 2 \<noteq> N" "N mod 2 < 2" using k by (auto simp: N_def)
      then show ?thesis unfolding v lk using True by (cases "N mod 2 = 1") (auto simp: link_def links_def)
    next
      case False
      then have "2 * k \<noteq> N" "2 * k + 1 \<noteq> N" "k div 2 \<noteq> N" using k by (auto simp: N_def)
      then show ?thesis unfolding v lk using False by (simp add: links_def)
    qed
  qed
  have "h_root h' = pos (arr(N := x)) N 1" using lay by (simp add: h'_def layout_def N_def pos_snoc)
  moreover have "?m ((arr(N := x)) k) = Some (links (arr(N := x)) N k)" if "k \<in> {1..N}" for k
    using that mx mk [of k] by (cases "k = N") (auto simp: N_def)
  ultimately show ?thesis using inj by (simp add: layout_def h'_def)
qed

context heap_order
begin

lemma heap_insert_layout:
  assumes lay: "layout h arr n" and ord: "heap_ordered cmp arr n"
    and x: "x \<notin> arr ` {1..n}" "h_mem h x = Some nd" "hn_left nd = None" "hn_right nd = None"
  shows "\<exists>h' arr'. heap_insert (Some cmp) x h = Some h' \<and> layout h' arr' (Suc n) \<and> heap_ordered cmp arr' (Suc n) \<and>
    arr' ` {1..Suc n} = insert x (arr ` {1..n}) \<and> only_changes (insert x (arr ` {1..n})) h h'"
proof -
  let ?N = "Suc n" and ?arr = "arr(Suc n := x)"
  define link :: "heap_node \<Rightarrow> heap_node" where "link = (\<lambda>y. if ?N mod 2 = 1 then y\<lparr>hn_right := Some x\<rparr> else y\<lparr>hn_left := Some x\<rparr>)"
  define h1 where "h1 = h\<lparr>h_nelts := ?N,
    h_mem := patch (pos arr n (?N div 2)) link (patch (Some x) (\<lambda>y. y\<lparr>hn_parent := pos arr n (?N div 2)\<rparr>) (h_mem h)), h_root := if n = 0 then Some x else h_root h\<rparr>"
  have lay1: "layout h1 ?arr ?N" using append_layout [OF lay x] by (simp add: h1_def link_def)
  have nelts: "h_nelts h = n" and root: "h_root h = pos arr n 1" using lay by (auto simp: layout_def)
  have xd: "x \<in> dom (h_mem h)" using x(2) by auto
  have ins: "heap_insert (Some cmp) x h = sift_up cmp x h1"
  proof (cases "n = 0")
    case True
    then show ?thesis using x(2) nelts root
      by (simp add: heap_insert_def heap_path_1 heap_walk_0 h1_def on_mem_simps xd Let_def pos_def)
  next
    case False
    obtain path d where pd: "heap_path 0 0 ?N = (path, d)" by force
    have inn: "2 \<le> ?N" "?N div 2 \<le> n" "1 \<le> ?N div 2" using False by auto
    obtain path' where w: "heap_walk (h_mem h) d path (h_root h) = Some (path', pos arr n (?N div 2))" "path' mod 2 = ?N mod 2"
      using heap_locate [OF lay inn(1,2) pd] .
    from inn have "arr (?N div 2) \<in> dom (h_mem h)" using layout_mem [OF lay] by auto
    then show ?thesis using x(2) nelts False w pd inn
      by (simp add: heap_insert_def h1_def on_mem_simps xd pos_in link_def Let_def)
  qed
  have "hole cmp ?arr ?N ?N" "below cmp ?arr ?N ?N"
    using ord by (auto simp: hole_def below_def heap_ordered_def)
  then obtain h' arr' where h': "sift_up cmp x h1 = Some h'" "layout h' arr' ?N" "heap_ordered cmp arr' ?N"
    "arr' ` {1..?N} = ?arr ` {1..?N}" "only_changes (?arr ` {1..?N}) h1 h'"
    using sift_up_layout [OF lay1, of ?N] by auto
  have im: "?arr ` {1..?N} = insert x (arr ` {1..n})" by (auto simp: image_iff le_Suc_eq)
  have "only_changes (insert x (arr ` {1..n})) h h1"
    by (auto simp: only_changes_def h1_def patch_apply pos_def)
  with h' ins im show ?thesis using only_changes_trans by (metis (no_types, lifting))
qed

end

section \<open>Removal\<close>

text \<open>The last node is cut off.\<close>

lemma cut_layout:
  assumes lay: "layout h arr (Suc m)" and m: "1 \<le> m"
  defines "N \<equiv> Suc m"
  defines "chop \<equiv> (\<lambda>y :: heap_node. if N mod 2 = 1 then y\<lparr>hn_right := None\<rparr> else y\<lparr>hn_left := None\<rparr>)"
  defines "h' \<equiv> h\<lparr>h_nelts := m, h_mem := patch (Some (arr (N div 2))) chop (h_mem h)\<rparr>"
  shows "layout h' arr m \<and> h_mem h' (arr N) = Some (links arr N N)"
proof -
  let ?m = "h_mem h'"
  note lay' = lay [folded N_def]
  have d: "1 \<le> N div 2" "N div 2 \<le> N" "N div 2 \<noteq> N" using m by (auto simp: N_def)
  have ps: "pos arr N k = (if k = N then Some (arr N) else pos arr m k)" for k by (auto simp: pos_def N_def)
  have v: "?m (arr k) = Some (if N div 2 = k then chop (links arr N k) else links arr N k)" if "1 \<le> k" "k \<le> N" for k
    using that d by (simp add: h'_def patch_arr [OF lay'] layout_mem [OF lay'])
  have lk: "links arr N k = \<lparr>hn_parent = if k div 2 = N then Some (arr N) else pos arr m (k div 2),
      hn_left = if 2 * k = N then Some (arr N) else pos arr m (2 * k),
      hn_right = if 2 * k + 1 = N then Some (arr N) else pos arr m (2 * k + 1)\<rparr>" for k
    unfolding links_def ps ..
  have "?m (arr k) = Some (links arr m k)" if k: "1 \<le> k" "k \<le> m" for k
  proof (cases "N div 2 = k")
    case True
    then have "N = 2 * k + N mod 2" "k div 2 \<noteq> N" "N mod 2 < 2" using k by (auto simp: N_def)
    moreover have "pos arr m N = None" by (simp add: pos_def N_def)
    moreover have "?m (arr k) = Some (chop (links arr N k))" using v [of k] k True by (simp add: N_def)
    ultimately show ?thesis unfolding lk by (cases "N mod 2 = 1") (auto simp: chop_def links_def)
  next
    case False
    then have "2 * k \<noteq> N" "2 * k + 1 \<noteq> N" "k div 2 \<noteq> N" using k by (auto simp: N_def)
    moreover have "?m (arr k) = Some (links arr N k)" using v [of k] k False by (simp add: N_def)
    ultimately show ?thesis unfolding lk by (simp add: links_def)
  qed
  moreover have "inj_on arr {1..m}" using lay by (auto simp: layout_def inj_on_def)
  moreover have "h_root h' = pos arr m 1" using lay m by (simp add: layout_def h'_def pos_def)
  ultimately have "layout h' arr m" by (simp add: layout_def h'_def)
  moreover have "?m (arr N) = Some (links arr N N)" using v [of N] d by (simp add: N_def)
  ultimately show ?thesis by simp
qed

text \<open>The node at position \<open>i\<close> is replaced by a node from outside.\<close>

definition replace_mem :: "(nat \<Rightarrow> addr) \<Rightarrow> nat \<Rightarrow> nat \<Rightarrow> addr \<Rightarrow> heap_node store \<Rightarrow> heap_node store" where
  "replace_mem arr n i v m =
     patch (Some v) (\<lambda>x. x\<lparr>hn_parent := pos arr n (i div 2), hn_left := pos arr n (2 * i), hn_right := pos arr n (2 * i + 1)\<rparr>)
     (patch (pos arr n (2 * i + 1)) (\<lambda>x. x\<lparr>hn_parent := Some v\<rparr>)
     (patch (pos arr n (2 * i)) (\<lambda>x. x\<lparr>hn_parent := Some v\<rparr>)
     (patch (pos arr n (i div 2)) (relink_fn (arr i) (Some v)) m)))"

lemma heap_replace_mem:
  assumes lay: "layout h arr n" and i: "1 \<le> i" "i \<le> n" and v: "v \<in> dom (h_mem h)"
  shows "heap_replace (arr i) (Some v) h =
    Some (h\<lparr>h_mem := replace_mem arr n i v (h_mem h), h_root := if i = 1 then Some v else h_root h\<rparr>)"
proof -
  note eqs = pos_eq_arr [OF lay i] and lv = layout_live [OF lay]
  have ne: "2 * i \<noteq> i" "2 * i + 1 \<noteq> i" "i div 2 \<noteq> i" using i by auto
  have up: "pos arr n (i div 2) = None \<longleftrightarrow> i = 1" using i by (auto simp: pos_eq_None)
  show ?thesis
    unfolding heap_replace_def replace_mem_def up [symmetric]
    using ne i v by (simp add: layout_mem [OF lay] relink_eq on_mem_simps lv patch_apply eqs)
qed

lemma replace_mem_links:
  assumes lay: "layout h arr n" and i: "1 \<le> i" "i \<le> n" and v: "v \<in> dom (h_mem h)" "v \<notin> arr ` {1..n}"
    and k: "1 \<le> k" "k \<le> n"
  shows "replace_mem arr n i v (h_mem h) ((arr(i := v)) k) = Some (links (arr(i := v)) n k)"
proof -
  let ?m = "replace_mem arr n i v (h_mem h)"
  note mem = layout_mem [OF lay] and eqs = pos_eq_arr [OF lay] and pp = patch_pos [OF lay]
  have ne: "arr j \<noteq> v" if "1 \<le> j" "j \<le> n" for j using v(2) that by auto
  have pv: "pos arr n j \<noteq> Some v" for j using ne by (auto simp: pos_def)
  have ps: "pos (arr(i := v)) n j = (if j = i then Some v else pos arr n j)" for j using i by (simp add: pos_def)
  have idx: "i div 2 \<noteq> i" "2 * i \<noteq> i" "2 * i + 1 \<noteq> i" using i by auto
  consider "k = i" | "k = 2 * i" | "k = 2 * i + 1" | "k = i div 2"
    | "k \<noteq> i" "k \<noteq> 2 * i" "k \<noteq> 2 * i + 1" "k \<noteq> i div 2" by blast
  then show ?thesis
  proof cases
    case 1
    obtain nd where nd: "h_mem h v = Some nd" using v(1) by auto
    have "?m v = Some (links (arr(i := v)) n i)" using idx pv nd by (simp add: replace_mem_def patch_apply links_def ps)
    with 1 show ?thesis by simp
  next
    case 2
    have "?m (arr k) = Some (links (arr(i := v)) n k)"
      using 2 k i idx ne [of k] by (simp add: replace_mem_def patch_apply eqs mem links_def ps)
    with 2 idx show ?thesis by simp
  next
    case 3
    have "?m (arr k) = Some (links (arr(i := v)) n k)"
      using 3 k i idx ne [of k] by (simp add: replace_mem_def patch_apply eqs mem links_def ps)
    with 3 idx show ?thesis by simp
  next
    case 4
    then have ik: "i = 2 * k \<or> i = 2 * k + 1" by auto
    have mk: "?m (arr k) = Some (relink_fn (arr i) (Some v) (links arr n k))"
      using 4 k i idx ne [of k] by (auto simp: replace_mem_def patch_apply eqs mem)
    have "?m (arr k) = Some (links (arr(i := v)) n k)"
      unfolding mk links_def [of "arr(i := v)"] ps using ik k i eqs [OF i] div_le_dividend [of k 2]
      by (auto simp: relink_fn_def links_def)
    with 4 idx show ?thesis by simp
  next
    case 5
    then have "k div 2 \<noteq> i" "2 * k \<noteq> i" "2 * k + 1 \<noteq> i" by auto
    then have "?m (arr k) = Some (links (arr(i := v)) n k)"
      using 5 k i ne [of k] by (simp add: replace_mem_def patch_apply eqs mem links_def ps)
    with 5 show ?thesis by simp
  qed
qed

lemma heap_replace_layout:
  assumes lay: "layout h arr n" and i: "1 \<le> i" "i \<le> n" and v: "v \<in> dom (h_mem h)" "v \<notin> arr ` {1..n}"
  obtains h' where "heap_replace (arr i) (Some v) h = Some h'" "layout h' (arr(i := v)) n"
    "only_changes (insert v (arr ` {1..n})) h h'"
proof -
  let ?h = "h\<lparr>h_mem := replace_mem arr n i v (h_mem h), h_root := if i = 1 then Some v else h_root h\<rparr>"
  have "inj_on (arr(i := v)) {1..n}" using lay v(2) by (intro inj_on_fun_updI) (simp_all add: layout_def)
  moreover have "h_root ?h = pos (arr(i := v)) n 1" using lay i by (simp add: layout_def pos_def)
  ultimately have "layout ?h (arr(i := v)) n" using lay replace_mem_links [OF lay i v] by (simp add: layout_def)
  moreover have "only_changes (insert v (arr ` {1..n})) h ?h"
    by (auto simp: only_changes_def replace_mem_def patch_frame patch_apply [of "Some v"])
  ultimately show thesis using that heap_replace_mem [OF lay i v(1)] by blast
qed

definition unlinked :: heap_node where
  "unlinked = \<lparr>hn_parent = None, hn_left = None, hn_right = None\<rparr>"

lemma clear_layout:
  assumes "layout h arr n" and "x \<notin> arr ` {1..n}" and "x \<in> dom (h_mem h)"
  obtains h' where "on_mem (assign (Some x) (\<lambda>n. n\<lparr>hn_parent := None, hn_left := None, hn_right := None\<rparr>)) h = Some h'"
    "layout h' arr n" "h_mem h' x = Some unlinked" "only_changes {x} h h'"
proof -
  let ?f = "\<lambda>n. n\<lparr>hn_parent := None, hn_left := None, hn_right := None\<rparr>"
  let ?h = "h\<lparr>h_mem := patch (Some x) ?f (h_mem h)\<rparr>"
  have "patch (Some x) ?f (h_mem h) (arr k) = h_mem h (arr k)" if "k \<in> {1..n}" for k
    using that assms(2) by (auto simp: patch_apply)
  then have "layout ?h arr n" using assms(1) by (simp add: layout_def)
  moreover have "h_mem ?h x = Some unlinked" using assms(3) by (auto simp: patch_apply unlinked_def)
  moreover have "only_changes {x} h ?h" by (simp add: only_changes_def patch_apply)
  ultimately show thesis using that assms(3) by (simp add: on_mem_simps)
qed

text \<open>The removal, up to the sifting.\<close>

lemma heap_remove_single:
  assumes lay: "layout h arr 1"
  shows "\<exists>h'. heap_remove cmp (arr 1) h = Some h' \<and> layout h' arr 0 \<and> h_mem h' (arr 1) = Some unlinked \<and> only_changes {arr 1} h h'"
proof -
  have m: "h_mem h (arr 1) = Some unlinked" "h_root h = Some (arr 1)" "h_nelts h = 1" "arr 1 \<in> dom (h_mem h)"
    using lay by (auto simp: layout_def links_def unlinked_def pos_def)
  let ?h = "h\<lparr>h_nelts := 0, h_mem := patch (Some (arr 1)) (\<lambda>n. n\<lparr>hn_left := None\<rparr>) (h_mem h), h_root := None\<rparr>"
  have "heap_remove cmp (arr 1) h = Some ?h"
    using m by (simp add: heap_remove_def heap_path_1 heap_walk_0 Let_def unlinked_def on_mem_simps)
  moreover have "layout ?h arr 0" by (simp add: layout_def pos_def)
  moreover have "h_mem ?h (arr 1) = Some unlinked" using m by (simp add: patch_apply unlinked_def)
  moreover have "only_changes {arr 1} h ?h" by (simp add: only_changes_def patch_apply)
  ultimately show ?thesis by blast
qed

lemma heap_remove_unfold:
  assumes lay: "layout h arr (Suc m)" and m: "1 \<le> m"
  obtains h1 where "layout h1 arr m" "h_mem h1 (arr (Suc m)) = Some (links arr (Suc m) (Suc m))"
    "only_changes (arr ` {1..m}) h h1"
    "\<And>x. heap_remove (Some cmp) x h =
      do { h \<leftarrow> heap_replace x (Some (arr (Suc m))) h1;
           h \<leftarrow> on_mem (assign (Some x) (\<lambda>n. n\<lparr>hn_parent := None, hn_left := None, hn_right := None\<rparr>)) h;
           h \<leftarrow> sift_down cmp (arr (Suc m)) h;
           sift_up cmp (arr (Suc m)) h }"
proof -
  let ?N = "Suc m"
  define chop :: "heap_node \<Rightarrow> heap_node" where "chop = (\<lambda>y. if ?N mod 2 = 1 then y\<lparr>hn_right := None\<rparr> else y\<lparr>hn_left := None\<rparr>)"
  define h1 where "h1 = h\<lparr>h_nelts := m, h_mem := patch (Some (arr (?N div 2))) chop (h_mem h)\<rparr>"
  have lay1: "layout h1 arr m" "h_mem h1 (arr ?N) = Some (links arr ?N ?N)"
    using cut_layout [OF lay m] by (simp_all add: h1_def chop_def)
  obtain path d where pd: "heap_path 0 0 ?N = (path, d)" by force
  have inn: "2 \<le> ?N" "?N div 2 \<le> ?N" "1 \<le> ?N div 2" "?N div 2 \<le> m" using m by auto
  obtain path' where w: "heap_walk (h_mem h) d path (h_root h) = Some (path', pos arr ?N (?N div 2))" "path' mod 2 = ?N mod 2"
    using heap_locate [OF lay inn(1,2) pd] .
  have last: "(if ?N mod 2 = 1 then pos arr ?N (2 * (?N div 2) + 1) else pos arr ?N (2 * (?N div 2))) = Some (arr ?N)"
  proof (cases "?N mod 2 = 1")
    case True
    then have "2 * (?N div 2) + 1 = ?N" by presburger
    with True show ?thesis by (simp add: pos_in)
  next
    case False
    then have "2 * (?N div 2) = ?N" by presburger
    with False show ?thesis by (simp add: pos_in)
  qed
  obtain nd where md: "h_mem h (arr (?N div 2)) = Some nd" "(if ?N mod 2 = 1 then hn_right nd else hn_left nd) = Some (arr ?N)"
    using layout_mem [OF lay inn(3,2)] last by (auto split: if_splits)
  have "heap_remove (Some cmp) x h =
      do { h \<leftarrow> heap_replace x (Some (arr ?N)) h1;
           h \<leftarrow> on_mem (assign (Some x) (\<lambda>n. n\<lparr>hn_parent := None, hn_left := None, hn_right := None\<rparr>)) h;
           h \<leftarrow> sift_down cmp (arr ?N) h;
           sift_up cmp (arr ?N) h }" for x
  proof -
    have "h_nelts h = ?N" using lay by (simp add: layout_def)
    moreover have "arr (?N div 2) \<in> dom (h_mem h)" using md by auto
    ultimately show ?thesis using w pd md inn unfolding heap_remove_def
      by (cases "?N mod 2 = 1") (simp_all add: Let_def pos_in on_mem_simps h1_def chop_def)
  qed
  moreover have "only_changes (arr ` {1..m}) h h1"
    using inn by (auto simp: only_changes_def h1_def patch_apply)
  ultimately show thesis using that lay1 by blast
qed

lemma layout_image_diff:
  assumes "layout h arr n" and "1 \<le> i" "i \<le> n"
  shows "arr ` {1..n} - {arr i} = arr ` ({1..n} - {i})"
  using assms inj_on_image_set_diff [of arr "{1..n}" "{1..n}" "{i}"] by (auto simp: layout_def)

lemma layout_last_out:
  assumes "layout h arr (Suc m)"
  shows "arr (Suc m) \<notin> arr ` {1..m}" and "arr ` {1..m} = arr ` {1..Suc m} - {arr (Suc m)}"
    and "insert (arr (Suc m)) (arr ` {1..m}) = arr ` {1..Suc m}"
proof -
  have *: "{1..Suc m} - {Suc m} = {1..m}" "{1..Suc m} = insert (Suc m) {1..m}" by auto
  show eq: "arr ` {1..m} = arr ` {1..Suc m} - {arr (Suc m)}"
    using layout_image_diff [OF assms, of "Suc m"] *(1) by simp
  then show "arr (Suc m) \<notin> arr ` {1..m}" by blast
  show "insert (arr (Suc m)) (arr ` {1..m}) = arr ` {1..Suc m}" unfolding *(2) by simp
qed

lemma layout_replaced_image:
  assumes "layout h arr (Suc m)" and "1 \<le> i" "i \<le> m"
  shows "arr(i := arr (Suc m)) ` {1..m} = arr ` {1..Suc m} - {arr i}"
proof -
  have "arr(i := arr (Suc m)) ` {1..m} = insert (arr (Suc m)) (arr ` ({1..m} - {i}))" using assms by (auto simp: fun_upd_image)
  also have "\<dots> = arr ` (insert (Suc m) ({1..m} - {i}))" by simp
  also have "insert (Suc m) ({1..m} - {i}) = {1..Suc m} - {i}" using assms by auto
  also have "arr ` \<dots> = arr ` {1..Suc m} - {arr i}" using layout_image_diff [OF assms(1), of i] assms by simp
  finally show ?thesis .
qed

context heap_order
begin

lemma ordered_hole:
  assumes "heap_ordered cmp arr n" and "i \<le> n"
  shows "hole cmp arr n i"
proof (unfold hole_def, intro conjI allI impI)
  fix k assume k: "2 \<le> i \<and> k \<le> n \<and> k div 2 = i"
  then have "2 \<le> k" by auto
  then have "\<not> cmp (arr k) (arr i)" "\<not> cmp (arr i) (arr (i div 2))" using assms k by (auto simp: heap_ordered_def)
  then show "\<not> cmp (arr k) (arr (i div 2))" by (rule neg_trans)
qed (use assms in \<open>auto simp: heap_ordered_def\<close>)

lemma heap_remove_last:
  assumes lay: "layout h arr (Suc m)" and m: "1 \<le> m" and hole: "hole cmp arr (Suc m) (Suc m)"
  shows "\<exists>h'. heap_remove (Some cmp) (arr (Suc m)) h = Some h' \<and> layout h' arr m \<and> heap_ordered cmp arr m \<and>
    only_changes (arr ` {1..Suc m}) h h' \<and> h_mem h' (arr (Suc m)) = Some unlinked"
proof -
  let ?x = "arr (Suc m)"
  obtain h1 where h1: "layout h1 arr m" "h_mem h1 ?x = Some (links arr (Suc m) (Suc m))" "only_changes (arr ` {1..m}) h h1"
    and rm: "\<And>x. heap_remove (Some cmp) x h =
      do { h \<leftarrow> heap_replace x (Some ?x) h1;
           h \<leftarrow> on_mem (assign (Some x) (\<lambda>n. n\<lparr>hn_parent := None, hn_left := None, hn_right := None\<rparr>)) h;
           h \<leftarrow> sift_down cmp ?x h;
           sift_up cmp ?x h }"
    using heap_remove_unfold [OF lay m] by blast
  have xd: "?x \<in> dom (h_mem h1)" using h1(2) by auto
  note out = layout_last_out(1) [OF lay]
  let ?p = "Suc m div 2"
  have p: "1 \<le> ?p" "?p \<le> m" using m by auto
  have mp: "h_mem h1 (arr ?p) = Some (links arr m ?p)" using layout_mem [OF h1(1) p] .
  have ne: "arr k \<noteq> ?x" if "1 \<le> k" "k \<le> m" for k using out that by (metis atLeastAtMost_iff imageI)
  then have np: "pos arr m k \<noteq> Some ?x" for k by (simp add: pos_def)
  have lx: "links arr (Suc m) (Suc m) = \<lparr>hn_parent = Some (arr ?p), hn_left = None, hn_right = None\<rparr>"
    using p by (simp add: links_def pos_def)
  have "patch (Some (arr ?p)) (relink_fn ?x (Some ?x)) (h_mem h1) = h_mem h1"
    using mp np by (auto simp: patch_apply relink_fn_def fun_eq_iff)
  moreover have "patch (Some ?x) (\<lambda>n. n\<lparr>hn_parent := Some (arr ?p), hn_left := None, hn_right := None\<rparr>) (h_mem h1) = h_mem h1"
    using h1(2) lx by (auto simp: patch_apply fun_eq_iff)
  ultimately have "heap_replace ?x (Some ?x) h1 = Some h1"
    using h1(2) xd mp by (simp add: heap_replace_def relink_eq lx on_mem_simps dom_def)
  moreover obtain h2 where h2: "on_mem (assign (Some ?x) (\<lambda>n. n\<lparr>hn_parent := None, hn_left := None, hn_right := None\<rparr>)) h1 = Some h2"
      "layout h2 arr m" "h_mem h2 ?x = Some unlinked" "only_changes {?x} h1 h2"
    using clear_layout [OF h1(1) out xd] .
  moreover have "sift_down cmp ?x h2 = Some h2" using h2(3) by (subst sift_down.simps) (simp add: unlinked_def Let_def)
  moreover have "sift_up cmp ?x h2 = Some h2" using h2(3) by (subst sift_up.simps) (simp add: unlinked_def)
  ultimately have "heap_remove (Some cmp) ?x h = Some h2" using rm [of ?x] by simp
  moreover have "heap_ordered cmp arr m" using hole by (auto simp: hole_def heap_ordered_def)
  moreover have "only_changes (arr ` {1..Suc m}) h h2"
    by (rule only_changes_trans [OF only_changes_mono [OF h1(3)] only_changes_mono [OF h2(4)]]) auto
  ultimately show ?thesis using h2 by blast
qed

lemma heap_remove_inner:
  assumes lay: "layout h arr (Suc m)" and i: "1 \<le> i" "i \<le> m" and hole: "hole cmp arr (Suc m) i"
  shows "\<exists>h' arr'. heap_remove (Some cmp) (arr i) h = Some h' \<and> layout h' arr' m \<and> heap_ordered cmp arr' m \<and>
    arr' ` {1..m} = arr ` {1..Suc m} - {arr i} \<and>
    only_changes (arr ` {1..Suc m}) h h' \<and> h_mem h' (arr i) = Some unlinked"
proof -
  let ?v = "arr (Suc m)" and ?S = "arr ` {1..Suc m}"
  have m: "1 \<le> m" using i by simp
  obtain h1 where h1: "layout h1 arr m" "h_mem h1 ?v = Some (links arr (Suc m) (Suc m))" "only_changes (arr ` {1..m}) h h1"
    and rm: "\<And>x. heap_remove (Some cmp) x h =
      do { h \<leftarrow> heap_replace x (Some ?v) h1;
           h \<leftarrow> on_mem (assign (Some x) (\<lambda>n. n\<lparr>hn_parent := None, hn_left := None, hn_right := None\<rparr>)) h;
           h \<leftarrow> sift_down cmp ?v h;
           sift_up cmp ?v h }"
    using heap_remove_unfold [OF lay m] by blast
  have vd: "?v \<in> dom (h_mem h1)" using h1(2) by auto
  note out = layout_last_out(1) [OF lay]
  let ?arr = "arr(i := ?v)"
  obtain h2 where h2: "heap_replace (arr i) (Some ?v) h1 = Some h2" "layout h2 ?arr m" "only_changes (insert ?v (arr ` {1..m})) h1 h2"
    using heap_replace_layout [OF h1(1) i vd out] .
  have im: "?arr ` {1..m} = ?S - {arr i}" "arr i \<notin> ?arr ` {1..m}" "insert ?v (arr ` {1..m}) = ?S"
    using layout_replaced_image [OF lay i] layout_last_out(3) [OF lay] by simp_all
  have "arr i \<in> dom (h_mem h2)" using layout_mem [OF h1(1) i] h2(3) by (auto simp: only_changes_def)
  then obtain h3 where h3: "on_mem (assign (Some (arr i)) (\<lambda>n. n\<lparr>hn_parent := None, hn_left := None, hn_right := None\<rparr>)) h2 = Some h3"
      "layout h3 ?arr m" "h_mem h3 (arr i) = Some unlinked" "only_changes {arr i} h2 h3"
    using clear_layout [OF h2(2) im(2)] by blast
  have "hole cmp ?arr m i"
    using hole i unfolding hole_def by auto
  then obtain h4 arr4 j where h4: "sift_down cmp ?v h3 = Some h4" "layout h4 arr4 m" "1 \<le> j" "j \<le> m" "arr4 j = ?v"
      "hole cmp arr4 m j" "below cmp arr4 m j" "arr4 ` {1..m} = ?S - {arr i}" "only_changes (?S - {arr i}) h3 h4"
    using sift_down_layout [OF h3(2) i] im(1) by auto
  then obtain h5 arr5 where h5: "sift_up cmp ?v h4 = Some h5" "layout h5 arr5 m" "heap_ordered cmp arr5 m"
      "arr5 ` {1..m} = ?S - {arr i}" "only_changes (?S - {arr i}) h4 h5"
    using sift_up_layout [OF h4(2-4,6,7)] by auto
  have "only_changes ?S h h2" using only_changes_trans [OF only_changes_mono [OF h1(3)] h2(3) [unfolded im(3)]] im(3) by blast
  moreover have "only_changes ?S h2 h3" using h3(4) i by (elim only_changes_mono) auto
  moreover have up: "only_changes (?S - {arr i}) h3 h5" using only_changes_trans [OF h4(9) h5(5)] .
  then have "only_changes ?S h3 h5" by (elim only_changes_mono) auto
  ultimately have "only_changes ?S h h5" using only_changes_trans by blast
  moreover have "h_mem h5 (arr i) = Some unlinked" using up h3(3) by (simp add: only_changes_def)
  moreover have "heap_remove (Some cmp) (arr i) h = Some h5" using rm [of "arr i"] h2 h3 h4 h5 by simp
  ultimately show ?thesis using h5 by blast
qed

lemma heap_remove_layout:
  assumes lay: "layout h arr n" and i: "1 \<le> i" "i \<le> n" and hole: "hole cmp arr n i"
  shows "\<exists>h' arr'. heap_remove (Some cmp) (arr i) h = Some h' \<and> layout h' arr' (n - 1) \<and> heap_ordered cmp arr' (n - 1) \<and>
    arr' ` {1..n - 1} = arr ` {1..n} - {arr i} \<and>
    only_changes (arr ` {1..n}) h h' \<and> h_mem h' (arr i) = Some unlinked"
proof -
  consider "n = 1" | m where "n = Suc m" "1 \<le> m" "i = Suc m" | m where "n = Suc m" "1 \<le> m" "i \<le> m"
    using i by (cases n) force+
  then show ?thesis
  proof cases
    case 1
    then have "i = 1" using i by simp
    with 1 heap_remove_single [of h arr "Some cmp"] lay show ?thesis by (auto simp: heap_ordered_def intro!: exI [of _ arr])
  next
    case 2
    then show ?thesis using heap_remove_last [of h arr m] layout_last_out(2) [of h arr m] lay hole by auto
  next
    case 3
    then show ?thesis using heap_remove_inner [of h arr m i] lay hole i by auto
  qed
qed

end

section \<open>The heap as a set with a least element\<close>

definition heap_holds :: "(addr \<Rightarrow> addr \<Rightarrow> bool) \<Rightarrow> heap \<Rightarrow> addr set \<Rightarrow> bool" where
  "heap_holds cmp h S \<longleftrightarrow> (\<exists>arr n. layout h arr n \<and> heap_ordered cmp arr n \<and> S = arr ` {1..n})"

text \<open>The same with the order of one node unknown, as it is while the key of that node is being changed.\<close>

definition heap_holds_but :: "(addr \<Rightarrow> addr \<Rightarrow> bool) \<Rightarrow> heap \<Rightarrow> addr set \<Rightarrow> addr \<Rightarrow> bool" where
  "heap_holds_but cmp h S x \<longleftrightarrow>
     (\<exists>arr n i. layout h arr n \<and> 1 \<le> i \<and> i \<le> n \<and> arr i = x \<and> hole cmp arr n i \<and> S = arr ` {1..n})"

lemma heap_holds_empty: "\<lbrakk>h_root h = None; h_nelts h = 0\<rbrakk> \<Longrightarrow> heap_holds cmp h {}"
  by (auto simp: heap_holds_def layout_def heap_ordered_def pos_def intro!: exI [of _ 0])

lemma heap_holds_nelts: "heap_holds cmp h S \<Longrightarrow> h_nelts h = card S \<and> finite S"
  by (auto simp: heap_holds_def layout_def card_image)

lemma heap_holds_live: "\<lbrakk>heap_holds cmp h S; x \<in> S\<rbrakk> \<Longrightarrow> x \<in> dom (h_mem h)"
  by (auto simp: heap_holds_def layout_def)

text \<open>A change of the store outside the heap.\<close>

lemma heap_holds_frame:
  "\<lbrakk>heap_holds cmp h S; \<And>x. x \<in> S \<Longrightarrow> m x = h_mem h x\<rbrakk> \<Longrightarrow> heap_holds cmp (h\<lparr>h_mem := m\<rparr>) S"
  unfolding heap_holds_def layout_def by auto

context heap_order
begin

lemma root_least:
  assumes ord: "heap_ordered cmp arr n" and k: "1 \<le> k" "k \<le> n"
  shows "\<not> cmp (arr k) (arr 1)"
  using k
proof (induction k rule: less_induct)
  case (less k)
  show ?case
  proof (cases "k = 1")
    case True
    then show ?thesis using asym by blast
  next
    case False
    then have "\<not> cmp (arr k) (arr (k div 2))" using ord less.prems by (simp add: heap_ordered_def)
    moreover have "\<not> cmp (arr (k div 2)) (arr 1)" using less.IH [of "k div 2"] less.prems False by simp
    ultimately show ?thesis by (rule neg_trans)
  qed
qed

lemma heap_root:
  assumes "heap_holds cmp h S"
  shows "case h_root h of None \<Rightarrow> S = {} | Some r \<Rightarrow> r \<in> S \<and> (\<forall>x\<in>S. \<not> cmp x r)"
proof -
  obtain arr n where a: "layout h arr n" "heap_ordered cmp arr n" "S = arr ` {1..n}"
    using assms by (auto simp: heap_holds_def)
  then have "h_root h = pos arr n 1" by (simp add: layout_def)
  then show ?thesis using a(3) root_least [OF a(2)] by (auto simp: pos_def split: if_splits)
qed

lemma holds_but: "\<lbrakk>heap_holds cmp h S; x \<in> S\<rbrakk> \<Longrightarrow> heap_holds_but cmp h S x"
  unfolding heap_holds_def heap_holds_but_def using ordered_hole by (metis atLeastAtMost_iff imageE)

lemma insert_holds:
  assumes "heap_holds cmp h S" and "x \<notin> S" and "h_mem h x = Some nd" and "hn_left nd = None" and "hn_right nd = None"
  shows "\<exists>h'. heap_insert (Some cmp) x h = Some h' \<and> heap_holds cmp h' (insert x S) \<and> only_changes (insert x S) h h'"
proof -
  obtain arr n where a: "layout h arr n" "heap_ordered cmp arr n" "S = arr ` {1..n}"
    using assms(1) by (auto simp: heap_holds_def)
  show ?thesis using heap_insert_layout [OF a(1,2) _ assms(3-5)] assms(2) a(3) unfolding heap_holds_def by metis
qed

lemma remove_holds:
  assumes "heap_holds_but cmp h S x"
  shows "\<exists>h'. heap_remove (Some cmp) x h = Some h' \<and> heap_holds cmp h' (S - {x}) \<and> only_changes S h h' \<and>
    h_mem h' x = Some unlinked"
proof -
  obtain arr n i where a: "layout h arr n" "1 \<le> i" "i \<le> n" "hole cmp arr n i" "arr i = x" "S = arr ` {1..n}"
    using assms by (auto simp: heap_holds_but_def)
  show ?thesis using heap_remove_layout [OF a(1-4)] a(5,6) unfolding heap_holds_def by metis
qed

lemma dequeue_holds:
  assumes "heap_holds cmp h S" and "h_root h = Some r"
  shows "\<exists>h'. heap_dequeue (Some cmp) h = Some h' \<and> heap_holds cmp h' (S - {r}) \<and> only_changes S h h' \<and>
    h_mem h' r = Some unlinked"
  using remove_holds [OF holds_but [OF assms(1)]] heap_root [OF assms(1)] assms(2) by (simp add: heap_dequeue_def)

end

text \<open>A change of the key of one node.\<close>

lemma holds_rekey:
  assumes "heap_order cmp" and "heap_holds cmp h S" and x: "x \<in> S"
    and eq: "\<And>a b. \<lbrakk>a \<in> S - {x}; b \<in> S - {x}\<rbrakk> \<Longrightarrow> cmp' a b = cmp a b"
  shows "heap_holds_but cmp' h S x"
proof -
  obtain arr n i where a: "layout h arr n" "1 \<le> i" "i \<le> n" "hole cmp arr n i" "arr i = x" "S = arr ` {1..n}"
    using heap_order.holds_but [OF assms(1-3)] by (auto simp: heap_holds_but_def)
  have ne: "arr k \<in> S - {x}" if "1 \<le> k" "k \<le> n" "k \<noteq> i" for k
    using that a(5,6) layout_inj [OF a(1) that(1,2) a(2,3)] by auto
  have "hole cmp' arr n i"
  proof (unfold hole_def, intro conjI allI impI)
    fix k assume k: "2 \<le> k \<and> k \<le> n \<and> k \<noteq> i \<and> k div 2 \<noteq> i"
    then have "1 \<le> k div 2" "k div 2 \<le> n" by auto
    then show "\<not> cmp' (arr k) (arr (k div 2))" using a(4) k eq [OF ne ne, of k "k div 2"] by (auto simp: hole_def)
  next
    fix k assume k: "2 \<le> i \<and> k \<le> n \<and> k div 2 = i"
    then have "1 \<le> k" "k \<noteq> i" "1 \<le> i div 2" "i div 2 \<le> n" "i div 2 \<noteq> i" using a(3) by auto
    then show "\<not> cmp' (arr k) (arr (i div 2))" using a(4) k eq [OF ne ne, of k "i div 2"] by (auto simp: hole_def)
  qed
  with a show ?thesis by (auto simp: heap_holds_but_def)
qed

section \<open>Properties\<close>

text \<open>
  C8. The heap is a priority queue of nodes.  For every comparison that is a strict weak order: inserting
  a node that is not in the heap adds it, removing a node of the heap takes out that node alone and
  unlinks it, the number of elements is right, and the root is a least node or, with an empty heap,
  null.  No operation fails its assertion or follows a null pointer, and every loop ends.
\<close>

theorem heap_is_priority_queue:
  assumes "\<And>a b. cmp a b \<Longrightarrow> \<not> cmp b a" and "\<And>a b c. \<lbrakk>\<not> cmp a b; \<not> cmp b c\<rbrakk> \<Longrightarrow> \<not> cmp a c"
    and holds: "heap_holds cmp h S"
  shows "(x \<notin> S \<and> h_mem h x = Some unlinked \<longrightarrow>
      (\<exists>h'. heap_insert (Some cmp) x h = Some h' \<and> heap_holds cmp h' (insert x S))) \<and>
    (x \<in> S \<longrightarrow>
      (\<exists>h'. heap_remove (Some cmp) x h = Some h' \<and> heap_holds cmp h' (S - {x}) \<and> h_mem h' x = Some unlinked)) \<and>
    (case h_root h of
       None \<Rightarrow> S = {}
     | Some r \<Rightarrow> r \<in> S \<and> (\<forall>y\<in>S. \<not> cmp y r) \<and>
         (\<exists>h'. heap_dequeue (Some cmp) h = Some h' \<and> heap_holds cmp h' (S - {r}))) \<and>
    h_nelts h = card S"
proof -
  have ord: "heap_order cmp" using assms(1,2) by unfold_locales blast+
  note ins = heap_order.insert_holds [OF ord holds] and rem = heap_order.remove_holds [OF ord heap_order.holds_but [OF ord holds]]
    and deq = heap_order.dequeue_holds [OF ord holds]
  have "x \<notin> S \<and> h_mem h x = Some unlinked \<longrightarrow>
      (\<exists>h'. heap_insert (Some cmp) x h = Some h' \<and> heap_holds cmp h' (insert x S))"
    using ins [of x unlinked] by (auto simp: unlinked_def)
  moreover have "x \<in> S \<longrightarrow>
      (\<exists>h'. heap_remove (Some cmp) x h = Some h' \<and> heap_holds cmp h' (S - {x}) \<and> h_mem h' x = Some unlinked)"
    using rem [of x] by auto
  moreover have "case h_root h of
       None \<Rightarrow> S = {}
     | Some r \<Rightarrow> r \<in> S \<and> (\<forall>y\<in>S. \<not> cmp y r) \<and>
         (\<exists>h'. heap_dequeue (Some cmp) h = Some h' \<and> heap_holds cmp h' (S - {r}))"
    using heap_order.heap_root [OF ord holds] deq by (auto split: option.splits)
  ultimately show ?thesis using heap_holds_nelts [OF holds] by blast
qed

theorem heap_is_priority_queue_witness:
  "\<exists>h. heap_holds (<) (heap_init \<lparr>h_mem = [1 \<mapsto> unlinked, 2 \<mapsto> unlinked], h_root = None, h_nelts = 0\<rparr>) {} \<and>
     heap_insert (Some (<)) 2 (heap_init \<lparr>h_mem = [1 \<mapsto> unlinked, 2 \<mapsto> unlinked], h_root = None, h_nelts = 0\<rparr>) = Some h \<and>
     heap_holds (<) h {2}"
proof -
  let ?h = "heap_init \<lparr>h_mem = [1 \<mapsto> unlinked, 2 \<mapsto> unlinked], h_root = None, h_nelts = 0\<rparr>"
  have e: "heap_holds (<) ?h {}" by (rule heap_holds_empty) (simp_all add: heap_init_def)
  have "h_mem ?h 2 = Some unlinked" by (simp add: heap_init_def)
  then show ?thesis using heap_is_priority_queue [of "(<)" ?h "{}" 2] e by auto
qed

end
