(* ===== verification/Rb_Tree.thy ===== *)
theory Rb_Tree
  imports Pointer_Store
begin

text \<open>
  The red-black tree of \<open>base/src/dsa/rbtree.c\<close> and \<open>base/inc/dsa/rbtree.h\<close>: nodes linked by
  parent, left and right pointers in a store, with the rotations, the two recolouring loops, erasure
  and traversal.  The first section is the code.  The proofs read a store as a tree with a focus: the
  subtree at a node and the path from it to the root.
\<close>

section \<open>The code\<close>

datatype rb_colour = RB_RED | RB_BLACK

record rb_node =
  rb_parent :: ptr
  rb_right :: ptr
  rb_left :: ptr
  rb_color :: rb_colour

record rb_root =
  r_mem :: "rb_node store"
  r_node :: ptr

definition RB_ROOT :: "rb_root \<Rightarrow> rb_root" where
  "RB_ROOT s = s\<lparr>r_node := None\<rparr>"

definition on_rb :: "(rb_node store \<Rightarrow> rb_node store option) \<Rightarrow> rb_root \<Rightarrow> rb_root option" where
  "on_rb f s = map_option (\<lambda>m. s\<lparr>r_mem := m\<rparr>) (f (r_mem s))"

abbreviation set_color :: "ptr \<Rightarrow> rb_colour \<Rightarrow> rb_root \<Rightarrow> rb_root option" where
  "set_color p c \<equiv> on_rb (assign p (\<lambda>n. n\<lparr>rb_color := c\<rparr>))"

definition rb_rotate_left :: "addr \<Rightarrow> rb_root \<Rightarrow> rb_root option" where
  "rb_rotate_left node s =
     do { n \<leftarrow> r_mem s node;
          let right = rb_right n;
          nr \<leftarrow> deref (r_mem s) right;
          s \<leftarrow> on_rb (assign (Some node) (\<lambda>n. n\<lparr>rb_right := rb_left nr\<rparr>)) s;
          s \<leftarrow> on_rb (assign_if (rb_left nr) (\<lambda>n. n\<lparr>rb_parent := Some node\<rparr>)) s;
          s \<leftarrow> on_rb (assign right (\<lambda>n. n\<lparr>rb_left := Some node\<rparr>)) s;
          n \<leftarrow> r_mem s node;
          s \<leftarrow> on_rb (assign right (\<lambda>r. r\<lparr>rb_parent := rb_parent n\<rparr>)) s;
          s \<leftarrow> (if rb_parent n \<noteq> None
               then on_rb (assign (rb_parent n) (\<lambda>p. if Some node = rb_left p then p\<lparr>rb_left := right\<rparr> else p\<lparr>rb_right := right\<rparr>)) s
               else Some (s\<lparr>r_node := right\<rparr>));
          on_rb (assign (Some node) (\<lambda>n. n\<lparr>rb_parent := right\<rparr>)) s }"

definition rb_rotate_right :: "addr \<Rightarrow> rb_root \<Rightarrow> rb_root option" where
  "rb_rotate_right node s =
     do { n \<leftarrow> r_mem s node;
          let left = rb_left n;
          nl \<leftarrow> deref (r_mem s) left;
          s \<leftarrow> on_rb (assign (Some node) (\<lambda>n. n\<lparr>rb_left := rb_right nl\<rparr>)) s;
          s \<leftarrow> on_rb (assign_if (rb_right nl) (\<lambda>n. n\<lparr>rb_parent := Some node\<rparr>)) s;
          s \<leftarrow> on_rb (assign left (\<lambda>n. n\<lparr>rb_right := Some node\<rparr>)) s;
          n \<leftarrow> r_mem s node;
          s \<leftarrow> on_rb (assign left (\<lambda>l. l\<lparr>rb_parent := rb_parent n\<rparr>)) s;
          s \<leftarrow> (if rb_parent n \<noteq> None
               then on_rb (assign (rb_parent n) (\<lambda>p. if Some node = rb_right p then p\<lparr>rb_right := left\<rparr> else p\<lparr>rb_left := left\<rparr>)) s
               else Some (s\<lparr>r_node := left\<rparr>));
          on_rb (assign (Some node) (\<lambda>n. n\<lparr>rb_parent := left\<rparr>)) s }"

text \<open>A node is black for the loops when it is null or black.\<close>

definition is_red :: "rb_root \<Rightarrow> ptr \<Rightarrow> bool option" where
  "is_red s p = (if p = None then Some False else map_option (\<lambda>n. rb_color n = RB_RED) (deref (r_mem s) p))"

text \<open>The body of the loop of \<open>rb_insert_color\<close>: the node it goes on with.\<close>

definition rb_insert_left :: "addr \<Rightarrow> addr \<Rightarrow> addr \<Rightarrow> rb_root \<Rightarrow> (addr \<times> rb_root) option" where
  "rb_insert_left node parent gparent s =
     do { ng \<leftarrow> r_mem s gparent;
          let uncle = rb_right ng;
          red \<leftarrow> is_red s uncle;
          if red then
            do { s \<leftarrow> set_color uncle RB_BLACK s;
                 s \<leftarrow> set_color (Some parent) RB_BLACK s;
                 s \<leftarrow> set_color (Some gparent) RB_RED s;
                 Some (gparent, s) }
          else
            do { np \<leftarrow> r_mem s parent;
                 (node, parent, s) \<leftarrow>
                   (if rb_right np = Some node
                    then map_option (\<lambda>s. (parent, node, s)) (rb_rotate_left parent s)
                    else Some (node, parent, s));
                 s \<leftarrow> set_color (Some parent) RB_BLACK s;
                 s \<leftarrow> set_color (Some gparent) RB_RED s;
                 s \<leftarrow> rb_rotate_right gparent s;
                 Some (node, s) } }"

definition rb_insert_right :: "addr \<Rightarrow> addr \<Rightarrow> addr \<Rightarrow> rb_root \<Rightarrow> (addr \<times> rb_root) option" where
  "rb_insert_right node parent gparent s =
     do { ng \<leftarrow> r_mem s gparent;
          let uncle = rb_left ng;
          red \<leftarrow> is_red s uncle;
          if red then
            do { s \<leftarrow> set_color uncle RB_BLACK s;
                 s \<leftarrow> set_color (Some parent) RB_BLACK s;
                 s \<leftarrow> set_color (Some gparent) RB_RED s;
                 Some (gparent, s) }
          else
            do { np \<leftarrow> r_mem s parent;
                 (node, parent, s) \<leftarrow>
                   (if rb_left np = Some node
                    then map_option (\<lambda>s. (parent, node, s)) (rb_rotate_right parent s)
                    else Some (node, parent, s));
                 s \<leftarrow> set_color (Some parent) RB_BLACK s;
                 s \<leftarrow> set_color (Some gparent) RB_RED s;
                 s \<leftarrow> rb_rotate_left gparent s;
                 Some (node, s) } }"

partial_function (option) rb_insert_loop :: "addr \<Rightarrow> rb_root \<Rightarrow> rb_root option" where
  "rb_insert_loop node s =
     do { n \<leftarrow> r_mem s node;
          case rb_parent n of
            None \<Rightarrow> Some s
          | Some parent \<Rightarrow>
              do { np \<leftarrow> r_mem s parent;
                   if rb_color np \<noteq> RB_RED then Some s
                   else
                     (case rb_parent np of
                        None \<Rightarrow> None
                      | Some gparent \<Rightarrow>
                          do { ng \<leftarrow> r_mem s gparent;
                               (node, s) \<leftarrow> (if Some parent = rb_left ng then rb_insert_left node parent gparent s
                                            else rb_insert_right node parent gparent s);
                               rb_insert_loop node s }) } }"

definition rb_insert_color :: "addr \<Rightarrow> rb_root \<Rightarrow> rb_root option" where
  "rb_insert_color node s =
     do { s \<leftarrow> rb_insert_loop node s;
          set_color (r_node s) RB_BLACK s }"

text \<open>
  The body of the loop of \<open>rb_erase_color\<close>: the next node and parent, or the state in which the
  loop is left by \<open>break\<close> with the root as the node.
\<close>

datatype rb_next_step = Go ptr ptr | Break

definition rb_erase_left :: "addr \<Rightarrow> rb_root \<Rightarrow> (rb_next_step \<times> rb_root) option" where
  "rb_erase_left parent s =
     do { np \<leftarrow> r_mem s parent;
          let other = rb_right np;
          no \<leftarrow> deref (r_mem s) other;
          (other, s) \<leftarrow>
            (if rb_color no = RB_RED
             then do { s \<leftarrow> set_color other RB_BLACK s;
                       s \<leftarrow> set_color (Some parent) RB_RED s;
                       s \<leftarrow> rb_rotate_left parent s;
                       np \<leftarrow> r_mem s parent;
                       Some (rb_right np, s) }
             else Some (other, s));
          no \<leftarrow> deref (r_mem s) other;
          lred \<leftarrow> is_red s (rb_left no);
          rred \<leftarrow> is_red s (rb_right no);
          if \<not> lred \<and> \<not> rred then
            do { s \<leftarrow> set_color other RB_RED s;
                 np \<leftarrow> r_mem s parent;
                 Some (Go (Some parent) (rb_parent np), s) }
          else
            do { (other, s) \<leftarrow>
                   (if \<not> rred
                    then do { s \<leftarrow> on_rb (assign_if (rb_left no) (\<lambda>n. n\<lparr>rb_color := RB_BLACK\<rparr>)) s;
                              s \<leftarrow> set_color other RB_RED s;
                              (case other of None \<Rightarrow> None | Some ot \<Rightarrow>
                              do { s \<leftarrow> rb_rotate_right ot s;
                                   np \<leftarrow> r_mem s parent;
                                   Some (rb_right np, s) }) }
                    else Some (other, s));
                 np \<leftarrow> r_mem s parent;
                 s \<leftarrow> set_color other (rb_color np) s;
                 s \<leftarrow> set_color (Some parent) RB_BLACK s;
                 no \<leftarrow> deref (r_mem s) other;
                 s \<leftarrow> on_rb (assign_if (rb_right no) (\<lambda>n. n\<lparr>rb_color := RB_BLACK\<rparr>)) s;
                 s \<leftarrow> rb_rotate_left parent s;
                 Some (Break, s) } }"

definition rb_erase_right :: "addr \<Rightarrow> rb_root \<Rightarrow> (rb_next_step \<times> rb_root) option" where
  "rb_erase_right parent s =
     do { np \<leftarrow> r_mem s parent;
          let other = rb_left np;
          no \<leftarrow> deref (r_mem s) other;
          (other, s) \<leftarrow>
            (if rb_color no = RB_RED
             then do { s \<leftarrow> set_color other RB_BLACK s;
                       s \<leftarrow> set_color (Some parent) RB_RED s;
                       s \<leftarrow> rb_rotate_right parent s;
                       np \<leftarrow> r_mem s parent;
                       Some (rb_left np, s) }
             else Some (other, s));
          no \<leftarrow> deref (r_mem s) other;
          lred \<leftarrow> is_red s (rb_left no);
          rred \<leftarrow> is_red s (rb_right no);
          if \<not> lred \<and> \<not> rred then
            do { s \<leftarrow> set_color other RB_RED s;
                 np \<leftarrow> r_mem s parent;
                 Some (Go (Some parent) (rb_parent np), s) }
          else
            do { (other, s) \<leftarrow>
                   (if \<not> lred
                    then do { s \<leftarrow> on_rb (assign_if (rb_right no) (\<lambda>n. n\<lparr>rb_color := RB_BLACK\<rparr>)) s;
                              s \<leftarrow> set_color other RB_RED s;
                              (case other of None \<Rightarrow> None | Some ot \<Rightarrow>
                              do { s \<leftarrow> rb_rotate_left ot s;
                                   np \<leftarrow> r_mem s parent;
                                   Some (rb_left np, s) }) }
                    else Some (other, s));
                 np \<leftarrow> r_mem s parent;
                 s \<leftarrow> set_color other (rb_color np) s;
                 s \<leftarrow> set_color (Some parent) RB_BLACK s;
                 no \<leftarrow> deref (r_mem s) other;
                 s \<leftarrow> on_rb (assign_if (rb_left no) (\<lambda>n. n\<lparr>rb_color := RB_BLACK\<rparr>)) s;
                 s \<leftarrow> rb_rotate_right parent s;
                 Some (Break, s) } }"

partial_function (option) rb_erase_loop :: "ptr \<Rightarrow> ptr \<Rightarrow> rb_root \<Rightarrow> (ptr \<times> rb_root) option" where
  "rb_erase_loop node parent s =
     do { red \<leftarrow> is_red s node;
          if red \<or> node = r_node s then Some (node, s)
          else
            (case parent of
               None \<Rightarrow> None
             | Some p \<Rightarrow>
                 do { np \<leftarrow> r_mem s p;
                      (next_step, s) \<leftarrow> (if rb_left np = node then rb_erase_left p s else rb_erase_right p s);
                      case next_step of
                        Go node parent \<Rightarrow> rb_erase_loop node parent s
                      | Break \<Rightarrow> Some (r_node s, s) }) }"

definition rb_erase_color :: "ptr \<Rightarrow> ptr \<Rightarrow> rb_root \<Rightarrow> rb_root option" where
  "rb_erase_color node parent s =
     do { (node, s) \<leftarrow> rb_erase_loop node parent s;
          on_rb (assign_if node (\<lambda>n. n\<lparr>rb_color := RB_BLACK\<rparr>)) s }"

text \<open>The link from the parent, or from the root, is set to another node.\<close>

definition rb_relink :: "ptr \<Rightarrow> addr \<Rightarrow> ptr \<Rightarrow> rb_root \<Rightarrow> rb_root option" where
  "rb_relink parent node child s =
     (if parent \<noteq> None
      then on_rb (assign parent (\<lambda>p. if rb_left p = Some node then p\<lparr>rb_left := child\<rparr> else p\<lparr>rb_right := child\<rparr>)) s
      else Some (s\<lparr>r_node := child\<rparr>))"

partial_function (option) rb_leftmost :: "rb_node store \<Rightarrow> addr \<Rightarrow> addr option" where
  "rb_leftmost m node = do { n \<leftarrow> m node; case rb_left n of None \<Rightarrow> Some node | Some l \<Rightarrow> rb_leftmost m l }"

partial_function (option) rb_rightmost :: "rb_node store \<Rightarrow> addr \<Rightarrow> addr option" where
  "rb_rightmost m node = do { n \<leftarrow> m node; case rb_right n of None \<Rightarrow> Some node | Some r \<Rightarrow> rb_rightmost m r }"

text \<open>The erasure of a node with two children: its successor takes its place.\<close>

definition rb_erase_inner :: "addr \<Rightarrow> addr \<Rightarrow> rb_root \<Rightarrow> rb_root option" where
  "rb_erase_inner old rgt s =
     do { node \<leftarrow> rb_leftmost (r_mem s) rgt;
          n \<leftarrow> r_mem s node;
          let child = rb_right n;
          let parent = rb_parent n;
          let color = rb_color n;
          s \<leftarrow> on_rb (assign_if child (\<lambda>c. c\<lparr>rb_parent := parent\<rparr>)) s;
          s \<leftarrow> rb_relink parent node child s;
          n \<leftarrow> r_mem s node;
          let parent = (if rb_parent n = Some old then Some node else parent);
          ol \<leftarrow> r_mem s old;
          s \<leftarrow> on_rb (assign (Some node) (\<lambda>n. n\<lparr>rb_parent := rb_parent ol, rb_color := rb_color ol,
                 rb_right := rb_right ol, rb_left := rb_left ol\<rparr>)) s;
          s \<leftarrow> rb_relink (rb_parent ol) old (Some node) s;
          ol \<leftarrow> r_mem s old;
          s \<leftarrow> on_rb (assign (rb_left ol) (\<lambda>n. n\<lparr>rb_parent := Some node\<rparr>)) s;
          ol \<leftarrow> r_mem s old;
          s \<leftarrow> on_rb (assign_if (rb_right ol) (\<lambda>n. n\<lparr>rb_parent := Some node\<rparr>)) s;
          if color = RB_BLACK then rb_erase_color child parent s else Some s }"

definition rb_erase :: "addr \<Rightarrow> rb_root \<Rightarrow> rb_root option" where
  "rb_erase node s =
     do { n \<leftarrow> r_mem s node;
          case (rb_left n, rb_right n) of
            (Some l, Some r) \<Rightarrow> rb_erase_inner node r s
          | (l, r) \<Rightarrow>
              do { let child = (if l = None then r else l);
                   let parent = rb_parent n;
                   let color = rb_color n;
                   s \<leftarrow> on_rb (assign_if child (\<lambda>c. c\<lparr>rb_parent := parent\<rparr>)) s;
                   s \<leftarrow> rb_relink parent node child s;
                   if color = RB_BLACK then rb_erase_color child parent s else Some s } }"

definition rb_first :: "rb_root \<Rightarrow> ptr option" where
  "rb_first s = (case r_node s of None \<Rightarrow> Some None | Some n \<Rightarrow> map_option Some (rb_leftmost (r_mem s) n))"

definition rb_last :: "rb_root \<Rightarrow> ptr option" where
  "rb_last s = (case r_node s of None \<Rightarrow> Some None | Some n \<Rightarrow> map_option Some (rb_rightmost (r_mem s) n))"

partial_function (option) rb_climb_right :: "rb_node store \<Rightarrow> addr \<Rightarrow> ptr option" where
  "rb_climb_right m node =
     do { n \<leftarrow> m node;
          case rb_parent n of
            None \<Rightarrow> Some None
          | Some p \<Rightarrow> do { np \<leftarrow> m p; if Some node = rb_right np then rb_climb_right m p else Some (Some p) } }"

partial_function (option) rb_climb_left :: "rb_node store \<Rightarrow> addr \<Rightarrow> ptr option" where
  "rb_climb_left m node =
     do { n \<leftarrow> m node;
          case rb_parent n of
            None \<Rightarrow> Some None
          | Some p \<Rightarrow> do { np \<leftarrow> m p; if Some node = rb_left np then rb_climb_left m p else Some (Some p) } }"

definition rb_next :: "rb_node store \<Rightarrow> addr \<Rightarrow> ptr option" where
  "rb_next m node =
     do { n \<leftarrow> m node;
          case rb_right n of
            Some r \<Rightarrow> map_option Some (rb_leftmost m r)
          | None \<Rightarrow> rb_climb_right m node }"

definition rb_prev :: "rb_node store \<Rightarrow> addr \<Rightarrow> ptr option" where
  "rb_prev m node =
     do { n \<leftarrow> m node;
          case rb_left n of
            Some l \<Rightarrow> map_option Some (rb_rightmost m l)
          | None \<Rightarrow> rb_climb_left m node }"

definition rb_replace_node :: "addr \<Rightarrow> addr \<Rightarrow> rb_root \<Rightarrow> rb_root option" where
  "rb_replace_node victim newnode s =
     do { v \<leftarrow> r_mem s victim;
          s \<leftarrow> (if rb_parent v \<noteq> None
               then on_rb (assign (rb_parent v) (\<lambda>p. if Some victim = rb_left p then p\<lparr>rb_left := Some newnode\<rparr>
                                                     else p\<lparr>rb_right := Some newnode\<rparr>)) s
               else Some (s\<lparr>r_node := Some newnode\<rparr>));
          v \<leftarrow> r_mem s victim;
          s \<leftarrow> on_rb (assign_if (rb_left v) (\<lambda>n. n\<lparr>rb_parent := Some newnode\<rparr>)) s;
          v \<leftarrow> r_mem s victim;
          s \<leftarrow> on_rb (assign_if (rb_right v) (\<lambda>n. n\<lparr>rb_parent := Some newnode\<rparr>)) s;
          v \<leftarrow> r_mem s victim;
          on_rb (assign (Some newnode) (\<lambda>n. v)) s }"

text \<open>\<open>rb_link_node\<close> writes the new node through a pointer to the link it takes.\<close>

datatype rb_link = Root_Link | Left_Link addr | Right_Link addr

definition rb_link_node :: "addr \<Rightarrow> ptr \<Rightarrow> rb_link \<Rightarrow> rb_root \<Rightarrow> rb_root option" where
  "rb_link_node node parent link s =
     do { s \<leftarrow> on_rb (assign (Some node) (\<lambda>n. n\<lparr>rb_parent := parent, rb_color := RB_RED, rb_left := None, rb_right := None\<rparr>)) s;
          case link of
            Root_Link \<Rightarrow> Some (s\<lparr>r_node := Some node\<rparr>)
          | Left_Link p \<Rightarrow> on_rb (assign (Some p) (\<lambda>n. n\<lparr>rb_left := Some node\<rparr>)) s
          | Right_Link p \<Rightarrow> on_rb (assign (Some p) (\<lambda>n. n\<lparr>rb_right := Some node\<rparr>)) s }"

section \<open>Sides\<close>

text \<open>
  The code comes in mirrored halves.  The proofs are done once, over a side; the functions of the code
  are the instances for the two sides.
\<close>

datatype side = LEFT | RIGHT

primrec opp :: "side \<Rightarrow> side" where
  "opp LEFT = RIGHT" | "opp RIGHT = LEFT"

primrec child :: "side \<Rightarrow> rb_node \<Rightarrow> ptr" where
  "child LEFT n = rb_left n" | "child RIGHT n = rb_right n"

primrec set_child :: "side \<Rightarrow> ptr \<Rightarrow> rb_node \<Rightarrow> rb_node" where
  "set_child LEFT p n = n\<lparr>rb_left := p\<rparr>" | "set_child RIGHT p n = n\<lparr>rb_right := p\<rparr>"

text \<open>The node with the children \<open>p\<close> on side \<open>d\<close> and \<open>q\<close> on the other.\<close>

primrec mk_node :: "side \<Rightarrow> ptr \<Rightarrow> rb_colour \<Rightarrow> ptr \<Rightarrow> ptr \<Rightarrow> rb_node" where
  "mk_node LEFT par c p q = \<lparr>rb_parent = par, rb_right = q, rb_left = p, rb_color = c\<rparr>"
| "mk_node RIGHT par c p q = \<lparr>rb_parent = par, rb_right = p, rb_left = q, rb_color = c\<rparr>"

lemma opp_opp [simp]: "opp (opp d) = d"
  by (cases d) auto

lemma opp_neq [simp]: "opp d \<noteq> d" "d \<noteq> opp d"
  by (cases d; simp)+

lemma node_simps [simp]:
  "rb_parent (mk_node d par c p q) = par" "rb_color (mk_node d par c p q) = c"
  "child d (mk_node d par c p q) = p" "child (opp d) (mk_node d par c p q) = q"
  "child d (mk_node (opp d) par c p q) = q"
  "(mk_node d par c p q)\<lparr>rb_parent := par'\<rparr> = mk_node d par' c p q"
  "(mk_node d par c p q)\<lparr>rb_color := c'\<rparr> = mk_node d par c' p q"
  "set_child d p' (mk_node d par c p q) = mk_node d par c p' q"
  "set_child (opp d) q' (mk_node d par c p q) = mk_node d par c p q'"
  "set_child d q' (mk_node (opp d) par c p q) = mk_node (opp d) par c p q'"
  by (cases d; simp)+

lemma node_opp: "mk_node (opp d) par c p q = mk_node d par c q p"
  by (cases d) auto

lemma node_eq_iff [simp]: "mk_node d par c p q = mk_node d par' c' p' q' \<longleftrightarrow> par = par' \<and> c = c' \<and> p = p' \<and> q = q'"
  by (cases d) auto

definition rotate :: "side \<Rightarrow> addr \<Rightarrow> rb_root \<Rightarrow> rb_root option" where
  "rotate d a s =
     do { n \<leftarrow> r_mem s a;
          let up = child (opp d) n;
          nu \<leftarrow> deref (r_mem s) up;
          s \<leftarrow> on_rb (assign (Some a) (\<lambda>n. set_child (opp d) (child d nu) n)) s;
          s \<leftarrow> on_rb (assign_if (child d nu) (\<lambda>n. n\<lparr>rb_parent := Some a\<rparr>)) s;
          s \<leftarrow> on_rb (assign up (\<lambda>n. set_child d (Some a) n)) s;
          n \<leftarrow> r_mem s a;
          s \<leftarrow> on_rb (assign up (\<lambda>r. r\<lparr>rb_parent := rb_parent n\<rparr>)) s;
          s \<leftarrow> (if rb_parent n \<noteq> None
               then on_rb (assign (rb_parent n) (\<lambda>p. if Some a = child d p then set_child d up p else set_child (opp d) up p)) s
               else Some (s\<lparr>r_node := up\<rparr>));
          on_rb (assign (Some a) (\<lambda>n. n\<lparr>rb_parent := up\<rparr>)) s }"

lemma rotate_code: "rb_rotate_left = rotate LEFT" "rb_rotate_right = rotate RIGHT"
  by (intro ext, simp add: rb_rotate_left_def rb_rotate_right_def rotate_def Let_def cong: if_cong)+

section \<open>Trees and paths in the store\<close>

datatype rtree = Tip | Br rb_colour rtree addr rtree

primrec br :: "side \<Rightarrow> rb_colour \<Rightarrow> rtree \<Rightarrow> addr \<Rightarrow> rtree \<Rightarrow> rtree" where
  "br LEFT c x a y = Br c x a y" | "br RIGHT c x a y = Br c y a x"

fun ptr_of :: "rtree \<Rightarrow> ptr" where
  "ptr_of Tip = None" | "ptr_of (Br c l a r) = Some a"

fun inord :: "rtree \<Rightarrow> addr list" where
  "inord Tip = []" | "inord (Br c l a r) = inord l @ a # inord r"

definition addrs :: "rtree \<Rightarrow> addr set" where
  "addrs t = set (inord t)"

fun dist :: "rtree \<Rightarrow> bool" where
  "dist Tip = True"
| "dist (Br c l a r) = (dist l \<and> dist r \<and> a \<notin> addrs l \<and> a \<notin> addrs r \<and> addrs l \<inter> addrs r = {})"

fun tree_at :: "rb_node store \<Rightarrow> ptr \<Rightarrow> rtree \<Rightarrow> bool" where
  "tree_at m par Tip = True"
| "tree_at m par (Br c l a r) = (m a = Some (mk_node LEFT par c (ptr_of l) (ptr_of r)) \<and> tree_at m (Some a) l \<and> tree_at m (Some a) r)"

text \<open>A frame of a path: the side the path comes from, the node, and the subtree on its other side.\<close>

datatype frame = Fr side rb_colour addr rtree

type_synonym path = "frame list"

fun plug :: "rtree \<Rightarrow> path \<Rightarrow> rtree" where
  "plug t [] = t" | "plug t (Fr d c a x # k) = plug (br d c t a x) k"

fun par_of :: "path \<Rightarrow> ptr" where
  "par_of [] = None" | "par_of (Fr d c a x # k) = Some a"

fun path_addrs :: "path \<Rightarrow> addr set" where
  "path_addrs [] = {}" | "path_addrs (Fr d c a x # k) = insert a (addrs x \<union> path_addrs k)"

fun path_dist :: "path \<Rightarrow> bool" where
  "path_dist [] = True"
| "path_dist (Fr d c a x # k) = (dist x \<and> path_dist k \<and> a \<notin> addrs x \<and> a \<notin> path_addrs k \<and> addrs x \<inter> path_addrs k = {})"

fun path_at :: "rb_node store \<Rightarrow> ptr \<Rightarrow> path \<Rightarrow> ptr \<Rightarrow> bool" where
  "path_at m rt [] p = (rt = p)"
| "path_at m rt (Fr d c a x # k) p =
     (m a = Some (mk_node d (par_of k) c p (ptr_of x)) \<and> tree_at m (Some a) x \<and> path_at m rt k (Some a))"

definition zip_at :: "rb_root \<Rightarrow> rtree \<Rightarrow> path \<Rightarrow> bool" where
  "zip_at s t k \<longleftrightarrow> tree_at (r_mem s) (par_of k) t \<and> path_at (r_mem s) (r_node s) k (ptr_of t) \<and>
     dist t \<and> path_dist k \<and> addrs t \<inter> path_addrs k = {}"

lemma addrs_simps [simp]: "addrs Tip = {}" "addrs (Br c l a r) = insert a (addrs l \<union> addrs r)"
  by (auto simp: addrs_def)

lemma br_simps [simp]:
  "ptr_of (br d c x a y) = Some a" "addrs (br d c x a y) = insert a (addrs x \<union> addrs y)"
  "dist (br d c x a y) = (dist x \<and> dist y \<and> a \<notin> addrs x \<and> a \<notin> addrs y \<and> addrs x \<inter> addrs y = {})"
  "tree_at m par (br d c x a y) =
     (m a = Some (mk_node d par c (ptr_of x) (ptr_of y)) \<and> tree_at m (Some a) x \<and> tree_at m (Some a) y)"
  by (cases d; auto)+

lemma br_opp: "br (opp d) c x a y = br d c y a x"
  by (cases d) auto

lemma ptr_of_in: "ptr_of t = Some r \<Longrightarrow> r \<in> addrs t"
  by (cases t) auto

lemma ptr_of_None [simp]: "ptr_of t = None \<longleftrightarrow> t = Tip" "None = ptr_of t \<longleftrightarrow> t = Tip"
  by (cases t; auto)+

lemma par_of_in: "par_of k = Some r \<Longrightarrow> r \<in> path_addrs k"
  by (cases k rule: par_of.cases) auto

lemma tree_at_live: "tree_at m par t \<Longrightarrow> addrs t \<subseteq> dom m"
  by (induction t arbitrary: par) (auto, blast+)

lemma path_at_live: "path_at m rt k p \<Longrightarrow> path_addrs k \<subseteq> dom m"
  by (induction m rt k p rule: path_at.induct) (auto dest: tree_at_live)

lemma tree_at_frame: "(\<And>r. r \<in> addrs t \<Longrightarrow> m' r = m r) \<Longrightarrow> tree_at m' par t = tree_at m par t"
  by (induction t arbitrary: par) auto

lemma path_at_frame: "(\<And>r. r \<in> path_addrs k \<Longrightarrow> m' r = m r) \<Longrightarrow> path_at m' rt k p = path_at m rt k p"
proof (induction m rt k p rule: path_at.induct)
  case (2 m rt d c a x k p)
  have "tree_at m' (Some a) x = tree_at m (Some a) x" by (rule tree_at_frame) (simp add: 2)
  with 2 show ?case by simp
qed simp

lemma tree_at_patch [simp]:
  "r \<notin> addrs t \<Longrightarrow> tree_at (patch (Some r) f m) par t = tree_at m par t"
  "addrs t \<inter> addrs y = {} \<Longrightarrow> tree_at (patch (ptr_of y) f m) par t = tree_at m par t"
  "addrs t \<inter> path_addrs k = {} \<Longrightarrow> tree_at (patch (par_of k) f m) par t = tree_at m par t"
  by (rule tree_at_frame; auto simp: patch_apply dest: ptr_of_in par_of_in)+

lemma path_at_patch [simp]:
  "r \<notin> path_addrs k \<Longrightarrow> path_at (patch (Some r) f m) rt k q = path_at m rt k q"
  "addrs y \<inter> path_addrs k = {} \<Longrightarrow> path_at (patch (ptr_of y) f m) rt k q = path_at m rt k q"
  by (rule path_at_frame; auto simp: patch_apply dest: ptr_of_in)+

lemma tree_at_reparent:
  "\<lbrakk>tree_at m q t; dist t\<rbrakk> \<Longrightarrow> tree_at (patch (ptr_of t) (\<lambda>n. n\<lparr>rb_parent := q'\<rparr>) m) q' t"
  by (cases t) (auto simp: patch_apply)

lemma path_at_relink:
  assumes "path_at m rt k (Some a)" and "path_dist k" and "a \<notin> path_addrs k"
  shows "path_at (patch (par_of k) (\<lambda>p. if Some a = child d p then set_child d q p else set_child (opp d) q p) m)
    (if k = [] then q else rt) k q"
proof (cases k)
  case (Cons f k')
  obtain e c b x where f: "f = Fr e c b x" by (cases f)
  have "ptr_of x \<noteq> Some a" using assms Cons f by (auto dest: ptr_of_in)
  then have *: "(if Some a = child d (mk_node e (par_of k') c (Some a) (ptr_of x))
      then set_child d q (mk_node e (par_of k') c (Some a) (ptr_of x)) else set_child (opp d) q (mk_node e (par_of k') c (Some a) (ptr_of x)))
      = mk_node e (par_of k') c q (ptr_of x)"
    by (cases d; cases e) auto
  show ?thesis using assms unfolding Cons f
    by (simp add: patch_apply *)
qed (use assms in simp)

lemma on_rb_simps:
  "r \<in> dom (r_mem s) \<Longrightarrow> on_rb (assign (Some r) f) s = Some (s\<lparr>r_mem := patch (Some r) f (r_mem s)\<rparr>)"
  "live (r_mem s) p \<Longrightarrow> on_rb (assign_if p f) s = Some (s\<lparr>r_mem := patch p f (r_mem s)\<rparr>)"
  by (simp_all add: on_rb_def assign_patch assign_if_patch)

lemma zip_at_live:
  assumes "zip_at s t k"
  shows "live (r_mem s) (par_of k)" "live (r_mem s) (ptr_of t)" "addrs t \<subseteq> dom (r_mem s)" "path_addrs k \<subseteq> dom (r_mem s)"
  using assms tree_at_live path_at_live ptr_of_in par_of_in unfolding zip_at_def live_def by blast+

definition same_live :: "rb_root \<Rightarrow> rb_root \<Rightarrow> bool" where
  "same_live s s' \<longleftrightarrow> dom (r_mem s') = dom (r_mem s)"

lemma same_live_refl [simp]: "same_live s s"
  by (simp add: same_live_def)

lemma same_live_trans: "\<lbrakk>same_live s s'; same_live s' s''\<rbrakk> \<Longrightarrow> same_live s s''"
  by (simp add: same_live_def)

lemma zip_up: "zip_at s t (Fr d c a x # k) \<longleftrightarrow> zip_at s (br d c t a x) k"
  by (auto simp: zip_at_def)

lemma zip_node: "zip_at s (br d c x a y) k \<Longrightarrow> r_mem s a = Some (mk_node d (par_of k) c (ptr_of x) (ptr_of y))"
  by (simp add: zip_at_def)

lemma zip_root: "zip_at s t [] \<Longrightarrow> r_node s = ptr_of t"
  by (simp add: zip_at_def)

lemma zip_live_ptr: "tree_at m par t \<Longrightarrow> live m (ptr_of t)"
  using tree_at_live ptr_of_in unfolding live_def by blast

lemma zip_live_par: "path_at m rt k p \<Longrightarrow> live m (par_of k)"
  using path_at_live par_of_in unfolding live_def by blast

lemma rotate_zip:
  assumes z: "zip_at s (br d c x a (br d c' y b w)) k"
  obtains s' where "rotate d a s = Some s'" "zip_at s' (br d c' (br d c x a y) b w) k" "same_live s s'"
proof -
  let ?m = "r_mem s" and ?par = "par_of k"
  define m' where "m' = patch (Some a) (\<lambda>n. n\<lparr>rb_parent := Some b\<rparr>)
    (patch ?par (\<lambda>p. if Some a = child d p then set_child d (Some b) p else set_child (opp d) (Some b) p)
    (patch (Some b) (\<lambda>r. r\<lparr>rb_parent := ?par\<rparr>)
    (patch (Some b) (\<lambda>n. set_child d (Some a) n)
    (patch (ptr_of y) (\<lambda>n. n\<lparr>rb_parent := Some a\<rparr>)
    (patch (Some a) (\<lambda>n. set_child (opp d) (ptr_of y) n) ?m)))))"
  let ?s = "(if k = [] then s\<lparr>r_node := Some b\<rparr> else s)\<lparr>r_mem := m'\<rparr>"
  have t: "?m a = Some (mk_node d ?par c (ptr_of x) (Some b))" "?m b = Some (mk_node d (Some a) c' (ptr_of y) (ptr_of w))"
    "tree_at ?m (Some a) x" "tree_at ?m (Some b) y" "tree_at ?m (Some b) w"
    and p: "path_at ?m (r_node s) k (Some a)"
    and dis: "dist x" "dist y" "dist w" "path_dist k" "a \<noteq> b" "a \<notin> addrs x" "a \<notin> addrs y" "a \<notin> addrs w" "b \<notin> addrs x" "b \<notin> addrs y"
      "b \<notin> addrs w" "addrs x \<inter> addrs y = {}" "addrs x \<inter> addrs w = {}" "addrs y \<inter> addrs w = {}" "a \<notin> path_addrs k" "b \<notin> path_addrs k"
      "addrs x \<inter> path_addrs k = {}" "addrs y \<inter> path_addrs k = {}" "addrs w \<inter> path_addrs k = {}"
    using z unfolding zip_at_def by (simp_all add: Int_Un_distrib Int_Un_distrib2 split: if_splits)
  have ab: "a \<in> dom ?m" "b \<in> dom ?m" using t by auto
  have lv: "live ?m (ptr_of y)" "live ?m ?par"
    using zip_live_ptr [OF t(4)] zip_live_par [OF p] .
  have ne: "ptr_of y \<noteq> Some a" "ptr_of y \<noteq> Some b" "?par \<noteq> Some a" "?par \<noteq> Some b"
    using dis(7,10,15,16) ptr_of_in par_of_in by metis+
  have par: "?par = None \<longleftrightarrow> k = []" by (cases k rule: par_of.cases) auto
  have "rotate d a s = Some ?s"
  proof (cases "k = []")
    case True
    then show ?thesis using t ab lv ne dis(5) unfolding rotate_def m'_def
      by (simp add: on_rb_simps patch_apply Let_def cong: if_cong)
  next
    case False
    then obtain q where q: "?par = Some q" using par by auto
    then have "q \<in> dom ?m" using lv by simp
    then show ?thesis using t ab lv ne dis(5) q False unfolding rotate_def m'_def
      by (simp add: on_rb_simps patch_apply Let_def cong: if_cong)
  qed
  moreover have "zip_at ?s (br d c' (br d c x a y) b w) k"
  proof -
    have "m' a = Some (mk_node d (Some b) c (ptr_of x) (ptr_of y))" "m' b = Some (mk_node d ?par c' (Some a) (ptr_of w))"
      using t(1,2) ne dis(5) by (simp_all add: m'_def patch_apply)
    moreover have "tree_at m' (Some a) x" "tree_at m' (Some b) w"
      using t dis by (simp_all add: m'_def Int_commute)
    moreover have "tree_at m' (Some a) y"
      using t dis unfolding m'_def by (simp add: tree_at_reparent)
    moreover have "path_at m' (if k = [] then Some b else r_node s) k (Some b)"
    proof -
      have "path_at (patch (Some b) (\<lambda>r. r\<lparr>rb_parent := ?par\<rparr>) (patch (Some b) (\<lambda>n. set_child d (Some a) n)
        (patch (ptr_of y) (\<lambda>n. n\<lparr>rb_parent := Some a\<rparr>) (patch (Some a) (\<lambda>n. set_child (opp d) (ptr_of y) n) ?m))))
        (r_node s) k (Some a)"
        using p dis by simp
      from path_at_relink [OF this dis(4,15), of d "Some b"] show ?thesis
        unfolding m'_def by (subst path_at_patch(1)) (use dis in auto)
    qed
    ultimately show ?thesis using dis
      by (cases "k = []") (simp_all add: zip_at_def Int_Un_distrib Int_Un_distrib2 Int_commute)
  qed
  moreover have "same_live s ?s" by (simp add: same_live_def m'_def)
  ultimately show thesis using that by blast
qed

lemma set_color_zip:
  assumes z: "zip_at s (br d c x a y) k"
  obtains s' where "set_color (Some a) c' s = Some s'" "zip_at s' (br d c' x a y) k" "same_live s s'"
proof -
  let ?s = "s\<lparr>r_mem := patch (Some a) (\<lambda>n. n\<lparr>rb_color := c'\<rparr>) (r_mem s)\<rparr>"
  have n: "r_mem s a = Some (mk_node d (par_of k) c (ptr_of x) (ptr_of y))" "a \<in> dom (r_mem s)" using zip_node [OF z] by auto
  have "zip_at ?s (br d c' x a y) k" using z n by (simp add: zip_at_def patch_apply)
  moreover have "same_live s ?s" by (simp add: same_live_def)
  ultimately show thesis using that n by (simp add: on_rb_simps)
qed

lemma is_red_zip:
  "zip_at s (br d c x a y) k \<Longrightarrow> is_red s (Some a) = Some (c = RB_RED)"
  by (simp add: is_red_def zip_node)

fun col :: "rtree \<Rightarrow> rb_colour" where
  "col Tip = RB_BLACK" | "col (Br c l a r) = c"

lemma col_br [simp]: "col (br d c x a y) = c"
  by (cases d) auto

lemma br_cases:
  obtains (tip) "t = Tip" | (br) c x a y where "t = br d c x a y"
  by (cases t; cases d) auto

lemma is_red_ptr:
  assumes "zip_at s t k"
  shows "is_red s (ptr_of t) = Some (col t = RB_RED)"
proof (cases t rule: br_cases [where d = LEFT])
  case tip
  then show ?thesis by (simp add: is_red_def)
next
  case (br c x a y)
  then show ?thesis using assms by (simp only: br_simps is_red_zip col_br)
qed

text \<open>The subtree on the other side of a node.\<close>

lemma zip_other: "zip_at s (br d c x a y) k \<longleftrightarrow> zip_at s y (Fr (opp d) c a x # k)"
  by (simp add: zip_up br_opp)

lemma zip_this: "zip_at s (br d c x a y) k \<longleftrightarrow> zip_at s x (Fr d c a y # k)"
  by (simp add: zip_up)

section \<open>Balance\<close>

fun bh :: "rtree \<Rightarrow> nat" where
  "bh Tip = 0" | "bh (Br c l a r) = max (bh l) (bh r) + of_bool (c = RB_BLACK)"

fun rb_ok :: "rtree \<Rightarrow> bool" where
  "rb_ok Tip = True"
| "rb_ok (Br c l a r) = (rb_ok l \<and> rb_ok r \<and> bh l = bh r \<and> (c = RB_RED \<longrightarrow> col l = RB_BLACK \<and> col r = RB_BLACK))"

text \<open>A path into whose hole a subtree of black height \<open>h\<close> with a black root fits.\<close>

fun path_black :: "path \<Rightarrow> bool" where
  "path_black [] = False" | "path_black (Fr d c a x # k) = (c = RB_BLACK)"

fun path_ok :: "nat \<Rightarrow> path \<Rightarrow> bool" where
  "path_ok h [] = True"
| "path_ok h (Fr d c a x # k) =
     (rb_ok x \<and> bh x = h \<and> (c = RB_RED \<longrightarrow> col x = RB_BLACK \<and> path_black k) \<and> path_ok (h + of_bool (c = RB_BLACK)) k)"

fun before :: "path \<Rightarrow> addr list" where
  "before [] = []" | "before (Fr LEFT c a x # k) = before k" | "before (Fr RIGHT c a x # k) = before k @ inord x @ [a]"

fun after :: "path \<Rightarrow> addr list" where
  "after [] = []" | "after (Fr LEFT c a x # k) = a # inord x @ after k" | "after (Fr RIGHT c a x # k) = after k"

lemma bh_br [simp]: "bh (br d c x a y) = max (bh x) (bh y) + of_bool (c = RB_BLACK)"
  by (cases d) (auto simp: max.commute)

lemma rb_ok_br [simp]:
  "rb_ok (br d c x a y) = (rb_ok x \<and> rb_ok y \<and> bh x = bh y \<and> (c = RB_RED \<longrightarrow> col x = RB_BLACK \<and> col y = RB_BLACK))"
  by (cases d) auto

lemma colour_neq [simp]: "c \<noteq> RB_RED \<longleftrightarrow> c = RB_BLACK" "c \<noteq> RB_BLACK \<longleftrightarrow> c = RB_RED"
  by (cases c; simp)+

lemma plug_ok:
  "rb_ok (plug t k) \<and> col (plug t k) = RB_BLACK \<longleftrightarrow> rb_ok t \<and> path_ok (bh t) k \<and> (col t = RB_RED \<longrightarrow> path_black k)"
proof (induction k arbitrary: t)
  case Nil
  then show ?case by (cases "col t") auto
next
  case (Cons f k)
  obtain d c a x where "f = Fr d c a x" by (cases f)
  then show ?case using Cons.IH [of "br d c t a x"] by (cases c; cases "col t") auto
qed

lemma inord_plug: "inord (plug t k) = before k @ inord t @ after k"
proof (induction k arbitrary: t)
  case (Cons f k)
  obtain d c a x where "f = Fr d c a x" by (cases f)
  then show ?case using Cons.IH [of "br d c t a x"] by (cases d) auto
qed simp

lemma inord_rotate: "inord (br d c' (br d c x a y) b w) = inord (br d e x a (br d e' y b w))"
  by (cases d) auto

lemma inord_br_cong: "\<lbrakk>inord x = inord x'; inord y = inord y'\<rbrakk> \<Longrightarrow> inord (br d c x a y) = inord (br d c' x' a y')"
  by (cases d) auto

lemma zip_plug: "zip_at s t k \<longleftrightarrow> zip_at s (plug t k) []"
proof (induction k arbitrary: t)
  case (Cons f k)
  then show ?case by (cases f) (simp add: zip_up)
qed simp

section \<open>Insertion\<close>

definition insert_body :: "side \<Rightarrow> addr \<Rightarrow> addr \<Rightarrow> addr \<Rightarrow> rb_root \<Rightarrow> (addr \<times> rb_root) option" where
  "insert_body d nd parent gparent s =
     do { ng \<leftarrow> r_mem s gparent;
          let uncle = child (opp d) ng;
          red \<leftarrow> is_red s uncle;
          if red then
            do { s \<leftarrow> set_color uncle RB_BLACK s;
                 s \<leftarrow> set_color (Some parent) RB_BLACK s;
                 s \<leftarrow> set_color (Some gparent) RB_RED s;
                 Some (gparent, s) }
          else
            do { np \<leftarrow> r_mem s parent;
                 (nd, parent, s) \<leftarrow>
                   (if child (opp d) np = Some nd
                    then map_option (\<lambda>s. (parent, nd, s)) (rotate d parent s)
                    else Some (nd, parent, s));
                 s \<leftarrow> set_color (Some parent) RB_BLACK s;
                 s \<leftarrow> set_color (Some gparent) RB_RED s;
                 s \<leftarrow> rotate (opp d) gparent s;
                 Some (nd, s) } }"

lemma insert_body_code: "rb_insert_left = insert_body LEFT" "rb_insert_right = insert_body RIGHT"
  by (intro ext, simp add: rb_insert_left_def rb_insert_right_def insert_body_def rotate_code cong: if_cong)+

text \<open>A red uncle: the colours of the grandparent and its children are exchanged.\<close>

lemma insert_body_recolour:
  assumes z: "zip_at s (br f RB_BLACK (br e RB_RED t p u) g (br f RB_RED v w v')) k"
  obtains s' where "insert_body f a p g s = Some (g, s')" "same_live s s'"
    "zip_at s' (br f RB_RED (br e RB_BLACK t p u) g (br f RB_BLACK v w v')) k"
proof -
  from z have z0: "zip_at s (br f RB_RED v w v') (Fr (opp f) RB_BLACK g (br e RB_RED t p u) # k)" by (simp only: zip_other)
  obtain s1 where s1: "set_color (Some w) RB_BLACK s = Some s1"
      "zip_at s1 (br f RB_BLACK v w v') (Fr (opp f) RB_BLACK g (br e RB_RED t p u) # k)" "same_live s s1"
    by (rule set_color_zip [OF z0])
  from s1(2) have z1: "zip_at s1 (br e RB_RED t p u) (Fr f RB_BLACK g (br f RB_BLACK v w v') # k)"
    by (simp only: zip_this [symmetric] br_opp)
  obtain s2 where s2: "set_color (Some p) RB_BLACK s1 = Some s2"
      "zip_at s2 (br e RB_BLACK t p u) (Fr f RB_BLACK g (br f RB_BLACK v w v') # k)" "same_live s1 s2"
    by (rule set_color_zip [OF z1])
  from s2(2) have z2: "zip_at s2 (br f RB_BLACK (br e RB_BLACK t p u) g (br f RB_BLACK v w v')) k" by (simp only: zip_this)
  obtain s3 where s3: "set_color (Some g) RB_RED s2 = Some s3"
      "zip_at s3 (br f RB_RED (br e RB_BLACK t p u) g (br f RB_BLACK v w v')) k" "same_live s2 s3"
    by (rule set_color_zip [OF z2])
  have "insert_body f a p g s = Some (g, s3)"
    using zip_node [OF z] is_red_zip [OF z0] s1(1) s2(1) s3(1) by (simp add: insert_body_def)
  with that s3(2) same_live_trans [OF s1(3) same_live_trans [OF s2(3) s3(3)]] show thesis by blast
qed

text \<open>A black uncle: one or two rotations.\<close>

lemma insert_finish:
  assumes z: "zip_at s (br f RB_BLACK (br f RB_RED n1 p n2) g v) k"
  obtains s1 s2 s3 where "set_color (Some p) RB_BLACK s = Some s1" "set_color (Some g) RB_RED s1 = Some s2"
    "rotate (opp f) g s2 = Some s3" "same_live s s3" "zip_at s3 (br f RB_BLACK n1 p (br f RB_RED n2 g v)) k"
proof -
  from z have z0: "zip_at s (br f RB_RED n1 p n2) (Fr f RB_BLACK g v # k)" by (simp only: zip_this)
  obtain s1 where s1: "set_color (Some p) RB_BLACK s = Some s1"
      "zip_at s1 (br f RB_BLACK n1 p n2) (Fr f RB_BLACK g v # k)" "same_live s s1"
    by (rule set_color_zip [OF z0])
  from s1(2) have z1: "zip_at s1 (br f RB_BLACK (br f RB_BLACK n1 p n2) g v) k" by (simp only: zip_this)
  obtain s2 where s2: "set_color (Some g) RB_RED s1 = Some s2"
      "zip_at s2 (br f RB_RED (br f RB_BLACK n1 p n2) g v) k" "same_live s1 s2"
    by (rule set_color_zip [OF z1])
  from s2(2) have z2: "zip_at s2 (br (opp f) RB_RED v g (br (opp f) RB_BLACK n2 p n1)) k" by (simp only: br_opp)
  obtain s3 where s3: "rotate (opp f) g s2 = Some s3"
      "zip_at s3 (br (opp f) RB_BLACK (br (opp f) RB_RED v g n2) p n1) k" "same_live s2 s3"
    by (rule rotate_zip [OF z2])
  from s3(2) have "zip_at s3 (br f RB_BLACK n1 p (br f RB_RED n2 g v)) k" by (simp only: br_opp)
  then show thesis using that s1(1) s2(1) s3(1) same_live_trans [OF s1(3) same_live_trans [OF s2(3) s3(3)]] by blast
qed

lemma insert_body_rotate:
  assumes z: "zip_at s (br f RB_BLACK (br e RB_RED (br f RB_RED x a y) p u) g v) k" and v: "col v = RB_BLACK"
  obtains a' s' n1 p' n2 where "insert_body f a p g s = Some (a', s')" "same_live s s'"
    "zip_at s' (br f RB_BLACK n1 p' (br f RB_RED n2 g v)) k" "ptr_of n1 = Some a'"
    "(n1, p', n2) = (if e = f then (br f RB_RED x a y, p, u) else (br f RB_RED u p x, a, y))"
proof -
  have red: "is_red s (ptr_of v) = Some False"
    using is_red_ptr [OF z [unfolded zip_other]] v by simp
  have ng: "r_mem s g = Some (mk_node f (par_of k) RB_BLACK (Some p) (ptr_of v))" using zip_node [OF z] by simp
  have zp: "zip_at s (br e RB_RED (br f RB_RED x a y) p u) (Fr f RB_BLACK g v # k)" using z by (simp only: zip_this)
  have np: "r_mem s p = Some (mk_node e (Some g) RB_RED (Some a) (ptr_of u))" using zip_node [OF zp] by simp
  show thesis
  proof (cases "e = f")
    case True
    have "ptr_of u \<noteq> Some a" using z ptr_of_in [of u a] by (auto simp: zip_at_def)
    then have "child (opp f) (mk_node e (Some g) RB_RED (Some a) (ptr_of u)) \<noteq> Some a" using True by simp
    moreover obtain s1 s2 s3 where "set_color (Some p) RB_BLACK s = Some s1" "set_color (Some g) RB_RED s1 = Some s2"
        "rotate (opp f) g s2 = Some s3" "same_live s s3" "zip_at s3 (br f RB_BLACK (br f RB_RED x a y) p (br f RB_RED u g v)) k"
      by (rule insert_finish [OF z [unfolded True]])
    ultimately show thesis using that [of a s3 "br f RB_RED x a y" p u] True ng np red by (simp add: insert_body_def)
  next
    case False
    then have e: "e = opp f" by (cases e; cases f) auto
    have z1: "zip_at s (br f RB_RED u p (br f RB_RED x a y)) (Fr f RB_BLACK g v # k)" using zp by (simp only: e br_opp)
    obtain s0 where s0: "rotate f p s = Some s0"
        "zip_at s0 (br f RB_RED (br f RB_RED u p x) a y) (Fr f RB_BLACK g v # k)" "same_live s s0"
      by (rule rotate_zip [OF z1])
    from s0(2) have z0: "zip_at s0 (br f RB_BLACK (br f RB_RED (br f RB_RED u p x) a y) g v) k" by (simp only: zip_this)
    obtain s1 s2 s3 where s3: "set_color (Some a) RB_BLACK s0 = Some s1" "set_color (Some g) RB_RED s1 = Some s2"
        "rotate (opp f) g s2 = Some s3" "same_live s0 s3" "zip_at s3 (br f RB_BLACK (br f RB_RED u p x) a (br f RB_RED y g v)) k"
      by (rule insert_finish [OF z0])
    show thesis
    proof (rule that [of p s3 "br f RB_RED u p x" a y])
      show "insert_body f a p g s = Some (p, s3)"
        using s0(1) s3(1-3) ng np red e by (simp add: insert_body_def)
    qed (use s3 e False same_live_trans [OF s0(3) s3(4)] in simp_all)
  qed
qed

lemma rb_insert_loop_exit:
  "\<lbrakk>zip_at s n1 (Fr f RB_BLACK p x # k); ptr_of n1 = Some a\<rbrakk> \<Longrightarrow> rb_insert_loop a s = Some s"
proof (cases n1 rule: br_cases [where d = LEFT])
  case (br c y b w)
  assume z: "zip_at s n1 (Fr f RB_BLACK p x # k)" and a: "ptr_of n1 = Some a"
  have "r_mem s a = Some (mk_node LEFT (Some p) c (ptr_of y) (ptr_of w))" using zip_node [of s LEFT c y b w] z a br by simp
  moreover have "r_mem s p = Some (mk_node f (par_of k) RB_BLACK (Some a) (ptr_of x))"
    using zip_node [of s f RB_BLACK n1 p x k] z a by (simp add: zip_up)
  ultimately show ?thesis by (subst rb_insert_loop.simps) simp
qed simp

lemma rb_insert_loop_step:
  assumes z: "zip_at s t (Fr e RB_RED p u # Fr f c g v # k)" and a: "ptr_of t = Some a"
  shows "rb_insert_loop a s = do { (a, s) \<leftarrow> insert_body f a p g s; rb_insert_loop a s }"
proof -
  obtain ct x y where t: "t = br LEFT ct x a y" using a by (cases t rule: br_cases [where d = LEFT]) auto
  have na: "r_mem s a = Some (mk_node LEFT (Some p) ct (ptr_of x) (ptr_of y))" using zip_node [of s LEFT ct x a y] z t by simp
  have np: "r_mem s p = Some (mk_node e (Some g) RB_RED (Some a) (ptr_of u))"
    using zip_node [OF zip_this [THEN iffD2, OF z]] a by simp
  have zg: "zip_at s (br f c (br e RB_RED t p u) g v) k" using z by (simp add: zip_up)
  have ng: "r_mem s g = Some (mk_node f (par_of k) c (Some p) (ptr_of v))" using zip_node [OF zg] by simp
  have "ptr_of v \<noteq> Some p" using zg ptr_of_in [of v p] by (auto simp: zip_at_def)
  then have "(if Some p = rb_left (mk_node f (par_of k) c (Some p) (ptr_of v)) then rb_insert_left a p g s else rb_insert_right a p g s)
      = insert_body f a p g s"
    by (cases f) (auto simp: insert_body_code)
  then show ?thesis using na np ng by (subst rb_insert_loop.simps) simp
qed

lemma rb_insert_loop_zip:
  "\<lbrakk>zip_at s t k; ptr_of t = Some a; col t = RB_RED; rb_ok t; path_ok (bh t) k\<rbrakk> \<Longrightarrow>
   \<exists>s' t'. rb_insert_loop a s = Some s' \<and> zip_at s' t' [] \<and> rb_ok t' \<and> inord t' = inord (plug t k) \<and> same_live s s'"
proof (induction "length k" arbitrary: s t k a rule: less_induct)
  case less
  note z = less.prems(1) and a = less.prems(2)
  obtain ct x y where t: "t = br LEFT ct x a y" using a by (cases t rule: br_cases [where d = LEFT]) auto
  show ?case
  proof (cases k rule: par_of.cases)
    case 1
    have "rb_insert_loop a s = Some s"
      using zip_node [of s LEFT ct x a y k] z t 1 by (subst rb_insert_loop.simps) simp
    with less.prems 1 show ?thesis by auto
  next
    case (2 e c p u k1)
    show ?thesis
    proof (cases c)
      case RB_BLACK
      then have "rb_insert_loop a s = Some s" using rb_insert_loop_exit z a 2 by blast
      moreover have "rb_ok (plug t k)" using plug_ok [of t k] less.prems 2 RB_BLACK by simp
      ultimately show ?thesis using zip_plug z by auto
    next
      case RB_RED
      then obtain f g v k2 where k1: "k1 = Fr f RB_BLACK g v # k2"
        using less.prems(5) 2 by (cases k1 rule: path_black.cases) auto
      have ok: "rb_ok u" "bh u = bh t" "col u = RB_BLACK" "rb_ok v" "bh v = bh t" "path_ok (bh t + 1) k2"
        using less.prems(5) 2 RB_RED k1 by auto
      have zz: "zip_at s (br f RB_BLACK (br e RB_RED t p u) g v) k2" using z 2 RB_RED k1 by (simp only: zip_up)
      note unf = rb_insert_loop_step [OF z [unfolded 2 RB_RED k1] a]
      show ?thesis
      proof (cases "col v = RB_RED")
        case True
        then obtain v1 w v2 where v: "v = br f RB_RED v1 w v2" by (cases v rule: br_cases [where d = f]) auto
        obtain s1 where s1: "insert_body f a p g s = Some (g, s1)" "same_live s s1"
            "zip_at s1 (br f RB_RED (br e RB_BLACK t p u) g (br f RB_BLACK v1 w v2)) k2"
          by (rule insert_body_recolour [OF zz [unfolded v]])
        let ?t = "br f RB_RED (br e RB_BLACK t p u) g (br f RB_BLACK v1 w v2)"
        have "inord (plug ?t k2) = inord (plug t k)"
          using 2 RB_RED k1 v by (simp add: inord_plug) (cases f; cases e; simp)
        moreover have "rb_ok ?t" "path_ok (bh ?t) k2" using ok v less.prems(4) by auto
        then obtain s' t' where "rb_insert_loop g s1 = Some s'" "zip_at s' t' []" "rb_ok t'" "inord t' = inord (plug ?t k2)" "same_live s1 s'"
          using less.hyps [of k2 s1 ?t g] s1(3) 2 k1 by auto
        ultimately show ?thesis using unf s1 same_live_trans [OF s1(2)] by auto
      next
        case False
        obtain x' y' where t': "t = br f RB_RED x' a y'" using a less.prems(3) by (cases t rule: br_cases [where d = f]) auto
        from False have cv: "col v = RB_BLACK" by simp
        obtain a' s' n1 p' n2 where b: "insert_body f a p g s = Some (a', s')" "same_live s s'"
            "zip_at s' (br f RB_BLACK n1 p' (br f RB_RED n2 g v)) k2" "ptr_of n1 = Some a'"
            "(n1, p', n2) = (if e = f then (br f RB_RED x' a y', p, u) else (br f RB_RED u p x', a, y'))"
          by (rule insert_body_rotate [OF zz [unfolded t'] cv])
        let ?t = "br f RB_BLACK n1 p' (br f RB_RED n2 g v)"
        have "rb_insert_loop a' s' = Some s'" using rb_insert_loop_exit b(3,4) by (simp add: zip_this)
        moreover have "rb_ok ?t" "bh ?t = bh t + 1" "col ?t = RB_BLACK"
          using b(5) ok False less.prems(4) t' by (auto split: if_splits)
        then have "rb_ok (plug ?t k2)" using plug_ok [of ?t k2] ok by simp
        moreover have "inord (plug ?t k2) = inord (plug t k)"
          using b(5) 2 RB_RED k1 t' by (simp add: inord_plug) (cases f; cases e; auto)
        ultimately show ?thesis using unf b zip_plug by auto
      qed
    qed
  qed
qed

lemma rb_insert_color_zip:
  assumes z: "zip_at s t k" and t: "ptr_of t = Some a" "col t = RB_RED" "rb_ok t" "path_ok (bh t) k"
  obtains s' t' where "rb_insert_color a s = Some s'" "zip_at s' t' []" "rb_ok t'" "col t' = RB_BLACK"
    "inord t' = inord (plug t k)" "same_live s s'"
proof -
  obtain s1 t1 where 1: "rb_insert_loop a s = Some s1" "zip_at s1 t1 []" "rb_ok t1" "inord t1 = inord (plug t k)" "same_live s s1"
    using rb_insert_loop_zip [OF assms] by blast
  have "a \<in> set (inord t1)" using t(1) 1(4) ptr_of_in [OF t(1)] by (simp add: inord_plug addrs_def)
  then obtain c x b y where t1: "t1 = br LEFT c x b y" by (cases t1 rule: br_cases [where d = LEFT]) auto
  obtain s2 where s2: "set_color (Some b) RB_BLACK s1 = Some s2" "zip_at s2 (br LEFT RB_BLACK x b y) []" "same_live s1 s2"
    by (rule set_color_zip [OF 1(2) [unfolded t1]])
  show thesis
  proof (rule that [OF _ s2(2)])
    show "rb_insert_color a s = Some s2" using 1(1) s2(1) zip_root [OF 1(2)] t1 by (simp add: rb_insert_color_def)
  qed (use 1 t1 s2 same_live_trans [OF 1(5) s2(3)] in auto)
qed

section \<open>The recolouring after an erasure\<close>

definition sibling_up :: "side \<Rightarrow> addr \<Rightarrow> ptr \<Rightarrow> rb_root \<Rightarrow> (ptr \<times> rb_root) option" where
  "sibling_up d parent other s =
     do { s \<leftarrow> set_color other RB_BLACK s;
          s \<leftarrow> set_color (Some parent) RB_RED s;
          s \<leftarrow> rotate d parent s;
          np \<leftarrow> r_mem s parent;
          Some (child (opp d) np, s) }"

definition nephew_up :: "side \<Rightarrow> addr \<Rightarrow> ptr \<Rightarrow> ptr \<Rightarrow> rb_root \<Rightarrow> (ptr \<times> rb_root) option" where
  "nephew_up d parent other near s =
     do { s \<leftarrow> on_rb (assign_if near (\<lambda>n. n\<lparr>rb_color := RB_BLACK\<rparr>)) s;
          s \<leftarrow> set_color other RB_RED s;
          (case other of None \<Rightarrow> None | Some ot \<Rightarrow>
          do { s \<leftarrow> rotate (opp d) ot s;
               np \<leftarrow> r_mem s parent;
               Some (child (opp d) np, s) }) }"

definition erase_finish :: "side \<Rightarrow> addr \<Rightarrow> ptr \<Rightarrow> rb_root \<Rightarrow> rb_root option" where
  "erase_finish d parent other s =
     do { np \<leftarrow> r_mem s parent;
          s \<leftarrow> set_color other (rb_color np) s;
          s \<leftarrow> set_color (Some parent) RB_BLACK s;
          no \<leftarrow> deref (r_mem s) other;
          s \<leftarrow> on_rb (assign_if (child (opp d) no) (\<lambda>n. n\<lparr>rb_color := RB_BLACK\<rparr>)) s;
          rotate d parent s }"

text \<open>The part of the body after the sibling has been made black.\<close>

definition erase_black :: "side \<Rightarrow> addr \<Rightarrow> ptr \<Rightarrow> rb_root \<Rightarrow> (rb_next_step \<times> rb_root) option" where
  "erase_black d parent other s =
     do { no \<leftarrow> deref (r_mem s) other;
          lred \<leftarrow> is_red s (rb_left no);
          rred \<leftarrow> is_red s (rb_right no);
          if \<not> lred \<and> \<not> rred then
            do { s \<leftarrow> set_color other RB_RED s;
                 np \<leftarrow> r_mem s parent;
                 Some (Go (Some parent) (rb_parent np), s) }
          else
            do { (other, s) \<leftarrow>
                   (if \<not> (case d of LEFT \<Rightarrow> rred | RIGHT \<Rightarrow> lred)
                    then nephew_up d parent other (child d no) s
                    else Some (other, s));
                 s \<leftarrow> erase_finish d parent other s;
                 Some (Break, s) } }"

definition erase_body :: "side \<Rightarrow> addr \<Rightarrow> rb_root \<Rightarrow> (rb_next_step \<times> rb_root) option" where
  "erase_body d parent s =
     do { np \<leftarrow> r_mem s parent;
          let other = child (opp d) np;
          no \<leftarrow> deref (r_mem s) other;
          (other, s) \<leftarrow> (if rb_color no = RB_RED then sibling_up d parent other s else Some (other, s));
          erase_black d parent other s }"

lemma erase_body_code: "rb_erase_left = erase_body LEFT" "rb_erase_right = erase_body RIGHT"
  by (intro ext, simp add: rb_erase_left_def rb_erase_right_def erase_body_def erase_black_def sibling_up_def nephew_up_def
      erase_finish_def rotate_code cong: if_cong option.case_cong)+

lemma set_color_if:
  "zip_at s (br d c x a y) k \<Longrightarrow> on_rb (assign_if (Some a) (\<lambda>n. n\<lparr>rb_color := c'\<rparr>)) s = set_color (Some a) c' s"
  by (simp add: assign_if_def on_rb_def)

lemma sibling_up_zip:
  assumes z: "zip_at s (br d RB_BLACK t p (br d RB_RED w1 q w2)) k"
  obtains s' where "sibling_up d p (Some q) s = Some (ptr_of w1, s')"
    "zip_at s' (br d RB_RED t p w1) (Fr d RB_BLACK q w2 # k)" "same_live s s'"
proof -
  from z have z0: "zip_at s (br d RB_RED w1 q w2) (Fr (opp d) RB_BLACK p t # k)" by (simp only: zip_other)
  obtain s1 where s1: "set_color (Some q) RB_BLACK s = Some s1" "zip_at s1 (br d RB_BLACK w1 q w2) (Fr (opp d) RB_BLACK p t # k)" "same_live s s1"
    by (rule set_color_zip [OF z0])
  from s1(2) have z1: "zip_at s1 (br d RB_BLACK t p (br d RB_BLACK w1 q w2)) k" by (simp only: zip_other)
  obtain s2 where s2: "set_color (Some p) RB_RED s1 = Some s2" "zip_at s2 (br d RB_RED t p (br d RB_BLACK w1 q w2)) k" "same_live s1 s2"
    by (rule set_color_zip [OF z1])
  obtain s3 where s3: "rotate d p s2 = Some s3" "zip_at s3 (br d RB_BLACK (br d RB_RED t p w1) q w2) k" "same_live s2 s3"
    by (rule rotate_zip [OF s2(2)])
  from s3(2) have z3: "zip_at s3 (br d RB_RED t p w1) (Fr d RB_BLACK q w2 # k)" by (simp only: zip_this)
  show thesis
  proof (rule that [OF _ z3 same_live_trans [OF s1(3) same_live_trans [OF s2(3) s3(3)]]])
    show "sibling_up d p (Some q) s = Some (ptr_of w1, s3)"
      using s1(1) s2(1) s3(1) zip_node [OF z3] by (simp add: sibling_up_def)
  qed
qed

lemma nephew_up_zip:
  assumes z: "zip_at s (br d c t p (br d RB_BLACK (br d RB_RED n1 q n2) r w2)) k"
  obtains s' where "nephew_up d p (Some r) (Some q) s = Some (Some q, s')"
    "zip_at s' (br d c t p (br d RB_BLACK n1 q (br d RB_RED n2 r w2))) k" "same_live s s'"
proof -
  let ?k = "Fr (opp d) c p t # k"
  from z have zo: "zip_at s (br d RB_BLACK (br d RB_RED n1 q n2) r w2) ?k" by (simp only: zip_other)
  from zo have zq: "zip_at s (br d RB_RED n1 q n2) (Fr d RB_BLACK r w2 # ?k)" by (subst (asm) zip_this)
  obtain s1 where s1: "set_color (Some q) RB_BLACK s = Some s1" "zip_at s1 (br d RB_BLACK n1 q n2) (Fr d RB_BLACK r w2 # ?k)" "same_live s s1"
    by (rule set_color_zip [OF zq])
  from s1(2) have z1: "zip_at s1 (br d RB_BLACK (br d RB_BLACK n1 q n2) r w2) ?k" by (subst zip_this)
  obtain s2 where s2: "set_color (Some r) RB_RED s1 = Some s2" "zip_at s2 (br d RB_RED (br d RB_BLACK n1 q n2) r w2) ?k" "same_live s1 s2"
    by (rule set_color_zip [OF z1])
  from s2(2) have z2: "zip_at s2 (br (opp d) RB_RED w2 r (br (opp d) RB_BLACK n2 q n1)) ?k" by (simp only: br_opp)
  obtain s3 where s3: "rotate (opp d) r s2 = Some s3" "zip_at s3 (br (opp d) RB_BLACK (br (opp d) RB_RED w2 r n2) q n1) ?k" "same_live s2 s3"
    by (rule rotate_zip [OF z2])
  from s3(2) have z3: "zip_at s3 (br d c t p (br d RB_BLACK n1 q (br d RB_RED n2 r w2))) k" by (simp only: br_opp zip_other)
  show thesis
  proof (rule that [OF _ z3 same_live_trans [OF s1(3) same_live_trans [OF s2(3) s3(3)]]])
    show "nephew_up d p (Some r) (Some q) s = Some (Some q, s3)"
      using s1(1) s2(1) s3(1) zip_node [OF z3] set_color_if [OF zq] by (simp add: nephew_up_def)
  qed
qed

lemma erase_finish_zip:
  assumes z: "zip_at s (br d c t p (br d RB_BLACK a1 q (br d RB_RED n2 r w2))) k"
  obtains s' where "erase_finish d p (Some q) s = Some s'"
    "zip_at s' (br d c (br d RB_BLACK t p a1) q (br d RB_BLACK n2 r w2)) k" "same_live s s'"
proof -
  let ?k = "Fr (opp d) c p t # k"
  let ?far = "br d RB_RED n2 r w2"
  from z have zq: "zip_at s (br d RB_BLACK a1 q ?far) ?k" by (simp only: zip_other)
  obtain s1 where s1: "set_color (Some q) c s = Some s1" "zip_at s1 (br d c a1 q ?far) ?k" "same_live s s1"
    by (rule set_color_zip [OF zq])
  from s1(2) have z1: "zip_at s1 (br d c t p (br d c a1 q ?far)) k" by (simp only: zip_other)
  obtain s2 where s2: "set_color (Some p) RB_BLACK s1 = Some s2" "zip_at s2 (br d RB_BLACK t p (br d c a1 q ?far)) k" "same_live s1 s2"
    by (rule set_color_zip [OF z1])
  from s2(2) have z2: "zip_at s2 (br d c a1 q ?far) (Fr (opp d) RB_BLACK p t # k)" by (simp only: zip_other)
  then have z2': "zip_at s2 ?far (Fr (opp d) c q a1 # Fr (opp d) RB_BLACK p t # k)" by (subst (asm) zip_other)
  obtain s3 where s3: "set_color (Some r) RB_BLACK s2 = Some s3"
      "zip_at s3 (br d RB_BLACK n2 r w2) (Fr (opp d) c q a1 # Fr (opp d) RB_BLACK p t # k)" "same_live s2 s3"
    by (rule set_color_zip [OF z2'])
  from s3(2) have z3: "zip_at s3 (br d RB_BLACK t p (br d c a1 q (br d RB_BLACK n2 r w2))) k" by (simp only: zip_other)
  obtain s4 where s4: "rotate d p s3 = Some s4" "zip_at s4 (br d c (br d RB_BLACK t p a1) q (br d RB_BLACK n2 r w2)) k" "same_live s3 s4"
    by (rule rotate_zip [OF z3])
  show thesis
  proof (rule that [OF _ s4(2) same_live_trans [OF s1(3) same_live_trans [OF s2(3) same_live_trans [OF s3(3) s4(3)]]]])
    show "erase_finish d p (Some q) s = Some s4"
      using s1(1) s2(1) s3(1) s4(1) zip_node [OF z] zip_node [OF z2] set_color_if [OF z2'] by (simp add: erase_finish_def)
  qed
qed

fun paint :: "rtree \<Rightarrow> rtree" where
  "paint Tip = Tip" | "paint (Br c l a r) = Br RB_BLACK l a r"

lemma paint_br [simp]: "paint (br d c x a y) = br d RB_BLACK x a y"
  by (cases d) auto

lemma paint_black: "col t = RB_BLACK \<Longrightarrow> paint t = t"
  by (cases t) auto

lemma paint_simps [simp]: "inord (paint t) = inord t" "col (paint t) = RB_BLACK"
  by (cases t; simp)+

text \<open>
  Before each pass the subtree in focus lacks one black node and is balanced once its root is painted
  black.  A pass moves the focus to the parent, or completes the tree.
\<close>

definition lacking :: "rtree \<Rightarrow> path \<Rightarrow> bool" where
  "lacking t k \<longleftrightarrow> rb_ok (paint t) \<and> path_ok (bh t + 1) k"

definition rb_holds :: "rb_root \<Rightarrow> addr list \<Rightarrow> bool" where
  "rb_holds s xs \<longleftrightarrow> (\<exists>t. zip_at s t [] \<and> rb_ok t \<and> col t = RB_BLACK \<and> inord t = xs)"

lemma rb_holdsI:
  "\<lbrakk>zip_at s t k; rb_ok t; path_ok (bh t) k; col t = RB_RED \<longrightarrow> path_black k; inord (plug t k) = xs\<rbrakk> \<Longrightarrow> rb_holds s xs"
  using plug_ok [of t k] zip_plug [of s t k] unfolding rb_holds_def by blast

lemma is_red_children:
  assumes "zip_at s (br d c x a y) k"
  shows "\<exists>l r. deref (r_mem s) (Some a) = Some (mk_node d (par_of k) c (ptr_of x) (ptr_of y)) \<and>
    is_red s (rb_left (mk_node d (par_of k) c (ptr_of x) (ptr_of y))) = Some l \<and>
    is_red s (rb_right (mk_node d (par_of k) c (ptr_of x) (ptr_of y))) = Some r \<and>
    (\<not> l \<and> \<not> r \<longleftrightarrow> col x = RB_BLACK \<and> col y = RB_BLACK) \<and> (case d of LEFT \<Rightarrow> r | RIGHT \<Rightarrow> l) = (col y = RB_RED)"
proof -
  have "is_red s (ptr_of x) = Some (col x = RB_RED)" "is_red s (ptr_of y) = Some (col y = RB_RED)"
    using is_red_ptr assms zip_this zip_other by blast+
  then show ?thesis using zip_node [OF assms] by (cases d) auto
qed

lemma erase_black_zip:
  assumes z: "zip_at s t (Fr d c p (br d RB_BLACK w1 o' w2) # k)"
    and t: "lacking t (Fr d c p (br d RB_BLACK w1 o' w2) # k)" "col t = RB_BLACK"
  obtains (up) s' t' where "erase_black d p (Some o') s = Some (Go (ptr_of t') (par_of k), s')" "zip_at s' t' k" "lacking t' k"
      "inord (plug t' k) = inord (plug t (Fr d c p (br d RB_BLACK w1 o' w2) # k))" "same_live s s'" "col t' = c"
    | (stop) s' where "erase_black d p (Some o') s = Some (Break, s')" "same_live s s'"
      "rb_holds s' (inord (plug t (Fr d c p (br d RB_BLACK w1 o' w2) # k)))"
proof -
  let ?w = "br d RB_BLACK w1 o' w2" and ?k = "Fr (opp d) c p t # k"
  have ok: "rb_ok t" "rb_ok w1" "rb_ok w2" "bh w1 = bh t" "bh w2 = bh t" "c = RB_RED \<longrightarrow> path_black k"
      "path_ok (bh t + 1 + of_bool (c = RB_BLACK)) k"
    using t by (auto simp: lacking_def paint_black)
  have z0: "zip_at s (br d c t p ?w) k" using z by (simp only: zip_this)
  then have zw: "zip_at s ?w ?k" by (simp only: zip_other)
  obtain l r where lr: "r_mem s o' = Some (mk_node d (Some p) RB_BLACK (ptr_of w1) (ptr_of w2))"
      "is_red s (rb_left (mk_node d (Some p) RB_BLACK (ptr_of w1) (ptr_of w2))) = Some l"
      "is_red s (rb_right (mk_node d (Some p) RB_BLACK (ptr_of w1) (ptr_of w2))) = Some r"
      "\<not> l \<and> \<not> r \<longleftrightarrow> col w1 = RB_BLACK \<and> col w2 = RB_BLACK" "(case d of LEFT \<Rightarrow> r | RIGHT \<Rightarrow> l) = (col w2 = RB_RED)"
    using is_red_children [OF zw] by auto
  show thesis
  proof (cases "col w1 = RB_BLACK \<and> col w2 = RB_BLACK")
    case True
    obtain s1 where s1: "set_color (Some o') RB_RED s = Some s1" "zip_at s1 (br d RB_RED w1 o' w2) ?k" "same_live s s1"
      by (rule set_color_zip [OF zw])
    let ?t = "br d c t p (br d RB_RED w1 o' w2)"
    from s1(2) have z1: "zip_at s1 ?t k" by (simp only: zip_other)
    have "erase_black d p (Some o') s = Some (Go (Some p) (par_of k), s1)"
      using lr True s1(1) zip_node [OF z1] by (simp add: erase_black_def)
    moreover have "lacking ?t k" using ok True t by (cases c) (auto simp: lacking_def)
    moreover have "inord (plug ?t k) = inord (plug t (Fr d c p ?w # k))" by (cases d) (simp_all add: inord_plug)
    ultimately show thesis using up [of ?t s1] z1 s1(3) by simp
  next
    case False
    define fin where "fin = (\<lambda>s a1 q far. \<exists>s'. erase_finish d p (Some q) s = Some s' \<and> same_live s s' \<and>
      rb_holds s' (inord (plug t (Fr d c p (br d RB_BLACK a1 q far) # k))))"
    have fin: "fin s0 a1 q (br d RB_RED n2 r0 w2')"
      if z0: "zip_at s0 (br d c t p (br d RB_BLACK a1 q (br d RB_RED n2 r0 w2'))) k"
        and b: "rb_ok a1" "rb_ok (br d RB_RED n2 r0 w2')" "bh a1 = bh t" "bh (br d RB_RED n2 r0 w2') = bh t" for s0 a1 q n2 r0 w2'
    proof -
      let ?far = "br d RB_RED n2 r0 w2'" and ?res = "br d c (br d RB_BLACK t p a1) q (br d RB_BLACK n2 r0 w2')"
      obtain s' where s': "erase_finish d p (Some q) s0 = Some s'" "zip_at s' ?res k" "same_live s0 s'"
        by (rule erase_finish_zip [OF z0])
      have "inord ?res = inord (br d c t p (br d RB_BLACK a1 q ?far))" by (cases d) auto
      then have "rb_holds s' (inord (plug t (Fr d c p (br d RB_BLACK a1 q ?far) # k)))"
        by (intro rb_holdsI [OF s'(2)]) (use ok b t(2) in \<open>auto simp: inord_plug\<close>)
      with s' show ?thesis unfolding fin_def by blast
    qed
    show thesis
    proof (cases "col w2 = RB_RED")
      case True
      then obtain n2 r0 w2' where w2: "w2 = br d RB_RED n2 r0 w2'" by (cases w2 rule: br_cases [where d = d]) auto
      obtain s' where "erase_finish d p (Some o') s = Some s'" "same_live s s'" "rb_holds s' (inord (plug t (Fr d c p ?w # k)))"
        using fin [OF z0 [unfolded w2]] ok w2 unfolding fin_def by auto
      then show thesis using stop [of s'] lr True by (simp add: erase_black_def)
    next
      case far: False
      then obtain n1 q n2 where w1: "w1 = br d RB_RED n1 q n2" using False by (cases w1 rule: br_cases [where d = d]) auto
      obtain s1 where s1: "nephew_up d p (Some o') (Some q) s = Some (Some q, s1)"
          "zip_at s1 (br d c t p (br d RB_BLACK n1 q (br d RB_RED n2 o' w2))) k" "same_live s s1"
        by (rule nephew_up_zip [OF z0 [unfolded w1]])
      obtain s' where s': "erase_finish d p (Some q) s1 = Some s'" "same_live s1 s'"
          "rb_holds s' (inord (plug t (Fr d c p (br d RB_BLACK n1 q (br d RB_RED n2 o' w2)) # k)))"
        using fin [OF s1(2)] ok w1 far unfolding fin_def by auto
      have "inord (br d RB_BLACK n1 q (br d RB_RED n2 o' w2)) = inord (br d RB_BLACK w1 o' w2)" using w1 by (cases d) auto
      then have "inord (plug t (Fr d c p (br d RB_BLACK n1 q (br d RB_RED n2 o' w2)) # k)) = inord (plug t (Fr d c p ?w # k))"
        by (cases d) (auto simp: inord_plug)
      then show thesis using stop [of s'] lr far w1 s1 s' same_live_trans [OF s1(3) s'(2)] by (cases d) (auto simp: erase_black_def)
    qed
  qed
qed

lemma erase_body_zip:
  assumes z: "zip_at s t (Fr d c p w # k)" and t: "lacking t (Fr d c p w # k)" "col t = RB_BLACK"
  obtains (up) s' t' k' where "erase_body d p s = Some (Go (ptr_of t') (par_of k'), s')" "zip_at s' t' k'" "lacking t' k'"
      "inord (plug t' k') = inord (plug t (Fr d c p w # k))" "same_live s s'" "col t' = RB_RED \<and> length k' \<le> length k + 1 \<or> length k' \<le> length k"
    | (stop) s' where "erase_body d p s = Some (Break, s')" "rb_holds s' (inord (plug t (Fr d c p w # k)))" "same_live s s'"
proof -
  have ok: "rb_ok t" "rb_ok w" "bh w = bh t + 1" "c = RB_RED \<longrightarrow> col w = RB_BLACK"
    using t by (auto simp: lacking_def paint_black)
  then obtain cw w1 q w2 where w: "w = br d cw w1 q w2" by (cases w rule: br_cases [where d = d]) auto
  have z1: "zip_at s (br d c t p w) k" using z by (simp only: zip_up)
  then have zw: "zip_at s w (Fr (opp d) c p t # k)" by (simp only: zip_other)
  have p: "r_mem s p = Some (mk_node d (par_of k) c (ptr_of t) (Some q))"
    and q: "r_mem s q = Some (mk_node d (Some p) cw (ptr_of w1) (ptr_of w2))"
    using zip_node [OF z1] zip_node [OF zw [unfolded w]] w by auto
  show thesis
  proof (cases cw)
    case RB_BLACK
    then have "erase_body d p s = erase_black d p (Some q) s" using p q by (simp add: erase_body_def)
    then show thesis
      using erase_black_zip [OF z [unfolded w RB_BLACK] t(1) [unfolded w RB_BLACK] t(2)] up stop w RB_BLACK order.refl
      by metis
  next
    case RB_RED
    then have c: "c = RB_BLACK" using ok w by (cases c) auto
    obtain s1 where s1: "sibling_up d p (Some q) s = Some (ptr_of w1, s1)"
        "zip_at s1 (br d RB_RED t p w1) (Fr d RB_BLACK q w2 # k)" "same_live s s1"
      by (rule sibling_up_zip [OF z1 [unfolded w RB_RED c]])
    have w1: "col w1 = RB_BLACK" "bh w1 = bh t + 1" using ok w RB_RED by auto
    then obtain v1 o' v2 where v: "w1 = br d RB_BLACK v1 o' v2" by (cases w1 rule: br_cases [where d = d]) auto
    have "erase_body d p s = erase_black d p (Some o') s1" using p q RB_RED s1(1) v by (simp add: erase_body_def)
    moreover have "lacking t (Fr d RB_RED p w1 # Fr d RB_BLACK q w2 # k)"
      using t ok w RB_RED c w1 by (auto simp: lacking_def paint_black)
    moreover have "inord (plug t (Fr d RB_RED p w1 # Fr d RB_BLACK q w2 # k)) = inord (plug t (Fr d c p w # k))"
      unfolding w by (cases d) (auto simp: inord_plug)
    moreover have "zip_at s1 t (Fr d RB_RED p w1 # Fr d RB_BLACK q w2 # k)" using s1(2) by (simp only: zip_this)
    ultimately show thesis
      using up stop t(2) same_live_trans [OF s1(3)] unfolding v
      by (elim erase_black_zip [of s1 t d RB_RED p v1 o' v2 "Fr d RB_BLACK q w2 # k"]) (metis Suc_eq_plus1 length_Cons order.refl)+
  qed
qed

lemma zip_root_unique: "\<lbrakk>zip_at s t k; k \<noteq> []\<rbrakk> \<Longrightarrow> r_node s \<noteq> ptr_of t"
proof -
  assume z: "zip_at s t k" and k: "k \<noteq> []"
  have "\<exists>a \<in> path_addrs k. r_node s = Some a" if "path_at (r_mem s) (r_node s) k p" for p
    using that k by (induction k arbitrary: p rule: path_addrs.induct) (case_tac k; auto)+
  then show ?thesis using z ptr_of_in unfolding zip_at_def by (metis disjoint_iff)
qed

lemma rb_erase_loop_step:
  assumes z: "zip_at s t (Fr d c p w # k)" and t: "col t = RB_BLACK" "w \<noteq> Tip"
  shows "rb_erase_loop (ptr_of t) (Some p) s =
    do { (next_step, s) \<leftarrow> erase_body d p s;
         case next_step of Go nd par \<Rightarrow> rb_erase_loop nd par s | Break \<Rightarrow> Some (r_node s, s) }"
proof -
  have p: "r_mem s p = Some (mk_node d (par_of k) c (ptr_of t) (ptr_of w))" using z by (simp add: zip_at_def)
  have "rb_left (mk_node d (par_of k) c (ptr_of t) (ptr_of w)) = ptr_of t \<longleftrightarrow> d = LEFT" 
  proof (cases d)
    case RIGHT
    have "addrs t \<inter> addrs w = {}" using z by (auto simp: zip_at_def)
    then have "ptr_of w \<noteq> ptr_of t" using t(2) ptr_of_in by (metis disjoint_iff option.exhaust ptr_of_None(1))
    then show ?thesis using RIGHT by simp
  qed simp
  then show ?thesis using is_red_ptr [OF z] zip_root_unique [OF z] t p
    by (subst rb_erase_loop.simps) (cases d; simp add: erase_body_code)
qed

text \<open>The node the loop stops at is painted black.\<close>

lemma black_if_holds:
  assumes z: "zip_at s t k" and t: "rb_ok (paint t)" "path_ok (bh (paint t)) k"
  shows "\<exists>s'. on_rb (assign_if (ptr_of t) (\<lambda>n. n\<lparr>rb_color := RB_BLACK\<rparr>)) s = Some s' \<and> rb_holds s' (inord (plug t k)) \<and> same_live s s'"
proof (cases t rule: br_cases [where d = LEFT])
  case tip
  then show ?thesis using rb_holdsI [OF z] t by (auto simp: on_rb_def assign_if_def)
next
  case (br c x a y)
  obtain s' where s': "set_color (Some a) RB_BLACK s = Some s'" "zip_at s' (br LEFT RB_BLACK x a y) k" "same_live s s'"
    by (rule set_color_zip [OF z [unfolded br]])
  have "rb_holds s' (inord (plug t k))" by (rule rb_holdsI [OF s'(2)]) (use t br in \<open>auto simp: inord_plug\<close>)
  then show ?thesis using s' br set_color_if [OF z [unfolded br]] by auto
qed

lemma rb_holds_black:
  assumes "rb_holds s xs"
  shows "\<exists>s'. on_rb (assign_if (r_node s) (\<lambda>n. n\<lparr>rb_color := RB_BLACK\<rparr>)) s = Some s' \<and> rb_holds s' xs \<and> same_live s s'"
proof -
  obtain t where t: "zip_at s t []" "rb_ok t" "col t = RB_BLACK" "inord t = xs" using assms unfolding rb_holds_def by blast
  show ?thesis using black_if_holds [OF t(1)] t(2-) zip_root [OF t(1)] by (auto simp: paint_black)
qed

lemma rb_erase_color_zip:
  "\<lbrakk>zip_at s t k; lacking t k\<rbrakk> \<Longrightarrow>
   \<exists>s'. rb_erase_color (ptr_of t) (par_of k) s = Some s' \<and> rb_holds s' (inord (plug t k)) \<and> same_live s s'"
proof (induction "length k + of_bool (col t = RB_BLACK)" arbitrary: s t k rule: less_induct)
  case less
  note z = less.prems(1) and lack = less.prems(2)
  show ?case
  proof (cases "col t = RB_RED \<or> k = []")
    case True
    have "rb_erase_loop (ptr_of t) (par_of k) s = Some (ptr_of t, s)"
      using True is_red_ptr [OF z] zip_root [of s t] z by (subst rb_erase_loop.simps) auto
    moreover have "path_ok (bh (paint t)) k" using lack True by (cases t) (auto simp: lacking_def)
    ultimately show ?thesis using black_if_holds [OF z] lack by (simp add: rb_erase_color_def lacking_def)
  next
    case False
    then obtain d c p w k1 where k: "k = Fr d c p w # k1" by (cases k rule: par_of.cases) auto
    have t: "col t = RB_BLACK" using False by simp
    have "w \<noteq> Tip" using lack k by (auto simp: lacking_def)
    note unf = rb_erase_loop_step [OF z [unfolded k] t this]
    show ?thesis unfolding k
    proof (rule erase_body_zip [OF z [unfolded k] lack [unfolded k] t])
      fix s' t' k'
      assume 1: "erase_body d p s = Some (Go (ptr_of t') (par_of k'), s')" "zip_at s' t' k'" "lacking t' k'"
        "inord (plug t' k') = inord (plug t (Fr d c p w # k1))" "same_live s s'"
        "col t' = RB_RED \<and> length k' \<le> length k1 + 1 \<or> length k' \<le> length k1"
      have "length k' + of_bool (col t' = RB_BLACK) < length k + of_bool (col t = RB_BLACK)" using 1(6) k t by auto
      from less.hyps [OF this 1(2,3)] show "\<exists>s'. rb_erase_color (ptr_of t) (par_of (Fr d c p w # k1)) s = Some s' \<and>
        rb_holds s' (inord (plug t (Fr d c p w # k1))) \<and> same_live s s'"
        using 1 unf same_live_trans by (auto simp: rb_erase_color_def)
    next
      fix s'
      assume 1: "erase_body d p s = Some (Break, s')" "rb_holds s' (inord (plug t (Fr d c p w # k1)))" "same_live s s'"
      then show "\<exists>s'. rb_erase_color (ptr_of t) (par_of (Fr d c p w # k1)) s = Some s' \<and>
        rb_holds s' (inord (plug t (Fr d c p w # k1))) \<and> same_live s s'"
        using unf rb_holds_black [OF 1(2)] same_live_trans [OF 1(3)] by (auto simp: rb_erase_color_def)
    qed
  qed
qed

section \<open>Erasure\<close>

definition relinked :: "addr \<Rightarrow> ptr \<Rightarrow> rb_node \<Rightarrow> rb_node" where
  "relinked a q p = (if rb_left p = Some a then p\<lparr>rb_left := q\<rparr> else p\<lparr>rb_right := q\<rparr>)"

lemma par_of_Nil [simp]: "par_of k = None \<longleftrightarrow> k = []" "None = par_of k \<longleftrightarrow> k = []"
  by (cases k rule: par_of.cases; simp)+

lemma rb_relink_store:
  assumes "live m (par_of k)"
  shows "rb_relink (par_of k) a q (s\<lparr>r_mem := m\<rparr>) =
    Some ((if k = [] then s\<lparr>r_node := q\<rparr> else s)\<lparr>r_mem := patch (par_of k) (relinked a q) m\<rparr>)"
proof (cases "k = []")
  case True
  then show ?thesis by (simp add: rb_relink_def)
next
  case False
  then obtain p where "par_of k = Some p" by (cases "par_of k") auto
  then show ?thesis using assms False by (simp add: rb_relink_def on_rb_simps relinked_def [abs_def])
qed

lemma path_at_relinked:
  assumes "path_at m rt k (Some a)" and "path_dist k" and "a \<notin> path_addrs k"
  shows "path_at (patch (par_of k) (relinked a q) m) (if k = [] then q else rt) k q"
proof -
  have "relinked a q = (\<lambda>p. if Some a = child LEFT p then set_child LEFT q p else set_child (opp LEFT) q p)"
    by (auto simp: fun_eq_iff relinked_def)
  then show ?thesis using path_at_relink [OF assms, of LEFT q] by simp
qed

lemma zip_append: "zip_at s t (k1 @ k2) \<longleftrightarrow> zip_at s (plug t k1) k2"
proof (induction k1 arbitrary: t)
  case (Cons f k1)
  then show ?case by (cases f) (simp add: zip_up)
qed simp

lemma plug_append: "plug t (k1 @ k2) = plug (plug t k1) k2"
proof (induction k1 arbitrary: t)
  case (Cons f k1)
  then show ?case by (cases f) simp
qed simp

lemma before_append: "before (k1 @ k2) = before k2 @ before k1"
  by (induction k1 rule: before.induct) auto

lemma after_append: "after (k1 @ k2) = after k1 @ after k2"
  by (induction k1 rule: after.induct) auto

lemma path_ok_rename:
  "path_black (k1 @ Fr d c a x # k) = path_black (k1 @ Fr d c b x # k)"
  "path_ok h (k1 @ Fr d c a x # k) = path_ok h (k1 @ Fr d c b x # k)"
proof -
  show *: "path_black (k1 @ Fr d c a x # k) = path_black (k1 @ Fr d c b x # k)" for k1
    by (cases k1 rule: path_black.cases) auto
  show "path_ok h (k1 @ Fr d c a x # k) = path_ok h (k1 @ Fr d c b x # k)"
    by (induction h k1 rule: path_ok.induct) (auto simp: *)
qed

text \<open>A node with at most one child is taken out.\<close>

definition take_out :: "addr \<Rightarrow> ptr \<Rightarrow> ptr \<Rightarrow> rb_root \<Rightarrow> rb_root option" where
  "take_out node ch parent s =
     do { s \<leftarrow> on_rb (assign_if ch (\<lambda>c. c\<lparr>rb_parent := parent\<rparr>)) s; rb_relink parent node ch s }"

lemma unlink_zip:
  assumes z: "zip_at s (br d c Tip a u) k"
  obtains s' where "take_out a (ptr_of u) (par_of k) s = Some s'"
    "zip_at s' u k" "same_live s s'" "r_mem s' a = r_mem s a"
proof -
  have d: "tree_at (r_mem s) (Some a) u" "dist u" "a \<notin> addrs u" "addrs u \<inter> path_addrs k = {}" "a \<notin> path_addrs k" "path_dist k"
      "path_at (r_mem s) (r_node s) k (Some a)"
    using z by (auto simp: zip_at_def)
  let ?m = "patch (ptr_of u) (\<lambda>c. c\<lparr>rb_parent := par_of k\<rparr>) (r_mem s)"
  let ?s = "(if k = [] then s\<lparr>r_node := ptr_of u\<rparr> else s)\<lparr>r_mem := patch (par_of k) (relinked a (ptr_of u)) ?m\<rparr>"
  have "take_out a (ptr_of u) (par_of k) s = Some ?s"
    using zip_at_live [OF z] zip_live_ptr [OF d(1)] by (simp add: take_out_def on_rb_simps rb_relink_store)
  moreover have "zip_at ?s u k"
    using d path_at_relinked [of ?m "r_node s" k a "ptr_of u"] tree_at_reparent [OF d(1,2)] by (auto simp: zip_at_def)
  moreover have "r_mem ?s a = r_mem s a" using d(3,5) ptr_of_in [of u a] par_of_in [of k a] by (auto simp: patch_apply)
  ultimately show thesis using that by (simp add: same_live_def)
qed

text \<open>A node outside the tree takes the place of one in it.\<close>

lemma replace_zip:
  assumes z: "zip_at s (br LEFT c x a y) k" and b: "b \<notin> addrs x" "b \<notin> addrs y" "b \<notin> path_addrs k"
    and m: "m b = r_mem s a"
      "\<And>r. r \<noteq> b \<Longrightarrow> m r = patch (ptr_of y) (\<lambda>n. n\<lparr>rb_parent := Some b\<rparr>) (patch (ptr_of x) (\<lambda>n. n\<lparr>rb_parent := Some b\<rparr>)
         (patch (par_of k) (relinked a (Some b)) (r_mem s))) r"
  shows "zip_at ((if k = [] then s\<lparr>r_node := Some b\<rparr> else s)\<lparr>r_mem := m\<rparr>) (br LEFT c x b y) k"
proof -
  let ?p = "\<lambda>t. patch (ptr_of t) (\<lambda>n. n\<lparr>rb_parent := Some b\<rparr>)" and ?r = "patch (par_of k) (relinked a (Some b))"
  have d: "tree_at (r_mem s) (Some a) x" "tree_at (r_mem s) (Some a) y" "dist x" "dist y" "a \<notin> path_addrs k" "path_dist k"
      "path_at (r_mem s) (r_node s) k (Some a)" "addrs x \<inter> path_addrs k = {}" "addrs y \<inter> path_addrs k = {}" "addrs x \<inter> addrs y = {}"
      "r_mem s a = Some (mk_node LEFT (par_of k) c (ptr_of x) (ptr_of y))"
    using z by (auto simp: zip_at_def)
  have "tree_at m (Some b) x = tree_at (?p y (?p x (?r (r_mem s)))) (Some b) x"
    by (rule tree_at_frame) (metis b m(2))
  moreover have "tree_at m (Some b) y = tree_at (?p y (?p x (?r (r_mem s)))) (Some b) y"
    by (rule tree_at_frame) (metis b m(2))
  moreover have "path_at m rt k q = path_at (?p y (?p x (?r (r_mem s)))) rt k q" for rt q
    by (rule path_at_frame) (metis b m(2))
  moreover have "tree_at (?p x (?r (r_mem s))) (Some b) x" "tree_at (?p y (?p x (?r (r_mem s)))) (Some b) y"
    using d by (auto intro!: tree_at_reparent simp: Int_commute)
  ultimately show ?thesis using d b m(1) path_at_relinked [OF d(7,6,5), of "Some b"] by (auto simp: zip_at_def Int_commute)
qed

lemma rb_leftmost_split:
  "\<lbrakk>tree_at m par t; ptr_of t = Some a\<rbrakk> \<Longrightarrow>
   \<exists>c b u k. rb_leftmost m a = Some b \<and> t = plug (br LEFT c Tip b u) k \<and> before k = []"
proof (induction t arbitrary: par a)
  case (Br c l a' r)
  show ?case
  proof (cases "ptr_of l")
    case None
    then have "rb_leftmost m a = Some a \<and> Br c l a' r = plug (br LEFT c Tip a r) [] \<and> before [] = []"
      using Br.prems by (subst rb_leftmost.simps) auto
    then show ?thesis by blast
  next
    case (Some b')
    then obtain e b u k where 1: "rb_leftmost m b' = Some b" "l = plug (br LEFT e Tip b u) k" "before k = []"
      using Br.IH(1) [of "Some a'" b'] Br.prems by auto
    have "rb_leftmost m a = Some b" using 1(1) Some Br.prems by (subst rb_leftmost.simps) simp
    moreover have "Br c l a' r = plug (br LEFT e Tip b u) (k @ [Fr LEFT c a' r])" by (simp add: plug_append 1(2))
    moreover have "before (k @ [Fr LEFT c a' r]) = []" by (simp add: before_append 1(3))
    ultimately show ?thesis by blast
  qed
qed simp

lemma zip_holds:
  assumes "rb_holds s xs" "a \<in> set xs"
  obtains c x y k where "zip_at s (br LEFT c x a y) k" "rb_ok (plug (br LEFT c x a y) k)"
    "col (plug (br LEFT c x a y) k) = RB_BLACK" "inord (plug (br LEFT c x a y) k) = xs"
proof -
  have *: "\<exists>c x y k. t = plug (br LEFT c x a y) k" if "a \<in> set (inord t)" for t
    using that
  proof (induction t)
    case (Br c l b r)
    consider "b = a" | "a \<in> set (inord l)" | "a \<in> set (inord r)" using Br.prems by auto
    then show ?case
    proof cases
      case 1
      then have "Br c l b r = plug (br LEFT c l a r) []" by simp
      then show ?thesis by blast
    next
      case 2
      then obtain e x y k where "l = plug (br LEFT e x a y) k" using Br.IH(1) by blast
      then have "Br c l b r = plug (br LEFT e x a y) (k @ [Fr LEFT c b r])" by (simp add: plug_append)
      then show ?thesis by blast
    next
      case 3
      then obtain e x y k where "r = plug (br LEFT e x a y) k" using Br.IH(2) by blast
      then have "Br c l b r = plug (br LEFT e x a y) (k @ [Fr RIGHT c b l])" by (simp add: plug_append)
      then show ?thesis by blast
    qed
  qed simp
  obtain t where t: "zip_at s t []" "rb_ok t" "col t = RB_BLACK" "inord t = xs" using assms unfolding rb_holds_def by blast
  then obtain c x y k where "t = plug (br LEFT c x a y) k" using * assms by blast
  then show thesis using that t zip_plug by blast
qed

lemma finish_erase:
  assumes z: "zip_at s u k" and ok: "rb_ok u" "path_ok (bh u + of_bool (c = RB_BLACK)) k"
    and c: "c = RB_RED \<longrightarrow> col u = RB_BLACK"
  shows "\<exists>s'. (if c = RB_BLACK then rb_erase_color (ptr_of u) (par_of k) s else Some s) = Some s' \<and>
    rb_holds s' (inord (plug u k)) \<and> same_live s s'"
proof (cases c)
  case RB_RED
  then show ?thesis using rb_holdsI [OF z ok(1)] ok c by simp
next
  case RB_BLACK
  have "rb_ok (paint u)" using ok(1) by (cases u) auto
  then show ?thesis using rb_erase_color_zip [OF z] ok RB_BLACK by (simp add: lacking_def)
qed

lemma path_addrs_append [simp]: "path_addrs (k1 @ k2) = path_addrs k1 \<union> path_addrs k2"
  by (induction k1 rule: path_addrs.induct) auto

lemma path_dist_append: "path_dist (k1 @ k2) \<longleftrightarrow> path_dist k1 \<and> path_dist k2 \<and> path_addrs k1 \<inter> path_addrs k2 = {}"
  by (induction k1 rule: path_dist.induct) auto

lemma addrs_plug: "addrs (plug t k) = addrs t \<union> path_addrs k"
proof (induction k arbitrary: t)
  case (Cons f k)
  then show ?case by (cases f) auto
qed simp

lemma rb_erase_outer:
  assumes z: "zip_at s (br d c Tip a u) k" and ok: "rb_ok (plug (br d c Tip a u) k)" "col (plug (br d c Tip a u) k) = RB_BLACK"
  shows "\<exists>s'. rb_erase a s = Some s' \<and> rb_holds s' (before k @ inord u @ after k) \<and> same_live s s'"
proof -
  obtain s1 where s1: "take_out a (ptr_of u) (par_of k) s = Some s1"
      "zip_at s1 u k" "same_live s s1" "r_mem s1 a = r_mem s a"
    by (rule unlink_zip [OF z])
  have "rb_erase a s = take_out a (ptr_of u) (par_of k) s \<bind>
      (\<lambda>s. if c = RB_BLACK then rb_erase_color (ptr_of u) (par_of k) s else Some s)"
    using zip_node [OF z] by (cases d; cases "ptr_of u") (auto simp: rb_erase_def take_out_def Let_def cong: if_cong)
  moreover have ok1: "rb_ok u" "path_ok (bh u + of_bool (c = RB_BLACK)) k" "c = RB_RED \<longrightarrow> col u = RB_BLACK"
    using plug_ok [of "br d c Tip a u" k] ok by auto
  ultimately show ?thesis using finish_erase [OF s1(2) ok1] s1(1) same_live_trans [OF s1(3)] by (auto simp: inord_plug)
qed

text \<open>The second half of \<open>rb_erase_inner\<close>: the successor, already taken out, takes the place of the node.\<close>

definition take_place :: "addr \<Rightarrow> addr \<Rightarrow> rb_root \<Rightarrow> rb_root option" where
  "take_place old node s =
     do { ol \<leftarrow> r_mem s old;
          s \<leftarrow> on_rb (assign (Some node) (\<lambda>n. n\<lparr>rb_parent := rb_parent ol, rb_color := rb_color ol,
                 rb_right := rb_right ol, rb_left := rb_left ol\<rparr>)) s;
          s \<leftarrow> rb_relink (rb_parent ol) old (Some node) s;
          ol \<leftarrow> r_mem s old;
          s \<leftarrow> on_rb (assign (rb_left ol) (\<lambda>n. n\<lparr>rb_parent := Some node\<rparr>)) s;
          ol \<leftarrow> r_mem s old;
          on_rb (assign_if (rb_right ol) (\<lambda>n. n\<lparr>rb_parent := Some node\<rparr>)) s }"

lemma take_place_zip:
  assumes z: "zip_at s (br LEFT c x a y) k" and x: "x \<noteq> Tip"
    and b: "b \<notin> addrs x" "b \<notin> addrs y" "b \<notin> path_addrs k" "b \<noteq> a" "b \<in> dom (r_mem s)"
  obtains s' where "take_place a b s = Some s'" "zip_at s' (br LEFT c x b y) k" "same_live s s'"
proof -
  let ?n = "mk_node LEFT (par_of k) c (ptr_of x) (ptr_of y)"
  let ?p = "\<lambda>t. patch (ptr_of t) (\<lambda>n. n\<lparr>rb_parent := Some b\<rparr>)"
  let ?r = "patch (par_of k) (relinked a (Some b))"
  let ?c = "patch (Some b) (\<lambda>n. n\<lparr>rb_parent := par_of k, rb_color := c, rb_right := ptr_of y, rb_left := ptr_of x\<rparr>)"
  let ?m = "?p y (?p x (?r (?c (r_mem s))))"
  let ?s = "(if k = [] then s\<lparr>r_node := Some b\<rparr> else s)\<lparr>r_mem := ?m\<rparr>"
  have live: "live (r_mem s) (par_of k)" "live (r_mem s) (ptr_of y)" "live (r_mem s) (ptr_of x)"
    using zip_at_live [OF z] z zip_live_ptr by (auto simp: zip_at_def)
  obtain q where q: "ptr_of x = Some q" using x by (cases x) auto
  have a: "r_mem s a = Some ?n" using zip_node [OF z] .
  have ne: "ptr_of x \<noteq> Some a" "ptr_of y \<noteq> Some a" "par_of k \<noteq> Some a" "ptr_of x \<noteq> Some b" "ptr_of y \<noteq> Some b" "par_of k \<noteq> Some b"
    using z b by (auto simp: zip_at_def dest: ptr_of_in par_of_in)
  have "take_place a b s = Some ?s"
    using a live b(4,5) ne q by (cases "k = []") (simp_all add: take_place_def on_rb_simps rb_relink_store rb_relink_def [of None] patch_apply)
  moreover have "zip_at ?s (br LEFT c x b y) k"
  proof (rule replace_zip [OF z b(1-3)])
    show "?m b = r_mem s a" using a b(5) ne by (auto simp: patch_apply)
    show "?m r = ?p y (?p x (?r (r_mem s))) r" if "r \<noteq> b" for r using that by (simp add: patch_apply)
  qed
  ultimately show thesis using that by (simp add: same_live_def)
qed

lemma rb_erase_inner_code:
  "rb_erase_inner old rgt s =
     do { node \<leftarrow> rb_leftmost (r_mem s) rgt;
          n \<leftarrow> r_mem s node;
          s \<leftarrow> take_out node (rb_right n) (rb_parent n) s;
          n' \<leftarrow> r_mem s node;
          s \<leftarrow> take_place old node s;
          if rb_color n = RB_BLACK
          then rb_erase_color (rb_right n) (if rb_parent n' = Some old then Some node else rb_parent n) s else Some s }"
  by (simp add: rb_erase_inner_def take_place_def take_out_def Let_def)

lemma rb_erase_two:
  assumes z: "zip_at s (br LEFT c x a y) k" and ok: "rb_ok (plug (br LEFT c x a y) k)" "col (plug (br LEFT c x a y) k) = RB_BLACK"
    and x: "x \<noteq> Tip" "y \<noteq> Tip"
  shows "\<exists>s'. rb_erase a s = Some s' \<and> rb_holds s' (before k @ inord x @ inord y @ after k) \<and> same_live s s'"
proof -
  obtain q where q: "ptr_of y = Some q" using x(2) by (cases y) auto
  have "tree_at (r_mem s) (Some a) y" using z by (simp add: zip_at_def)
  then obtain e b u l where l: "rb_leftmost (r_mem s) q = Some b" "y = plug (br LEFT e Tip b u) l" "before l = []"
    using rb_leftmost_split q by blast
  let ?k = "l @ Fr RIGHT c a x # k" and ?k' = "l @ Fr RIGHT c b x # k"
  have z1: "zip_at s (br LEFT e Tip b u) ?k" using z l(2) by (simp add: zip_append zip_up)
  have ok1: "rb_ok u" "path_ok (bh u + of_bool (e = RB_BLACK)) ?k'" "e = RB_RED \<longrightarrow> col u = RB_BLACK"
    using plug_ok [of "br LEFT e Tip b u" ?k] ok l(2) by (auto simp: plug_append path_ok_rename [where a = a and b = b])
  obtain s1 where s1: "take_out b (ptr_of u) (par_of ?k) s = Some s1"
      "zip_at s1 u ?k" "same_live s s1" "r_mem s1 b = r_mem s b"
    by (rule unlink_zip [OF z1])
  have z2: "zip_at s1 (br LEFT c x a (plug u l)) k" using s1(2) by (simp add: zip_append zip_up)
  have b: "b \<notin> addrs x" "b \<notin> addrs (plug u l)" "b \<notin> path_addrs k" "b \<noteq> a" "b \<in> dom (r_mem s1)" "a \<notin> path_addrs l"
    using z1 s1(3) by (auto simp: zip_at_def addrs_plug path_dist_append same_live_def)
  obtain s2 where s2: "take_place a b s1 = Some s2" "zip_at s2 (br LEFT c x b (plug u l)) k" "same_live s1 s2"
    by (rule take_place_zip [OF z2 x(1) b(1-5)])
  have z3: "zip_at s2 u ?k'" using s2(2) by (simp add: zip_append zip_up)
  have par: "(if par_of ?k = Some a then Some b else par_of ?k) = par_of ?k'"
    using b(6) par_of_in [of l] by (cases l rule: par_of.cases) auto
  obtain s3 where s3: "(if e = RB_BLACK then rb_erase_color (ptr_of u) (par_of ?k') s2 else Some s2) = Some s3"
      "rb_holds s3 (inord (plug u ?k'))" "same_live s2 s3"
    using finish_erase [OF z3 ok1] by blast
  have "rb_erase a s = Some s3"
    using zip_node [OF z] zip_node [OF z1] q x(1) l(1) s1(1,4) s2(1) s3(1) par
    by (cases "ptr_of x") (auto simp: rb_erase_def rb_erase_inner_code)
  moreover have "inord (plug u ?k') = before k @ inord x @ inord y @ after k"
    by (simp add: inord_plug before_append after_append l(2,3))
  ultimately show ?thesis using s3(2) same_live_trans [OF s1(3) same_live_trans [OF s2(3) s3(3)]] by auto
qed

lemma path_addrs_sides: "path_addrs k = set (before k) \<union> set (after k)"
  by (induction k rule: before.induct) (auto simp: addrs_def)

lemma rb_erase_holds:
  assumes h: "rb_holds s xs" and a: "a \<in> set xs"
  shows "\<exists>s'. rb_erase a s = Some s' \<and> rb_holds s' (remove1 a xs) \<and> same_live s s'"
proof -
  obtain c x y k where z: "zip_at s (br LEFT c x a y) k" and ok: "rb_ok (plug (br LEFT c x a y) k)"
      "col (plug (br LEFT c x a y) k) = RB_BLACK" and xs: "inord (plug (br LEFT c x a y) k) = xs"
    by (rule zip_holds [OF assms])
  have rm: "remove1 a xs = before k @ inord x @ inord y @ after k"
  proof -
    have "a \<notin> set (before k)" "a \<notin> set (inord x)" using z path_addrs_sides [of k] by (auto simp: zip_at_def addrs_def)
    then show ?thesis unfolding xs [symmetric] by (simp add: inord_plug remove1_append)
  qed
  consider "x = Tip" | "y = Tip" | "x \<noteq> Tip" "y \<noteq> Tip" by blast
  then show ?thesis
  proof cases
    case 1
    then show ?thesis using rb_erase_outer [of s LEFT c a y k] z ok rm by simp
  next
    case 2
    then have "br LEFT c x a y = br RIGHT c Tip a x" by simp
    then show ?thesis using rb_erase_outer [of s RIGHT c a x k] z ok rm 2 by simp
  next
    case 3
    then show ?thesis using rb_erase_two [OF z ok 3] rm by simp
  qed
qed

section \<open>Linking a node\<close>

fun link_of :: "path \<Rightarrow> rb_link" where
  "link_of [] = Root_Link"
| "link_of (Fr LEFT c a x # k) = Left_Link a"
| "link_of (Fr RIGHT c a x # k) = Right_Link a"

lemma rb_link_node_zip:
  assumes z: "zip_at s Tip k" and b: "b \<in> dom (r_mem s)" "b \<notin> path_addrs k"
  obtains s' where "rb_link_node b (par_of k) (link_of k) s = Some s'" "zip_at s' (br LEFT RB_RED Tip b Tip) k" "same_live s s'"
proof -
  have live: "path_addrs k \<subseteq> dom (r_mem s)" using zip_at_live [OF z] by blast
  have "\<exists>s'. rb_link_node b (par_of k) (link_of k) s = Some s' \<and> zip_at s' (br LEFT RB_RED Tip b Tip) k \<and> same_live s s'"
    using z b live
    by (cases k rule: link_of.cases) (auto simp: rb_link_node_def on_rb_simps zip_at_def same_live_def patch_apply)
  then show thesis using that by blast
qed

lemma insert_holds_zip:
  assumes z: "zip_at s Tip k" and ok: "rb_ok (plug Tip k)" "col (plug Tip k) = RB_BLACK"
    and b: "b \<in> dom (r_mem s)" "b \<notin> path_addrs k"
  obtains s' s'' where "rb_link_node b (par_of k) (link_of k) s = Some s'" "rb_insert_color b s' = Some s''"
    "rb_holds s'' (before k @ b # after k)" "same_live s s''"
proof -
  obtain s1 where s1: "rb_link_node b (par_of k) (link_of k) s = Some s1" "zip_at s1 (br LEFT RB_RED Tip b Tip) k" "same_live s s1"
    by (rule rb_link_node_zip [OF z b])
  obtain s2 t2 where s2: "rb_insert_color b s1 = Some s2" "zip_at s2 t2 []" "rb_ok t2" "col t2 = RB_BLACK"
      "inord t2 = inord (plug (br LEFT RB_RED Tip b Tip) k)" "same_live s1 s2"
    by (rule rb_insert_color_zip [OF s1(2)]) (use plug_ok [of Tip k] ok in auto)
  have "rb_holds s2 (before k @ b # after k)" using s2 unfolding rb_holds_def by (auto simp: inord_plug)
  then show thesis using that s1(1) s2(1) same_live_trans [OF s1(3) s2(6)] by blast
qed

section \<open>Replacing a node\<close>

lemma rb_replace_node_zip:
  assumes z: "zip_at s (br LEFT c x a y) k"
    and b: "b \<notin> addrs x" "b \<notin> addrs y" "b \<notin> path_addrs k" "b \<noteq> a" "b \<in> dom (r_mem s)"
  obtains s' where "rb_replace_node a b s = Some s'" "zip_at s' (br LEFT c x b y) k" "same_live s s'"
proof -
  let ?n = "mk_node LEFT (par_of k) c (ptr_of x) (ptr_of y)"
  let ?p = "\<lambda>t. patch (ptr_of t) (\<lambda>n. n\<lparr>rb_parent := Some b\<rparr>)"
  let ?m = "patch (Some b) (\<lambda>n. ?n) (?p y (?p x (patch (par_of k) (relinked a (Some b)) (r_mem s))))"
  let ?s = "(if k = [] then s\<lparr>r_node := Some b\<rparr> else s)\<lparr>r_mem := ?m\<rparr>"
  have live: "live (r_mem s) (par_of k)" "live (r_mem s) (ptr_of y)" "live (r_mem s) (ptr_of x)"
    using zip_at_live [OF z] z zip_live_ptr by (auto simp: zip_at_def)
  have a: "r_mem s a = Some ?n" using zip_node [OF z] .
  have ne: "ptr_of x \<noteq> Some a" "ptr_of y \<noteq> Some a" "par_of k \<noteq> Some a" "b \<noteq> a"
    using z b by (auto simp: zip_at_def dest: ptr_of_in par_of_in)
  have r: "(\<lambda>p. if Some a = rb_left p then p\<lparr>rb_left := Some b\<rparr> else p\<lparr>rb_right := Some b\<rparr>) = relinked a (Some b)"
    by (auto simp: fun_eq_iff relinked_def)
  have "rb_replace_node a b s = Some ?s"
  proof (cases k rule: par_of.cases)
    case 1
    then show ?thesis using a live b(5) ne by (simp add: rb_replace_node_def on_rb_simps patch_apply)
  next
    case (2 d c' p w k')
    then show ?thesis using a live b(5) ne r by (simp add: rb_replace_node_def on_rb_simps patch_apply)
  qed
  moreover have "zip_at ?s (br LEFT c x b y) k"
  proof (rule replace_zip [OF z b(1-3)])
    show "?m b = r_mem s a" using a b(5) by (auto simp: patch_apply)
    show "?m r = ?p y (?p x (patch (par_of k) (relinked a (Some b)) (r_mem s))) r" if "r \<noteq> b" for r
      using that by (simp add: patch_apply)
  qed
  ultimately show thesis using that by (simp add: same_live_def)
qed

lemma zip_split:
  assumes z: "zip_at s (br LEFT c x a y) k" and xs: "inord (plug (br LEFT c x a y) k) = xs @ a # ys"
  shows "xs = before k @ inord x" "ys = inord y @ after k"
proof -
  have "a \<notin> set (before k @ inord x)" "a \<notin> set (inord y @ after k)"
    using z path_addrs_sides [of k] by (auto simp: zip_at_def addrs_def)
  moreover have "(before k @ inord x) @ a # inord y @ after k = xs @ a # ys" using xs by (simp add: inord_plug)
  ultimately show "xs = before k @ inord x" "ys = inord y @ after k" by (metis append_Cons_eq_iff)+
qed

lemma rb_replace_node_holds:
  assumes h: "rb_holds s (xs @ a # ys)" and b: "b \<in> dom (r_mem s)" "b \<notin> set (xs @ a # ys)"
  shows "\<exists>s'. rb_replace_node a b s = Some s' \<and> rb_holds s' (xs @ b # ys) \<and> same_live s s'"
proof -
  have "a \<in> set (xs @ a # ys)" by simp
  then obtain c x y k where z: "zip_at s (br LEFT c x a y) k" and ok: "rb_ok (plug (br LEFT c x a y) k)"
      "col (plug (br LEFT c x a y) k) = RB_BLACK" and xs: "inord (plug (br LEFT c x a y) k) = xs @ a # ys"
    by (rule zip_holds [OF h])
  note sp = zip_split [OF z xs]
  obtain s' where s': "rb_replace_node a b s = Some s'" "zip_at s' (br LEFT c x b y) k" "same_live s s'"
    by (rule rb_replace_node_zip [OF z]) (use b sp path_addrs_sides [of k] in \<open>auto simp: addrs_def\<close>)
  have "rb_holds s' (xs @ b # ys)"
    by (rule rb_holdsI [OF s'(2)]) (use plug_ok [of "br LEFT c x a y" k] ok sp in \<open>auto simp: inord_plug\<close>)
  then show ?thesis using s' by blast
qed

section \<open>Traversal\<close>

definition first_of :: "'a list \<Rightarrow> 'a option" where
  "first_of xs = (case xs of [] \<Rightarrow> None | x # _ \<Rightarrow> Some x)"

lemma first_of_simps [simp]: "first_of [] = None" "first_of (x # xs) = Some x" "first_of (xs @ x # ys) = Some (hd (xs @ [x]))"
  by (auto simp: first_of_def split: list.split) (cases xs; simp)

text \<open>The nodes of a tree, and those beyond the focus of a path, in the order that starts at one side.\<close>

definition from_side :: "side \<Rightarrow> 'a list \<Rightarrow> 'a list" where
  "from_side d xs = (case d of LEFT \<Rightarrow> xs | RIGHT \<Rightarrow> rev xs)"

definition beyond :: "side \<Rightarrow> path \<Rightarrow> addr list" where
  "beyond d k = (case d of LEFT \<Rightarrow> after k | RIGHT \<Rightarrow> rev (before k))"

lemma from_side_br [simp]:
  "from_side d (inord (br d c x a y)) = from_side d (inord x) @ a # from_side d (inord y)"
  "from_side d [] = []"
  by (cases d; simp add: from_side_def)+

lemma beyond_simps [simp]:
  "beyond d [] = []" "beyond d (Fr d c a x # k) = a # from_side d (inord x) @ beyond d k"
  "beyond d (Fr (opp d) c a x # k) = beyond d k"
  by (cases d; simp add: beyond_def from_side_def)+

text \<open>Going down one side, and climbing while coming from the other.\<close>

lemma down_first:
  assumes F: "\<And>a. F a = do { n \<leftarrow> m a; case child d n of None \<Rightarrow> Some a | Some l \<Rightarrow> F l }"
  shows "\<lbrakk>tree_at m par t; ptr_of t = Some a\<rbrakk> \<Longrightarrow> F a = first_of (from_side d (inord t))"
proof (induction t arbitrary: par a)
  case (Br c l a' r)
  obtain x y where t: "Br c l a' r = br d c x a' y" "{x, y} = {l, r}" by (cases d) (auto intro: that)
  show ?case
  proof (cases "ptr_of x")
    case None
    then show ?thesis using Br.prems unfolding t by (subst F) simp
  next
    case (Some b)
    then have "F b = first_of (from_side d (inord x))" using t(2) Br.IH Br.prems by (cases d) (auto simp: doubleton_eq_iff)
    moreover have "from_side d (inord x) \<noteq> []" using Some by (cases x; cases d) (auto simp: from_side_def)
    ultimately show ?thesis using Some Br.prems unfolding t by (subst F) (cases "from_side d (inord x)"; auto)
  qed
qed simp

lemma climb_first:
  assumes C: "\<And>a. C a = do { n \<leftarrow> m a; case rb_parent n of None \<Rightarrow> Some None
    | Some p \<Rightarrow> do { np \<leftarrow> m p; if Some a = child (opp d) np then C p else Some (Some p) } }"
  shows "\<lbrakk>zip_at s t k; ptr_of t = Some a; m = r_mem s\<rbrakk> \<Longrightarrow> C a = Some (first_of (beyond d k))"
proof (induction k arbitrary: t a)
  case Nil
  then show ?case by (cases t; subst C) (auto simp: zip_at_def)
next
  case (Cons f k)
  obtain e c p w where f: "f = Fr e c p w" by (cases f)
  obtain ct x y where t: "t = br LEFT ct x a y" using Cons.prems by (cases t rule: br_cases [where d = LEFT]) auto
  have z: "zip_at s (br e c t p w) k" using Cons.prems(1) unfolding f by (simp only: zip_up)
  have a: "m a = Some (mk_node LEFT (Some p) ct (ptr_of x) (ptr_of y))" "m p = Some (mk_node e (par_of k) c (Some a) (ptr_of w))"
    using zip_node [of s LEFT ct x a y] zip_node [OF z] Cons.prems t f by auto
  show ?case
  proof (cases "e = d")
    case True
    have "ptr_of w \<noteq> Some a" using z Cons.prems(2) by (auto simp: zip_at_def dest: ptr_of_in)
    then show ?thesis using a f True by (subst C) auto
  next
    case False
    then have e: "e = opp d" by (cases d; cases e) auto
    show ?thesis using a f e Cons.IH [OF z] Cons.prems by (subst C) auto
  qed
qed

lemma rb_leftmost_first:
  assumes "tree_at m par t" "ptr_of t = Some a"
  shows "rb_leftmost m a = first_of (inord t)"
proof -
  have "rb_leftmost m a = first_of (from_side LEFT (inord t))"
    by (rule down_first [OF _ assms]) (unfold child.simps, rule rb_leftmost.simps)
  then show ?thesis by (simp add: from_side_def)
qed

lemma rb_rightmost_first:
  assumes "tree_at m par t" "ptr_of t = Some a"
  shows "rb_rightmost m a = first_of (rev (inord t))"
proof -
  have "rb_rightmost m a = first_of (from_side RIGHT (inord t))"
    by (rule down_first [OF _ assms]) (unfold child.simps, rule rb_rightmost.simps)
  then show ?thesis by (simp add: from_side_def)
qed

lemma rb_climb_right_first:
  assumes "zip_at s t k" "ptr_of t = Some a"
  shows "rb_climb_right (r_mem s) a = Some (first_of (after k))"
proof -
  have "rb_climb_right (r_mem s) a = Some (first_of (beyond LEFT k))"
    by (rule climb_first [OF _ assms refl]) (unfold opp.simps child.simps, rule rb_climb_right.simps)
  then show ?thesis by (simp add: beyond_def)
qed

lemma rb_climb_left_first:
  assumes "zip_at s t k" "ptr_of t = Some a"
  shows "rb_climb_left (r_mem s) a = Some (first_of (rev (before k)))"
proof -
  have "rb_climb_left (r_mem s) a = Some (first_of (beyond RIGHT k))"
    by (rule climb_first [OF _ assms refl]) (unfold opp.simps child.simps, rule rb_climb_left.simps)
  then show ?thesis by (simp add: beyond_def)
qed

lemma rb_first_last_holds:
  assumes "rb_holds s xs"
  shows "rb_first s = Some (first_of xs)" "rb_last s = Some (first_of (rev xs))"
proof -
  obtain t where t: "zip_at s t []" "inord t = xs" using assms unfolding rb_holds_def by blast
  have tr: "tree_at (r_mem s) None t" using t(1) by (simp add: zip_at_def)
  show "rb_first s = Some (first_of xs)" "rb_last s = Some (first_of (rev xs))"
    using zip_root [OF t(1)] t(2) rb_leftmost_first [OF tr] rb_rightmost_first [OF tr]
    by (cases t; auto simp: rb_first_def rb_last_def)+
qed

lemma rb_next_prev_holds:
  assumes h: "rb_holds s (xs @ a # ys)"
  shows "rb_next (r_mem s) a = Some (first_of ys)" "rb_prev (r_mem s) a = Some (first_of (rev xs))"
proof -
  have "a \<in> set (xs @ a # ys)" by simp
  then obtain c x y k where z: "zip_at s (br LEFT c x a y) k" and xs: "inord (plug (br LEFT c x a y) k) = xs @ a # ys"
    by (rule zip_holds [OF h])
  note sp = zip_split [OF z xs]
  have tr: "tree_at (r_mem s) (Some a) x" "tree_at (r_mem s) (Some a) y" using z by (simp_all add: zip_at_def)
  show "rb_next (r_mem s) a = Some (first_of ys)"
    using zip_node [OF z] sp rb_leftmost_first [OF tr(2)] rb_climb_right_first [OF z]
    by (cases y) (auto simp: rb_next_def)
  show "rb_prev (r_mem s) a = Some (first_of (rev xs))"
    using zip_node [OF z] sp rb_rightmost_first [OF tr(1)] rb_climb_left_first [OF z]
    by (cases x) (auto simp: rb_prev_def)
qed

section \<open>Height\<close>

primrec height :: "rtree \<Rightarrow> nat" where
  "height Tip = 0" | "height (Br c l a r) = max (height l) (height r) + 1"

lemma height_br [simp]: "height (br d c x a y) = max (height x) (height y) + 1"
  by (cases d) auto

lemma height_bh: "rb_ok t \<Longrightarrow> height t \<le> 2 * bh t + of_bool (col t = RB_RED)"
proof (induction t)
  case (Br c l a r)
  then show ?case by (cases c; cases "col l"; cases "col r") auto
qed simp

lemma bh_size: "rb_ok t \<Longrightarrow> 2 ^ bh t \<le> length (inord t) + 1"
proof (induction t)
  case (Br c l a r)
  then show ?case by (cases c) auto
qed simp

lemma height_plug: "length k \<le> height (plug t k)"
proof -
  have "length k + height t \<le> height (plug t k)"
  proof (induction k arbitrary: t)
    case (Cons f k)
    obtain d c a x where "f = Fr d c a x" by (cases f)
    then show ?case using Cons.IH [of "br d c t a x"] by simp
  qed simp
  then show ?thesis by simp
qed

section \<open>The sequence a tree holds\<close>

lemma tree_at_unique: "\<lbrakk>tree_at m p t; tree_at m p t'; ptr_of t = ptr_of t'\<rbrakk> \<Longrightarrow> t = t'"
proof (induction t arbitrary: p t')
  case Tip
  then show ?case by simp
next
  case (Br c l a r)
  then obtain c' l' r' where t': "t' = Br c' l' a r'" by (cases t') auto
  have "l = l'" "r = r'" using Br.IH(1) [of "Some a" l'] Br.IH(2) [of "Some a" r'] Br.prems t' by auto
  then show ?case using Br.prems t' by simp
qed

lemma rb_holds_zip:
  assumes h: "rb_holds s xs" and z: "zip_at s t k"
  shows "rb_ok (plug t k)" "col (plug t k) = RB_BLACK" "inord (plug t k) = xs"
proof -
  obtain t' where t': "zip_at s t' []" "rb_ok t'" "col t' = RB_BLACK" "inord t' = xs" using h unfolding rb_holds_def by blast
  have "zip_at s (plug t k) []" using z zip_plug by blast
  then have "plug t k = t'" using t'(1) tree_at_unique [of "r_mem s" None "plug t k" t'] by (simp add: zip_at_def)
  then show "rb_ok (plug t k)" "col (plug t k) = RB_BLACK" "inord (plug t k) = xs" using t' by auto
qed

lemma dist_distinct: "dist t \<Longrightarrow> distinct (inord t)"
  by (induction t) (auto simp: addrs_def)

lemma rb_holds_distinct: "rb_holds s xs \<Longrightarrow> distinct xs"
  unfolding rb_holds_def zip_at_def using dist_distinct by blast

lemma rb_holds_live: "rb_holds s xs \<Longrightarrow> set xs \<subseteq> dom (r_mem s)"
  unfolding rb_holds_def zip_at_def using tree_at_live addrs_def by blast

lemma rb_holds_frame:
  assumes h: "rb_holds s xs" and m: "\<And>r. r \<in> set xs \<Longrightarrow> m r = r_mem s r"
  shows "rb_holds (s\<lparr>r_mem := m\<rparr>) xs"
proof -
  obtain t where t: "zip_at s t []" "rb_ok t" "col t = RB_BLACK" "inord t = xs" using h unfolding rb_holds_def by blast
  have "tree_at m None t = tree_at (r_mem s) None t" by (rule tree_at_frame) (use m t(4) in \<open>auto simp: addrs_def\<close>)
  then show ?thesis using t unfolding rb_holds_def zip_at_def by (auto intro!: exI [of _ t])
qed

lemma rb_holds_empty: "rb_holds s [] \<longleftrightarrow> r_node s = None"
proof
  show "rb_holds s [] \<Longrightarrow> r_node s = None" by (auto simp: rb_holds_def zip_at_def elim: inord.elims)
  show "r_node s = None \<Longrightarrow> rb_holds s []" by (auto simp: rb_holds_def zip_at_def intro!: exI [of _ Tip])
qed

section \<open>Runs of updates\<close>

text \<open>
  A tree as its users build it: from the empty root, by linking nodes at empty links and recolouring, erasing,
  replacing, and by changes of the memory outside the tree.  \<open>free_link\<close> says that a parent and a link are those
  of an empty place of the tree with the nodes \<open>N\<close>; \<open>rb_descend\<close> follows child pointers.
\<close>

fun free_link :: "rb_root \<Rightarrow> addr set \<Rightarrow> ptr \<Rightarrow> rb_link \<Rightarrow> bool" where
  "free_link s N parent Root_Link \<longleftrightarrow> parent = None \<and> r_node s = None"
| "free_link s N parent (Left_Link p) \<longleftrightarrow> parent = Some p \<and> p \<in> N \<and> map_option rb_left (r_mem s p) = Some None"
| "free_link s N parent (Right_Link p) \<longleftrightarrow> parent = Some p \<and> p \<in> N \<and> map_option rb_right (r_mem s p) = Some None"

inductive rb_run :: "rb_root \<Rightarrow> addr set \<Rightarrow> bool" where
  run_empty: "rb_run (RB_ROOT s) {}"
| run_insert: "\<lbrakk>rb_run s N; b \<in> dom (r_mem s); b \<notin> N; free_link s N parent link;
    rb_link_node b parent link s \<bind> rb_insert_color b = Some s'\<rbrakk> \<Longrightarrow> rb_run s' (insert b N)"
| run_erase: "\<lbrakk>rb_run s N; a \<in> N; rb_erase a s = Some s'\<rbrakk> \<Longrightarrow> rb_run s' (N - {a})"
| run_replace: "\<lbrakk>rb_run s N; a \<in> N; b \<in> dom (r_mem s); b \<notin> N; rb_replace_node a b s = Some s'\<rbrakk> \<Longrightarrow>
    rb_run s' (insert b (N - {a}))"
| run_memory: "\<lbrakk>rb_run s N; \<forall>a\<in>N. m a = r_mem s a\<rbrakk> \<Longrightarrow> rb_run (s\<lparr>r_mem := m\<rparr>) N"

fun rb_descend :: "rb_node store \<Rightarrow> side list \<Rightarrow> ptr \<Rightarrow> ptr" where
  "rb_descend m [] p = p"
| "rb_descend m (d # ds) p = (case deref m p of None \<Rightarrow> None | Some n \<Rightarrow> rb_descend m ds (child d n))"

lemma free_link_zip:
  assumes h: "rb_holds s xs" and f: "free_link s (set xs) parent link"
  obtains k where "zip_at s Tip k" "parent = par_of k" "link = link_of k"
proof (cases link)
  case Root_Link
  with f have "r_node s = None" "parent = None" by auto
  with that [of "[]"] Root_Link show thesis by (simp add: zip_at_def)
next
  case (Left_Link a)
  with f have a: "a \<in> set xs" "parent = Some a" "map_option rb_left (r_mem s a) = Some None" by auto
  obtain c x y k where z: "zip_at s (br LEFT c x a y) k" by (rule zip_holds [OF h a(1)])
  from zip_node [OF z] a(3) have "x = Tip" by (cases x) auto
  with z have "zip_at s Tip (Fr LEFT c a y # k)" by (simp only: zip_this)
  from that [OF this] a(2) Left_Link show thesis by simp
next
  case (Right_Link a)
  with f have a: "a \<in> set xs" "parent = Some a" "map_option rb_right (r_mem s a) = Some None" by auto
  obtain c x y k where z: "zip_at s (br LEFT c x a y) k" by (rule zip_holds [OF h a(1)])
  from zip_node [OF z] a(3) have "y = Tip" by (cases y) auto
  with z have "zip_at s Tip (Fr RIGHT c a x # k)" by (simp only: zip_other opp.simps)
  from that [OF this] a(2) Right_Link show thesis by simp
qed

lemma rb_run_holds: "rb_run s N \<Longrightarrow> \<exists>xs. rb_holds s xs \<and> set xs = N"
proof (induction rule: rb_run.induct)
  case (run_empty s)
  then show ?case using rb_holds_empty [of "RB_ROOT s"] by (auto simp: RB_ROOT_def)
next
  case (run_insert s N b parent link s')
  then obtain xs where xs: "rb_holds s xs" "set xs = N" by blast
  obtain k where k: "zip_at s Tip k" "parent = par_of k" "link = link_of k"
    using free_link_zip [OF xs(1)] run_insert(4) xs(2) by blast
  note h = rb_holds_zip [OF xs(1) k(1)]
  have N: "set (before k @ after k) = N" using h(3) xs(2) by (simp add: inord_plug)
  then have b: "b \<notin> path_addrs k" using run_insert(3) by (simp add: path_addrs_sides)
  obtain s1 s2 where "rb_link_node b (par_of k) (link_of k) s = Some s1" "rb_insert_color b s1 = Some s2"
    "rb_holds s2 (before k @ b # after k)" by (rule insert_holds_zip [OF k(1) h(1,2) run_insert(2) b])
  with run_insert(5) k(2,3) N show ?case by (intro exI [of _ "before k @ b # after k"]) auto
next
  case (run_erase s N a s')
  then obtain xs where xs: "rb_holds s xs" "set xs = N" by blast
  with rb_erase_holds [OF xs(1), of a] run_erase(2,3) rb_holds_distinct [OF xs(1)] show ?case
    by (intro exI [of _ "remove1 a xs"]) (auto simp: set_remove1_eq)
next
  case (run_replace s N a b s')
  then obtain us vs where xs: "rb_holds s (us @ a # vs)" "set (us @ a # vs) = N" by (metis split_list)
  with rb_replace_node_holds [OF xs(1), of b] run_replace(3-5) rb_holds_distinct [OF xs(1)] show ?case
    by (intro exI [of _ "us @ b # vs"]) auto
next
  case (run_memory s N m)
  then show ?case using rb_holds_frame by blast
qed

lemma rb_descend_zip:
  "\<lbrakk>zip_at s t k; rb_descend (r_mem s) ds (ptr_of t) = Some a\<rbrakk> \<Longrightarrow>
   \<exists>c x y k'. zip_at s (br LEFT c x a y) k' \<and> length k' = length k + length ds"
proof (induction ds arbitrary: t k)
  case Nil
  then obtain c l r where "t = br LEFT c l a r" by (cases t) auto
  with Nil show ?case by auto
next
  case (Cons d ds)
  then have "t \<noteq> Tip" by (auto simp: deref_def)
  then obtain c x b y where t: "t = br d c x b y" by (cases t rule: br_cases [where d = d]) auto
  note m = zip_node [OF Cons.prems(1) [unfolded t]]
  have "zip_at s x (Fr d c b y # k)" using Cons.prems(1) by (simp only: t zip_this)
  moreover have "rb_descend (r_mem s) ds (ptr_of x) = Some a"
    using Cons.prems(2) m by (cases d) (simp_all add: t deref_def)
  ultimately show ?case using Cons.IH by fastforce
qed

lemma rb_path_bound:
  assumes "rb_holds s xs" and "zip_at s t k"
  shows "2 ^ length k \<le> (length xs + 1) ^ 2"
proof -
  note h = rb_holds_zip [OF assms]
  have "length k \<le> 2 * bh (plug t k)" using height_plug [of k t] height_bh [OF h(1)] h(2) by simp
  then have "(2::nat) ^ length k \<le> 2 ^ (2 * bh (plug t k))" by (rule power_increasing) simp
  also have "\<dots> = (2 ^ bh (plug t k)) ^ 2" by (simp add: power_mult [symmetric] mult.commute)
  also have "\<dots> \<le> (length xs + 1) ^ 2" using bh_size [OF h(1)] h(3) power_mono by blast
  finally show ?thesis .
qed

section \<open>Properties\<close>

text \<open>A tree of three nodes, and a fourth node outside it, for the concrete instances.\<close>

definition three_nodes :: rb_root where
  "three_nodes = \<lparr>r_mem = [1 \<mapsto> mk_node LEFT (Some 2) RB_RED None None, 2 \<mapsto> mk_node LEFT None RB_BLACK (Some 1) (Some 3),
     3 \<mapsto> mk_node LEFT (Some 2) RB_RED None None, 4 \<mapsto> mk_node LEFT None RB_BLACK None None], r_node = Some 2\<rparr>"

lemma three_nodes_holds: "rb_holds three_nodes [1, 2, 3]"
  unfolding rb_holds_def
  by (rule exI [of _ "Br RB_BLACK (Br RB_RED Tip 1 Tip) 2 (Br RB_RED Tip 3 Tip)"]) (simp add: three_nodes_def zip_at_def)

text \<open>
  C7. Linking a node at any empty link of a red-black tree and recolouring gives a red-black tree that
  holds the nodes in the old order with the new one at the place of the link.  No null pointer is followed
  and the loop of \<open>rb_insert_color\<close> ends.
\<close>

theorem rb_insert_keeps_tree:
  assumes "rb_holds s xs" and "zip_at s Tip k" and "b \<in> dom (r_mem s)" and "b \<notin> set xs"
  shows "xs = before k @ after k \<and>
    (\<exists>s'. rb_link_node b (par_of k) (link_of k) s \<bind> rb_insert_color b = Some s' \<and>
      rb_holds s' (before k @ b # after k) \<and> dom (r_mem s') = dom (r_mem s))"
proof -
  note h = rb_holds_zip [OF assms(1,2)]
  have xs: "xs = before k @ after k" using h(3) by (simp add: inord_plug)
  then have "b \<notin> path_addrs k" using assms(4) by (simp add: path_addrs_sides)
  then show ?thesis using insert_holds_zip [OF assms(2) h(1,2) assms(3)] xs by (metis bind.bind_lunit same_live_def)
qed

theorem rb_insert_keeps_tree_witness:
  "\<exists>s'. rb_link_node 4 (Some 3) (Right_Link 3) three_nodes \<bind> rb_insert_color 4 = Some s' \<and> rb_holds s' [1, 2, 3, 4]"
proof -
  let ?k = "[Fr RIGHT RB_RED 3 Tip, Fr RIGHT RB_BLACK 2 (Br RB_RED Tip 1 Tip)]"
  have "zip_at three_nodes Tip ?k" by (simp add: three_nodes_def zip_at_def)
  moreover have "4 \<in> dom (r_mem three_nodes)" by (simp add: three_nodes_def)
  ultimately show ?thesis using rb_insert_keeps_tree [OF three_nodes_holds, of ?k 4] by auto
qed

text \<open>
  C6. \<open>rb_erase\<close> of a node of the tree leaves a red-black tree with the other nodes in their order, and
  \<open>rb_replace_node\<close> puts a node from outside in the place of one in the tree.  Neither follows a null
  pointer, and the loops end.
\<close>

theorem rb_erase_and_replace:
  assumes "rb_holds s (xs @ a # ys)"
  shows "(\<exists>s'. rb_erase a s = Some s' \<and> rb_holds s' (xs @ ys) \<and> dom (r_mem s') = dom (r_mem s)) \<and>
    (b \<in> dom (r_mem s) \<and> b \<notin> set (xs @ a # ys) \<longrightarrow>
      (\<exists>s'. rb_replace_node a b s = Some s' \<and> rb_holds s' (xs @ b # ys) \<and> dom (r_mem s') = dom (r_mem s)))"
proof -
  have "a \<notin> set xs" using rb_holds_distinct [OF assms] by simp
  then have "remove1 a (xs @ a # ys) = xs @ ys" by (simp add: remove1_append)
  then show ?thesis
    using rb_erase_holds [OF assms, of a] rb_replace_node_holds [OF assms, of b] by (auto simp: same_live_def)
qed

theorem rb_erase_and_replace_witness:
  "\<exists>s' s''. rb_erase 2 three_nodes = Some s' \<and> rb_holds s' [1, 3] \<and>
     rb_replace_node 2 4 three_nodes = Some s'' \<and> rb_holds s'' [1, 4, 3]"
proof -
  have "4 \<in> dom (r_mem three_nodes)" by (simp add: three_nodes_def)
  then show ?thesis using rb_erase_and_replace [of three_nodes "[1]" 2 "[3]" 4] three_nodes_holds by auto
qed

text \<open>
  C27. The traversal functions end on every tree and give the nodes in order: \<open>rb_first\<close> and \<open>rb_last\<close> the
  ends, \<open>rb_next\<close> and \<open>rb_prev\<close> the neighbours of a node, null at the ends.
\<close>

theorem rb_traversal:
  assumes "rb_holds s xs"
  shows "rb_first s = Some (if xs = [] then None else Some (hd xs)) \<and>
    rb_last s = Some (if xs = [] then None else Some (last xs)) \<and>
    (i < length xs \<longrightarrow>
      rb_next (r_mem s) (xs ! i) = Some (if i + 1 < length xs then Some (xs ! (i + 1)) else None) \<and>
      rb_prev (r_mem s) (xs ! i) = Some (if 0 < i then Some (xs ! (i - 1)) else None))"
  (is "_ \<and> _ \<and> (_ \<longrightarrow> ?n)")
proof -
  have "rb_first s = Some (if xs = [] then None else Some (hd xs))" "rb_last s = Some (if xs = [] then None else Some (last xs))"
    using rb_first_last_holds [OF assms] by (auto simp: first_of_def hd_rev [symmetric] split: list.split)
  moreover have ?n if i: "i < length xs"
  proof -
    have h: "rb_holds s (take i xs @ xs ! i # drop (Suc i) xs)" using assms i by (simp add: id_take_nth_drop [symmetric])
    have "first_of (drop (Suc i) xs) = (if i + 1 < length xs then Some (xs ! (i + 1)) else None)"
      using Cons_nth_drop_Suc [of "Suc i" xs] by (auto simp: first_of_def split: list.split)
    moreover have "first_of (rev (take i xs)) = (if 0 < i then Some (xs ! (i - 1)) else None)"
      using i by (cases i) (auto simp: take_Suc_conv_app_nth)
    ultimately show ?thesis using rb_next_prev_holds [OF h] by simp
  qed
  ultimately show ?thesis by blast
qed

theorem rb_traversal_witness:
  "rb_holds three_nodes [1, 2, 3] \<and> rb_first three_nodes = Some (Some 1) \<and> rb_next (r_mem three_nodes) 1 = Some (Some 2) \<and>
   rb_prev (r_mem three_nodes) 1 = Some None"
  using rb_traversal [OF three_nodes_holds, of 0] three_nodes_holds by simp

text \<open>
  C28. The updates keep the tree balanced.  After any sequence of insertions (\<open>rb_link_node\<close> at an empty link, then
  \<open>rb_insert_color\<close>), erasures and replacements from the empty root, a walk of child pointers from the root
  that is at a node after \<open>d\<close> steps is at a node of the tree, and \<open>d + 1\<close> is at most \<open>2 * log2 (n + 1)\<close> for
  the number \<open>n\<close> of nodes the updates left in it: this bounds the steps of every search in the tree.
\<close>

theorem rb_updates_stay_balanced:
  assumes "rb_run s N" and "rb_descend (r_mem s) ds (r_node s) = Some a"
  shows "a \<in> N \<and> 2 ^ (length ds + 1) \<le> (card N + 1) ^ 2"
proof -
  obtain xs where xs: "rb_holds s xs" "set xs = N" using rb_run_holds [OF assms(1)] by blast
  obtain t where t: "zip_at s t []" using xs(1) unfolding rb_holds_def by blast
  then have "r_node s = ptr_of t" by (simp add: zip_at_def)
  then obtain c x y k where z: "zip_at s (br LEFT c x a y) k" "length k = length ds"
    using rb_descend_zip [OF t, of ds a] assms(2) that by fastforce
  have "a \<in> set xs" using rb_holds_zip(3) [OF xs(1) z(1)] by (auto simp: inord_plug)
  moreover have "zip_at s x (Fr LEFT c a y # k)" using z(1) by (simp only: zip_this)
  from rb_path_bound [OF xs(1) this] have "2 ^ (length ds + 1) \<le> (length xs + 1) ^ 2" using z(2) by simp
  ultimately show ?thesis using xs(2) distinct_card [OF rb_holds_distinct [OF xs(1)]] by simp
qed

text \<open>The tree of three nodes comes about by inserting them in ascending order; the third one takes a rotation.\<close>

lemma three_nodes_run: "rb_run three_nodes {1, 2, 3}"
proof -
  let ?s = "\<lambda>m. \<lparr>r_mem = r_mem three_nodes ++ m, r_node = Some 1\<rparr>"
  let ?s1 = "?s [1 \<mapsto> mk_node LEFT None RB_BLACK None None]"
  let ?s2 = "?s [1 \<mapsto> mk_node LEFT None RB_BLACK None (Some 2), 2 \<mapsto> mk_node LEFT (Some 1) RB_RED None None]"
  note defs = rb_link_node_def on_rb_def assign_def assign_if_def rb_insert_color_def three_nodes_def
  have "rb_link_node 1 None Root_Link (RB_ROOT three_nodes) \<bind> rb_insert_color 1 = Some ?s1"
    by (simp add: defs RB_ROOT_def) (subst rb_insert_loop.simps, simp add: fun_eq_iff)
  with rb_run.run_insert [OF rb_run.run_empty [of three_nodes], of 1 None Root_Link ?s1] have "rb_run ?s1 {1}"
    by (simp add: RB_ROOT_def three_nodes_def)
  moreover have "rb_link_node 2 (Some 1) (Right_Link 1) ?s1 \<bind> rb_insert_color 2 = Some ?s2"
    by (simp add: defs) (subst rb_insert_loop.simps, simp add: fun_eq_iff)
  ultimately have "rb_run ?s2 {2, 1}"
    using rb_run.run_insert [of ?s1 "{1}" 2 "Some 1" "Right_Link 1" ?s2] by (simp add: three_nodes_def)
  moreover have "rb_link_node 3 (Some 2) (Right_Link 2) ?s2 \<bind> rb_insert_color 3 = Some three_nodes"
    by (simp add: defs, subst rb_insert_loop.simps,
        simp add: rb_insert_right_def is_red_def deref_def rb_rotate_left_def on_rb_def assign_def assign_if_def Let_def,
        subst rb_insert_loop.simps, simp add: fun_eq_iff)
  ultimately have "rb_run three_nodes {3, 2, 1}"
    using rb_run.run_insert [of ?s2 "{2, 1}" 3 "Some 2" "Right_Link 2" three_nodes] by (simp add: three_nodes_def)
  then show ?thesis by (simp add: insert_commute)
qed

theorem rb_updates_stay_balanced_witness:
  "rb_run three_nodes {1, 2, 3} \<and> rb_descend (r_mem three_nodes) [RIGHT] (r_node three_nodes) = Some 3 \<and>
   (2::nat) ^ 2 \<le> (card {1::nat, 2, 3} + 1) ^ 2"
proof -
  have d: "rb_descend (r_mem three_nodes) [RIGHT] (r_node three_nodes) = Some 3" by (simp add: three_nodes_def deref_def)
  from rb_updates_stay_balanced [OF three_nodes_run d] three_nodes_run d show ?thesis by simp
qed

end
