(* ===== verification/Timer_Cluster.thy ===== *)
theory Timer_Cluster
  imports Binary_Heap Rb_Tree "HOL-Library.Word"
begin

text \<open>
  The timer clusters of \<open>base/src/utility/timercluster.c\<close>: timers in a heap ordered by expiry time and in
  a red-black tree ordered by identifier, served by one thread.  Both clusters are modelled: the one that
  waits on a condition variable, and the one that waits on a timer and an event descriptor.
\<close>

section \<open>The clock\<close>

record timespec =
  tv_sec :: int
  tv_nsec :: int

text \<open>A reading of \<open>CLOCK_MONOTONIC\<close>; there is none when \<open>clock_gettime\<close> fails.\<close>

type_synonym reading = "timespec option"

definition util_time_mono :: "reading \<Rightarrow> timespec" where
  "util_time_mono clock = (case clock of Some t \<Rightarrow> t | None \<Rightarrow> \<lparr>tv_sec = 0, tv_nsec = 0\<rparr>)"

definition util_time_mono_after :: "reading \<Rightarrow> 32 word \<Rightarrow> timespec" where
  "util_time_mono_after clock ms =
     (let now = util_time_mono clock;
          now = now\<lparr>tv_sec := tv_sec now + uint (ms div 1000)\<rparr>;
          now = now\<lparr>tv_nsec := tv_nsec now + uint (ms mod 1000 * 1000000)\<rparr>
      in if tv_nsec now \<ge> 1000000000
         then now\<lparr>tv_sec := tv_sec now + 1, tv_nsec := tv_nsec now - 1000000000\<rparr> else now)"

definition time_less_than :: "timespec \<Rightarrow> timespec \<Rightarrow> bool" where
  "time_less_than a b \<longleftrightarrow> tv_sec a < tv_sec b \<or> (tv_sec a = tv_sec b \<and> tv_nsec a < tv_nsec b)"

section \<open>Timers\<close>

type_synonym timerid_t = "32 word"

datatype timertype_e = TIMER_TYPE_SINGLE | TIMER_TYPE_CYCLE

text \<open>
  A timer node contains a heap node and a tree node: the three parts have the address of the timer node
  in three stores.  Callback and user data are the addresses the caller passes.
\<close>

record timernode =
  timer_id :: timerid_t
  timer_type :: timertype_e
  timer_interval :: "32 word"
  expire_time :: timespec
  callback :: ptr
  userdata :: ptr

record timernode_inn =
  inn_timer_id :: timerid_t
  inn_callback :: ptr
  inn_userdata :: ptr

text \<open>What the two cluster types have in common.\<close>

record cluster =
  tc_nodes :: "timernode store"
  tc_heap :: heap
  tc_rb :: rb_root
  tc_running :: bool

definition compare_timer :: "timernode \<Rightarrow> timernode \<Rightarrow> bool" where
  "compare_timer ta tb \<longleftrightarrow>
     tv_sec (expire_time ta) < tv_sec (expire_time tb) \<or>
     (tv_sec (expire_time ta) = tv_sec (expire_time tb) \<and> tv_nsec (expire_time ta) < tv_nsec (expire_time tb))"

definition zero_timer :: timernode where
  "zero_timer = \<lparr>timer_id = 0, timer_type = TIMER_TYPE_SINGLE, timer_interval = 0,
     expire_time = \<lparr>tv_sec = 0, tv_nsec = 0\<rparr>, callback = None, userdata = None\<rparr>"

text \<open>
  The comparison of the nodes at two addresses.  The heap compares only nodes it contains, which are live;
  the value at other addresses does not matter.
\<close>

definition node_at :: "timernode store \<Rightarrow> addr \<Rightarrow> timernode" where
  "node_at m a = (case m a of Some t \<Rightarrow> t | None \<Rightarrow> zero_timer)"

definition by_time :: "timernode store \<Rightarrow> addr \<Rightarrow> addr \<Rightarrow> bool" where
  "by_time m a b = compare_timer (node_at m a) (node_at m b)"

partial_function (option) rbtree_search_loop :: "timernode store \<Rightarrow> rb_node store \<Rightarrow> timerid_t \<Rightarrow> ptr \<Rightarrow> ptr option" where
  "rbtree_search_loop ts m tid n =
     (if n = None then Some None
      else
        do { e \<leftarrow> deref ts n;
             nd \<leftarrow> deref m n;
             if tid < timer_id e then rbtree_search_loop ts m tid (rb_left nd)
             else if tid > timer_id e then rbtree_search_loop ts m tid (rb_right nd)
             else Some n })"

definition rbtree_search :: "timernode store \<Rightarrow> rb_root \<Rightarrow> timerid_t \<Rightarrow> ptr option" where
  "rbtree_search ts s tid = rbtree_search_loop ts (r_mem s) tid (r_node s)"

text \<open>The value of the link the pointer \<open>n\<close> of \<open>rbtree_insert\<close> points to.\<close>

definition read_link :: "rb_root \<Rightarrow> rb_link \<Rightarrow> ptr option" where
  "read_link s link =
     (case link of
        Root_Link \<Rightarrow> Some (r_node s)
      | Left_Link a \<Rightarrow> map_option rb_left (r_mem s a)
      | Right_Link a \<Rightarrow> map_option rb_right (r_mem s a))"

text \<open>The place for a new node, or nothing when the identifier is in the tree.\<close>

partial_function (option) rbtree_insert_loop ::
  "timernode store \<Rightarrow> rb_root \<Rightarrow> timerid_t \<Rightarrow> ptr \<Rightarrow> rb_link \<Rightarrow> (ptr \<times> rb_link) option option" where
  "rbtree_insert_loop ts s tid parent n =
     do { cur \<leftarrow> read_link s n;
          case cur of
            None \<Rightarrow> Some (Some (parent, n))
          | Some a \<Rightarrow>
              do { e \<leftarrow> ts a;
                   if tid < timer_id e then rbtree_insert_loop ts s tid (Some a) (Left_Link a)
                   else if tid > timer_id e then rbtree_insert_loop ts s tid (Some a) (Right_Link a)
                   else Some None } }"

definition TIMERCLUSTER_RET_SUCCESS :: int where "TIMERCLUSTER_RET_SUCCESS = 0"
definition TIMERCLUSTER_RET_ERR_OTHER :: int where "TIMERCLUSTER_RET_ERR_OTHER = -16"

definition rbtree_insert :: "timernode store \<Rightarrow> addr \<Rightarrow> rb_root \<Rightarrow> (int \<times> rb_root) option" where
  "rbtree_insert ts entry s =
     do { e \<leftarrow> ts entry;
          place \<leftarrow> rbtree_insert_loop ts s (timer_id e) None Root_Link;
          case place of
            None \<Rightarrow> Some (TIMERCLUSTER_RET_ERR_OTHER, s)
          | Some (parent, n) \<Rightarrow>
              do { s \<leftarrow> rb_link_node entry parent n s;
                   s \<leftarrow> rb_insert_color entry s;
                   Some (TIMERCLUSTER_RET_SUCCESS, s) } }"

section \<open>Memory\<close>

definition calloc_node :: "addr \<Rightarrow> 'a cluster_scheme \<Rightarrow> 'a cluster_scheme" where
  "calloc_node a s = s\<lparr>tc_nodes := (tc_nodes s)(a \<mapsto> zero_timer),
     tc_heap := (tc_heap s)\<lparr>h_mem := (h_mem (tc_heap s))(a \<mapsto> unlinked)\<rparr>,
     tc_rb := (tc_rb s)\<lparr>r_mem := (r_mem (tc_rb s))(a \<mapsto> \<lparr>rb_parent = None, rb_right = None, rb_left = None, rb_color = RB_RED\<rparr>)\<rparr>\<rparr>"

definition free_node :: "addr \<Rightarrow> 'a cluster_scheme \<Rightarrow> 'a cluster_scheme option" where
  "free_node a s =
     (if tc_nodes s a = None then None
      else Some (s\<lparr>tc_nodes := (tc_nodes s)(a := None),
        tc_heap := (tc_heap s)\<lparr>h_mem := (h_mem (tc_heap s))(a := None)\<rparr>,
        tc_rb := (tc_rb s)\<lparr>r_mem := (r_mem (tc_rb s))(a := None)\<rparr>\<rparr>))"

definition on_heap :: "(heap_compare \<Rightarrow> heap \<Rightarrow> heap option) \<Rightarrow> 'a cluster_scheme \<Rightarrow> 'a cluster_scheme option" where
  "on_heap f s = map_option (\<lambda>h. s\<lparr>tc_heap := h\<rparr>) (f (Some (by_time (tc_nodes s))) (tc_heap s))"

definition on_tree :: "(rb_root \<Rightarrow> rb_root option) \<Rightarrow> 'a cluster_scheme \<Rightarrow> 'a cluster_scheme option" where
  "on_tree f s = map_option (\<lambda>r. s\<lparr>tc_rb := r\<rparr>) (f (tc_rb s))"

definition on_node :: "addr \<Rightarrow> (timernode \<Rightarrow> timernode) \<Rightarrow> 'a cluster_scheme \<Rightarrow> 'a cluster_scheme option" where
  "on_node a f s = map_option (\<lambda>m. s\<lparr>tc_nodes := m\<rparr>) (assign (Some a) f (tc_nodes s))"

section \<open>The calls\<close>

text \<open>
  The two clusters have the same functions, which differ in how they wake the thread.  Each call is one
  critical section; \<open>wake\<close> is the wake-up it makes.  The result of \<open>calloc\<close> is an argument, and so are the
  readings of the clock.
\<close>

definition timer_exist :: "timerid_t \<Rightarrow> 'a cluster_scheme \<Rightarrow> (bool \<times> 'a cluster_scheme) option" where
  "timer_exist tid s =
     (if \<not> tc_running s then Some (False, s)
      else do { tnode \<leftarrow> rbtree_search (tc_nodes s) (tc_rb s) tid; Some (tnode \<noteq> None, s) })"

definition timer_add :: "('a cluster_scheme \<Rightarrow> 'a cluster_scheme) \<Rightarrow> ptr \<Rightarrow> reading \<Rightarrow> timerid_t \<Rightarrow> timertype_e \<Rightarrow> 32 word \<Rightarrow>
    ptr \<Rightarrow> ptr \<Rightarrow> 'a cluster_scheme \<Rightarrow> (bool \<times> 'a cluster_scheme) option" where
  "timer_add wake mem clock tid ty interval cb ud s =
     (if \<not> tc_running s then Some (False, s)
      else
        do { tnode \<leftarrow> rbtree_search (tc_nodes s) (tc_rb s) tid;
             if tnode \<noteq> None then Some (False, s)
             else
               (case mem of
                  None \<Rightarrow> Some (False, s)
                | Some a \<Rightarrow>
                    do { let s = calloc_node a s;
                         s \<leftarrow> on_node a (\<lambda>t. t\<lparr>timer_id := tid, timer_type := ty, timer_interval := interval,
                                expire_time := util_time_mono_after clock interval, callback := cb, userdata := ud\<rparr>) s;
                         (ret, rb) \<leftarrow> rbtree_insert (tc_nodes s) a (tc_rb s);
                         let s = s\<lparr>tc_rb := rb\<rparr>;
                         if ret \<noteq> 0 then do { s \<leftarrow> free_node a s; Some (False, s) }
                         else do { s \<leftarrow> on_heap (\<lambda>cmp. heap_insert cmp a) s; Some (True, wake s) } }) })"

definition timer_del :: "('a cluster_scheme \<Rightarrow> 'a cluster_scheme) \<Rightarrow> timerid_t \<Rightarrow> 'a cluster_scheme \<Rightarrow> (bool \<times> 'a cluster_scheme) option" where
  "timer_del wake tid s =
     (if \<not> tc_running s then Some (False, s)
      else
        do { tnode \<leftarrow> rbtree_search (tc_nodes s) (tc_rb s) tid;
             case tnode of
               None \<Rightarrow> Some (False, s)
             | Some a \<Rightarrow>
                 do { s \<leftarrow> on_tree (rb_erase a) s;
                      s \<leftarrow> on_heap (\<lambda>cmp. heap_remove cmp a) s;
                      s \<leftarrow> free_node a s;
                      Some (True, wake s) } })"

definition timer_reset :: "('a cluster_scheme \<Rightarrow> 'a cluster_scheme) \<Rightarrow> reading \<Rightarrow> timerid_t \<Rightarrow> 32 word \<Rightarrow>
    'a cluster_scheme \<Rightarrow> (bool \<times> 'a cluster_scheme) option" where
  "timer_reset wake clock tid new_interval s =
     (if \<not> tc_running s then Some (False, s)
      else
        do { tnode \<leftarrow> rbtree_search (tc_nodes s) (tc_rb s) tid;
             case tnode of
               None \<Rightarrow> Some (False, s)
             | Some a \<Rightarrow>
                 do { s \<leftarrow> on_node a (\<lambda>t. t\<lparr>timer_interval := new_interval\<rparr>) s;
                      s \<leftarrow> on_node a (\<lambda>t. t\<lparr>expire_time := util_time_mono_after clock new_interval\<rparr>) s;
                      s \<leftarrow> on_heap (\<lambda>cmp. heap_remove cmp a) s;
                      s \<leftarrow> on_heap (\<lambda>cmp. heap_insert cmp a) s;
                      Some (True, wake s) } })"

section \<open>The thread\<close>

text \<open>
  A pass of the loop over the timers: the thread is to end, has no timer, has to wait for the first timer,
  or has taken a timer whose callback it calls after the critical section.
\<close>

datatype pass = Stopped | No_Timer | Not_Yet timespec | Fired timernode_inn

definition thread_pass :: "reading \<Rightarrow> reading \<Rightarrow> 'a cluster_scheme \<Rightarrow> (pass \<times> 'a cluster_scheme) option" where
  "thread_pass clock clock' s =
     (if \<not> tc_running s then Some (Stopped, s)
      else
        (case h_root (tc_heap s) of
           None \<Rightarrow> Some (No_Timer, s)
         | Some first \<Rightarrow>
             do { t \<leftarrow> tc_nodes s first;
                  if time_less_than (util_time_mono clock) (expire_time t) then Some (Not_Yet (expire_time t), s)
                  else
                    do { s \<leftarrow> on_heap heap_dequeue s;
                         t \<leftarrow> tc_nodes s first;
                         let inn = \<lparr>inn_timer_id = timer_id t, inn_callback = callback t, inn_userdata = userdata t\<rparr>;
                         if timer_type t = TIMER_TYPE_CYCLE then
                           do { s \<leftarrow> on_node first (\<lambda>t. t\<lparr>expire_time := util_time_mono_after clock' (timer_interval t)\<rparr>) s;
                                s \<leftarrow> on_heap (\<lambda>cmp. heap_insert cmp first) s;
                                Some (Fired inn, s) }
                         else
                           do { s \<leftarrow> on_tree (rb_erase first) s;
                                s \<leftarrow> free_node first s;
                                Some (Fired inn, s) } } }))"

partial_function (option) drain_heap :: "'a cluster_scheme \<Rightarrow> 'a cluster_scheme option" where
  "drain_heap s = (if h_root (tc_heap s) = None then Some s else do { s \<leftarrow> on_heap heap_dequeue s; drain_heap s })"

partial_function (option) drain_tree :: "'a cluster_scheme \<Rightarrow> 'a cluster_scheme option" where
  "drain_tree s =
     (case r_node (tc_rb s) of
        None \<Rightarrow> Some s
      | Some nd \<Rightarrow> do { s \<leftarrow> on_tree (rb_erase nd) s; s \<leftarrow> free_node nd s; drain_tree s })"

section \<open>The cluster with a condition variable\<close>

text \<open>
  The thread is about to lock the mutex for a pass, waits on the condition variable without or with a
  deadline, or has returned.
\<close>

datatype thread_state = At_Loop | Sleeping "timespec option" | Ended

record timercluster_t = cluster +
  tc_thread :: thread_state

text \<open>\<open>pthread_cond_signal\<close> and \<open>pthread_cond_broadcast\<close>: the thread is the only one that waits.\<close>

definition cond_signal :: "timercluster_t \<Rightarrow> timercluster_t" where
  "cond_signal s = s\<lparr>tc_thread := (case tc_thread s of Sleeping d \<Rightarrow> At_Loop | t \<Rightarrow> t)\<rparr>"

text \<open>Each call is refused without effect on a null cluster.\<close>

definition with_cluster :: "('s \<Rightarrow> (bool \<times> 's) option) \<Rightarrow> 's option \<Rightarrow> (bool \<times> 's option) option" where
  "with_cluster f c = (case c of None \<Rightarrow> Some (False, None) | Some s \<Rightarrow> map_option (\<lambda>(b, s). (b, Some s)) (f s))"

definition timercluster_timer_exist :: "timerid_t \<Rightarrow> timercluster_t option \<Rightarrow> (bool \<times> timercluster_t option) option" where
  "timercluster_timer_exist tid = with_cluster (timer_exist tid)"

definition timercluster_timer_add :: "ptr \<Rightarrow> reading \<Rightarrow> timerid_t \<Rightarrow> timertype_e \<Rightarrow> 32 word \<Rightarrow> ptr \<Rightarrow> ptr \<Rightarrow>
    timercluster_t option \<Rightarrow> (bool \<times> timercluster_t option) option" where
  "timercluster_timer_add mem clock tid ty interval cb ud = with_cluster (timer_add cond_signal mem clock tid ty interval cb ud)"

definition timercluster_timer_del :: "timerid_t \<Rightarrow> timercluster_t option \<Rightarrow> (bool \<times> timercluster_t option) option" where
  "timercluster_timer_del tid = with_cluster (timer_del cond_signal tid)"

definition timercluster_timer_reset :: "reading \<Rightarrow> timerid_t \<Rightarrow> 32 word \<Rightarrow> timercluster_t option \<Rightarrow> (bool \<times> timercluster_t option) option" where
  "timercluster_timer_reset clock tid new_interval = with_cluster (timer_reset cond_signal clock tid new_interval)"

definition timercluster_init :: "bool \<Rightarrow> timercluster_t option" where
  "timercluster_init mem =
     (if \<not> mem then None
      else Some \<lparr>tc_nodes = (\<lambda>_. None), tc_heap = heap_init \<lparr>h_mem = (\<lambda>_. None), h_root = None, h_nelts = 0\<rparr>,
             tc_rb = RB_ROOT \<lparr>r_mem = (\<lambda>_. None), r_node = None\<rparr>, tc_running = True, tc_thread = At_Loop\<rparr>)"

text \<open>
  A pass of the thread function, with the callback it makes.  A timed wait keeps the deadline it was
  entered with.  The code passes a pointer to the expiry time inside the first node instead; it reads the
  same value as long as the wait is done with the pointer before another thread frees the node, which
  \<open>timercluster_timer_del\<close> may do during the wait, followed by the signal that ends it.
\<close>

definition timercluster_thread_func :: "reading \<Rightarrow> reading \<Rightarrow> timercluster_t \<Rightarrow> (timernode_inn option \<times> timercluster_t) option" where
  "timercluster_thread_func clock clock' s =
     do { (p, s) \<leftarrow> thread_pass clock clock' s;
          Some (case p of
                  Stopped \<Rightarrow> (None, s\<lparr>tc_thread := Ended\<rparr>)
                | No_Timer \<Rightarrow> (None, s\<lparr>tc_thread := Sleeping None\<rparr>)
                | Not_Yet t \<Rightarrow> (None, s\<lparr>tc_thread := Sleeping (Some t)\<rparr>)
                | Fired inn \<Rightarrow> (if inn_callback inn \<noteq> None then Some inn else None, s)) }"

text \<open>
  The first critical section of the destruction, and the destruction as a whole: \<open>pthread_join\<close> is the
  last pass of the thread.
\<close>

definition timercluster_stop :: "timercluster_t \<Rightarrow> timercluster_t" where
  "timercluster_stop s = cond_signal (s\<lparr>tc_running := False\<rparr>)"

definition timercluster_destroy :: "timercluster_t option \<Rightarrow> timercluster_t option option" where
  "timercluster_destroy c =
     (case c of
        None \<Rightarrow> Some None
      | Some s \<Rightarrow>
          do { let s = timercluster_stop s;
               (_, s) \<leftarrow> (if tc_thread s = Ended then Some (None, s) else timercluster_thread_func None None s);
               s \<leftarrow> drain_heap s;
               s \<leftarrow> drain_tree s;
               Some (Some s) })"

section \<open>The cluster with descriptors\<close>

text \<open>
  The thread waits in \<open>epoll_wait\<close>, has returned from it and is about to check the cluster, serves the
  expired timers, is about to set the timer, or has returned.  \<open>tc_armed\<close> is the time at which the timer
  descriptor was set and the time at which it becomes readable, in nanoseconds; \<open>tc_raised\<close> tells whether
  the event descriptor is readable.
\<close>

datatype v2_state = Polling | Woken | Serving | Arming | Returned

record timercluster_v2_t = cluster +
  tc_armed :: "(int \<times> int) option"
  tc_raised :: bool
  tc_v2_thread :: v2_state

definition timercluster_v2_wakeup :: "timercluster_v2_t \<Rightarrow> timercluster_v2_t" where
  "timercluster_v2_wakeup s = s\<lparr>tc_raised := True\<rparr>"

definition ns :: "timespec \<Rightarrow> int" where
  "ns t = tv_sec t * 1000000000 + tv_nsec t"

text \<open>The \<open>it_value\<close> that \<open>timerfd_set_next_timeout\<close> computes for the first timer of the heap.\<close>

definition next_timeout :: "reading \<Rightarrow> timernode option \<Rightarrow> timespec" where
  "next_timeout clock first =
     (case first of
        Some t \<Rightarrow>
          let now = util_time_mono clock
          in if \<not> time_less_than now (expire_time t) then \<lparr>tv_sec = 0, tv_nsec = 1\<rparr>
             else
               let its = \<lparr>tv_sec = tv_sec (expire_time t) - tv_sec now, tv_nsec = tv_nsec (expire_time t) - tv_nsec now\<rparr>
               in if tv_nsec its < 0 then \<lparr>tv_sec = tv_sec its - 1, tv_nsec = tv_nsec its + 1000000000\<rparr> else its
      | None \<Rightarrow> \<lparr>tv_sec = 0, tv_nsec = 0\<rparr>)"

text \<open>
  \<open>timerfd_settime\<close> disarms for the value zero and counts from the current time otherwise.  The reading of the
  clock in this function stands for that current time as well, and \<open>timerfd_settime\<close>, whose failure the code
  only logs, is taken to succeed.
\<close>

definition timerfd_set_next_timeout :: "reading \<Rightarrow> timercluster_v2_t \<Rightarrow> timercluster_v2_t option" where
  "timerfd_set_next_timeout clock s =
     do { first \<leftarrow> (case h_root (tc_heap s) of None \<Rightarrow> Some None | Some a \<Rightarrow> map_option Some (tc_nodes s a));
          let its = next_timeout clock first;
          let now = ns (util_time_mono clock);
          Some (s\<lparr>tc_armed := (if tv_sec its = 0 \<and> tv_nsec its = 0 then None else Some (now, now + ns its))\<rparr>) }"

definition timercluster_v2_timer_exist :: "timerid_t \<Rightarrow> timercluster_v2_t option \<Rightarrow> (bool \<times> timercluster_v2_t option) option" where
  "timercluster_v2_timer_exist tid = with_cluster (timer_exist tid)"

definition timercluster_v2_timer_add :: "ptr \<Rightarrow> reading \<Rightarrow> timerid_t \<Rightarrow> timertype_e \<Rightarrow> 32 word \<Rightarrow> ptr \<Rightarrow> ptr \<Rightarrow>
    timercluster_v2_t option \<Rightarrow> (bool \<times> timercluster_v2_t option) option" where
  "timercluster_v2_timer_add mem clock tid ty interval cb ud =
     with_cluster (timer_add timercluster_v2_wakeup mem clock tid ty interval cb ud)"

definition timercluster_v2_timer_del :: "timerid_t \<Rightarrow> timercluster_v2_t option \<Rightarrow> (bool \<times> timercluster_v2_t option) option" where
  "timercluster_v2_timer_del tid = with_cluster (timer_del timercluster_v2_wakeup tid)"

definition timercluster_v2_timer_reset :: "reading \<Rightarrow> timerid_t \<Rightarrow> 32 word \<Rightarrow> timercluster_v2_t option \<Rightarrow> (bool \<times> timercluster_v2_t option) option" where
  "timercluster_v2_timer_reset clock tid new_interval = with_cluster (timer_reset timercluster_v2_wakeup clock tid new_interval)"

text \<open>
  The descriptors and results of the system calls of \<open>timercluster_v2_init\<close> are arguments; the second part
  of the result lists the descriptors it closes.
\<close>

definition timercluster_v2_init :: "bool \<Rightarrow> int \<Rightarrow> int option \<Rightarrow> int \<Rightarrow> int \<Rightarrow> int \<Rightarrow> timercluster_v2_t option \<times> int list" where
  "timercluster_v2_init mem timerfd eventfd epoll ctl_timer ctl_event =
     (if \<not> mem then (None, [])
      else
        let timer_fd = timerfd;
            event_fd = (if timer_fd < 0 then -1 else case eventfd of None \<Rightarrow> -1 | Some fd \<Rightarrow> fd);
            epoll_fd = (if timer_fd < 0 \<or> eventfd = None then -1 else epoll);
            fail = (timer_fd < 0 \<or> eventfd = None \<or> epoll_fd < 0 \<or> ctl_timer < 0 \<or> ctl_event < 0)
        in if \<not> fail
           then (Some \<lparr>tc_nodes = (\<lambda>_. None), tc_heap = heap_init \<lparr>h_mem = (\<lambda>_. None), h_root = None, h_nelts = 0\<rparr>,
                   tc_rb = RB_ROOT \<lparr>r_mem = (\<lambda>_. None), r_node = None\<rparr>, tc_running = True,
                   tc_armed = None, tc_raised = False, tc_v2_thread = Polling\<rparr>, [])
           else (None, (if event_fd > 0 then [event_fd] else []) @ (if timer_fd > 0 then [timer_fd] else []) @
                   (if epoll_fd > 0 then [epoll_fd] else [])))"

text \<open>
  The steps of \<open>timercluster_v2_thread_func\<close>: the return from \<open>epoll_wait\<close> with the descriptors that are
  ready, the check of \<open>running\<close>, a pass of the inner loop, and the setting of the timer.
\<close>

definition v2_poll :: "bool \<Rightarrow> bool \<Rightarrow> timercluster_v2_t \<Rightarrow> timercluster_v2_t" where
  "v2_poll timer_ready event_ready s =
     s\<lparr>tc_armed := (if timer_ready then None else tc_armed s), tc_raised := (tc_raised s \<and> \<not> event_ready), tc_v2_thread := Woken\<rparr>"

definition v2_check :: "timercluster_v2_t \<Rightarrow> timercluster_v2_t" where
  "v2_check s = s\<lparr>tc_v2_thread := (if \<not> tc_running s then Returned else Serving)\<rparr>"

definition v2_serve :: "reading \<Rightarrow> reading \<Rightarrow> timercluster_v2_t \<Rightarrow> (timernode_inn option \<times> timercluster_v2_t) option" where
  "v2_serve clock clock' s =
     do { (p, s) \<leftarrow> thread_pass clock clock' s;
          Some (case p of
                  Fired inn \<Rightarrow> (if inn_callback inn \<noteq> None then Some inn else None, s)
                | _ \<Rightarrow> (None, s\<lparr>tc_v2_thread := Arming\<rparr>)) }"

definition v2_arm :: "reading \<Rightarrow> timercluster_v2_t \<Rightarrow> timercluster_v2_t option" where
  "v2_arm clock s =
     do { s \<leftarrow> (if tc_running s then timerfd_set_next_timeout clock s else Some s);
          Some (s\<lparr>tc_v2_thread := Polling\<rparr>) }"

text \<open>
  The destruction.  \<open>pthread_join\<close> is what is left of the thread: with \<open>running\<close> false and the event raised
  it comes to the check that makes it return.
\<close>

definition v2_join :: "timercluster_v2_t \<Rightarrow> timercluster_v2_t option" where
  "v2_join s =
     (case tc_v2_thread s of
        Polling \<Rightarrow> Some (v2_check (v2_poll False True s))
      | Woken \<Rightarrow> Some (v2_check s)
      | Serving \<Rightarrow> do { (_, s) \<leftarrow> v2_serve None None s; s \<leftarrow> v2_arm None s; Some (v2_check (v2_poll False True s)) }
      | Arming \<Rightarrow> do { s \<leftarrow> v2_arm None s; Some (v2_check (v2_poll False True s)) }
      | Returned \<Rightarrow> Some s)"

definition timercluster_v2_destroy :: "timercluster_v2_t option \<Rightarrow> timercluster_v2_t option option" where
  "timercluster_v2_destroy c =
     (case c of
        None \<Rightarrow> Some None
      | Some s \<Rightarrow>
          do { let s = timercluster_v2_wakeup (s\<lparr>tc_running := False\<rparr>);
               s \<leftarrow> v2_join s;
               s \<leftarrow> drain_heap s;
               s \<leftarrow> drain_tree s;
               Some (Some s) })"

section \<open>Time\<close>

lemma compare_timer_time: "compare_timer a b = time_less_than (expire_time a) (expire_time b)"
  by (simp add: compare_timer_def time_less_than_def)

lemma time_less_than_asym: "time_less_than a b \<Longrightarrow> \<not> time_less_than b a"
  by (auto simp: time_less_than_def)

lemma time_less_than_neg_trans: "\<lbrakk>\<not> time_less_than a b; \<not> time_less_than b c\<rbrakk> \<Longrightarrow> \<not> time_less_than a c"
  by (auto simp: time_less_than_def)

interpretation timer_heap: heap_order "by_time m" for m
  by unfold_locales (auto simp: by_time_def compare_timer_time dest: time_less_than_asym time_less_than_neg_trans)

section \<open>Search\<close>

definition ids :: "timernode store \<Rightarrow> addr list \<Rightarrow> timerid_t list" where
  "ids ts xs = map (\<lambda>a. timer_id (node_at ts a)) xs"

lemma ids_simps [simp]: "ids ts [] = []" "ids ts (a # xs) = timer_id (node_at ts a) # ids ts xs" "ids ts (xs @ ys) = ids ts xs @ ids ts ys"
  by (simp_all add: ids_def)

lemma node_at_Some [simp]: "ts a = Some t \<Longrightarrow> node_at ts a = t"
  by (simp add: node_at_def)

lemma rbtree_search_zip:
  "\<lbrakk>tree_at m par t; addrs t \<subseteq> dom ts; sorted_wrt (<) (ids ts (inord t))\<rbrakk> \<Longrightarrow>
   \<exists>r. rbtree_search_loop ts m tid (ptr_of t) = Some r \<and>
     (case r of None \<Rightarrow> tid \<notin> set (ids ts (inord t)) | Some a \<Rightarrow> a \<in> addrs t \<and> timer_id (node_at ts a) = tid)"
proof (induction t arbitrary: par)
  case Tip
  then show ?case by (subst rbtree_search_loop.simps) simp
next
  case (Br c l a r)
  then obtain e where e: "ts a = Some e" by auto
  have s: "sorted_wrt (<) (ids ts (inord l))" "sorted_wrt (<) (ids ts (inord r))"
      "\<forall>x \<in> set (ids ts (inord l)). x < timer_id e" "\<forall>x \<in> set (ids ts (inord r)). timer_id e < x"
    using Br.prems(3) e by (auto simp: sorted_wrt_append)
  consider "tid < timer_id e" | "timer_id e < tid" | "tid = timer_id e" by force
  then show ?case
  proof cases
    case 1
    have "rbtree_search_loop ts m tid (ptr_of (Br c l a r)) = rbtree_search_loop ts m tid (ptr_of l)"
      using 1 e Br.prems(1) by (subst rbtree_search_loop.simps) simp
    moreover have "\<exists>r. rbtree_search_loop ts m tid (ptr_of l) = Some r \<and>
        (case r of None \<Rightarrow> tid \<notin> set (ids ts (inord l)) | Some a \<Rightarrow> a \<in> addrs l \<and> timer_id (node_at ts a) = tid)"
      by (rule Br.IH(1) [of "Some a"]) (use Br.prems s in auto)
    moreover have "tid \<notin> set (ids ts (inord r))" "tid \<noteq> timer_id e" using s(4) 1 by (meson less_asym less_irrefl)+
    ultimately show ?thesis using e by (auto split: option.splits)
  next
    case 2
    then have "rbtree_search_loop ts m tid (ptr_of (Br c l a r)) = rbtree_search_loop ts m tid (ptr_of r)"
      using e Br.prems(1) order.asym [OF 2] by (subst rbtree_search_loop.simps) auto
    moreover have "\<exists>r'. rbtree_search_loop ts m tid (ptr_of r) = Some r' \<and>
        (case r' of None \<Rightarrow> tid \<notin> set (ids ts (inord r)) | Some a \<Rightarrow> a \<in> addrs r \<and> timer_id (node_at ts a) = tid)"
      by (rule Br.IH(2) [of "Some a"]) (use Br.prems s in auto)
    moreover have "tid \<notin> set (ids ts (inord l))" "tid \<noteq> timer_id e" using s(3) 2 by (meson less_asym less_irrefl)+
    ultimately show ?thesis using e by (auto split: option.splits)
  next
    case 3
    then show ?thesis using e Br.prems(1) by (subst rbtree_search_loop.simps) simp
  qed
qed

lemma rbtree_search_holds:
  assumes h: "rb_holds s xs" and ts: "set xs \<subseteq> dom ts" "sorted_wrt (<) (ids ts xs)"
  shows "\<exists>r. rbtree_search ts s tid = Some r \<and>
    (case r of None \<Rightarrow> tid \<notin> set (ids ts xs) | Some a \<Rightarrow> a \<in> set xs \<and> timer_id (node_at ts a) = tid)"
proof -
  obtain t where t: "zip_at s t []" "inord t = xs" using h unfolding rb_holds_def by blast
  show ?thesis
    using rbtree_search_zip [of "r_mem s" None t ts tid] t ts zip_root [OF t(1)]
    by (auto simp: rbtree_search_def zip_at_def addrs_def split: option.splits)
qed

lemma read_link_zip: "zip_at s t k \<Longrightarrow> read_link s (link_of k) = Some (ptr_of t)"
  by (cases k rule: link_of.cases) (auto simp: read_link_def zip_at_def)

text \<open>The descent of \<open>rbtree_insert\<close> ends at the link where the identifier belongs.\<close>

lemma rbtree_insert_loop_zip:
  "\<lbrakk>zip_at s t k; addrs t \<subseteq> dom ts; sorted_wrt (<) (ids ts (inord t)); tid \<notin> set (ids ts (inord t));
    \<forall>x \<in> set (ids ts (before k)). x < tid; \<forall>x \<in> set (ids ts (after k)). tid < x\<rbrakk> \<Longrightarrow>
   \<exists>k'. rbtree_insert_loop ts s tid (par_of k) (link_of k) = Some (Some (par_of k', link_of k')) \<and> zip_at s Tip k' \<and>
     (\<forall>x \<in> set (ids ts (before k')). x < tid) \<and> (\<forall>x \<in> set (ids ts (after k')). tid < x)"
proof (induction t arbitrary: k)
  case Tip
  then show ?case using read_link_zip [OF Tip.prems(1)] by (subst rbtree_insert_loop.simps) auto
next
  case (Br c l a r)
  then obtain e where e: "ts a = Some e" by auto
  note rd = read_link_zip [OF Br.prems(1)]
  have s: "sorted_wrt (<) (ids ts (inord l))" "sorted_wrt (<) (ids ts (inord r))"
      "\<forall>x \<in> set (ids ts (inord l)). x < timer_id e" "\<forall>x \<in> set (ids ts (inord r)). timer_id e < x"
    using Br.prems(3) e by (auto simp: sorted_wrt_append)
  have z: "zip_at s l (Fr LEFT c a r # k)" "zip_at s r (Fr RIGHT c a l # k)" using Br.prems(1) by (simp_all add: zip_up)
  consider "tid < timer_id e" | "timer_id e < tid" using Br.prems(4) e by force
  then show ?case
  proof cases
    case 1
    have "rbtree_insert_loop ts s tid (par_of k) (link_of k) = rbtree_insert_loop ts s tid (Some a) (Left_Link a)"
      using 1 e rd by (subst rbtree_insert_loop.simps) simp
    moreover have "\<forall>x \<in> set (ids ts (after (Fr LEFT c a r # k))). tid < x"
      using s(4) 1 e Br.prems(6) less_trans by auto
    ultimately show ?thesis using Br.IH(1) [OF z(1)] Br.prems(2-5) s(1) by auto
  next
    case 2
    then have "rbtree_insert_loop ts s tid (par_of k) (link_of k) = rbtree_insert_loop ts s tid (Some a) (Right_Link a)"
      using e rd order.asym [OF 2] by (subst rbtree_insert_loop.simps) auto
    moreover have "\<forall>x \<in> set (ids ts (before (Fr RIGHT c a l # k))). x < tid"
      using s(3) 2 e Br.prems(5) less_trans by auto
    ultimately show ?thesis using Br.IH(2) [OF z(2)] Br.prems(2-4,6) s(2) by auto
  qed
qed

lemma rbtree_insert_holds:
  assumes h: "rb_holds s xs" and ts: "set xs \<subseteq> dom ts" "sorted_wrt (<) (ids ts xs)"
    and b: "ts b = Some e" "timer_id e \<notin> set (ids ts xs)" "b \<notin> set xs" "b \<in> dom (r_mem s)"
  shows "\<exists>s' xs'. rbtree_insert ts b s = Some (0, s') \<and> rb_holds s' xs' \<and> set xs' = insert b (set xs) \<and>
    sorted_wrt (<) (ids ts xs') \<and> same_live s s'"
proof -
  obtain t where t: "zip_at s t []" "inord t = xs" using h unfolding rb_holds_def by blast
  obtain k where k: "rbtree_insert_loop ts s (timer_id e) (par_of []) (link_of []) = Some (Some (par_of k, link_of k))"
      "zip_at s Tip k" "\<forall>x \<in> set (ids ts (before k)). x < timer_id e" "\<forall>x \<in> set (ids ts (after k)). timer_id e < x"
    using rbtree_insert_loop_zip [OF t(1), of ts "timer_id e"] t(2) ts b(2) by (auto simp: addrs_def)
  have z: "rb_ok (plug Tip k)" "col (plug Tip k) = RB_BLACK" "xs = before k @ after k"
    using rb_holds_zip [OF h k(2)] by (simp_all add: inord_plug)
  have "b \<notin> path_addrs k" using b(3) z(3) by (simp add: path_addrs_sides)
  then obtain s1 s2 where s2: "rb_link_node b (par_of k) (link_of k) s = Some s1" "rb_insert_color b s1 = Some s2"
      "rb_holds s2 (before k @ b # after k)" "same_live s s2"
    using insert_holds_zip [OF k(2) z(1,2) b(4)] by blast
  have "rbtree_insert ts b s = Some (0, s2)"
    using k(1) s2(1,2) b(1) by (simp add: rbtree_insert_def TIMERCLUSTER_RET_SUCCESS_def)
  moreover have "sorted_wrt (<) (ids ts (before k @ b # after k))"
    using ts(2) k(3,4) b(1) z(3) by (auto simp: sorted_wrt_append)
  ultimately show ?thesis using s2(3,4) z(3) by (intro exI [of _ s2] exI [of _ "before k @ b # after k"]) auto
qed

section \<open>The state of a cluster\<close>

text \<open>
  The nodes \<open>xs\<close> are in the tree, by increasing identifier, and the nodes of \<open>S\<close> in the heap.  Between the
  calls every live node is in both.
\<close>

definition parts :: "'a cluster_scheme \<Rightarrow> addr list \<Rightarrow> addr set \<Rightarrow> bool" where
  "parts s xs S \<longleftrightarrow> rb_holds (tc_rb s) xs \<and> heap_holds (by_time (tc_nodes s)) (tc_heap s) S \<and>
     sorted_wrt (<) (ids (tc_nodes s) xs) \<and> set xs \<subseteq> dom (tc_nodes s) \<and> S \<subseteq> dom (tc_nodes s) \<and>
     dom (h_mem (tc_heap s)) = dom (tc_nodes s) \<and> dom (r_mem (tc_rb s)) = dom (tc_nodes s)"

definition cluster_ok :: "'a cluster_scheme \<Rightarrow> bool" where
  "cluster_ok s \<longleftrightarrow> (\<exists>xs. parts s xs (set xs) \<and> set xs = dom (tc_nodes s))"

lemma heap_holds_cong:
  assumes "heap_holds cmp h S" and "\<And>a b. \<lbrakk>a \<in> S; b \<in> S\<rbrakk> \<Longrightarrow> cmp' a b = cmp a b"
  shows "heap_holds cmp' h S"
proof -
  obtain arr n where a: "layout h arr n" "heap_ordered cmp arr n" "S = arr ` {1..n}"
    using assms(1) by (auto simp: heap_holds_def)
  have "heap_ordered cmp' arr n"
    unfolding heap_ordered_def
  proof (intro allI impI)
    fix k assume k: "2 \<le> k \<and> k \<le> n"
    then have "1 \<le> k div 2" "k div 2 \<le> n" by auto
    then have "arr k \<in> S" "arr (k div 2) \<in> S" using a(3) k by auto
    then show "\<not> cmp' (arr k) (arr (k div 2))" using assms(2) a(2) k by (simp add: heap_ordered_def)
  qed
  then show ?thesis using a unfolding heap_holds_def by blast
qed

lemma by_time_upd [simp]: "\<lbrakk>x \<noteq> a; y \<noteq> a\<rbrakk> \<Longrightarrow> by_time (m(a := v)) x y = by_time m x y"
  by (simp add: by_time_def node_at_def)

lemma ids_upd: "a \<notin> set xs \<Longrightarrow> ids (m(a := v)) xs = ids m xs"
  by (auto simp: ids_def node_at_def)

lemma ids_same: "m a = Some t \<Longrightarrow> timer_id t' = timer_id t \<Longrightarrow> ids (m(a \<mapsto> t')) xs = ids m xs"
  by (auto simp: ids_def node_at_def)

lemma heap_holds_upd: "\<lbrakk>heap_holds (by_time m) h S; a \<notin> S\<rbrakk> \<Longrightarrow> heap_holds (by_time (m(a := v))) h S"
  by (erule heap_holds_cong) (metis by_time_upd)

text \<open>The steps the calls are made of.\<close>

lemma parts_calloc:
  assumes "parts s xs S" and "a \<notin> dom (tc_nodes s)"
  shows "\<exists>h r. on_node a f (calloc_node a s) = Some (s\<lparr>tc_nodes := (tc_nodes s)(a \<mapsto> f zero_timer), tc_heap := h, tc_rb := r\<rparr>) \<and>
    parts (s\<lparr>tc_nodes := (tc_nodes s)(a \<mapsto> f zero_timer), tc_heap := h, tc_rb := r\<rparr>) xs S \<and> h_mem h a = Some unlinked"
proof -
  have a: "a \<notin> S" "a \<notin> set xs" using assms by (auto simp: parts_def)
  let ?h = "(tc_heap s)\<lparr>h_mem := (h_mem (tc_heap s))(a \<mapsto> unlinked)\<rparr>"
  let ?r = "(tc_rb s)\<lparr>r_mem := (r_mem (tc_rb s))(a \<mapsto> \<lparr>rb_parent = None, rb_right = None, rb_left = None, rb_color = RB_RED\<rparr>)\<rparr>"
  have "rb_holds ?r xs" using assms a by (auto simp: parts_def intro!: rb_holds_frame)
  moreover have "heap_holds (by_time ((tc_nodes s)(a \<mapsto> f zero_timer))) ?h S"
    using assms a by (auto simp: parts_def intro!: heap_holds_upd heap_holds_frame)
  ultimately show ?thesis using assms a
    by (intro exI [of _ ?h] exI [of _ ?r]) (auto simp: parts_def calloc_node_def on_node_def assign_def ids_upd)
qed

lemma parts_tree_insert:
  assumes p: "parts s xs S" and a: "tc_nodes s a = Some e" "timer_id e \<notin> set (ids (tc_nodes s) xs)" "a \<notin> set xs"
  shows "\<exists>r xs'. rbtree_insert (tc_nodes s) a (tc_rb s) = Some (0, r) \<and> parts (s\<lparr>tc_rb := r\<rparr>) xs' S \<and> set xs' = insert a (set xs)"
proof -
  have h: "rb_holds (tc_rb s) xs" "set xs \<subseteq> dom (tc_nodes s)" "sorted_wrt (<) (ids (tc_nodes s) xs)" "a \<in> dom (r_mem (tc_rb s))"
    using p a(1) by (auto simp: parts_def)
  obtain r xs' where r: "rbtree_insert (tc_nodes s) a (tc_rb s) = Some (0, r)" "rb_holds r xs'" "set xs' = insert a (set xs)"
      "sorted_wrt (<) (ids (tc_nodes s) xs')" "same_live (tc_rb s) r"
    using rbtree_insert_holds [OF h(1-3) a h(4)] by blast
  then have "parts (s\<lparr>tc_rb := r\<rparr>) xs' S" using p a(1) by (auto simp: parts_def same_live_def)
  then show ?thesis using r by blast
qed

lemma parts_heapI:
  assumes "parts s xs S" and "only_changes T (tc_heap s) h" and "heap_holds (by_time (tc_nodes s)) h S'" and "S' \<subseteq> dom (tc_nodes s)"
  shows "parts (s\<lparr>tc_heap := h\<rparr>) xs S'"
  using assms by (simp add: parts_def only_changes_def)

lemma parts_heap_insert:
  assumes p: "parts s xs S" and a: "a \<notin> S" "h_mem (tc_heap s) a = Some unlinked"
  shows "\<exists>h. on_heap (\<lambda>cmp. heap_insert cmp a) s = Some (s\<lparr>tc_heap := h\<rparr>) \<and> parts (s\<lparr>tc_heap := h\<rparr>) xs (insert a S)"
proof -
  have "heap_holds (by_time (tc_nodes s)) (tc_heap s) S" using p by (simp add: parts_def)
  from timer_heap.insert_holds [OF this a]
  obtain h where h: "heap_insert (Some (by_time (tc_nodes s))) a (tc_heap s) = Some h"
      "heap_holds (by_time (tc_nodes s)) h (insert a S)" "only_changes (insert a S) (tc_heap s) h"
    by (auto simp: unlinked_def)
  have "insert a S \<subseteq> dom (tc_nodes s)" using p a(2) by (auto simp: parts_def)
  then have "parts (s\<lparr>tc_heap := h\<rparr>) xs (insert a S)" using parts_heapI [OF p h(3,2)] by blast
  then show ?thesis using h(1) by (intro exI [of _ h]) (simp add: on_heap_def)
qed

lemma parts_heap_remove:
  assumes p: "parts s xs S" and a: "a \<in> S" and t: "tc_nodes s a = Some t" "timer_id t' = timer_id t"
  shows "\<exists>h. on_heap (\<lambda>cmp. heap_remove cmp a) (s\<lparr>tc_nodes := (tc_nodes s)(a \<mapsto> t')\<rparr>) = Some (s\<lparr>tc_nodes := (tc_nodes s)(a \<mapsto> t'), tc_heap := h\<rparr>) \<and>
    parts (s\<lparr>tc_nodes := (tc_nodes s)(a \<mapsto> t'), tc_heap := h\<rparr>) xs (S - {a}) \<and> h_mem h a = Some unlinked"
proof -
  have "heap_holds (by_time (tc_nodes s)) (tc_heap s) S" using p by (simp add: parts_def)
  then have "heap_holds_but (by_time ((tc_nodes s)(a \<mapsto> t'))) (tc_heap s) S a"
    using a holds_rekey [OF timer_heap.heap_order_axioms] by simp
  from timer_heap.remove_holds [OF this]
  obtain h where h: "heap_remove (Some (by_time ((tc_nodes s)(a \<mapsto> t')))) a (tc_heap s) = Some h"
      "heap_holds (by_time ((tc_nodes s)(a \<mapsto> t'))) h (S - {a})" "only_changes S (tc_heap s) h" "h_mem h a = Some unlinked"
    by blast
  then have "parts (s\<lparr>tc_nodes := (tc_nodes s)(a \<mapsto> t'), tc_heap := h\<rparr>) xs (S - {a})"
    using p t by (auto simp: parts_def only_changes_def ids_same)
  then show ?thesis using h(1,4) by (intro exI [of _ h]) (simp add: on_heap_def)
qed

lemma parts_dequeue:
  assumes p: "parts s xs S" and a: "h_root (tc_heap s) = Some a"
  shows "\<exists>h. on_heap heap_dequeue s = Some (s\<lparr>tc_heap := h\<rparr>) \<and> parts (s\<lparr>tc_heap := h\<rparr>) xs (S - {a}) \<and> h_mem h a = Some unlinked"
proof -
  have "heap_holds (by_time (tc_nodes s)) (tc_heap s) S" using p by (simp add: parts_def)
  from timer_heap.dequeue_holds [OF this a]
  obtain h where h: "heap_dequeue (Some (by_time (tc_nodes s))) (tc_heap s) = Some h"
      "heap_holds (by_time (tc_nodes s)) h (S - {a})" "only_changes S (tc_heap s) h" "h_mem h a = Some unlinked"
    by blast
  have "S - {a} \<subseteq> dom (tc_nodes s)" using p by (auto simp: parts_def)
  then have "parts (s\<lparr>tc_heap := h\<rparr>) xs (S - {a})" using parts_heapI [OF p h(3,2)] by blast
  then show ?thesis using h(1,4) by (intro exI [of _ h]) (simp add: on_heap_def)
qed

lemma parts_tree_erase:
  assumes p: "parts s xs S" and a: "a \<in> set xs"
  shows "\<exists>r. on_tree (rb_erase a) s = Some (s\<lparr>tc_rb := r\<rparr>) \<and> parts (s\<lparr>tc_rb := r\<rparr>) (remove1 a xs) S"
proof -
  have h: "rb_holds (tc_rb s) xs" "sorted_wrt (<) (ids (tc_nodes s) xs)" "set xs \<subseteq> dom (tc_nodes s)" using p by (simp_all add: parts_def)
  obtain r where r: "rb_erase a (tc_rb s) = Some r" "rb_holds r (remove1 a xs)" "same_live (tc_rb s) r"
    using rb_erase_holds [OF h(1) a] by blast
  obtain ys zs where xs: "xs = ys @ a # zs" "a \<notin> set ys" using split_list_first [OF a] by blast
  then have "sorted_wrt (<) (ids (tc_nodes s) (remove1 a xs))" using h(2) by (simp add: remove1_append sorted_wrt_append)
  moreover have "set (remove1 a xs) \<subseteq> dom (tc_nodes s)" using h(3) set_remove1_subset [of a xs] by blast
  ultimately have "parts (s\<lparr>tc_rb := r\<rparr>) (remove1 a xs) S" using p r(2,3) by (simp add: parts_def same_live_def)
  then show ?thesis using r(1) by (intro exI [of _ r]) (simp add: on_tree_def)
qed

lemma parts_free:
  assumes "parts s xs S" and "a \<notin> set xs" and "a \<notin> S" and "a \<in> dom (tc_nodes s)"
  shows "\<exists>h r. free_node a s = Some (s\<lparr>tc_nodes := (tc_nodes s)(a := None), tc_heap := h, tc_rb := r\<rparr>) \<and>
    parts (s\<lparr>tc_nodes := (tc_nodes s)(a := None), tc_heap := h, tc_rb := r\<rparr>) xs S"
proof -
  let ?h = "(tc_heap s)\<lparr>h_mem := (h_mem (tc_heap s))(a := None)\<rparr>"
  let ?r = "(tc_rb s)\<lparr>r_mem := (r_mem (tc_rb s))(a := None)\<rparr>"
  have "rb_holds ?r xs" using assms by (auto simp: parts_def intro!: rb_holds_frame)
  moreover have "heap_holds (by_time ((tc_nodes s)(a := None))) ?h S"
    using assms by (auto simp: parts_def intro!: heap_holds_upd heap_holds_frame)
  ultimately show ?thesis using assms
    by (intro exI [of _ ?h] exI [of _ ?r]) (auto simp: parts_def free_node_def ids_upd)
qed

lemma parts_rekey:
  assumes "parts s xs S" and "a \<notin> S" and "tc_nodes s a = Some t" "timer_id t' = timer_id t"
  shows "parts (s\<lparr>tc_nodes := (tc_nodes s)(a \<mapsto> t')\<rparr>) xs S"
  using assms by (auto simp: parts_def ids_same intro!: heap_holds_upd)

section \<open>The table of timers\<close>

text \<open>A cluster without garbage holds the timers of the table, by identifier.\<close>

definition timer_table :: "'a cluster_scheme \<Rightarrow> (timerid_t \<Rightarrow> timernode option) \<Rightarrow> bool" where
  "timer_table s T \<longleftrightarrow> cluster_ok s \<and> (\<forall>tid t. T tid = Some t \<longleftrightarrow> (\<exists>a. tc_nodes s a = Some t \<and> timer_id t = tid))"

text \<open>Identifiers are unique.\<close>

lemma ok_unique:
  assumes "cluster_ok s" and "tc_nodes s a = Some t" and "tc_nodes s b = Some u" and "timer_id t = timer_id u"
  shows "a = b"
proof -
  obtain xs where p: "parts s xs (set xs)" "set xs = dom (tc_nodes s)" using assms(1) unfolding cluster_ok_def by blast
  have "distinct (ids (tc_nodes s) xs)" using p(1) by (simp add: parts_def strict_sorted_iff)
  then have "inj_on (\<lambda>a. timer_id (node_at (tc_nodes s) a)) (set xs)" by (simp add: ids_def distinct_map)
  then show ?thesis using assms(2-4) p(2) inj_onD [of _ _ a b] by force
qed

lemma table_search:
  assumes "timer_table s T"
  shows "\<exists>r. rbtree_search (tc_nodes s) (tc_rb s) tid = Some r \<and>
    (case r of None \<Rightarrow> T tid = None | Some a \<Rightarrow> \<exists>t. tc_nodes s a = Some t \<and> timer_id t = tid \<and> T tid = Some t)"
proof -
  obtain xs where p: "parts s xs (set xs)" "set xs = dom (tc_nodes s)"
    using assms unfolding timer_table_def cluster_ok_def by blast
  obtain r where r: "rbtree_search (tc_nodes s) (tc_rb s) tid = Some r"
      "case r of None \<Rightarrow> tid \<notin> set (ids (tc_nodes s) xs) | Some a \<Rightarrow> a \<in> set xs \<and> timer_id (node_at (tc_nodes s) a) = tid"
    using rbtree_search_holds [of "tc_rb s" xs "tc_nodes s" tid] p(1) by (auto simp: parts_def)
  have T: "T tid = Some t \<longleftrightarrow> (\<exists>a. tc_nodes s a = Some t \<and> timer_id t = tid)" for t
    using assms by (simp add: timer_table_def)
  show ?thesis
  proof (cases r)
    case None
    have "T tid = None"
    proof (rule ccontr)
      assume "T tid \<noteq> None"
      then obtain a t where a: "tc_nodes s a = Some t" "timer_id t = tid" using T by auto
      then have "tid \<in> set (ids (tc_nodes s) xs)" using p(2) by (force simp: ids_def)
      then show False using r(2) None by simp
    qed
    then show ?thesis using r(1) None by simp
  next
    case (Some a)
    then obtain t where "tc_nodes s a = Some t" using r(2) p(2) by auto
    then show ?thesis using r Some T [of t] by auto
  qed
qed

lemma cluster_okI: "\<lbrakk>parts s xs (set xs); set xs = dom (tc_nodes s)\<rbrakk> \<Longrightarrow> cluster_ok s"
  unfolding cluster_ok_def by blast

lemma table_new:
  assumes T: "timer_table s T" and s': "cluster_ok s'" "tc_nodes s' = (tc_nodes s)(a \<mapsto> t)"
    and a: "a \<notin> dom (tc_nodes s)" "T (timer_id t) = None"
  shows "timer_table s' (T(timer_id t \<mapsto> t))"
proof -
  have old: "T tid = Some u \<longleftrightarrow> (\<exists>b. tc_nodes s b = Some u \<and> timer_id u = tid)" for tid u
    using T by (simp add: timer_table_def)
  have "(T(timer_id t \<mapsto> t)) tid = Some u \<longleftrightarrow> (\<exists>b. tc_nodes s' b = Some u \<and> timer_id u = tid)" for tid u
  proof (cases "tid = timer_id t")
    case True
    then show ?thesis using old [of "timer_id t" u] a(2) unfolding s'(2) by (auto split: if_splits)
  next
    case False
    then show ?thesis using old [of tid u] a(1) unfolding s'(2) by (auto split: if_splits)
  qed
  then show ?thesis using s'(1) by (simp add: timer_table_def)
qed

text \<open>The table after a change at one address.\<close>

lemma table_upd:
  assumes T: "timer_table s T" and s': "cluster_ok s'" "tc_nodes s' = (tc_nodes s)(a := v)"
    and t: "tc_nodes s a = Some t" "\<And>u. v = Some u \<Longrightarrow> timer_id u = timer_id t"
  shows "timer_table s' (T(timer_id t := v))"
proof -
  have uniq: "b = a" if "tc_nodes s b = Some u" "timer_id u = timer_id t" for b u
    using ok_unique [of s b u a t] that T t(1) by (simp add: timer_table_def)
  have old: "T tid = Some u \<longleftrightarrow> (\<exists>b. tc_nodes s b = Some u \<and> timer_id u = tid)" for tid u
    using T by (simp add: timer_table_def)
  have "(T(timer_id t := v)) tid = Some u \<longleftrightarrow> (\<exists>b. tc_nodes s' b = Some u \<and> timer_id u = tid)" for tid u
  proof (cases "tid = timer_id t")
    case True
    then show ?thesis using uniq t(2) unfolding s'(2) by (metis fun_upd_apply)
  next
    case False
    then show ?thesis using old t unfolding s'(2) by (metis fun_upd_apply option.inject)
  qed
  then show ?thesis using s'(1) by (simp add: timer_table_def)
qed

lemma table_freed:
  assumes ok: "timer_table s T" and p: "parts s' ys (set xs - {a})" "set ys = set xs - {a}" "set xs = dom (tc_nodes s)"
    and s': "tc_nodes s' = (tc_nodes s)(a := None)" and t: "tc_nodes s a = Some t" and T': "T' = T(timer_id t := None)"
  shows "timer_table s' T'"
proof -
  have "cluster_ok s'" by (rule cluster_okI [of _ ys]) (use p s' in auto)
  then show ?thesis using table_upd [OF ok _ s' t] T' by auto
qed

lemma table_add:
  assumes ok: "timer_table s T" and a: "a \<notin> dom (tc_nodes s)" and T: "T tid = None" and run: "tc_running s"
    and t_def: "t = \<lparr>timer_id = tid, timer_type = ty, timer_interval = interval, expire_time = util_time_mono_after clock interval,
     callback = cb, userdata = ud\<rparr>"
  shows "\<exists>h r. timer_add wake (Some a) clock tid ty interval cb ud s =
      Some (True, wake (s\<lparr>tc_nodes := (tc_nodes s)(a \<mapsto> t), tc_rb := r, tc_heap := h\<rparr>)) \<and>
    timer_table (s\<lparr>tc_nodes := (tc_nodes s)(a \<mapsto> t), tc_rb := r, tc_heap := h\<rparr>) (T(tid \<mapsto> t))"
proof -
  obtain xs where p: "parts s xs (set xs)" "set xs = dom (tc_nodes s)"
    using ok unfolding timer_table_def cluster_ok_def by blast
  let ?f = "\<lambda>t. t\<lparr>timer_id := tid, timer_type := ty, timer_interval := interval,
    expire_time := util_time_mono_after clock interval, callback := cb, userdata := ud\<rparr>"
  have f: "?f zero_timer = t" by (simp add: zero_timer_def t_def)
  obtain h r where 1: "on_node a ?f (calloc_node a s) = Some (s\<lparr>tc_nodes := (tc_nodes s)(a \<mapsto> t), tc_heap := h, tc_rb := r\<rparr>)"
      "parts (s\<lparr>tc_nodes := (tc_nodes s)(a \<mapsto> t), tc_heap := h, tc_rb := r\<rparr>) xs (set xs)" "h_mem h a = Some unlinked"
    using parts_calloc [OF p(1) a, of ?f] unfolding f by blast
  have ids: "tid \<notin> set (ids (tc_nodes s) xs)" using ok T p(2) by (force simp: timer_table_def ids_def)
  have a': "a \<notin> set xs" using a p(2) by simp
  obtain r' xs' where 2: "rbtree_insert ((tc_nodes s)(a \<mapsto> t)) a r = Some (0, r')"
      "parts (s\<lparr>tc_nodes := (tc_nodes s)(a \<mapsto> t), tc_heap := h, tc_rb := r'\<rparr>) xs' (set xs)" "set xs' = insert a (set xs)"
    using parts_tree_insert [OF 1(2), of a t] ids a' by (auto simp: t_def ids_upd)
  obtain h' where 3: "on_heap (\<lambda>cmp. heap_insert cmp a) (s\<lparr>tc_nodes := (tc_nodes s)(a \<mapsto> t), tc_heap := h, tc_rb := r'\<rparr>) =
        Some (s\<lparr>tc_nodes := (tc_nodes s)(a \<mapsto> t), tc_rb := r', tc_heap := h'\<rparr>)"
      "parts (s\<lparr>tc_nodes := (tc_nodes s)(a \<mapsto> t), tc_rb := r', tc_heap := h'\<rparr>) xs' (set xs')"
    using parts_heap_insert [OF 2(2) a'] 1(3) 2(3) by auto
  obtain "rbtree_search (tc_nodes s) (tc_rb s) tid = Some None"
    using table_search [OF ok, of tid] T by (auto split: option.splits)
  then have "timer_add wake (Some a) clock tid ty interval cb ud s =
      Some (True, wake (s\<lparr>tc_nodes := (tc_nodes s)(a \<mapsto> t), tc_rb := r', tc_heap := h'\<rparr>))"
    using 1(1) 2(1) 3(1) run by (simp add: timer_add_def)
  moreover have "timer_table (s\<lparr>tc_nodes := (tc_nodes s)(a \<mapsto> t), tc_rb := r', tc_heap := h'\<rparr>) (T(tid \<mapsto> t))"
    using table_new [OF ok cluster_okI [OF 3(2)], of a t] 2(3) p(2) T a by (simp add: t_def)
  ultimately show ?thesis by blast
qed

lemma table_del:
  assumes ok: "timer_table s T" and T: "T tid = Some t" and run: "tc_running s"
  shows "\<exists>m h r. timer_del wake tid s = Some (True, wake (s\<lparr>tc_nodes := m, tc_heap := h, tc_rb := r\<rparr>)) \<and>
    timer_table (s\<lparr>tc_nodes := m, tc_heap := h, tc_rb := r\<rparr>) (T(tid := None))"
proof -
  obtain xs where p: "parts s xs (set xs)" "set xs = dom (tc_nodes s)"
    using ok unfolding timer_table_def cluster_ok_def by blast
  obtain a where a: "rbtree_search (tc_nodes s) (tc_rb s) tid = Some (Some a)" "tc_nodes s a = Some t" "timer_id t = tid"
    using table_search [OF ok, of tid] T by (auto split: option.splits)
  have xs: "a \<in> set xs" "set (remove1 a xs) = set xs - {a}"
    using a p rb_holds_distinct [of "tc_rb s" xs] by (auto simp: parts_def)
  obtain r where 1: "on_tree (rb_erase a) s = Some (s\<lparr>tc_rb := r\<rparr>)" "parts (s\<lparr>tc_rb := r\<rparr>) (remove1 a xs) (set xs)"
    using parts_tree_erase [OF p(1) xs(1)] by blast
  have same: "(tc_nodes s)(a \<mapsto> t) = tc_nodes s" using a(2) by auto
  obtain h where 2: "on_heap (\<lambda>cmp. heap_remove cmp a) (s\<lparr>tc_rb := r\<rparr>) = Some (s\<lparr>tc_rb := r, tc_heap := h\<rparr>)"
      "parts (s\<lparr>tc_rb := r, tc_heap := h\<rparr>) (remove1 a xs) (set xs - {a})"
    using parts_heap_remove [OF 1(2) xs(1), of t t] a(2) same by auto
  obtain h' r' where 3: "free_node a (s\<lparr>tc_rb := r, tc_heap := h\<rparr>) = Some (s\<lparr>tc_nodes := (tc_nodes s)(a := None), tc_heap := h', tc_rb := r'\<rparr>)"
      "parts (s\<lparr>tc_nodes := (tc_nodes s)(a := None), tc_heap := h', tc_rb := r'\<rparr>) (remove1 a xs) (set xs - {a})"
    using parts_free [OF 2(2), of a] a(2) xs(2) by auto
  have "timer_del wake tid s = Some (True, wake (s\<lparr>tc_nodes := (tc_nodes s)(a := None), tc_heap := h', tc_rb := r'\<rparr>))"
    using a(1) 1(1) 2(1) 3(1) run by (simp add: timer_del_def)
  moreover have "timer_table (s\<lparr>tc_nodes := (tc_nodes s)(a := None), tc_heap := h', tc_rb := r'\<rparr>) (T(tid := None))"
    by (rule table_freed [OF ok 3(2) xs(2) p(2)]) (use a(2,3) in auto)
  ultimately show ?thesis by blast
qed

lemma table_reset:
  assumes ok: "timer_table s T" and T: "T tid = Some t" and run: "tc_running s"
    and t': "t' = t\<lparr>timer_interval := interval, expire_time := util_time_mono_after clock interval\<rparr>"
  shows "\<exists>m h. timer_reset wake clock tid interval s = Some (True, wake (s\<lparr>tc_nodes := m, tc_heap := h\<rparr>)) \<and>
    timer_table (s\<lparr>tc_nodes := m, tc_heap := h\<rparr>) (T(tid \<mapsto> t'))"
proof -
  obtain xs where p: "parts s xs (set xs)" "set xs = dom (tc_nodes s)"
    using ok unfolding timer_table_def cluster_ok_def by blast
  obtain a where a: "rbtree_search (tc_nodes s) (tc_rb s) tid = Some (Some a)" "tc_nodes s a = Some t" "timer_id t = tid"
    using table_search [OF ok, of tid] T by (auto split: option.splits)
  have xs: "a \<in> set xs" using a p by auto
  let ?m = "(tc_nodes s)(a \<mapsto> t')"
  obtain h where 1: "on_heap (\<lambda>cmp. heap_remove cmp a) (s\<lparr>tc_nodes := ?m\<rparr>) = Some (s\<lparr>tc_nodes := ?m, tc_heap := h\<rparr>)"
      "parts (s\<lparr>tc_nodes := ?m, tc_heap := h\<rparr>) xs (set xs - {a})" "h_mem h a = Some unlinked"
    using parts_heap_remove [OF p(1) xs a(2), of t'] t' by auto
  obtain h' where 2: "on_heap (\<lambda>cmp. heap_insert cmp a) (s\<lparr>tc_nodes := ?m, tc_heap := h\<rparr>) = Some (s\<lparr>tc_nodes := ?m, tc_heap := h'\<rparr>)"
      "parts (s\<lparr>tc_nodes := ?m, tc_heap := h'\<rparr>) xs (set xs)"
    using parts_heap_insert [OF 1(2), of a] 1(3) xs by (auto simp: insert_absorb)
  have "timer_reset wake clock tid interval s = Some (True, wake (s\<lparr>tc_nodes := ?m, tc_heap := h'\<rparr>))"
    using a 1(1) 2(1) run t' by (simp add: timer_reset_def on_node_def assign_def)
  moreover have "timer_table (s\<lparr>tc_nodes := ?m, tc_heap := h'\<rparr>) (T(tid \<mapsto> t'))"
    using table_upd [OF ok cluster_okI [OF 2(2)] _ a(2), of "Some t'"] p(2) a(2,3) t' by auto
  ultimately show ?thesis by blast
qed

section \<open>The passes of the thread\<close>

text \<open>No timer of the table expires before \<open>t\<close>.\<close>

definition earliest :: "(timerid_t \<Rightarrow> timernode option) \<Rightarrow> timernode \<Rightarrow> bool" where
  "earliest T t \<longleftrightarrow> T (timer_id t) = Some t \<and> (\<forall>tid u. T tid = Some u \<longrightarrow> \<not> time_less_than (expire_time u) (expire_time t))"

text \<open>The table after the timer \<open>t\<close> has fired.\<close>

definition after_fire :: "reading \<Rightarrow> timernode \<Rightarrow> (timerid_t \<Rightarrow> timernode option) \<Rightarrow> timerid_t \<Rightarrow> timernode option" where
  "after_fire clock t T =
     T(timer_id t := (if timer_type t = TIMER_TYPE_CYCLE
                      then Some (t\<lparr>expire_time := util_time_mono_after clock (timer_interval t)\<rparr>) else None))"

definition inn_of :: "timernode \<Rightarrow> timernode_inn" where
  "inn_of t = \<lparr>inn_timer_id = timer_id t, inn_callback = callback t, inn_userdata = userdata t\<rparr>"

lemma table_root:
  assumes ok: "timer_table s T"
  shows "case h_root (tc_heap s) of None \<Rightarrow> T = (\<lambda>_. None) | Some a \<Rightarrow> \<exists>t. tc_nodes s a = Some t \<and> earliest T t"
proof -
  obtain xs where p: "parts s xs (set xs)" "set xs = dom (tc_nodes s)"
    using ok unfolding timer_table_def cluster_ok_def by blast
  have T: "T tid = Some u \<longleftrightarrow> (\<exists>b. tc_nodes s b = Some u \<and> timer_id u = tid)" for tid u
    using ok by (simp add: timer_table_def)
  have h: "heap_holds (by_time (tc_nodes s)) (tc_heap s) (dom (tc_nodes s))" using p by (simp add: parts_def)
  note rt = timer_heap.heap_root [OF h]
  show ?thesis
  proof (cases "h_root (tc_heap s)")
    case None
    then have "dom (tc_nodes s) = {}" using rt by simp
    then have "tc_nodes s b = None" for b by (simp add: dom_eq_empty_conv)
    then have "T tid \<noteq> Some u" for tid u using T by simp
    then have "T tid = None" for tid by (metis not_None_eq)
    then show ?thesis using None by auto
  next
    case (Some a)
    then have rt: "a \<in> dom (tc_nodes s)" "\<forall>x \<in> dom (tc_nodes s). \<not> by_time (tc_nodes s) x a" using rt by simp_all
    then obtain t where t: "tc_nodes s a = Some t" by blast
    have "\<not> time_less_than (expire_time u) (expire_time t)" if u: "T tid = Some u" for tid u
    proof -
      obtain b where b: "tc_nodes s b = Some u" using u T [of tid u] by blast
      then have "\<not> by_time (tc_nodes s) b a" using rt(2) by blast
      then show ?thesis using b t by (simp add: by_time_def compare_timer_time)
    qed
    moreover have "T (timer_id t) = Some t" using t T [of "timer_id t" t] by blast
    ultimately have "earliest T t" unfolding earliest_def by blast
    then show ?thesis using Some t by simp
  qed
qed

lemma table_fire:
  assumes ok: "timer_table s T" and a: "h_root (tc_heap s) = Some a" "tc_nodes s a = Some t" and run: "tc_running s"
    and now: "\<not> time_less_than (util_time_mono clock) (expire_time t)"
  shows "\<exists>m h r. thread_pass clock clock' s = Some (Fired (inn_of t), s\<lparr>tc_nodes := m, tc_heap := h, tc_rb := r\<rparr>) \<and>
    timer_table (s\<lparr>tc_nodes := m, tc_heap := h, tc_rb := r\<rparr>) (after_fire clock' t T)"
proof -
  obtain xs where p: "parts s xs (set xs)" "set xs = dom (tc_nodes s)"
    using ok unfolding timer_table_def cluster_ok_def by blast
  obtain h where 1: "on_heap heap_dequeue s = Some (s\<lparr>tc_heap := h\<rparr>)" "parts (s\<lparr>tc_heap := h\<rparr>) xs (set xs - {a})" "h_mem h a = Some unlinked"
    using parts_dequeue [OF p(1) a(1)] by blast
  have xs: "a \<in> set xs" "set (remove1 a xs) = set xs - {a}" using a(2) p rb_holds_distinct [of "tc_rb s" xs] by (auto simp: parts_def)
  note unf = thread_pass_def 1(1) a run now inn_of_def
  show ?thesis
  proof (cases "timer_type t")
    case TIMER_TYPE_CYCLE
    let ?t = "t\<lparr>expire_time := util_time_mono_after clock' (timer_interval t)\<rparr>"
    let ?m = "(tc_nodes s)(a \<mapsto> ?t)"
    have 2: "parts (s\<lparr>tc_heap := h, tc_nodes := ?m\<rparr>) xs (set xs - {a})"
      using parts_rekey [OF 1(2), of a t ?t] a(2) by simp
    obtain h' where 3: "on_heap (\<lambda>cmp. heap_insert cmp a) (s\<lparr>tc_heap := h, tc_nodes := ?m\<rparr>) = Some (s\<lparr>tc_nodes := ?m, tc_heap := h'\<rparr>)"
        "parts (s\<lparr>tc_nodes := ?m, tc_heap := h'\<rparr>) xs (set xs)"
      using parts_heap_insert [OF 2, of a] 1(3) xs(1) by (auto simp: insert_absorb)
    have "thread_pass clock clock' s = Some (Fired (inn_of t), s\<lparr>tc_nodes := ?m, tc_heap := h', tc_rb := tc_rb s\<rparr>)"
      using 3(1) TIMER_TYPE_CYCLE by (simp add: unf on_node_def assign_def)
    moreover have "timer_table (s\<lparr>tc_nodes := ?m, tc_heap := h', tc_rb := tc_rb s\<rparr>) (after_fire clock' t T)"
      using table_upd [OF ok cluster_okI [OF 3(2)] _ a(2), of "Some ?t"] p(2) a(2) TIMER_TYPE_CYCLE by (auto simp: after_fire_def)
    ultimately show ?thesis by blast
  next
    case TIMER_TYPE_SINGLE
    obtain r where 2: "on_tree (rb_erase a) (s\<lparr>tc_heap := h\<rparr>) = Some (s\<lparr>tc_heap := h, tc_rb := r\<rparr>)"
        "parts (s\<lparr>tc_heap := h, tc_rb := r\<rparr>) (remove1 a xs) (set xs - {a})"
      using parts_tree_erase [OF 1(2) xs(1)] by auto
    obtain h' r' where 3: "free_node a (s\<lparr>tc_heap := h, tc_rb := r\<rparr>) = Some (s\<lparr>tc_nodes := (tc_nodes s)(a := None), tc_heap := h', tc_rb := r'\<rparr>)"
        "parts (s\<lparr>tc_nodes := (tc_nodes s)(a := None), tc_heap := h', tc_rb := r'\<rparr>) (remove1 a xs) (set xs - {a})"
      using parts_free [OF 2(2), of a] a(2) xs(2) by auto
    have "thread_pass clock clock' s = Some (Fired (inn_of t), s\<lparr>tc_nodes := (tc_nodes s)(a := None), tc_heap := h', tc_rb := r'\<rparr>)"
      using 2(1) 3(1) TIMER_TYPE_SINGLE by (simp add: unf)
    moreover have "timer_table (s\<lparr>tc_nodes := (tc_nodes s)(a := None), tc_heap := h', tc_rb := r'\<rparr>) (after_fire clock' t T)"
      by (rule table_freed [OF ok 3(2) xs(2) p(2)]) (use a(2) TIMER_TYPE_SINGLE in \<open>auto simp: after_fire_def\<close>)
    ultimately show ?thesis by blast
  qed
qed

section \<open>Destruction\<close>

lemma drain_heap_parts:
  "parts s xs S \<Longrightarrow> \<exists>h. drain_heap s = Some (s\<lparr>tc_heap := h\<rparr>) \<and> parts (s\<lparr>tc_heap := h\<rparr>) xs {}"
proof (induction "card S" arbitrary: s S rule: less_induct)
  case less
  have h: "heap_holds (by_time (tc_nodes s)) (tc_heap s) S" using less.prems by (simp add: parts_def)
  note rt = timer_heap.heap_root [OF h]
  show ?case
  proof (cases "h_root (tc_heap s)")
    case None
    then have "drain_heap s = Some (s\<lparr>tc_heap := tc_heap s\<rparr>)" by (subst drain_heap.simps) simp
    then show ?thesis using less.prems rt None by (intro exI [of _ "tc_heap s"]) auto
  next
    case (Some a)
    obtain h where 1: "on_heap heap_dequeue s = Some (s\<lparr>tc_heap := h\<rparr>)" "parts (s\<lparr>tc_heap := h\<rparr>) xs (S - {a})"
      using parts_dequeue [OF less.prems Some] by blast
    have "card (S - {a}) < card S" using rt Some heap_holds_nelts [OF h] card_Diff1_less [of S a] by simp
    from less.hyps [OF this 1(2)] obtain h' where "drain_heap (s\<lparr>tc_heap := h\<rparr>) = Some (s\<lparr>tc_heap := h'\<rparr>)" "parts (s\<lparr>tc_heap := h'\<rparr>) xs {}"
      by auto
    then show ?thesis using 1(1) Some by (subst drain_heap.simps) auto
  qed
qed

lemma drain_tree_parts:
  "\<lbrakk>parts s xs {}; set xs = dom (tc_nodes s)\<rbrakk> \<Longrightarrow>
   \<exists>m h r. drain_tree s = Some (s\<lparr>tc_nodes := m, tc_heap := h, tc_rb := r\<rparr>) \<and>
     parts (s\<lparr>tc_nodes := m, tc_heap := h, tc_rb := r\<rparr>) [] {} \<and> dom m = {}"
proof (induction "length xs" arbitrary: s xs rule: less_induct)
  case less
  have h: "rb_holds (tc_rb s) xs" using less.prems by (simp add: parts_def)
  show ?case
  proof (cases "r_node (tc_rb s)")
    case None
    then have "xs = []" using h rb_holds_empty rb_first_last_holds [OF h] by (cases xs) (auto simp: rb_first_def)
    moreover have "drain_tree s = Some (s\<lparr>tc_nodes := tc_nodes s, tc_heap := tc_heap s, tc_rb := tc_rb s\<rparr>)"
      using None by (subst drain_tree.simps) simp
    ultimately show ?thesis using less.prems
      by (intro exI [of _ "tc_nodes s"] exI [of _ "tc_heap s"] exI [of _ "tc_rb s"]) auto
  next
    case (Some a)
    obtain t where t: "zip_at (tc_rb s) t []" "inord t = xs" using h unfolding rb_holds_def by blast
    have a: "a \<in> set xs" using zip_root [OF t(1)] Some t(2) ptr_of_in [of t a] by (auto simp: addrs_def)
    have rm: "set (remove1 a xs) = set xs - {a}" "length (remove1 a xs) < length xs"
      using rb_holds_distinct [OF h] a length_pos_if_in_set [OF a] by (auto simp: length_remove1)
    obtain r where 1: "on_tree (rb_erase a) s = Some (s\<lparr>tc_rb := r\<rparr>)" "parts (s\<lparr>tc_rb := r\<rparr>) (remove1 a xs) {}"
      using parts_tree_erase [OF less.prems(1) a] by blast
    obtain h' r' where 2: "free_node a (s\<lparr>tc_rb := r\<rparr>) = Some (s\<lparr>tc_nodes := (tc_nodes s)(a := None), tc_heap := h', tc_rb := r'\<rparr>)"
        "parts (s\<lparr>tc_nodes := (tc_nodes s)(a := None), tc_heap := h', tc_rb := r'\<rparr>) (remove1 a xs) {}"
      using parts_free [OF 1(2), of a] rm(1) a less.prems(2) by auto
    show ?thesis using less.hyps [OF rm(2) 2(2)] less.prems(2) rm(1) 1(1) 2(1) Some by (subst drain_tree.simps) auto
  qed
qed

section \<open>Interleavings\<close>

text \<open>What the calls do to the table.\<close>

definition new_timer :: "reading \<Rightarrow> timerid_t \<Rightarrow> timertype_e \<Rightarrow> 32 word \<Rightarrow> ptr \<Rightarrow> ptr \<Rightarrow> timernode" where
  "new_timer clock tid ty interval cb ud = \<lparr>timer_id = tid, timer_type = ty, timer_interval = interval,
     expire_time = util_time_mono_after clock interval, callback = cb, userdata = ud\<rparr>"

definition restarted :: "reading \<Rightarrow> 32 word \<Rightarrow> timernode \<Rightarrow> timernode" where
  "restarted clock interval t = t\<lparr>timer_interval := interval, expire_time := util_time_mono_after clock interval\<rparr>"

definition fresh :: "ptr \<Rightarrow> 'a cluster_scheme \<Rightarrow> bool" where
  "fresh mem s \<longleftrightarrow> (\<forall>a. mem = Some a \<longrightarrow> a \<notin> dom (tc_nodes s))"

text \<open>A wake-up that leaves the timers alone.\<close>

definition keeps_timers :: "('a cluster_scheme \<Rightarrow> 'a cluster_scheme) \<Rightarrow> bool" where
  "keeps_timers wake \<longleftrightarrow> (\<forall>s. tc_nodes (wake s) = tc_nodes s \<and> tc_heap (wake s) = tc_heap s \<and> tc_rb (wake s) = tc_rb s \<and>
     tc_running (wake s) = tc_running s)"

lemma table_same:
  "\<lbrakk>tc_nodes s' = tc_nodes s; tc_heap s' = tc_heap s; tc_rb s' = tc_rb s\<rbrakk> \<Longrightarrow> timer_table s' T = timer_table s T"
  by (simp add: timer_table_def cluster_ok_def parts_def)

lemma keeps_wake: "keeps_timers cond_signal" "keeps_timers timercluster_v2_wakeup"
  by (simp_all add: keeps_timers_def cond_signal_def timercluster_v2_wakeup_def)

lemma keeps_table: "keeps_timers wake \<Longrightarrow> timer_table (wake s) T = timer_table s T"
  by (rule table_same) (simp_all add: keeps_timers_def)

text \<open>Each call returns, with the result and the effect on the table; a call without effect leaves the state.\<close>

lemma call_exist:
  assumes "timer_table s T"
  shows "timer_exist tid s = Some (tc_running s \<and> T tid \<noteq> None, s)"
  using table_search [OF assms, of tid] by (auto simp: timer_exist_def split: option.splits)

lemma call_add:
  assumes ok: "timer_table s T" and mem: "fresh mem s" and wake: "keeps_timers wake"
  obtains s' where "timer_add wake mem clock tid ty interval cb ud s =
      Some (tc_running s \<and> T tid = None \<and> mem \<noteq> None, if tc_running s \<and> T tid = None \<and> mem \<noteq> None then wake s' else s)"
    "tc_running s' = tc_running s"
    "tc_running s \<and> T tid = None \<and> mem \<noteq> None \<longrightarrow> timer_table s' (T(tid \<mapsto> new_timer clock tid ty interval cb ud))"
proof (cases "tc_running s \<and> T tid = None \<and> mem \<noteq> None")
  case True
  then obtain a where a: "mem = Some a" "a \<notin> dom (tc_nodes s)" using mem by (auto simp: fresh_def)
  show ?thesis
    using table_add [OF ok a(2), of tid "new_timer clock tid ty interval cb ud" ty interval clock cb ud wake] True a(1) that
    by (auto simp: new_timer_def)
next
  case False
  obtain r where r: "rbtree_search (tc_nodes s) (tc_rb s) tid = Some r" "r = None \<longleftrightarrow> T tid = None"
    using table_search [OF ok, of tid] by (auto split: option.splits)
  have "timer_add wake mem clock tid ty interval cb ud s = Some (False, s)"
    using False r by (cases mem) (auto simp: timer_add_def)
  then show ?thesis using that [of s] False by auto
qed

lemma call_del:
  assumes ok: "timer_table s T"
  obtains s' where "timer_del wake tid s =
      Some (tc_running s \<and> T tid \<noteq> None, if tc_running s \<and> T tid \<noteq> None then wake s' else s)"
    "tc_running s' = tc_running s" "tc_running s \<and> T tid \<noteq> None \<longrightarrow> timer_table s' (T(tid := None))"
proof (cases "tc_running s \<and> T tid \<noteq> None")
  case True
  then obtain t where "T tid = Some t" by blast
  then show ?thesis using table_del [OF ok, of tid t wake] True that by auto
next
  case False
  obtain r where "rbtree_search (tc_nodes s) (tc_rb s) tid = Some r" "r = None \<longleftrightarrow> T tid = None"
    using table_search [OF ok, of tid] by (auto split: option.splits)
  then have "timer_del wake tid s = Some (False, s)" using False by (cases r) (auto simp: timer_del_def)
  then show ?thesis using that [of s] False by auto
qed

lemma call_reset:
  assumes ok: "timer_table s T"
  obtains s' where "timer_reset wake clock tid interval s =
      Some (tc_running s \<and> T tid \<noteq> None, if tc_running s \<and> T tid \<noteq> None then wake s' else s)"
    "tc_running s' = tc_running s"
    "tc_running s \<and> T tid \<noteq> None \<longrightarrow> timer_table s' (T(tid := map_option (restarted clock interval) (T tid)))"
proof (cases "tc_running s \<and> T tid \<noteq> None")
  case True
  then obtain t where "T tid = Some t" by blast
  then show ?thesis
    using table_reset [OF ok, of tid t "restarted clock interval t" clock interval wake] True that by (auto simp: restarted_def)
next
  case False
  obtain r where "rbtree_search (tc_nodes s) (tc_rb s) tid = Some r" "r = None \<longleftrightarrow> T tid = None"
    using table_search [OF ok, of tid] by (auto split: option.splits)
  then have "timer_reset wake clock tid interval s = Some (False, s)" using False by (cases r) (auto simp: timer_reset_def)
  then show ?thesis using that [of s] False by auto
qed

text \<open>A pass of the thread.\<close>

lemma call_pass:
  assumes ok: "timer_table s T"
  obtains (stopped) "\<not> tc_running s" "thread_pass clock clock' s = Some (Stopped, s)"
    | (none) "tc_running s" "T = (\<lambda>_. None)" "thread_pass clock clock' s = Some (No_Timer, s)"
    | (wait) t where "tc_running s" "earliest T t" "time_less_than (util_time_mono clock) (expire_time t)"
        "thread_pass clock clock' s = Some (Not_Yet (expire_time t), s)"
    | (fire) t m h r where "tc_running s" "earliest T t" "\<not> time_less_than (util_time_mono clock) (expire_time t)"
        "thread_pass clock clock' s = Some (Fired (inn_of t), s\<lparr>tc_nodes := m, tc_heap := h, tc_rb := r\<rparr>)"
        "timer_table (s\<lparr>tc_nodes := m, tc_heap := h, tc_rb := r\<rparr>) (after_fire clock' t T)"
proof (cases "tc_running s")
  case False
  then show ?thesis using stopped by (simp add: thread_pass_def)
next
  case run: True
  note rt = table_root [OF ok]
  show ?thesis
  proof (cases "h_root (tc_heap s)")
    case None
    then show ?thesis using none run rt by (simp add: thread_pass_def)
  next
    case (Some a)
    then obtain t where t: "tc_nodes s a = Some t" "earliest T t" using rt by auto
    show ?thesis
    proof (cases "time_less_than (util_time_mono clock) (expire_time t)")
      case True
      then show ?thesis using wait [OF run t(2)] run Some t(1) by (simp add: thread_pass_def)
    next
      case False
      then show ?thesis using fire [OF run t(2)] table_fire [OF ok Some t(1) run False] by blast
    qed
  qed
qed

lemma with_cluster_simps [simp]:
  "with_cluster f None = Some (False, None)"
  "with_cluster f (Some s) = Some (b, Some s') \<longleftrightarrow> f s = Some (b, s')"
  by (auto simp: with_cluster_def)

text \<open>
  The states of the cluster under calls from any number of threads, passes of its own thread, returns from
  the wait by the deadline or spuriously, and the stop.
\<close>

inductive tc_step :: "timercluster_t \<Rightarrow> timercluster_t \<Rightarrow> bool" where
  add: "\<lbrakk>fresh mem s; timercluster_timer_add mem clock tid ty interval cb ud (Some s) = Some (b, Some s')\<rbrakk> \<Longrightarrow> tc_step s s'"
| del: "timercluster_timer_del tid (Some s) = Some (b, Some s') \<Longrightarrow> tc_step s s'"
| reset: "timercluster_timer_reset clock tid interval (Some s) = Some (b, Some s') \<Longrightarrow> tc_step s s'"
| pass: "\<lbrakk>tc_thread s = At_Loop; timercluster_thread_func clock clock' s = Some (cb, s')\<rbrakk> \<Longrightarrow> tc_step s s'"
| awake: "tc_thread s = Sleeping d \<Longrightarrow> tc_step s (s\<lparr>tc_thread := At_Loop\<rparr>)"
| stop: "tc_step s (timercluster_stop s)"

inductive tc_reach :: "timercluster_t \<Rightarrow> bool" where
  init: "timercluster_init True = Some s \<Longrightarrow> tc_reach s"
| step: "\<lbrakk>tc_reach s; tc_step s s'\<rbrakk> \<Longrightarrow> tc_reach s'"

definition wait_ok :: "timercluster_t \<Rightarrow> (timerid_t \<Rightarrow> timernode option) \<Rightarrow> bool" where
  "wait_ok s T \<longleftrightarrow>
     (case tc_thread s of
        Sleeping None \<Rightarrow> tc_running s \<and> T = (\<lambda>_. None)
      | Sleeping (Some d) \<Rightarrow> tc_running s \<and> (\<exists>t. earliest T t \<and> d = expire_time t)
      | _ \<Rightarrow> True)"

definition tc_inv :: "timercluster_t \<Rightarrow> bool" where
  "tc_inv s \<longleftrightarrow> (\<exists>T. timer_table s T \<and> wait_ok s T)"

lemma empty_table:
  "\<lbrakk>tc_nodes s = (\<lambda>_. None); h_root (tc_heap s) = None; h_nelts (tc_heap s) = 0; h_mem (tc_heap s) = (\<lambda>_. None);
    r_node (tc_rb s) = None; r_mem (tc_rb s) = (\<lambda>_. None)\<rbrakk> \<Longrightarrow> timer_table s (\<lambda>_. None)"
  by (auto simp: timer_table_def cluster_ok_def parts_def rb_holds_empty intro!: heap_holds_empty exI [of _ "[]"])

lemma wait_signal [simp]: "wait_ok (cond_signal s) T"
  by (simp add: wait_ok_def cond_signal_def split: thread_state.split)

lemma inv_signal: "timer_table s T \<Longrightarrow> tc_inv (cond_signal s)"
  unfolding tc_inv_def using keeps_table [OF keeps_wake(1)] by auto

lemma inv_call: "\<lbrakk>tc_inv s; Q \<longrightarrow> timer_table s' T\<rbrakk> \<Longrightarrow> tc_inv (if Q then cond_signal s' else s)"
  using inv_signal by auto

lemma table_thread: "timer_table (s\<lparr>tc_thread := th\<rparr>) T = timer_table s T"
  by (rule table_same) simp_all

lemma inv_step:
  assumes "tc_step s s'" and inv: "tc_inv s"
  shows "tc_inv s'"
proof -
  obtain T where T: "timer_table s T" "wait_ok s T" using inv unfolding tc_inv_def by blast
  from assms(1) show ?thesis
  proof cases
    case (add mem clock tid ty interval cb ud b)
    obtain u where u: "timer_add cond_signal mem clock tid ty interval cb ud s = Some (tc_running s \<and> T tid = None \<and> mem \<noteq> None,
          if tc_running s \<and> T tid = None \<and> mem \<noteq> None then cond_signal u else s)"
        "tc_running u = tc_running s"
        "tc_running s \<and> T tid = None \<and> mem \<noteq> None \<longrightarrow> timer_table u (T(tid \<mapsto> new_timer clock tid ty interval cb ud))"
      by (rule call_add [OF T(1) add(1) keeps_wake(1), of clock tid ty interval cb ud])
    show ?thesis using inv_call [OF inv u(3)] add(2) u(1) by (auto simp: timercluster_timer_add_def simp del: not_None_eq)
  next
    case (del tid b)
    obtain u where u: "timer_del cond_signal tid s = Some (tc_running s \<and> T tid \<noteq> None,
          if tc_running s \<and> T tid \<noteq> None then cond_signal u else s)"
        "tc_running u = tc_running s"
        "tc_running s \<and> T tid \<noteq> None \<longrightarrow> timer_table u (T(tid := None))"
      by (rule call_del [OF T(1), of cond_signal tid])
    show ?thesis using inv_call [OF inv u(3)] del u(1) by (auto simp: timercluster_timer_del_def simp del: not_None_eq)
  next
    case (reset clock tid interval b)
    obtain u where u: "timer_reset cond_signal clock tid interval s = Some (tc_running s \<and> T tid \<noteq> None,
          if tc_running s \<and> T tid \<noteq> None then cond_signal u else s)"
        "tc_running u = tc_running s"
        "tc_running s \<and> T tid \<noteq> None \<longrightarrow> timer_table u (T(tid := map_option (restarted clock interval) (T tid)))"
      by (rule call_reset [OF T(1), of cond_signal clock tid interval])
    show ?thesis using inv_call [OF inv u(3)] reset u(1) by (auto simp: timercluster_timer_reset_def simp del: not_None_eq)
  next
    case (pass clock clock' cb)
    show ?thesis
      using T(1) pass by (cases rule: call_pass [OF T(1), of clock clock'],
        auto simp: timercluster_thread_func_def tc_inv_def wait_ok_def table_thread split: thread_state.splits) blast
  next
    case (awake d)
    then show ?thesis using T(1) by (auto simp: tc_inv_def wait_ok_def table_thread)
  next
    case stop
    then show ?thesis using T(1) inv_signal [of "s\<lparr>tc_running := False\<rparr>" T] table_same [of "s\<lparr>tc_running := False\<rparr>" s T]
      by (simp add: timercluster_stop_def)
  qed
qed

lemma reach_inv: "tc_reach s \<Longrightarrow> tc_inv s"
proof (induction rule: tc_reach.induct)
  case (init s)
  then have "timer_table s (\<lambda>_. None)" "tc_thread s = At_Loop"
    by (auto simp: timercluster_init_def heap_init_def RB_ROOT_def intro!: empty_table)
  then show ?case by (auto simp: tc_inv_def wait_ok_def)
next
  case (step s s')
  then show ?case using inv_step by blast
qed

lemma drained:
  assumes "timer_table s T"
  obtains s' where "drain_heap s \<bind> drain_tree = Some s'" "dom (tc_nodes s') = {}" "dom (h_mem (tc_heap s')) = {}"
    "dom (r_mem (tc_rb s')) = {}"
proof -
  obtain xs where p: "parts s xs (set xs)" "set xs = dom (tc_nodes s)"
    using assms unfolding timer_table_def cluster_ok_def by blast
  obtain h where 1: "drain_heap s = Some (s\<lparr>tc_heap := h\<rparr>)" "parts (s\<lparr>tc_heap := h\<rparr>) xs {}"
    using drain_heap_parts [OF p(1)] by blast
  obtain m h' r where 2: "drain_tree (s\<lparr>tc_heap := h\<rparr>) = Some (s\<lparr>tc_heap := h, tc_nodes := m, tc_heap := h', tc_rb := r\<rparr>)"
      "parts (s\<lparr>tc_heap := h, tc_nodes := m, tc_heap := h', tc_rb := r\<rparr>) [] {}" "dom m = {}"
    using drain_tree_parts [OF 1(2)] p(2) by auto
  show thesis using that [OF _ _ _] 1(1) 2 by (simp add: parts_def)
qed

lemma func_pass:
  assumes "timer_table s T"
  shows "\<exists>cb s'. timercluster_thread_func clock clock' s = Some (cb, s') \<and>
    (\<forall>inn. cb = Some inn \<longrightarrow> (\<exists>t. earliest T t \<and> inn = inn_of t \<and> \<not> time_less_than (util_time_mono clock) (expire_time t) \<and>
       timer_table s' (after_fire clock' t T)))"
  by (cases rule: call_pass [OF assms, of clock clock']) (auto simp: timercluster_thread_func_def)

lemma destroy_frees:
  assumes "timer_table s T"
  shows "\<exists>s'. timercluster_destroy (Some s) = Some (Some s') \<and> dom (tc_nodes s') = {} \<and> dom (h_mem (tc_heap s')) = {} \<and> dom (r_mem (tc_rb s')) = {}"
proof -
  let ?s = "(timercluster_stop s)\<lparr>tc_thread := Ended\<rparr>"
  have T: "timer_table (timercluster_stop s) T" "timer_table ?s T"
    using assms table_same [of "timercluster_stop s" s T] table_same [of ?s s T] by (simp_all add: timercluster_stop_def cond_signal_def)
  have last: "timercluster_thread_func None None (timercluster_stop s) = Some (None, ?s)"
    by (simp add: timercluster_thread_func_def thread_pass_def timercluster_stop_def cond_signal_def)
  have "timercluster_destroy (Some s) = map_option Some (drain_heap ?s \<bind> drain_tree)"
  proof (cases "tc_thread (timercluster_stop s) = Ended")
    case True
    then have eq: "?s = timercluster_stop s" by simp
    show ?thesis unfolding eq using True by (simp add: timercluster_destroy_def Let_def map_conv_bind_option comp_def)
  next
    case False
    then show ?thesis using last by (simp add: timercluster_destroy_def Let_def map_conv_bind_option comp_def)
  qed
  then show ?thesis using drained [OF T(2)] by (metis option.map(2))
qed

section \<open>Well-formed times\<close>

definition wf_time :: "timespec \<Rightarrow> bool" where
  "wf_time t \<longleftrightarrow> 0 \<le> tv_sec t \<and> 0 \<le> tv_nsec t \<and> tv_nsec t < 1000000000"

text \<open>What \<open>clock_gettime\<close> promises of a reading.\<close>

definition wf_reading :: "reading \<Rightarrow> bool" where
  "wf_reading clock \<longleftrightarrow> (\<forall>t. clock = Some t \<longrightarrow> wf_time t)"

lemma wf_mono: "wf_reading clock \<Longrightarrow> wf_time (util_time_mono clock)"
  by (auto simp: wf_reading_def util_time_mono_def wf_time_def split: option.split)

lemma ms_parts:
  fixes ms :: "32 word"
  shows "uint (ms mod 1000 * 1000000) = uint ms mod 1000 * 1000000" "uint (ms div 1000) = uint ms div 1000"
proof -
  have "uint ms mod 1000 * 1000000 < 2 ^ 32" using pos_mod_bound [of 1000 "uint ms"] by simp
  moreover have "0 \<le> uint ms mod 1000 * 1000000" by simp
  ultimately show "uint (ms mod 1000 * 1000000) = uint ms mod 1000 * 1000000"
    by (simp add: uint_word_ariths uint_mod)
  show "uint (ms div 1000) = uint ms div 1000" by (simp add: uint_div)
qed

lemma mono_after:
  assumes "wf_reading clock"
  shows "wf_time (util_time_mono_after clock ms)" "ns (util_time_mono_after clock ms) = ns (util_time_mono clock) + uint ms * 1000000"
proof -
  have m: "0 \<le> uint ms mod 1000" "uint ms mod 1000 < 1000" "0 \<le> uint ms div 1000" by (simp_all add: pos_imp_zdiv_nonneg_iff)
  have d: "uint ms = 1000 * (uint ms div 1000) + uint ms mod 1000" by simp
  show "wf_time (util_time_mono_after clock ms)"
    using wf_mono [OF assms] m by (auto simp: util_time_mono_after_def wf_time_def Let_def ms_parts)
  have "ns (util_time_mono_after clock ms) = ns (util_time_mono clock) + (uint ms div 1000 * 1000000000 + uint ms mod 1000 * 1000000)"
    by (auto simp: util_time_mono_after_def Let_def ms_parts ns_def algebra_simps)
  also have "uint ms div 1000 * 1000000000 + uint ms mod 1000 * 1000000 = uint ms * 1000000" using d by linarith
  finally show "ns (util_time_mono_after clock ms) = ns (util_time_mono clock) + uint ms * 1000000" .
qed

lemma less_ns: "\<lbrakk>wf_time a; wf_time b\<rbrakk> \<Longrightarrow> time_less_than a b \<longleftrightarrow> ns a < ns b"
  by (auto simp: time_less_than_def wf_time_def ns_def)

lemma next_timeout_ns:
  assumes "wf_reading clock" and "wf_time (expire_time t)"
  shows "wf_time (next_timeout clock (Some t))"
    "ns (util_time_mono clock) + ns (next_timeout clock (Some t)) = max (ns (expire_time t)) (ns (util_time_mono clock) + 1)"
proof -
  have w: "wf_time (util_time_mono clock)" using assms(1) by (rule wf_mono)
  show "wf_time (next_timeout clock (Some t))"
    using w assms(2) by (auto simp: next_timeout_def wf_time_def time_less_than_def Let_def)
  show "ns (util_time_mono clock) + ns (next_timeout clock (Some t)) = max (ns (expire_time t)) (ns (util_time_mono clock) + 1)"
    using less_ns [OF w assms(2)] by (auto simp: next_timeout_def Let_def ns_def algebra_simps)
qed

section \<open>Interleavings of the cluster with descriptors\<close>

inductive v2_step :: "timercluster_v2_t \<Rightarrow> timercluster_v2_t \<Rightarrow> bool" where
  add: "\<lbrakk>fresh mem s; wf_reading clock; timercluster_v2_timer_add mem clock tid ty interval cb ud (Some s) = Some (b, Some s')\<rbrakk> \<Longrightarrow> v2_step s s'"
| del: "timercluster_v2_timer_del tid (Some s) = Some (b, Some s') \<Longrightarrow> v2_step s s'"
| reset: "\<lbrakk>wf_reading clock; timercluster_v2_timer_reset clock tid interval (Some s) = Some (b, Some s')\<rbrakk> \<Longrightarrow> v2_step s s'"
| poll: "\<lbrakk>tc_v2_thread s = Polling; timer_ready \<Longrightarrow> tc_armed s \<noteq> None; event_ready \<Longrightarrow> tc_raised s; timer_ready \<or> event_ready\<rbrakk>
    \<Longrightarrow> v2_step s (v2_poll timer_ready event_ready s)"
| check: "tc_v2_thread s = Woken \<Longrightarrow> v2_step s (v2_check s)"
| serve: "\<lbrakk>tc_v2_thread s = Serving; wf_reading clock'; v2_serve clock clock' s = Some (cb, s')\<rbrakk> \<Longrightarrow> v2_step s s'"
| arm: "\<lbrakk>tc_v2_thread s = Arming; wf_reading clock; v2_arm clock s = Some s'\<rbrakk> \<Longrightarrow> v2_step s s'"
| stop: "v2_step s (s\<lparr>tc_running := False\<rparr>)"
| raise: "\<not> tc_running s \<Longrightarrow> v2_step s (timercluster_v2_wakeup s)"

inductive v2_reach :: "timercluster_v2_t \<Rightarrow> bool" where
  init: "timercluster_v2_init True timerfd eventfd epoll ctl_timer ctl_event = (Some s, closed) \<Longrightarrow> v2_reach s"
| step: "\<lbrakk>v2_reach s; v2_step s s'\<rbrakk> \<Longrightarrow> v2_reach s'"

text \<open>The descriptor is set for the earliest timer, or for the next nanosecond when that one has expired.\<close>

definition armed_ok :: "(int \<times> int) option \<Rightarrow> (timerid_t \<Rightarrow> timernode option) \<Rightarrow> bool" where
  "armed_ok armed T \<longleftrightarrow>
     (case armed of
        None \<Rightarrow> T = (\<lambda>_. None)
      | Some (set_at, due) \<Rightarrow> \<exists>t. earliest T t \<and> due = max (ns (expire_time t)) (set_at + 1))"

definition wf_table :: "(timerid_t \<Rightarrow> timernode option) \<Rightarrow> bool" where
  "wf_table T \<longleftrightarrow> (\<forall>tid t. T tid = Some t \<longrightarrow> wf_time (expire_time t))"

definition v2_inv :: "timercluster_v2_t \<Rightarrow> bool" where
  "v2_inv s \<longleftrightarrow> (\<exists>T. timer_table s T \<and> wf_table T \<and>
     (tc_v2_thread s = Polling \<and> tc_running s \<and> \<not> tc_raised s \<longrightarrow> armed_ok (tc_armed s) T))"

lemma inv_wakeup: "\<lbrakk>timer_table s T; wf_table T\<rbrakk> \<Longrightarrow> v2_inv (timercluster_v2_wakeup s)"
  unfolding v2_inv_def using keeps_table [OF keeps_wake(2)] by (auto simp: timercluster_v2_wakeup_def)

lemma v2_inv_call:
  "\<lbrakk>v2_inv s; Q \<longrightarrow> timer_table s' T; wf_table T\<rbrakk> \<Longrightarrow> v2_inv (if Q then timercluster_v2_wakeup s' else s)"
  using inv_wakeup by auto

lemma wf_table_upd: "\<lbrakk>wf_table T; \<And>t. v = Some t \<Longrightarrow> wf_time (expire_time t)\<rbrakk> \<Longrightarrow> wf_table (T(tid := v))"
  by (auto simp: wf_table_def)

lemma v2_arm_inv:
  assumes T: "timer_table s T" "wf_table T" and clock: "wf_reading clock"
  obtains s' where "v2_arm clock s = Some s'" "v2_inv s'"
proof (cases "tc_running s")
  case False
  have "timer_table (s\<lparr>tc_v2_thread := Polling\<rparr>) T" using T(1) table_same [of "s\<lparr>tc_v2_thread := Polling\<rparr>" s T] by simp
  then show ?thesis using that [of "s\<lparr>tc_v2_thread := Polling\<rparr>"] False T(2) by (auto simp: v2_arm_def v2_inv_def)
next
  case True
  let ?f = "\<lambda>a. s\<lparr>tc_armed := a, tc_v2_thread := Polling\<rparr>"
  have tab: "timer_table (?f a) T" for a using T(1) table_same [of "?f a" s T] by simp
  note rt = table_root [OF T(1)]
  show ?thesis
  proof (cases "h_root (tc_heap s)")
    case None
    then have "v2_arm clock s = Some (?f None)" using True
      by (simp add: v2_arm_def timerfd_set_next_timeout_def next_timeout_def)
    moreover have "v2_inv (?f None)" using tab T(2) rt None unfolding v2_inv_def armed_ok_def by auto
    ultimately show ?thesis using that by blast
  next
    case (Some a)
    then obtain t where t: "tc_nodes s a = Some t" "earliest T t" using rt by auto
    have "wf_time (expire_time t)" using T(2) t(2) by (auto simp: wf_table_def earliest_def)
    note nt = next_timeout_ns [OF clock this]
    let ?now = "ns (util_time_mono clock)"
    have "\<not> (tv_sec (next_timeout clock (Some t)) = 0 \<and> tv_nsec (next_timeout clock (Some t)) = 0)"
      using nt(2) by (auto simp: ns_def)
    then have "v2_arm clock s = Some (?f (Some (?now, ?now + ns (next_timeout clock (Some t)))))" using True Some t(1)
      by (simp add: v2_arm_def timerfd_set_next_timeout_def Let_def)
    moreover have "v2_inv (?f (Some (?now, ?now + ns (next_timeout clock (Some t)))))"
      unfolding v2_inv_def using tab T(2) nt(2) t(2) by (auto simp: armed_ok_def)
    ultimately show ?thesis using that by blast
  qed
qed

lemma v2_inv_step:
  assumes "v2_step s s'" and inv: "v2_inv s"
  shows "v2_inv s'"
proof -
  obtain T where T: "timer_table s T" "wf_table T"
      "tc_v2_thread s = Polling \<and> tc_running s \<and> \<not> tc_raised s \<longrightarrow> armed_ok (tc_armed s) T"
    using inv unfolding v2_inv_def by blast
  have thread: "timer_table u T" if "tc_nodes u = tc_nodes s" "tc_heap u = tc_heap s" "tc_rb u = tc_rb s" for u :: timercluster_v2_t
    using table_same that T(1) by blast
  from assms(1) show ?thesis
  proof cases
    case (add mem clock tid ty interval cb ud b)
    obtain u where u: "timer_add timercluster_v2_wakeup mem clock tid ty interval cb ud s = Some (tc_running s \<and> T tid = None \<and> mem \<noteq> None,
          if tc_running s \<and> T tid = None \<and> mem \<noteq> None then timercluster_v2_wakeup u else s)"
        "tc_running u = tc_running s"
        "tc_running s \<and> T tid = None \<and> mem \<noteq> None \<longrightarrow> timer_table u (T(tid \<mapsto> new_timer clock tid ty interval cb ud))"
      by (rule call_add [OF T(1) add(1) keeps_wake(2), of clock tid ty interval cb ud])
    have "wf_table (T(tid \<mapsto> new_timer clock tid ty interval cb ud))"
      using T(2) mono_after(1) [OF add(2)] by (auto intro!: wf_table_upd simp: new_timer_def)
    then show ?thesis using v2_inv_call [OF inv u(3)] add(3) u(1) by (auto simp: timercluster_v2_timer_add_def simp del: not_None_eq)
  next
    case (del tid b)
    obtain u where u: "timer_del timercluster_v2_wakeup tid s = Some (tc_running s \<and> T tid \<noteq> None,
          if tc_running s \<and> T tid \<noteq> None then timercluster_v2_wakeup u else s)"
        "tc_running u = tc_running s" "tc_running s \<and> T tid \<noteq> None \<longrightarrow> timer_table u (T(tid := None))"
      by (rule call_del [OF T(1), of timercluster_v2_wakeup tid])
    have "wf_table (T(tid := None))" using T(2) by (rule wf_table_upd) simp
    then show ?thesis using v2_inv_call [OF inv u(3)] del u(1) by (auto simp: timercluster_v2_timer_del_def simp del: not_None_eq)
  next
    case (reset clock tid interval b)
    obtain u where u: "timer_reset timercluster_v2_wakeup clock tid interval s = Some (tc_running s \<and> T tid \<noteq> None,
          if tc_running s \<and> T tid \<noteq> None then timercluster_v2_wakeup u else s)"
        "tc_running u = tc_running s"
        "tc_running s \<and> T tid \<noteq> None \<longrightarrow> timer_table u (T(tid := map_option (restarted clock interval) (T tid)))"
      by (rule call_reset [OF T(1), of timercluster_v2_wakeup clock tid interval])
    have "wf_table (T(tid := map_option (restarted clock interval) (T tid)))"
      using T(2) mono_after(1) [OF reset(1)] by (auto intro!: wf_table_upd simp: restarted_def)
    then show ?thesis using v2_inv_call [OF inv u(3)] reset(2) u(1) by (auto simp: timercluster_v2_timer_reset_def simp del: not_None_eq)
  next
    case (poll timer_ready event_ready)
    have "timer_table s' T" by (rule thread) (simp_all add: poll(1) v2_poll_def)
    then show ?thesis using T(2) poll(1) by (auto simp: v2_inv_def v2_poll_def)
  next
    case check
    have "timer_table s' T" by (rule thread) (simp_all add: check(1) v2_check_def)
    then show ?thesis using T(2) check(1) by (auto simp: v2_inv_def v2_check_def)
  next
    case (serve clock' clock cb)
    have "wf_table (after_fire clock' t T)" for t
      unfolding after_fire_def using T(2) mono_after(1) [OF serve(2)] by (auto intro!: wf_table_upd)
    moreover have "timer_table (s\<lparr>tc_v2_thread := Arming\<rparr>) T" by (rule thread) simp_all
    ultimately show ?thesis using serve T(2)
      by (cases rule: call_pass [OF T(1), of clock clock']) (auto simp: v2_serve_def v2_inv_def)
  next
    case (arm clock)
    then show ?thesis using v2_arm_inv [OF T(1,2) arm(2)] by auto
  next
    case stop
    have "timer_table s' T" by (rule thread) (simp_all add: stop)
    then show ?thesis using T(2) stop by (auto simp: v2_inv_def)
  next
    case raise
    then show ?thesis using inv_wakeup [OF T(1,2)] by simp
  qed
qed

lemma v2_reach_inv: "v2_reach s \<Longrightarrow> v2_inv s"
proof (induction rule: v2_reach.induct)
  case (init timerfd eventfd epoll ctl_timer ctl_event s closed)
  then have "timer_table s (\<lambda>_. None)" "tc_armed s = None"
    by (auto simp: timercluster_v2_init_def heap_init_def RB_ROOT_def Let_def split: if_splits intro!: empty_table)
  then show ?case by (auto simp: v2_inv_def wf_table_def armed_ok_def)
next
  case (step s s')
  then show ?case using v2_inv_step by blast
qed

lemma serve_pass:
  assumes "timer_table s T"
  shows "\<exists>cb s'. v2_serve clock clock' s = Some (cb, s') \<and>
    (\<forall>inn. cb = Some inn \<longrightarrow> (\<exists>t. earliest T t \<and> inn = inn_of t \<and> \<not> time_less_than (util_time_mono clock) (expire_time t) \<and>
       timer_table s' (after_fire clock' t T)))"
  by (cases rule: call_pass [OF assms, of clock clock']) (auto simp: v2_serve_def)

lemma v2_join_returns:
  assumes T: "timer_table s T" and stop: "\<not> tc_running s"
  shows "\<exists>s'. v2_join s = Some s' \<and> tc_v2_thread s' = Returned \<and> timer_table s' T"
proof -
  have "\<exists>s'. v2_join s = Some s' \<and> tc_v2_thread s' = Returned \<and> tc_nodes s' = tc_nodes s \<and> tc_heap s' = tc_heap s \<and> tc_rb s' = tc_rb s"
    using stop by (cases "tc_v2_thread s")
      (auto simp: v2_join_def v2_serve_def v2_arm_def v2_check_def v2_poll_def thread_pass_def)
  then show ?thesis using T table_same by blast
qed

lemma v2_destroy_frees:
  assumes T: "timer_table s T"
  shows "\<exists>s'. timercluster_v2_destroy (Some s) = Some (Some s') \<and> dom (tc_nodes s') = {} \<and> dom (h_mem (tc_heap s')) = {} \<and> dom (r_mem (tc_rb s')) = {}"
proof -
  let ?s = "timercluster_v2_wakeup (s\<lparr>tc_running := False\<rparr>)"
  have "timer_table ?s T" using T table_same [of ?s s T] by (simp add: timercluster_v2_wakeup_def)
  from v2_join_returns [OF this] obtain u where u: "v2_join ?s = Some u" "timer_table u T"
    by (auto simp: timercluster_v2_wakeup_def)
  obtain s' where "drain_heap u \<bind> drain_tree = Some s'" "dom (tc_nodes s') = {}" "dom (h_mem (tc_heap s')) = {}" "dom (r_mem (tc_rb s')) = {}"
    by (rule drained [OF u(2)])
  then show ?thesis using u(1) by (auto simp: timercluster_v2_destroy_def Let_def bind_eq_Some_conv)
qed

section \<open>Properties\<close>

text \<open>The empty clusters, for the concrete instances.\<close>

definition empty_tc :: timercluster_t where
  "empty_tc = \<lparr>tc_nodes = (\<lambda>_. None), tc_heap = \<lparr>h_mem = (\<lambda>_. None), h_root = None, h_nelts = 0\<rparr>,
     tc_rb = \<lparr>r_mem = (\<lambda>_. None), r_node = None\<rparr>, tc_running = True, tc_thread = At_Loop\<rparr>"

definition empty_v2 :: timercluster_v2_t where
  "empty_v2 = \<lparr>tc_nodes = (\<lambda>_. None), tc_heap = \<lparr>h_mem = (\<lambda>_. None), h_root = None, h_nelts = 0\<rparr>,
     tc_rb = \<lparr>r_mem = (\<lambda>_. None), r_node = None\<rparr>, tc_running = True, tc_armed = None, tc_raised = False, tc_v2_thread = Polling\<rparr>"

lemma empty_tables: "timer_table empty_tc (\<lambda>_. None)" "timer_table empty_v2 (\<lambda>_. None)"
  by (rule empty_table; simp add: empty_tc_def empty_v2_def)+

lemma empty_reach: "tc_reach empty_tc" "v2_reach empty_v2"
proof -
  show "tc_reach empty_tc" by (rule tc_reach.init) (simp add: timercluster_init_def heap_init_def RB_ROOT_def empty_tc_def)
  have "timercluster_v2_init True 3 (Some 4) 5 0 0 = (Some empty_v2, [])"
    by (simp add: timercluster_v2_init_def heap_init_def RB_ROOT_def empty_v2_def)
  then show "v2_reach empty_v2" by (rule v2_reach.init)
qed

text \<open>The calls of both clusters, once for each way to wake the thread.\<close>

lemma calls_table:
  assumes T: "timer_table s T" and mem: "fresh mem s" and wake: "keeps_timers wake"
  shows "with_cluster (timer_exist tid) (Some s) = Some (tc_running s \<and> T tid \<noteq> None, Some s)"
    "\<exists>s'. with_cluster (timer_add wake mem clock tid ty interval cb ud) (Some s) = Some (tc_running s \<and> T tid = None \<and> mem \<noteq> None, Some s') \<and>
      timer_table s' (if tc_running s \<and> T tid = None \<and> mem \<noteq> None then T(tid \<mapsto> new_timer clock tid ty interval cb ud) else T)"
    "\<exists>s'. with_cluster (timer_del wake tid) (Some s) = Some (tc_running s \<and> T tid \<noteq> None, Some s') \<and>
      timer_table s' (if tc_running s then T(tid := None) else T)"
    "\<exists>s'. with_cluster (timer_reset wake clock tid interval) (Some s) = Some (tc_running s \<and> T tid \<noteq> None, Some s') \<and>
      timer_table s' (if tc_running s then T(tid := map_option (restarted clock interval) (T tid)) else T)"
proof -
  show "with_cluster (timer_exist tid) (Some s) = Some (tc_running s \<and> T tid \<noteq> None, Some s)"
    using call_exist [OF T, of tid] by simp
  have same: "T(tid := None) = T" if "T tid = None" using that by auto
  obtain u where u: "timer_add wake mem clock tid ty interval cb ud s = Some (tc_running s \<and> T tid = None \<and> mem \<noteq> None,
        if tc_running s \<and> T tid = None \<and> mem \<noteq> None then wake u else s)"
      "tc_running u = tc_running s"
      "tc_running s \<and> T tid = None \<and> mem \<noteq> None \<longrightarrow> timer_table u (T(tid \<mapsto> new_timer clock tid ty interval cb ud))"
    by (rule call_add [OF T mem wake, of clock tid ty interval cb ud])
  then show "\<exists>s'. with_cluster (timer_add wake mem clock tid ty interval cb ud) (Some s) = Some (tc_running s \<and> T tid = None \<and> mem \<noteq> None, Some s') \<and>
      timer_table s' (if tc_running s \<and> T tid = None \<and> mem \<noteq> None then T(tid \<mapsto> new_timer clock tid ty interval cb ud) else T)"
    using T keeps_table [OF wake] by (auto simp del: not_None_eq)
  obtain u where u: "timer_del wake tid s = Some (tc_running s \<and> T tid \<noteq> None, if tc_running s \<and> T tid \<noteq> None then wake u else s)"
      "tc_running u = tc_running s" "tc_running s \<and> T tid \<noteq> None \<longrightarrow> timer_table u (T(tid := None))"
    by (rule call_del [OF T, of wake tid])
  then show "\<exists>s'. with_cluster (timer_del wake tid) (Some s) = Some (tc_running s \<and> T tid \<noteq> None, Some s') \<and>
      timer_table s' (if tc_running s then T(tid := None) else T)"
    using T same keeps_table [OF wake] by (auto simp del: not_None_eq)
  obtain u where u: "timer_reset wake clock tid interval s = Some (tc_running s \<and> T tid \<noteq> None, if tc_running s \<and> T tid \<noteq> None then wake u else s)"
      "tc_running u = tc_running s" "tc_running s \<and> T tid \<noteq> None \<longrightarrow> timer_table u (T(tid := map_option (restarted clock interval) (T tid)))"
    by (rule call_reset [OF T, of wake clock tid interval])
  then show "\<exists>s'. with_cluster (timer_reset wake clock tid interval) (Some s) = Some (tc_running s \<and> T tid \<noteq> None, Some s') \<and>
      timer_table s' (if tc_running s then T(tid := map_option (restarted clock interval) (T tid)) else T)"
    using T same keeps_table [OF wake] by (auto simp del: not_None_eq)
qed

text \<open>
  C3. The calls of both timer clusters are the operations of a table of timers by identifier: lookup,
  insertion of a timer that is not there with the time it expires at, deletion, and the restart with a new
  interval.  They return false without effect when the cluster is null or stopped, the timer is missing or
  there already, or memory is exhausted.  Every call returns; no freed or null node is accessed, and no node
  is lost.
\<close>

theorem timer_calls_are_table_operations:
  assumes "timer_table s T" "fresh mem s" and "timer_table s2 T" "fresh mem s2"
  shows "timercluster_timer_exist tid (Some s) = Some (tc_running s \<and> T tid \<noteq> None, Some s) \<and>
    (\<exists>s'. timercluster_timer_add mem clock tid ty interval cb ud (Some s) = Some (tc_running s \<and> T tid = None \<and> mem \<noteq> None, Some s') \<and>
      timer_table s' (if tc_running s \<and> T tid = None \<and> mem \<noteq> None then T(tid \<mapsto> new_timer clock tid ty interval cb ud) else T)) \<and>
    (\<exists>s'. timercluster_timer_del tid (Some s) = Some (tc_running s \<and> T tid \<noteq> None, Some s') \<and>
      timer_table s' (if tc_running s then T(tid := None) else T)) \<and>
    (\<exists>s'. timercluster_timer_reset clock tid interval (Some s) = Some (tc_running s \<and> T tid \<noteq> None, Some s') \<and>
      timer_table s' (if tc_running s then T(tid := map_option (restarted clock interval) (T tid)) else T)) \<and>
    timercluster_v2_timer_exist tid (Some s2) = Some (tc_running s2 \<and> T tid \<noteq> None, Some s2) \<and>
    (\<exists>s'. timercluster_v2_timer_add mem clock tid ty interval cb ud (Some s2) = Some (tc_running s2 \<and> T tid = None \<and> mem \<noteq> None, Some s') \<and>
      timer_table s' (if tc_running s2 \<and> T tid = None \<and> mem \<noteq> None then T(tid \<mapsto> new_timer clock tid ty interval cb ud) else T)) \<and>
    (\<exists>s'. timercluster_v2_timer_del tid (Some s2) = Some (tc_running s2 \<and> T tid \<noteq> None, Some s') \<and>
      timer_table s' (if tc_running s2 then T(tid := None) else T)) \<and>
    (\<exists>s'. timercluster_v2_timer_reset clock tid interval (Some s2) = Some (tc_running s2 \<and> T tid \<noteq> None, Some s') \<and>
      timer_table s' (if tc_running s2 then T(tid := map_option (restarted clock interval) (T tid)) else T)) \<and>
    timercluster_timer_add mem clock tid ty interval cb ud None = Some (False, None) \<and>
    timercluster_v2_timer_add mem clock tid ty interval cb ud None = Some (False, None)"
  unfolding timercluster_timer_exist_def timercluster_timer_add_def timercluster_timer_del_def timercluster_timer_reset_def
    timercluster_v2_timer_exist_def timercluster_v2_timer_add_def timercluster_v2_timer_del_def timercluster_v2_timer_reset_def
  by (intro conjI calls_table [OF assms(1,2) keeps_wake(1)] calls_table [OF assms(3,4) keeps_wake(2)] with_cluster_simps)

theorem timer_calls_are_table_operations_witness:
  "\<exists>s'. fresh (Some 1) empty_tc \<and> timercluster_timer_add (Some 1) None 7 TIMER_TYPE_CYCLE 20 None None (Some empty_tc) = Some (True, Some s') \<and>
     timer_table s' [7 \<mapsto> new_timer None 7 TIMER_TYPE_CYCLE 20 None None]"
proof -
  have f: "fresh (Some 1) empty_tc" "fresh (Some 1) empty_v2" by (simp_all add: fresh_def empty_tc_def empty_v2_def)
  have "tc_running empty_tc" by (simp add: empty_tc_def)
  then show ?thesis
    using timer_calls_are_table_operations [OF empty_tables(1) f(1) empty_tables(2) f(2), of 7 None TIMER_TYPE_CYCLE 20 None None] f(1)
    by auto
qed

text \<open>
  C5. In every interleaving of calls, passes of the thread, wake-ups and the stop, the cluster with the
  condition variable never sleeps too long: its thread waits without a deadline only while there is no
  timer, and otherwise until the earliest one expires.  A callback it makes is that of an earliest timer,
  which has expired; a cyclic timer is then set anew, another one is gone.  The destruction stops the thread
  and frees every node.
\<close>

theorem timercluster_interleavings:
  assumes "tc_reach s"
  shows "\<exists>T. timer_table s T \<and>
    (case tc_thread s of
       Sleeping None \<Rightarrow> tc_running s \<and> T = (\<lambda>_. None)
     | Sleeping (Some d) \<Rightarrow> tc_running s \<and> (\<exists>t. earliest T t \<and> d = expire_time t)
     | _ \<Rightarrow> True) \<and>
    (\<exists>cb s'. timercluster_thread_func clock clock' s = Some (cb, s') \<and>
      (\<forall>inn. cb = Some inn \<longrightarrow> (\<exists>t. earliest T t \<and> inn = inn_of t \<and> \<not> time_less_than (util_time_mono clock) (expire_time t) \<and>
         timer_table s' (after_fire clock' t T)))) \<and>
    (\<exists>s'. timercluster_destroy (Some s) = Some (Some s') \<and> dom (tc_nodes s') = {} \<and> dom (h_mem (tc_heap s')) = {} \<and> dom (r_mem (tc_rb s')) = {})"
proof -
  obtain T where T: "timer_table s T" "wait_ok s T" using reach_inv [OF assms] unfolding tc_inv_def by blast
  show ?thesis
    by (rule exI [of _ T]) (intro conjI T(1) T(2) [unfolded wait_ok_def] func_pass [OF T(1)] destroy_frees [OF T(1)])
qed

theorem timercluster_interleavings_witness:
  "tc_reach empty_tc \<and> (\<exists>cb s'. timercluster_thread_func None None empty_tc = Some (cb, s'))"
  using timercluster_interleavings [OF empty_reach(1), of None None] empty_reach(1) by blast

text \<open>
  C14. In every interleaving the cluster with descriptors never sleeps too long either: while its thread
  waits in \<open>epoll_wait\<close> and no wake-up is pending, the timer descriptor is off if there is no timer, and
  otherwise set for the expiry of the earliest timer, or for the next nanosecond if that one had expired
  already.  The callbacks and the destruction are as for the other cluster.
\<close>

theorem timercluster_v2_interleavings:
  assumes "v2_reach s"
  shows "\<exists>T. timer_table s T \<and>
    (tc_v2_thread s = Polling \<and> tc_running s \<and> \<not> tc_raised s \<longrightarrow>
      (case tc_armed s of
         None \<Rightarrow> T = (\<lambda>_. None)
       | Some (set_at, due) \<Rightarrow> \<exists>t. earliest T t \<and> due = max (ns (expire_time t)) (set_at + 1))) \<and>
    (\<exists>cb s'. v2_serve clock clock' s = Some (cb, s') \<and>
      (\<forall>inn. cb = Some inn \<longrightarrow> (\<exists>t. earliest T t \<and> inn = inn_of t \<and> \<not> time_less_than (util_time_mono clock) (expire_time t) \<and>
         timer_table s' (after_fire clock' t T)))) \<and>
    (\<exists>s'. timercluster_v2_destroy (Some s) = Some (Some s') \<and> dom (tc_nodes s') = {} \<and> dom (h_mem (tc_heap s')) = {} \<and> dom (r_mem (tc_rb s')) = {})"
proof -
  obtain T where T: "timer_table s T" "tc_v2_thread s = Polling \<and> tc_running s \<and> \<not> tc_raised s \<longrightarrow> armed_ok (tc_armed s) T"
    using v2_reach_inv [OF assms] unfolding v2_inv_def by blast
  show ?thesis
    by (rule exI [of _ T]) (intro conjI T(1) T(2) [unfolded armed_ok_def] serve_pass [OF T(1)] v2_destroy_frees [OF T(1)])
qed

theorem timercluster_v2_interleavings_witness:
  "v2_reach empty_v2 \<and> (\<exists>cb s'. v2_serve None None empty_v2 = Some (cb, s'))"
  using timercluster_v2_interleavings [OF empty_reach(2), of None None] empty_reach(2) by blast

text \<open>
  C29. From a well-formed reading of the clock, \<open>util_time_mono_after\<close> computes a well-formed time, exactly
  the given number of milliseconds later, for every 32-bit interval.  The timeout of
  \<open>timerfd_set_next_timeout\<close> is well-formed too, zero only without a timer, and ends when the first timer
  expires, or after one nanosecond when it has expired.
\<close>

theorem times_are_well_formed:
  assumes "wf_reading clock" and "wf_time (expire_time t)"
  shows "wf_time (util_time_mono_after clock ms) \<and>
    ns (util_time_mono_after clock ms) = ns (util_time_mono clock) + uint ms * 1000000 \<and>
    wf_time (next_timeout clock (Some t)) \<and>
    ns (util_time_mono clock) + ns (next_timeout clock (Some t)) = max (ns (expire_time t)) (ns (util_time_mono clock) + 1) \<and>
    next_timeout clock None = \<lparr>tv_sec = 0, tv_nsec = 0\<rparr>"
  using mono_after [OF assms(1)] next_timeout_ns [OF assms] by (simp add: next_timeout_def)

theorem times_are_well_formed_witness:
  "wf_time (util_time_mono_after (Some \<lparr>tv_sec = 5, tv_nsec = 999000000\<rparr>) 1500) \<and>
   ns (util_time_mono_after (Some \<lparr>tv_sec = 5, tv_nsec = 999000000\<rparr>) 1500) = 7499000000"
proof -
  let ?clock = "Some \<lparr>tv_sec = 5, tv_nsec = 999000000\<rparr>"
  have "wf_reading ?clock" "wf_time (expire_time zero_timer)" by (simp_all add: wf_reading_def wf_time_def zero_timer_def)
  from times_are_well_formed [OF this, of 1500] show ?thesis by (simp add: ns_def util_time_mono_def)
qed

end
