(* ===== verification/Thread_Pool.thy ===== *)
theory Thread_Pool
  imports Thread_Queue "HOL-Library.Multiset"
begin

text \<open>
  The thread pool of \<^verbatim>\<open>base/src/utility/threadpool.c\<close> on top of the bounded queue.  The workers, the clients
  that add tasks and the owner that creates and destroys the pool take steps in any order; what they do in the
  queue are the steps of \<open>Thread_Queue\<close>, so that its invariants hold for the queue of the pool.  Shown are that
  every accepted task is called once or left in the queue, that the destruction comes to an end, and that a
  failing creation does not.
\<close>

section \<open>Tasks and calls\<close>

text \<open>
  A task is a function and its argument, both addresses; a null function is 0.  The queue transports the bytes
  of the structure.  \<open>sizeof(threadtask_t)\<close> is 16.
\<close>

record threadtask_t =
  tk_function :: u64
  tk_arg :: u64

definition u64_bytes :: "u64 \<Rightarrow> byte list" where
  "u64_bytes w = map (\<lambda>i. ucast (drop_bit (8 * i) w)) [0..<8]"

definition task_bytes :: "threadtask_t \<Rightarrow> byte list" where
  "task_bytes t = u64_bytes (tk_function t) @ u64_bytes (tk_arg t)"

datatype tp_ret = TP_SUCCESS | TP_ERR_ARG | TP_ERR_MEM | TP_ERR_AGAIN | TP_ERR_QUEUE_FULL | TP_ERR_OTHER

text \<open>
  \<open>run\<close> is the value that the load of \<open>is_run\<close> gives; of the pool the calls use the queue, and \<open>None\<close> is the
  null pointer.  A task fits a node, so that the push of it allocates
  nothing; \<open>mem\<close> is the argument of the push for that.
\<close>

definition push_ret :: "tq_ret \<Rightarrow> tp_ret" where
  "push_ret ret = (if ret \<noteq> SUCCESS then (if ret = ERR_FULL then TP_ERR_QUEUE_FULL else TP_ERR_OTHER) else TP_SUCCESS)"

definition fix_threadpool_addtask :: "bool \<Rightarrow> bool \<Rightarrow> threadtask_t \<Rightarrow> tbq option \<Rightarrow> (tp_ret \<times> tbq option) option" where
  "fix_threadpool_addtask run mem task pool =
     (if pool = None \<or> tk_function task = 0 then Some (TP_ERR_ARG, pool)
      else if \<not> run then Some (TP_ERR_AGAIN, pool)
      else
        (case threadboundedqueue_push_nonblock mem (Some (task_bytes task)) (the pool) of
           None \<Rightarrow> None
         | Some (ret, q) \<Rightarrow> Some (push_ret ret, Some q)))"

fun addtasks_loop :: "bool \<Rightarrow> threadtask_t list \<Rightarrow> tbq \<Rightarrow> (tp_ret \<times> tbq) option" where
  "addtasks_loop mem [] q = Some (TP_SUCCESS, q)"
| "addtasks_loop mem (task # tasks) q =
     (case threadboundedqueue_push_nonblock mem (Some (task_bytes task)) q of
        None \<Rightarrow> None
      | Some (ret, q) \<Rightarrow> if push_ret ret \<noteq> TP_SUCCESS then Some (push_ret ret, q) else addtasks_loop mem tasks q)"

definition fix_threadpool_addtasks :: "bool \<Rightarrow> bool \<Rightarrow> threadtask_t list option \<Rightarrow> tbq option \<Rightarrow> (tp_ret \<times> tbq option) option" where
  "fix_threadpool_addtasks run mem tasks pool =
     (if pool = None \<or> tasks = None \<or> length (the tasks) = 0 then Some (TP_ERR_ARG, pool)
      else if \<not> run then Some (TP_ERR_AGAIN, pool)
      else map_option (\<lambda>(ret, q). (ret, Some q)) (addtasks_loop mem (the tasks) (the pool)))"

section \<open>Threads\<close>

text \<open>
  Where a worker is in \<open>fix_threadworker\<close>: at the load of \<open>is_run\<close>, at the read of \<open>pool->tasks\<close>, inside
  the pop, in the call of the task, or returned.
\<close>

datatype worker = W_Check | W_Call | W_Pop | W_Task "byte list" | W_Done

text \<open>
  Where the owner is: in the loop of \<open>fix_threadpool_create\<close>, in its error branch behind \<open>uninit\<close> and in the
  joins there, returned null; the pool is in use; in \<open>fix_threadpool_destroy\<close> behind the stop, in the joins,
  and behind the free.
\<close>

datatype owner = O_Create | O_Failed | O_Fail_Join nat | O_Null | O_Ready | O_Stopped | O_Join nat | O_Freed

text \<open>
  The queue with its threads is that of the bounded queue: worker \<open>i\<close> is its thread \<open>i\<close>, and the last thread
  stands for the clients, whose calls never wait.  \<open>tp_live\<close> is false once the queue is freed and
  \<open>pool->tasks\<close> null.  \<open>tp_ran\<close> is the sequence of the tasks that have been called and have returned.
\<close>

record tp_sys =
  tp_tb :: tb_sys
  tp_live :: bool
  tp_is_run :: bool
  tp_workers :: "worker list"
  tp_capacity :: nat
  tp_owner :: owner
  tp_ran :: "byte list list"

definition pool_queue :: "tp_sys \<Rightarrow> tbq" where
  "pool_queue s = sy_queue (tp_tb s)"

definition pop_entry :: "thr \<Rightarrow> bool" where
  "pop_entry x \<longleftrightarrow> x = Idle \<or> x = Pop_Ready (Some 16) 0"

text \<open>
  The steps of a worker.  Those inside the queue are steps of a queue that is not freed: what a worker does that
  is in the queue when it is freed is undefined, and it has no step here.
\<close>

inductive worker_step :: "nat \<Rightarrow> tp_sys \<Rightarrow> tp_sys \<Rightarrow> bool" for i where
  w_check: "\<lbrakk>i < length (tp_workers s); tp_workers s ! i = W_Check\<rbrakk> \<Longrightarrow>
    worker_step i s (s\<lparr>tp_workers := (tp_workers s)[i := if tp_is_run s then W_Call else W_Done]\<rparr>)"
| w_call: "\<lbrakk>i < length (tp_workers s); tp_workers s ! i = W_Call\<rbrakk> \<Longrightarrow>
    worker_step i s (s\<lparr>tp_workers := (tp_workers s)[i := if tp_live s then W_Pop else W_Check]\<rparr>)"
| w_waits: "\<lbrakk>i < length (tp_workers s); tp_workers s ! i = W_Pop; tp_live s; pop_entry (sy_threads (tp_tb s) ! i);
    threadboundedqueue_pop_block (Some 16) (pool_queue s) = Some Blocks\<rbrakk> \<Longrightarrow>
    worker_step i s (s\<lparr>tp_tb := (tp_tb s)\<lparr>sy_threads := (sy_threads (tp_tb s))[i := Pop_Wait (Some 16) 0]\<rparr>\<rparr>)"
| w_got: "\<lbrakk>i < length (tp_workers s); tp_workers s ! i = W_Pop; tp_live s; pop_entry (sy_threads (tp_tb s) ! i);
    threadboundedqueue_pop_block (Some 16) (pool_queue s) = Some (Returns (SUCCESS, d, q));
    signal is_push_wait ((sy_threads (tp_tb s))[i := Idle]) ts\<rbrakk> \<Longrightarrow>
    worker_step i s (s\<lparr>tp_tb := (tp_tb s)\<lparr>sy_queue := q, sy_threads := ts, sy_log := sy_log (tp_tb s) @ [Got d]\<rparr>,
      tp_workers := (tp_workers s)[i := W_Task d]\<rparr>)"
| w_fails: "\<lbrakk>i < length (tp_workers s); tp_workers s ! i = W_Pop; tp_live s; pop_entry (sy_threads (tp_tb s) ! i);
    threadboundedqueue_pop_block (Some 16) (pool_queue s) = Some (Returns (ret, d, q)); ret \<noteq> SUCCESS\<rbrakk> \<Longrightarrow>
    worker_step i s (s\<lparr>tp_tb := (tp_tb s)\<lparr>sy_queue := q, sy_threads := (sy_threads (tp_tb s))[i := Idle]\<rparr>,
      tp_workers := (tp_workers s)[i := if ret = ERR_STOP then W_Done else W_Check]\<rparr>)"
| w_spurious: "\<lbrakk>i < length (tp_workers s); tp_workers s ! i = W_Pop; tp_live s\<rbrakk> \<Longrightarrow>
    worker_step i s (s\<lparr>tp_tb := (tp_tb s)\<lparr>sy_threads := (sy_threads (tp_tb s))[i := wake (sy_threads (tp_tb s) ! i)]\<rparr>\<rparr>)"
| w_error: "\<lbrakk>i < length (tp_workers s); tp_workers s ! i = W_Pop; tp_live s; is_pop_wait (sy_threads (tp_tb s) ! i)\<rbrakk> \<Longrightarrow>
    worker_step i s (s\<lparr>tp_tb := (tp_tb s)\<lparr>sy_threads := (sy_threads (tp_tb s))[i := Idle]\<rparr>,
      tp_workers := (tp_workers s)[i := W_Check]\<rparr>)"
| w_runs: "\<lbrakk>i < length (tp_workers s); tp_workers s ! i = W_Task d\<rbrakk> \<Longrightarrow>
    worker_step i s (s\<lparr>tp_workers := (tp_workers s)[i := W_Check], tp_ran := tp_ran s @ [d]\<rparr>)"

text \<open>
  A call of \<open>fix_threadpool_addtask\<close>, and one round of the loop of \<open>fix_threadpool_addtasks\<close>, after the load of
  \<open>is_run\<close>.  The load may be long past, and \<open>is_run\<close> was true once: it may have given true whatever the value is
  now.  A round pushes its task without a look at the function: only by this way can a null function get into
  the queue.  The worker calls what it took; every call is taken to return, that of a null function,
  undefined in C, included.
\<close>

inductive client_step :: "tp_sys \<Rightarrow> tp_sys \<Rightarrow> bool" where
  adds: "\<lbrakk>tp_owner s = O_Ready \<or> tp_owner s = O_Stopped \<or> (\<exists>j. tp_owner s = O_Join j); run \<or> \<not> tp_is_run s;
    fix_threadpool_addtask run mem task (Some (pool_queue s)) = Some (ret, Some q);
    if ret = TP_SUCCESS then signal is_pop_wait (sy_threads (tp_tb s)) ts else ts = sy_threads (tp_tb s)\<rbrakk> \<Longrightarrow>
    client_step s (s\<lparr>tp_tb := (tp_tb s)\<lparr>sy_queue := q, sy_threads := ts,
      sy_log := sy_log (tp_tb s) @ (if ret = TP_SUCCESS then [Put (task_bytes task)] else [])\<rparr>\<rparr>)"
| adds_round: "\<lbrakk>tp_owner s = O_Ready \<or> tp_owner s = O_Stopped \<or> (\<exists>j. tp_owner s = O_Join j);
    threadboundedqueue_push_nonblock mem (Some (task_bytes task)) (pool_queue s) = Some (ret, q);
    if ret = SUCCESS then signal is_pop_wait (sy_threads (tp_tb s)) ts else ts = sy_threads (tp_tb s)\<rbrakk> \<Longrightarrow>
    client_step s (s\<lparr>tp_tb := (tp_tb s)\<lparr>sy_queue := q, sy_threads := ts,
      sy_log := sy_log (tp_tb s) @ (if ret = SUCCESS then [Put (task_bytes task)] else [])\<rparr>\<rparr>)"

text \<open>The loop of \<open>fix_threadpool_create\<close> with its error branch, and \<open>fix_threadpool_destroy\<close>.\<close>

inductive create_step :: "tp_sys \<Rightarrow> tp_sys \<Rightarrow> bool" where
  o_thread: "\<lbrakk>tp_owner s = O_Create; length (tp_workers s) < tp_capacity s\<rbrakk> \<Longrightarrow>
    create_step s (s\<lparr>tp_workers := tp_workers s @ [W_Check]\<rparr>)"
| o_created: "\<lbrakk>tp_owner s = O_Create; length (tp_workers s) = tp_capacity s\<rbrakk> \<Longrightarrow> create_step s (s\<lparr>tp_owner := O_Ready\<rparr>)"
| o_fails: "\<lbrakk>tp_owner s = O_Create; length (tp_workers s) < tp_capacity s\<rbrakk> \<Longrightarrow>
    create_step s (s\<lparr>tp_live := False, tp_owner := O_Failed\<rparr>)"
| o_fail_store: "tp_owner s = O_Failed \<Longrightarrow> create_step s (s\<lparr>tp_is_run := False, tp_owner := O_Fail_Join 0\<rparr>)"
| o_fail_join: "\<lbrakk>tp_owner s = O_Fail_Join j; j < length (tp_workers s); tp_workers s ! j = W_Done\<rbrakk> \<Longrightarrow>
    create_step s (s\<lparr>tp_owner := O_Fail_Join (Suc j)\<rparr>)"
| o_null: "\<lbrakk>tp_owner s = O_Fail_Join j; j = length (tp_workers s)\<rbrakk> \<Longrightarrow> create_step s (s\<lparr>tp_owner := O_Null\<rparr>)"

inductive destroy_step :: "tp_sys \<Rightarrow> tp_sys \<Rightarrow> bool" where
  o_stop: "\<lbrakk>tp_owner s = O_Ready; tp_is_run s; threadboundedqueue_stop (pool_queue s) = (r, q)\<rbrakk> \<Longrightarrow>
    destroy_step s (s\<lparr>tp_tb := (tp_tb s)\<lparr>sy_queue := q,
      sy_threads := (if r then map wake (sy_threads (tp_tb s)) else sy_threads (tp_tb s))\<rparr>, tp_owner := O_Stopped\<rparr>)"
| o_store: "tp_owner s = O_Stopped \<Longrightarrow> destroy_step s (s\<lparr>tp_is_run := False, tp_owner := O_Join 0\<rparr>)"
| o_join: "\<lbrakk>tp_owner s = O_Join j; j < tp_capacity s; tp_workers s ! j = W_Done\<rbrakk> \<Longrightarrow>
    destroy_step s (s\<lparr>tp_owner := O_Join (Suc j)\<rparr>)"
| o_free: "\<lbrakk>tp_owner s = O_Join j; j = tp_capacity s\<rbrakk> \<Longrightarrow> destroy_step s (s\<lparr>tp_live := False, tp_owner := O_Freed\<rparr>)"

text \<open>The start of \<open>fix_threadpool_create\<close> up to its loop; the arguments say whether each \<open>calloc\<close> succeeds.\<close>

definition fix_threadpool_create :: "bool \<Rightarrow> bool \<Rightarrow> bool \<Rightarrow> bool \<Rightarrow> nat \<Rightarrow> nat \<Rightarrow> tp_sys option" where
  "fix_threadpool_create mem1 mem2 mem3 mem4 thread_capacity queue_size =
     (if \<not> mem1 then None
      else if \<not> mem2 then None
      else
        (case threadboundedqueue_create mem3 mem4 queue_size 16 of
           None \<Rightarrow> None
         | Some q \<Rightarrow>
             Some \<lparr>tp_tb = \<lparr>sy_queue = q, sy_threads = replicate (Suc thread_capacity) Idle, sy_log = []\<rparr>, tp_live = True,
               tp_is_run = True, tp_workers = [], tp_capacity = thread_capacity, tp_owner = O_Create, tp_ran = []\<rparr>))"

inductive tp_reach :: "nat \<Rightarrow> nat \<Rightarrow> tp_sys \<Rightarrow> bool" for cap num where
  tp_start: "fix_threadpool_create m1 m2 m3 m4 cap num = Some s \<Longrightarrow> tp_reach cap num s"
| tp_worker: "\<lbrakk>tp_reach cap num s; worker_step i s s'\<rbrakk> \<Longrightarrow> tp_reach cap num s'"
| tp_client: "\<lbrakk>tp_reach cap num s; client_step s s'\<rbrakk> \<Longrightarrow> tp_reach cap num s'"
| tp_create: "\<lbrakk>tp_reach cap num s; create_step s s'\<rbrakk> \<Longrightarrow> tp_reach cap num s'"
| tp_destroy: "\<lbrakk>tp_reach cap num s; destroy_step s s'\<rbrakk> \<Longrightarrow> tp_reach cap num s'"

section \<open>The invariant\<close>

text \<open>
  Every step is a step of the bounded queue or leaves it alone, so that what holds in all its states holds here.
\<close>

definition tasks_of :: "worker list \<Rightarrow> byte list list" where
  "tasks_of ws = concat (map (\<lambda>w. case w of W_Task d \<Rightarrow> [d] | _ \<Rightarrow> []) ws)"

fun owner_ok :: "owner \<Rightarrow> tp_sys \<Rightarrow> bool" where
  "owner_ok O_Create s \<longleftrightarrow> tp_live s \<and> tp_is_run s \<and> tb_is_run (pool_queue s) \<and> length (tp_workers s) \<le> tp_capacity s"
| "owner_ok O_Failed s \<longleftrightarrow> \<not> tp_live s \<and> length (tp_workers s) < tp_capacity s"
| "owner_ok (O_Fail_Join j) s \<longleftrightarrow> \<not> tp_live s \<and> length (tp_workers s) < tp_capacity s"
| "owner_ok O_Null s \<longleftrightarrow> \<not> tp_live s \<and> length (tp_workers s) < tp_capacity s"
| "owner_ok O_Ready s \<longleftrightarrow> tp_live s \<and> tp_is_run s \<and> tb_is_run (pool_queue s) \<and> length (tp_workers s) = tp_capacity s"
| "owner_ok O_Stopped s \<longleftrightarrow> tp_live s \<and> \<not> tb_is_run (pool_queue s) \<and> length (tp_workers s) = tp_capacity s"
| "owner_ok (O_Join j) s \<longleftrightarrow> tp_live s \<and> \<not> tp_is_run s \<and> \<not> tb_is_run (pool_queue s) \<and>
     length (tp_workers s) = tp_capacity s \<and> j \<le> tp_capacity s \<and> (\<forall>i < j. tp_workers s ! i = W_Done)"
| "owner_ok O_Freed s \<longleftrightarrow> length (tp_workers s) = tp_capacity s \<and> (\<forall>i < tp_capacity s. tp_workers s ! i = W_Done)"

definition threads_ok :: "nat \<Rightarrow> worker list \<Rightarrow> thr list \<Rightarrow> bool" where
  "threads_ok cap ws ts \<longleftrightarrow> length ts = Suc cap \<and> ts ! cap = Idle \<and>
     (\<forall>i < cap. ts ! i \<in> {Idle, Pop_Wait (Some 16) 0, Pop_Ready (Some 16) 0} \<and>
        (ts ! i \<noteq> Idle \<longrightarrow> i < length ws \<and> ws ! i = W_Pop))"

definition tp_inv :: "nat \<Rightarrow> nat \<Rightarrow> tp_sys \<Rightarrow> bool" where
  "tp_inv cap num s \<longleftrightarrow> tb_reach True (Suc cap) num 16 (tp_tb s) \<and> tp_capacity s = cap \<and>
     threads_ok cap (tp_workers s) (sy_threads (tp_tb s)) \<and>
     (\<forall>d \<in> set (puts (sy_log (tp_tb s))). d \<in> range task_bytes) \<and>
     mset (gots (sy_log (tp_tb s))) = mset (tp_ran s) + mset (tasks_of (tp_workers s)) \<and>
     owner_ok (tp_owner s) s"

lemma length_task_bytes [simp]: "length (task_bytes t) = 16"
  by (simp add: task_bytes_def u64_bytes_def)

lemma threads_ok_not_push: "threads_ok cap ws ts \<Longrightarrow> x \<in> set ts \<Longrightarrow> \<not> is_push_wait x"
  by (auto simp: threads_ok_def in_set_conv_nth less_Suc_eq)

lemma threads_ok_signal_push:
  assumes "threads_ok cap ws ts" "signal is_push_wait ts ts'"
  shows "ts' = ts"
  using assms(2)
proof cases
  case (one i)
  with threads_ok_not_push [OF assms(1), of "ts ! i"] show ?thesis by simp
qed simp

lemma threads_ok_update:
  assumes "threads_ok cap ws ts" "i < cap"
    "x \<in> {Idle, Pop_Wait (Some 16) 0, Pop_Ready (Some 16) 0}" "x \<noteq> Idle \<longrightarrow> i < length ws \<and> ws ! i = W_Pop"
  shows "threads_ok cap ws (ts[i := x])"
  using assms unfolding threads_ok_def by (simp add: nth_list_update)

lemma threads_ok_wake:
  assumes "threads_ok cap ws ts" "i < cap"
  shows "threads_ok cap ws (ts[i := wake (ts ! i)])"
proof (rule threads_ok_update [OF assms])
  have x: "ts ! i \<in> {Idle, Pop_Wait (Some 16) 0, Pop_Ready (Some 16) 0}" "ts ! i \<noteq> Idle \<longrightarrow> i < length ws \<and> ws ! i = W_Pop"
    using assms by (auto simp: threads_ok_def)
  then show "wake (ts ! i) \<in> {Idle, Pop_Wait (Some 16) 0, Pop_Ready (Some 16) 0}" by auto
  show "wake (ts ! i) \<noteq> Idle \<longrightarrow> i < length ws \<and> ws ! i = W_Pop" using x by auto
qed

lemma threads_ok_signal_pop:
  assumes "threads_ok cap ws ts" "signal is_pop_wait ts ts'"
  shows "threads_ok cap ws ts'"
  using assms(2)
proof cases
  case (one i)
  have "i < cap" using one assms(1) by (cases "i = cap") (auto simp: threads_ok_def)
  with one threads_ok_wake [OF assms(1)] show ?thesis by simp
qed (use assms(1) in simp)

lemma threads_ok_map_wake:
  assumes "threads_ok cap ws ts"
  shows "threads_ok cap ws (map wake ts)"
  unfolding threads_ok_def
proof (intro conjI allI impI)
  show "length (map wake ts) = Suc cap" "map wake ts ! cap = Idle" using assms by (simp_all add: threads_ok_def)
  fix i assume i: "i < cap"
  with assms have x: "ts ! i \<in> {Idle, Pop_Wait (Some 16) 0, Pop_Ready (Some 16) 0}" "length ts = Suc cap"
    "ts ! i \<noteq> Idle \<longrightarrow> i < length ws \<and> ws ! i = W_Pop" by (auto simp: threads_ok_def)
  then show "map wake ts ! i \<in> {Idle, Pop_Wait (Some 16) 0, Pop_Ready (Some 16) 0}" using i by auto
  show "map wake ts ! i \<noteq> Idle \<Longrightarrow> i < length ws" "map wake ts ! i \<noteq> Idle \<Longrightarrow> ws ! i = W_Pop" using x i by auto
qed

lemma threads_ok_worker:
  assumes "threads_ok cap ws ts" "ts ! i = Idle"
  shows "threads_ok cap (ws[i := w]) ts"
  using assms unfolding threads_ok_def by (metis length_list_update nth_list_update_neq)

lemma threads_ok_idle: "threads_ok cap ws ts \<Longrightarrow> i < cap \<Longrightarrow> ws ! i \<noteq> W_Pop \<Longrightarrow> ts ! i = Idle"
  by (auto simp: threads_ok_def)

lemma threads_ok_more: "threads_ok cap ws ts \<Longrightarrow> threads_ok cap (ws @ [w]) ts"
  by (auto simp: threads_ok_def nth_append)

lemma tasks_of_update:
  "i < length ws \<Longrightarrow> mset (tasks_of (ws[i := w])) + mset (tasks_of [ws ! i]) = mset (tasks_of ws) + mset (tasks_of [w])"
proof (induction ws arbitrary: i)
  case (Cons v ws)
  show ?case
  proof (cases i)
    case 0
    then show ?thesis by (simp add: tasks_of_def union_ac)
  next
    case (Suc k)
    then show ?thesis using Cons.IH [of k] Cons.prems by (simp add: tasks_of_def union_assoc)
  qed
qed simp

lemma tasks_of_same: "i < length ws \<Longrightarrow> tasks_of [ws ! i] = [] \<Longrightarrow> tasks_of [w] = [] \<Longrightarrow>
  mset (tasks_of (ws[i := w])) = mset (tasks_of ws)"
  using tasks_of_update [of i ws w] by simp

lemma owner_ok_worker:
  assumes "owner_ok (tp_owner s) s" "i < length (tp_workers s)" "tp_workers s ! i \<noteq> W_Done"
    "tp_workers s' = (tp_workers s)[i := w]" "tp_owner s' = tp_owner s" "tp_live s' = tp_live s" "tp_is_run s' = tp_is_run s"
    "tp_capacity s' = tp_capacity s" "tb_is_run (pool_queue s') = tb_is_run (pool_queue s)"
  shows "owner_ok (tp_owner s') s'"
  using assms by (cases "tp_owner s") (auto simp: nth_list_update)

section \<open>Every step keeps it\<close>

lemma tp_queue:
  assumes "tp_inv cap num s"
  shows "tb_inv (pool_queue s)" "puts (sy_log (tp_tb s)) = gots (sy_log (tp_tb s)) @ tb_content (pool_queue s)"
    "d \<in> set (tb_content (pool_queue s)) \<Longrightarrow> length d = 16"
proof -
  from assms have "sys_inv num (tp_tb s)" using sys_inv_reach by (auto simp: tp_inv_def)
  then show "tb_inv (pool_queue s)" and p: "puts (sy_log (tp_tb s)) = gots (sy_log (tp_tb s)) @ tb_content (pool_queue s)"
    by (simp_all add: sys_inv_def pool_queue_def)
  assume "d \<in> set (tb_content (pool_queue s))"
  then have "d \<in> range task_bytes" using assms p by (auto simp: tp_inv_def)
  then show "length d = 16" by auto
qed

text \<open>A pop of a worker never fails for the length of its buffer.\<close>

lemma tp_pop:
  assumes "tp_inv cap num s" "threadboundedqueue_pop_block (Some 16) (pool_queue s) = Some (Returns (ret, d, q))"
  shows "got_effect ret (Some 16) d (pool_queue s) q" "ret \<noteq> ERR_LEN"
proof -
  note inv = tp_queue(1) [OF assms(1)]
  show "got_effect ret (Some 16) d (pool_queue s) q" using pop_block_effect [OF inv, of "Some 16"] assms(2) by auto
  show "ret \<noteq> ERR_LEN"
  proof
    assume len: "ret = ERR_LEN"
    with assms(2) have take: "tb_take 16 (pool_queue s) = Some (ERR_LEN, d, q)" "0 < tb_count (pool_queue s)"
      by (auto simp: threadboundedqueue_pop_block_def split: if_splits)
    have "length (hd (tb_content (pool_queue s))) = 16"
      using tp_queue(3) [OF assms(1)] take(2) tb_content_length [of "pool_queue s"]
      by (metis hd_in_set length_greater_0_conv)
    with tb_take_cases [OF inv take(2), of 16 False] take(1) show False by auto
  qed
qed

lemma tp_inv_pure:
  assumes "tp_inv cap num s" "i < length (tp_workers s)" "tp_workers s ! i \<notin> {W_Pop, W_Done}" "tasks_of [w] = []"
  shows "tp_inv cap num (s\<lparr>tp_workers := (tp_workers s)[i := w], tp_ran := tp_ran s @ tasks_of [tp_workers s ! i]\<rparr>)"
proof -
  let ?s = "s\<lparr>tp_workers := (tp_workers s)[i := w], tp_ran := tp_ran s @ tasks_of [tp_workers s ! i]\<rparr>"
  have "i < cap" using assms(1,2) by (cases "tp_owner s") (auto simp: tp_inv_def)
  then have "threads_ok cap (tp_workers ?s) (sy_threads (tp_tb ?s))"
    using assms(1,3) threads_ok_idle [of cap "tp_workers s" "sy_threads (tp_tb s)" i]
    by (auto simp: tp_inv_def intro!: threads_ok_worker)
  moreover have "owner_ok (tp_owner ?s) ?s"
    by (rule owner_ok_worker [of s i]) (use assms in \<open>auto simp: tp_inv_def pool_queue_def\<close>)
  moreover have "mset (tp_ran ?s) + mset (tasks_of (tp_workers ?s)) = mset (tp_ran s) + mset (tasks_of (tp_workers s))"
    using tasks_of_update [OF assms(2), of w] assms(4) by (simp add: union_ac)
  ultimately show ?thesis using assms(1) by (simp add: tp_inv_def)
qed

lemma tp_inv_pops:
  assumes "tp_inv cap num s" "i < length (tp_workers s)" "tp_workers s ! i = W_Pop"
    "tb_step True (tp_tb s) tb" "tb_is_run (sy_queue tb) = tb_is_run (pool_queue s)"
    "threads_ok cap ((tp_workers s)[i := w]) (sy_threads tb)" "sy_log tb = sy_log (tp_tb s) @ map Got (tasks_of [w])"
  shows "tp_inv cap num (s\<lparr>tp_tb := tb, tp_workers := (tp_workers s)[i := w]\<rparr>)"
proof -
  let ?s = "s\<lparr>tp_tb := tb, tp_workers := (tp_workers s)[i := w]\<rparr>"
  have logs: "puts (map Got ds) = []" "gots (map Got ds) = ds" for ds by (induction ds) auto
  have "tb_reach True (Suc cap) num 16 tb" using assms(1,4) tb_reach.more by (auto simp: tp_inv_def)
  moreover have "owner_ok (tp_owner ?s) ?s"
    by (rule owner_ok_worker [of s i]) (use assms(1,2,3,5) in \<open>auto simp: tp_inv_def pool_queue_def\<close>)
  moreover have "mset (tasks_of (tp_workers ?s)) = mset (tasks_of (tp_workers s)) + mset (tasks_of [w])"
    using tasks_of_update [OF assms(2), of w] assms(3) by (simp add: tasks_of_def)
  ultimately show ?thesis using assms(1,6,7) by (simp add: tp_inv_def logs)
qed

lemma worker_bound:
  assumes "tp_inv cap num s" "i < length (tp_workers s)"
  shows "i < cap" "i < length (sy_threads (tp_tb s))"
proof -
  show "i < cap" using assms by (cases "tp_owner s") (auto simp: tp_inv_def)
  then show "i < length (sy_threads (tp_tb s))" using assms(1) by (simp add: tp_inv_def threads_ok_def)
qed

lemma tp_inv_stays:
  assumes "tp_inv cap num s" "i < length (tp_workers s)" "tp_workers s ! i = W_Pop"
    "tb_step True (tp_tb s) (tp_tb s\<lparr>sy_threads := ts\<rparr>)" "threads_ok cap (tp_workers s) ts"
  shows "tp_inv cap num (s\<lparr>tp_tb := tp_tb s\<lparr>sy_threads := ts\<rparr>\<rparr>)"
proof -
  have same: "(tp_workers s)[i := W_Pop] = tp_workers s" using assms(3) by (metis list_update_id)
  have "tp_inv cap num (s\<lparr>tp_tb := tp_tb s\<lparr>sy_threads := ts\<rparr>, tp_workers := (tp_workers s)[i := W_Pop]\<rparr>)"
    by (rule tp_inv_pops [OF assms(1-4)]) (use assms(5) same in \<open>simp_all add: pool_queue_def tasks_of_def\<close>)
  then show ?thesis by (simp add: same)
qed

lemma tp_inv_worker:
  assumes "worker_step i s s'" and inv: "tp_inv cap num s"
  shows "tp_inv cap num s'"
  using assms(1)
proof cases
  case w_check
  with tp_inv_pure [OF inv, of i "if tp_is_run s then W_Call else W_Done"] show ?thesis by (simp add: tasks_of_def)
next
  case w_call
  with tp_inv_pure [OF inv, of i "if tp_live s then W_Pop else W_Check"] show ?thesis by (simp add: tasks_of_def)
next
  case w_waits
  have "tb_step True (tp_tb s) (tp_tb s\<lparr>sy_threads := (sy_threads (tp_tb s))[i := Pop_Wait (Some 16) 0]\<rparr>)"
    using w_waits worker_bound [OF inv] by (intro tb_step.pop_waits) (auto simp: pop_entry_def pool_queue_def)
  moreover have "threads_ok cap (tp_workers s) ((sy_threads (tp_tb s))[i := Pop_Wait (Some 16) 0])"
    using w_waits worker_bound [OF inv] inv by (intro threads_ok_update) (auto simp: tp_inv_def)
  ultimately show ?thesis using w_waits tp_inv_stays [OF inv, of i] by simp
next
  case (w_got d q ts)
  let ?ts = "(sy_threads (tp_tb s))[i := Idle]"
  note b = worker_bound [OF inv w_got(2)]
  have ok: "threads_ok cap (tp_workers s) ?ts" using b inv by (intro threads_ok_update) (auto simp: tp_inv_def)
  have ts: "ts = ?ts" using threads_ok_signal_push [OF ok w_got(7)] .
  have "tb_step True (tp_tb s) (tp_tb s\<lparr>sy_queue := q, sy_threads := ts, sy_log := sy_log (tp_tb s) @ [Got d]\<rparr>)"
    using w_got b by (intro tb_step.pop_done) (auto simp: pop_entry_def pool_queue_def)
  moreover have "tb_is_run q = tb_is_run (pool_queue s)"
    using tp_pop(1) [OF inv w_got(6)] by (simp add: got_effect_def same_queue_def)
  moreover have "threads_ok cap ((tp_workers s)[i := W_Task d]) ts"
    unfolding ts by (rule threads_ok_worker [OF ok]) (use b in simp)
  ultimately show ?thesis
    using w_got(1) tp_inv_pops [OF inv w_got(2,3), of _ "W_Task d"] by (simp add: tasks_of_def)
next
  case (w_fails ret d q)
  let ?ts = "(sy_threads (tp_tb s))[i := Idle]" and ?w = "if ret = ERR_STOP then W_Done else W_Check"
  note b = worker_bound [OF inv w_fails(2)]
  have ok: "threads_ok cap (tp_workers s) ?ts" using b inv by (intro threads_ok_update) (auto simp: tp_inv_def)
  have "tb_step True (tp_tb s) (tp_tb s\<lparr>sy_queue := q, sy_threads := ?ts\<rparr>)"
    using w_fails b tp_pop(2) [OF inv w_fails(6)] by (intro tb_step.pop_fails) (auto simp: pop_entry_def pool_queue_def)
  moreover have "tb_is_run q = tb_is_run (pool_queue s)"
    using tp_pop(1) [OF inv w_fails(6)] by (simp add: got_effect_def same_queue_def)
  moreover have "threads_ok cap ((tp_workers s)[i := ?w]) ?ts" by (rule threads_ok_worker [OF ok]) (use b in simp)
  ultimately show ?thesis
    using w_fails(1) tp_inv_pops [OF inv w_fails(2,3), of _ ?w] by (simp add: tasks_of_def)
next
  case w_spurious
  note b = worker_bound [OF inv w_spurious(2)]
  have "threads_ok cap (tp_workers s) ((sy_threads (tp_tb s))[i := wake (sy_threads (tp_tb s) ! i)])"
    using b inv by (intro threads_ok_wake) (auto simp: tp_inv_def)
  with w_spurious tp_inv_stays [OF inv w_spurious(2,3) tb_step.spurious [OF b(2)]] show ?thesis by simp
next
  case w_error
  let ?ts = "(sy_threads (tp_tb s))[i := Idle]"
  note b = worker_bound [OF inv w_error(2)]
  have ok: "threads_ok cap (tp_workers s) ?ts" using b inv by (intro threads_ok_update) (auto simp: tp_inv_def)
  have "tb_step True (tp_tb s) (tp_tb s\<lparr>sy_threads := ?ts\<rparr>)" using w_error b by (intro tb_step.wait_ends) auto
  moreover have "threads_ok cap ((tp_workers s)[i := W_Check]) ?ts" by (rule threads_ok_worker [OF ok]) (use b in simp)
  ultimately show ?thesis
    using w_error(1) tp_inv_pops [OF inv w_error(2,3), of _ W_Check] by (simp add: tasks_of_def pool_queue_def)
next
  case (w_runs d)
  with tp_inv_pure [OF inv, of i W_Check] show ?thesis by (simp add: tasks_of_def)
qed

lemma addtask_cases:
  assumes "fix_threadpool_addtask run mem task (Some q) = Some (ret, Some q')"
  obtains (same) "q' = q" "ret \<noteq> TP_SUCCESS"
    | (push) r where "threadboundedqueue_push_nonblock mem (Some (task_bytes task)) q = Some (r, q')" "ret = push_ret r"
  using assms by (auto simp: fix_threadpool_addtask_def split: if_splits option.splits)

lemma push_ret_SUCCESS [simp]: "push_ret r = TP_SUCCESS \<longleftrightarrow> r = SUCCESS"
  by (simp add: push_ret_def)

lemma owner_ok_queue:
  assumes "owner_ok (tp_owner s) s" "tb_is_run (sy_queue tb) = tb_is_run (pool_queue s)"
  shows "owner_ok (tp_owner s) (s\<lparr>tp_tb := tb\<rparr>)"
  using assms by (cases "tp_owner s") (auto simp: pool_queue_def)

lemma tp_inv_push:
  assumes inv: "tp_inv cap num s"
    and push: "threadboundedqueue_push_nonblock mem (Some (task_bytes task)) (pool_queue s) = Some (r, q)"
    and sig: "if r = SUCCESS then signal is_pop_wait (sy_threads (tp_tb s)) ts else ts = sy_threads (tp_tb s)"
  shows "tp_inv cap num (s\<lparr>tp_tb := (tp_tb s)\<lparr>sy_queue := q, sy_threads := ts,
    sy_log := sy_log (tp_tb s) @ (if r = SUCCESS then [Put (task_bytes task)] else [])\<rparr>\<rparr>)"
proof -
  have ok: "threads_ok cap (tp_workers s) (sy_threads (tp_tb s))" using inv by (simp add: tp_inv_def)
  have len: "cap < length (sy_threads (tp_tb s))" "sy_threads (tp_tb s) ! cap = Idle" using ok by (simp_all add: threads_ok_def)
  have e: "put_effect r (Some (task_bytes task)) (pool_queue s) q"
    using push_nonblock_effect [OF tp_queue(1) [OF inv], of mem "Some (task_bytes task)"] push by auto
  let ?tb = "tp_tb s\<lparr>sy_queue := q, sy_threads := ts, sy_log := sy_log (tp_tb s) @ (if r = SUCCESS then [Put (task_bytes task)] else [])\<rparr>"
  have "tb_step True (tp_tb s) ?tb"
    using tb_step.push_nonblock [OF len, of mem "Some (task_bytes task)" r q ts True] push sig
    by (cases "r = SUCCESS") (simp_all add: pool_queue_def)
  then have "tb_reach True (Suc cap) num 16 ?tb" using inv tb_reach.more by (auto simp: tp_inv_def)
  moreover have "threads_ok cap (tp_workers s) ts"
    using sig ok threads_ok_signal_pop [OF ok] by (auto split: if_splits)
  moreover have "owner_ok (tp_owner s) (s\<lparr>tp_tb := ?tb\<rparr>)"
    by (rule owner_ok_queue) (use inv e in \<open>auto simp: tp_inv_def put_effect_def same_queue_def\<close>)
  ultimately show ?thesis using inv by (auto simp: tp_inv_def)
qed

lemma tp_inv_client:
  assumes "client_step s s'" and inv: "tp_inv cap num s"
  shows "tp_inv cap num s'"
  using assms(1)
proof cases
  case (adds run mem task ret q ts)
  from adds(4) show ?thesis
  proof (cases rule: addtask_cases)
    case same
    with adds inv show ?thesis by (simp add: pool_queue_def)
  next
    case (push r)
    with adds tp_inv_push [OF inv push(1), of ts] show ?thesis by simp
  qed
next
  case (adds_round mem task ret q ts)
  with tp_inv_push [OF inv] show ?thesis by simp
qed

lemma tp_inv_create:
  assumes "create_step s s'" and inv: "tp_inv cap num s"
  shows "tp_inv cap num s'"
  using assms(1)
proof cases
  case o_thread
  have "threads_ok cap (tp_workers s @ [W_Check]) (sy_threads (tp_tb s))"
    using inv by (intro threads_ok_more) (simp add: tp_inv_def)
  with o_thread inv show ?thesis by (simp add: tp_inv_def tasks_of_def pool_queue_def)
qed (use inv in \<open>auto simp: tp_inv_def pool_queue_def\<close>)

lemma tp_inv_destroy:
  assumes "destroy_step s s'" and inv: "tp_inv cap num s"
  shows "tp_inv cap num s'"
  using assms(1)
proof cases
  case (o_stop r q)
  have "tb_step True (tp_tb s) (tp_tb s\<lparr>sy_queue := q,
      sy_threads := (if r then map wake (sy_threads (tp_tb s)) else sy_threads (tp_tb s))\<rparr>)"
    using o_stop(4) by (intro tb_step.stops) (simp add: pool_queue_def)
  then have "tb_reach True (Suc cap) num 16 (tp_tb s\<lparr>sy_queue := q,
      sy_threads := (if r then map wake (sy_threads (tp_tb s)) else sy_threads (tp_tb s))\<rparr>)"
    using inv tb_reach.more by (auto simp: tp_inv_def)
  moreover have "\<not> tb_is_run q" using o_stop(4) by (auto simp: threadboundedqueue_stop_def split: if_splits)
  ultimately show ?thesis
    using o_stop inv threads_ok_map_wake [of cap "tp_workers s" "sy_threads (tp_tb s)"] by (simp add: tp_inv_def pool_queue_def)
next
  case (o_join j)
  with inv show ?thesis by (auto simp: tp_inv_def pool_queue_def less_Suc_eq)
next
  case (o_free j)
  with inv show ?thesis by (simp add: tp_inv_def)
qed (use inv in \<open>auto simp: tp_inv_def pool_queue_def\<close>)

lemma tp_inv_reach: "tp_reach cap num s \<Longrightarrow> tp_inv cap num s"
proof (induction rule: tp_reach.induct)
  case (tp_start m1 m2 m3 m4 s)
  then obtain q where q: "threadboundedqueue_create m3 m4 num 16 = Some q"
    "s = \<lparr>tp_tb = \<lparr>sy_queue = q, sy_threads = replicate (Suc cap) Idle, sy_log = []\<rparr>, tp_live = True,
       tp_is_run = True, tp_workers = [], tp_capacity = cap, tp_owner = O_Create, tp_ran = []\<rparr>"
    by (auto simp: fix_threadpool_create_def split: if_splits option.splits)
  have "threadboundedqueue_create True True num 16 = Some q"
    using q(1) by (auto simp: threadboundedqueue_create_def split: if_splits)
  from tb_reach.start [OF this, of True "Suc cap"] q create_inv [OF q(1)] show ?case
    by (simp add: tp_inv_def threads_ok_def tasks_of_def pool_queue_def del: replicate_Suc)
qed (use tp_inv_worker tp_inv_client tp_inv_create tp_inv_destroy in blast)+

section \<open>Several tasks at once\<close>

text \<open>Without interference \<open>fix_threadpool_addtasks\<close> accepts the tasks for which there is room, in their order.\<close>

lemma push_task:
  assumes "tb_inv q" "tb_is_run q" "tb_node_size q = 16" "tb_count q < tb_capacity q"
  obtains q' where "threadboundedqueue_push_nonblock mem (Some (task_bytes t)) q = Some (SUCCESS, q')" "tb_inv q'"
    "same_queue q q'" "tb_content q' = tb_content q @ [task_bytes t]" "tb_count q' = Suc (tb_count q)"
proof -
  have ne: "task_bytes t \<noteq> []" by (metis length_task_bytes list.size(3) zero_neq_numeral)
  show thesis
  proof (cases rule: tb_put_cases [OF assms(1,4), where mem = mem and d = "task_bytes t"])
    case (2 q')
    with assms ne show thesis by (intro that [of q']) (simp_all add: threadboundedqueue_push_nonblock_def)
  qed (use assms(3) in simp)
qed

lemma addtasks_accepts:
  assumes "tb_inv q" "tb_is_run q" "tb_node_size q = 16"
  shows "\<exists>q'. addtasks_loop mem ts q = Some
      (if length ts \<le> tb_capacity q - tb_count q then TP_SUCCESS else TP_ERR_QUEUE_FULL, q') \<and>
    tb_content q' = tb_content q @ map task_bytes (take (tb_capacity q - tb_count q) ts)"
  using assms
proof (induction ts arbitrary: q)
  case (Cons t ts)
  show ?case
  proof (cases "tb_count q < tb_capacity q")
    case True
    from push_task [OF Cons.prems True, of mem t] obtain q1 where q1:
      "threadboundedqueue_push_nonblock mem (Some (task_bytes t)) q = Some (SUCCESS, q1)" "tb_inv q1"
      "same_queue q q1" "tb_content q1 = tb_content q @ [task_bytes t]" "tb_count q1 = Suc (tb_count q)" .
    have room: "tb_capacity q - tb_count q = Suc (tb_capacity q1 - tb_count q1)"
      using True q1(3,5) by (simp add: same_queue_def)
    have "\<exists>q'. addtasks_loop mem ts q1 = Some
        (if length ts \<le> tb_capacity q1 - tb_count q1 then TP_SUCCESS else TP_ERR_QUEUE_FULL, q') \<and>
      tb_content q' = tb_content q1 @ map task_bytes (take (tb_capacity q1 - tb_count q1) ts)"
      by (rule Cons.IH) (use q1(2,3) Cons.prems in \<open>simp_all add: same_queue_def\<close>)
    with q1(1,4) room show ?thesis by auto
  next
    case False
    have "task_bytes t \<noteq> []" by (metis length_task_bytes list.size(3) zero_neq_numeral)
    with False Cons.prems(2) show ?thesis by (simp add: threadboundedqueue_push_nonblock_def push_ret_def)
  qed
qed simp

section \<open>Properties\<close>

fun creation_failed :: "owner \<Rightarrow> bool" where
  "creation_failed O_Failed = True"
| "creation_failed (O_Fail_Join j) = True"
| "creation_failed O_Null = True"
| "creation_failed x = False"

text \<open>
  C15. In every interleaving of the workers with clients, the creation and the destruction of a pool: the tasks
  accepted are those taken by workers, in the order of acceptance, and those in the queue; every task taken has
  been called once or is being called; unless the creation failed no worker is in the queue after it is freed;
  and once the pool is destroyed no call is running and the tasks not called are those that were left in the
  queue.
\<close>

theorem thread_pool_runs_tasks_once:
  assumes "tp_reach cap num s"
  shows "puts (sy_log (tp_tb s)) = gots (sy_log (tp_tb s)) @ tb_content (pool_queue s) \<and>
    mset (gots (sy_log (tp_tb s))) = mset (tp_ran s) + mset (tasks_of (tp_workers s)) \<and>
    set (tp_ran s) \<subseteq> range task_bytes \<and>
    (W_Pop \<in> set (tp_workers s) \<longrightarrow> tp_live s \<or> creation_failed (tp_owner s)) \<and>
    (tp_owner s = O_Freed \<longrightarrow> mset (puts (sy_log (tp_tb s))) = mset (tp_ran s) + mset (tb_content (pool_queue s)))"
proof -
  note inv = tp_inv_reach [OF assms] and q = tp_queue(2) [OF tp_inv_reach [OF assms]]
  have taken: "mset (gots (sy_log (tp_tb s))) = mset (tp_ran s) + mset (tasks_of (tp_workers s))"
    using inv by (simp add: tp_inv_def)
  have "set_mset (mset (tp_ran s)) \<subseteq> set_mset (mset (gots (sy_log (tp_tb s))))" unfolding taken by simp
  then have "set (tp_ran s) \<subseteq> set (puts (sy_log (tp_tb s)))" using q by auto
  then have "set (tp_ran s) \<subseteq> range task_bytes" using inv by (auto simp: tp_inv_def)
  moreover have "tp_live s \<or> creation_failed (tp_owner s)" if "W_Pop \<in> set (tp_workers s)"
    using inv that by (cases "tp_owner s") (auto simp: tp_inv_def in_set_conv_nth)
  moreover have "tasks_of (tp_workers s) = []" if "tp_owner s = O_Freed"
    using inv that by (auto simp: tp_inv_def tasks_of_def in_set_conv_nth)
  ultimately show ?thesis using q taken by auto
qed

fun worker_rank :: "worker \<Rightarrow> nat" where
  "worker_rank W_Done = 0"
| "worker_rank W_Check = 1"
| "worker_rank (W_Task d) = 2"
| "worker_rank W_Pop = 2"
| "worker_rank W_Call = 3"

text \<open>
  C20. The destruction of a pool comes to an end: while it joins a worker that has not returned, this worker is
  not waiting and has a step that brings it nearer to its return.
\<close>

theorem thread_pool_join_progress:
  assumes "tp_reach cap num s" "tp_owner s = O_Join j" "j < cap" "tp_workers s ! j \<noteq> W_Done"
  shows "\<exists>s'. worker_step j s s' \<and> worker_rank (tp_workers s' ! j) < worker_rank (tp_workers s ! j)"
proof -
  note inv = tp_inv_reach [OF assms(1)]
  have o: "tp_live s" "\<not> tp_is_run s" "\<not> tb_is_run (pool_queue s)" "j < length (tp_workers s)"
    using inv assms(2,3) by (auto simp: tp_inv_def)
  show ?thesis
  proof (cases "tp_workers s ! j")
    case W_Check
    with o worker_step.w_check [of j s] show ?thesis by fastforce
  next
    case W_Call
    with o worker_step.w_call [of j s] show ?thesis by fastforce
  next
    case W_Pop
    have "cnt is_pop_wait (sy_threads (tp_tb s)) = 0"
      using wake_inv_reach [of True "Suc cap" num 16 "tp_tb s"] inv o(3)
      by (simp add: tp_inv_def wake_inv_def Let_def pool_queue_def)
    then have "\<not> is_pop_wait (sy_threads (tp_tb s) ! j)"
      using worker_bound(2) [OF inv o(4)] by (simp add: cnt_eq_0)
    moreover have "sy_threads (tp_tb s) ! j \<in> {Idle, Pop_Wait (Some 16) 0, Pop_Ready (Some 16) 0}"
      using inv assms(3) unfolding tp_inv_def threads_ok_def by blast
    ultimately have "pop_entry (sy_threads (tp_tb s) ! j)" by (auto simp: pop_entry_def)
    moreover have "threadboundedqueue_pop_block (Some 16) (pool_queue s) = Some (Returns (ERR_STOP, [], pool_queue s))"
      using o(3) by (simp add: threadboundedqueue_pop_block_def)
    ultimately show ?thesis
      using worker_step.w_fails [OF o(4) W_Pop o(1), of ERR_STOP "[]" "pool_queue s"] o(4) W_Pop by fastforce
  next
    case (W_Task d)
    with o worker_step.w_runs [of j s d] show ?thesis by fastforce
  qed (use assms(4) in simp)
qed

section \<open>Two runs\<close>

definition pool_start :: "nat \<Rightarrow> nat \<Rightarrow> tp_sys" where
  "pool_start cap num = the (fix_threadpool_create True True True True cap num)"

lemma pool_start_reach: "tp_reach cap num (pool_start cap num)"
  by (rule tp_reach.tp_start [of True True True True]) (simp add: pool_start_def fix_threadpool_create_def threadboundedqueue_create_def)

lemma pool_start_simps [simp]:
  "tp_live (pool_start cap num)" "tp_is_run (pool_start cap num)" "tp_workers (pool_start cap num) = []"
  "tp_capacity (pool_start cap num) = cap" "tp_owner (pool_start cap num) = O_Create" "tp_ran (pool_start cap num) = []"
  "sy_threads (tp_tb (pool_start cap num)) = replicate (Suc cap) Idle" "sy_log (tp_tb (pool_start cap num)) = []"
  "tb_is_run (pool_queue (pool_start cap num))" "tb_count (pool_queue (pool_start cap num)) = 0"
  by (simp_all add: pool_start_def fix_threadpool_create_def threadboundedqueue_create_def pool_queue_def)

text \<open>A pool of one worker that is destroyed before the worker has started.\<close>

definition pool_joining :: tp_sys where
  "pool_joining = (pool_start 1 2)\<lparr>tp_workers := [W_Check],
     tp_tb := (tp_tb (pool_start 1 2))\<lparr>sy_queue := (pool_queue (pool_start 1 2))\<lparr>tb_is_run := False\<rparr>\<rparr>,
     tp_is_run := False, tp_owner := O_Join 0\<rparr>"

lemma pool_joining_reach: "tp_reach 1 2 pool_joining"
proof -
  let ?s0 = "pool_start 1 2"
  let ?s1 = "?s0\<lparr>tp_workers := [W_Check]\<rparr>"
  let ?s2 = "?s1\<lparr>tp_owner := O_Ready\<rparr>"
  let ?s3 = "?s2\<lparr>tp_tb := (tp_tb ?s2)\<lparr>sy_queue := (pool_queue ?s2)\<lparr>tb_is_run := False\<rparr>, sy_threads := map wake (sy_threads (tp_tb ?s2))\<rparr>,
    tp_owner := O_Stopped\<rparr>"
  let ?s4 = "?s3\<lparr>tp_is_run := False, tp_owner := O_Join 0\<rparr>"
  have "create_step ?s0 ?s1" using create_step.o_thread [of ?s0] by simp
  then have "tp_reach 1 2 ?s1" by (rule tp_reach.tp_create [OF pool_start_reach])
  moreover have "create_step ?s1 ?s2" by (rule create_step.o_created) simp_all
  ultimately have r: "tp_reach 1 2 ?s2" by (rule tp_reach.tp_create)
  have "pool_queue ?s2 = pool_queue ?s0" by (simp add: pool_queue_def)
  then have "threadboundedqueue_stop (pool_queue ?s2) = (True, (pool_queue ?s2)\<lparr>tb_is_run := False\<rparr>)"
    by (simp add: threadboundedqueue_stop_def)
  then have "destroy_step ?s2 ?s3" using destroy_step.o_stop [of ?s2 True] by simp
  with r have "tp_reach 1 2 ?s3" by (rule tp_reach.tp_destroy)
  moreover have "destroy_step ?s3 ?s4" by (rule destroy_step.o_store) simp
  ultimately have "tp_reach 1 2 ?s4" by (rule tp_reach.tp_destroy)
  moreover have "?s4 = pool_joining" by (simp add: pool_joining_def pool_queue_def pool_start_def fix_threadpool_create_def threadboundedqueue_create_def)
  ultimately show ?thesis by simp
qed

theorem thread_pool_runs_tasks_once_witness:
  "tp_reach 1 2 pool_joining \<and> puts (sy_log (tp_tb pool_joining)) =
    gots (sy_log (tp_tb pool_joining)) @ tb_content (pool_queue pool_joining)"
  using thread_pool_runs_tasks_once [OF pool_joining_reach] pool_joining_reach by simp

theorem thread_pool_join_progress_witness:
  "\<exists>s'. worker_step 0 pool_joining s' \<and> worker_rank (tp_workers s' ! 0) < worker_rank (tp_workers pool_joining ! 0)"
  by (rule thread_pool_join_progress [OF pool_joining_reach]) (simp_all add: pool_joining_def)

text \<open>
  C40. When the creation of a thread fails the queue is freed before the threads created so far are stopped.
  A worker that already waits in it then waits in freed memory, nobody can wake it, and the creation waits for
  it in the join: no thread has a step left.
\<close>

theorem thread_pool_create_failure_hangs:
  "\<exists>s. tp_reach (Suc (Suc k)) num s \<and> tp_owner s = O_Fail_Join 0 \<and> \<not> tp_live s \<and> tp_workers s = [W_Pop] \<and>
     is_pop_wait (sy_threads (tp_tb s) ! 0) \<and>
     (\<forall>s'. \<not> create_step s s') \<and> (\<forall>s'. \<not> destroy_step s s') \<and> (\<forall>i s'. \<not> worker_step i s s') \<and> (\<forall>s'. \<not> client_step s s')"
proof -
  let ?s0 = "pool_start (Suc (Suc k)) num"
  let ?s1 = "?s0\<lparr>tp_workers := [W_Check]\<rparr>"
  let ?s2 = "?s0\<lparr>tp_workers := [W_Call]\<rparr>"
  let ?s3 = "?s0\<lparr>tp_workers := [W_Pop]\<rparr>"
  let ?tb = "(tp_tb ?s0)\<lparr>sy_threads := (sy_threads (tp_tb ?s0))[0 := Pop_Wait (Some 16) 0]\<rparr>"
  let ?s4 = "?s3\<lparr>tp_tb := ?tb\<rparr>"
  let ?s5 = "?s4\<lparr>tp_live := False, tp_owner := O_Failed\<rparr>"
  let ?s6 = "?s5\<lparr>tp_is_run := False, tp_owner := O_Fail_Join 0\<rparr>"
  have "create_step ?s0 ?s1" using create_step.o_thread [of ?s0] by simp
  then have 1: "tp_reach (Suc (Suc k)) num ?s1" by (rule tp_reach.tp_create [OF pool_start_reach])
  have "worker_step 0 ?s1 ?s2" using worker_step.w_check [of 0 ?s1] by simp
  then have 2: "tp_reach (Suc (Suc k)) num ?s2" by (rule tp_reach.tp_worker [OF 1])
  have "worker_step 0 ?s2 ?s3" using worker_step.w_call [of 0 ?s2] by simp
  then have 3: "tp_reach (Suc (Suc k)) num ?s3" by (rule tp_reach.tp_worker [OF 2])
  have q: "pool_queue ?s3 = pool_queue ?s0" by (simp add: pool_queue_def)
  have "threadboundedqueue_pop_block (Some 16) (pool_queue ?s3) = Some Blocks"
    unfolding q by (simp add: threadboundedqueue_pop_block_def)
  then have "worker_step 0 ?s3 ?s4" using worker_step.w_waits [of 0 ?s3] by (simp add: pop_entry_def)
  then have 4: "tp_reach (Suc (Suc k)) num ?s4" by (rule tp_reach.tp_worker [OF 3])
  have "create_step ?s4 ?s5" by (rule create_step.o_fails) simp_all
  then have 5: "tp_reach (Suc (Suc k)) num ?s5" by (rule tp_reach.tp_create [OF 4])
  have "create_step ?s5 ?s6" by (rule create_step.o_fail_store) simp
  then have 6: "tp_reach (Suc (Suc k)) num ?s6" by (rule tp_reach.tp_create [OF 5])
  have "\<not> create_step ?s6 s'" "\<not> destroy_step ?s6 s'" "\<not> worker_step i ?s6 s'" "\<not> client_step ?s6 s'" for i s'
    by (auto elim!: create_step.cases destroy_step.cases worker_step.cases client_step.cases)
  with 6 show ?thesis by (intro exI [of _ ?s6]) simp
qed
end
