(* ===== verification/LRU_Cache.thy ===== *)
theory LRU_Cache
  imports Interfaces "HOL-Library.Monad_Syntax" "HOL-Library.Multiset"
begin

text \<open>
  The cache of \<^verbatim>\<open>base/inc/hpp/LRUCache.hpp\<close>: a list of nodes in the order of their last use and a hash map
  from keys to nodes.  Every operation holds the mutex from its first to its last access, \<open>capacity\<close> apart,
  which only reads, so that the calls of several threads are a sequence of calls.  The calls implement a
  sequence of items ordered by recency: the locale \<open>simulation\<close> is interpreted on them.
\<close>

section \<open>The code\<close>

text \<open>
  \<open>node_list_\<close> is a sequence of list nodes, \<open>hash_map_\<close> leads from a key to a node, and the nodes are in a
  store.  Nodes are numbered in the order they are created (\<open>lru_next\<close>), so that an iterator names one node
  for good; an iterator of an erased node must not be used.  Of the callback the model keeps whether it is set,
  and every operation returns the list of the calls it makes.
\<close>

type_synonym node_ref = nat

record ('k, 'v) lru =
  lru_cells :: "node_ref \<Rightarrow> ('k \<times> 'v) option"
  node_list :: "node_ref list"
  hash_map :: "'k \<Rightarrow> node_ref option"
  lru_capacity :: nat
  eviction_callback :: bool
  lru_next :: node_ref

definition LRUCache :: "nat \<Rightarrow> ('k, 'v) lru" where
  "LRUCache capacity = \<lparr>lru_cells = (\<lambda>_. None), node_list = [], hash_map = (\<lambda>_. None),
     lru_capacity = (if capacity = 0 then 1 else capacity), eviction_callback = False, lru_next = 0\<rparr>"

definition set_eviction_callback :: "bool \<Rightarrow> ('k, 'v) lru \<Rightarrow> ('k, 'v) lru" where
  "set_eviction_callback cb s = s\<lparr>eviction_callback := cb\<rparr>"

definition move_to_front :: "node_ref \<Rightarrow> ('k, 'v) lru \<Rightarrow> ('k, 'v) lru option" where
  "move_to_front it s =
     (if it \<notin> set (node_list s) then None
      else if it = hd (node_list s) then Some s
      else Some (s\<lparr>node_list := it # remove1 it (node_list s)\<rparr>))"

text \<open>The erasure of a list node, and the call of the callback if one is set.\<close>

definition list_erase :: "node_ref \<Rightarrow> ('k, 'v) lru \<Rightarrow> ('k, 'v) lru option" where
  "list_erase it s =
     (if it \<notin> set (node_list s) then None
      else Some (s\<lparr>node_list := remove1 it (node_list s), lru_cells := (lru_cells s)(it := None)\<rparr>))"

definition call_back :: "('k, 'v) lru \<Rightarrow> 'k \<times> 'v \<Rightarrow> ('k \<times> 'v) list" where
  "call_back s p = (if eviction_callback s then [p] else [])"

definition evict_lru :: "('k, 'v) lru \<Rightarrow> (('k \<times> 'v) list \<times> ('k, 'v) lru) option" where
  "evict_lru s =
     (if node_list s = [] then Some ([], s)
      else
        do { let it = last (node_list s);
             (k, v) \<leftarrow> lru_cells s it;
             let s' = s\<lparr>hash_map := (hash_map s)(k := None)\<rparr>;
             s' \<leftarrow> list_erase it s';
             Some (call_back s (k, v), s') })"

definition lru_get :: "'k \<Rightarrow> ('k, 'v) lru \<Rightarrow> ('v option \<times> ('k, 'v) lru) option" where
  "lru_get key s =
     (case hash_map s key of
        None \<Rightarrow> Some (None, s)
      | Some it \<Rightarrow>
          do { s \<leftarrow> move_to_front it s;
               (k, v) \<leftarrow> lru_cells s it;
               Some (Some v, s) })"

text \<open>The overload that returns the address of the value: the node it is in, or the null pointer.\<close>

definition lru_get_ptr :: "'k \<Rightarrow> ('k, 'v) lru \<Rightarrow> (node_ref option \<times> ('k, 'v) lru) option" where
  "lru_get_ptr key s =
     (case hash_map s key of
        None \<Rightarrow> Some (None, s)
      | Some it \<Rightarrow> do { s \<leftarrow> move_to_front it s; Some (Some it, s) })"

definition lru_put :: "'k \<Rightarrow> 'v \<Rightarrow> ('k, 'v) lru \<Rightarrow> (bool \<times> ('k \<times> 'v) list \<times> ('k, 'v) lru) option" where
  "lru_put key val s =
     (case hash_map s key of
        Some it \<Rightarrow>
          do { (k, v) \<leftarrow> lru_cells s it;
               let s = s\<lparr>lru_cells := (lru_cells s)(it \<mapsto> (k, val))\<rparr>;
               s \<leftarrow> move_to_front it s;
               Some (False, [], s) }
      | None \<Rightarrow>
          do { (evs, s) \<leftarrow> (if length (node_list s) \<ge> lru_capacity s then evict_lru s else Some ([], s));
               let it = lru_next s;
               let s = s\<lparr>lru_next := it + 1, lru_cells := (lru_cells s)(it \<mapsto> (key, val)), node_list := it # node_list s\<rparr>;
               Some (True, evs, s\<lparr>hash_map := (hash_map s)(key \<mapsto> it)\<rparr>) })"

definition lru_remove :: "'k \<Rightarrow> ('k, 'v) lru \<Rightarrow> (bool \<times> ('k \<times> 'v) list \<times> ('k, 'v) lru) option" where
  "lru_remove key s =
     (case hash_map s key of
        None \<Rightarrow> Some (False, [], s)
      | Some it \<Rightarrow>
          do { (k, v) \<leftarrow> lru_cells s it;
               s' \<leftarrow> list_erase it s;
               Some (True, call_back s (k, v), s'\<lparr>hash_map := (hash_map s')(key := None)\<rparr>) })"

definition lru_contains :: "'k \<Rightarrow> ('k, 'v) lru \<Rightarrow> bool" where
  "lru_contains key s = (hash_map s key \<noteq> None)"

text \<open>The nodes in the order of the list, as \<open>for_each\<close> visits them.\<close>

fun for_each :: "(node_ref \<Rightarrow> ('k \<times> 'v) option) \<Rightarrow> node_ref list \<Rightarrow> ('k \<times> 'v) list option" where
  "for_each cells [] = Some []"
| "for_each cells (it # its) = do { p \<leftarrow> cells it; ps \<leftarrow> for_each cells its; Some (p # ps) }"

definition lru_clear :: "('k, 'v) lru \<Rightarrow> (('k \<times> 'v) list \<times> ('k, 'v) lru) option" where
  "lru_clear s =
     do { evs \<leftarrow> (if eviction_callback s then for_each (lru_cells s) (node_list s) else Some []);
          Some (evs, s\<lparr>node_list := [], lru_cells := (\<lambda>r. if r \<in> set (node_list s) then None else lru_cells s r),
            hash_map := (\<lambda>_. None)\<rparr>) }"

partial_function (option) evict_loop :: "('k \<times> 'v) list \<Rightarrow> ('k, 'v) lru \<Rightarrow> (('k \<times> 'v) list \<times> ('k, 'v) lru) option" where
  "evict_loop evs s =
     (if length (node_list s) > lru_capacity s
      then do { (es, s) \<leftarrow> evict_lru s; evict_loop (evs @ es) s }
      else Some (evs, s))"

definition set_capacity :: "nat \<Rightarrow> ('k, 'v) lru \<Rightarrow> (('k \<times> 'v) list \<times> ('k, 'v) lru) option" where
  "set_capacity new_capacity s =
     (let new_capacity = (if new_capacity = 0 then 1 else new_capacity)
      in evict_loop [] (s\<lparr>lru_capacity := new_capacity\<rparr>))"

text \<open>The loop of \<open>remove_if\<close> over the nodes from \<open>it\<close> on: the number removed and the callbacks made.\<close>

fun remove_if_loop :: "('k \<Rightarrow> 'v \<Rightarrow> bool) \<Rightarrow> node_ref list \<Rightarrow> ('k, 'v) lru \<Rightarrow> (nat \<times> ('k \<times> 'v) list \<times> ('k, 'v) lru) option" where
  "remove_if_loop predicate [] s = Some (0, [], s)"
| "remove_if_loop predicate (it # its) s =
     do { (k, v) \<leftarrow> lru_cells s it;
          if predicate k v then
            do { let s' = s\<lparr>hash_map := (hash_map s)(k := None)\<rparr>;
                 s' \<leftarrow> list_erase it s';
                 (n, evs, s') \<leftarrow> remove_if_loop predicate its s';
                 Some (n + 1, call_back s (k, v) @ evs, s') }
          else remove_if_loop predicate its s }"

definition lru_remove_if :: "('k \<Rightarrow> 'v \<Rightarrow> bool) \<Rightarrow> ('k, 'v) lru \<Rightarrow> (nat \<times> ('k \<times> 'v) list \<times> ('k, 'v) lru) option" where
  "lru_remove_if predicate s = remove_if_loop predicate (node_list s) s"

text \<open>The calls, with what they return and the callbacks they make.\<close>

datatype ('k, 'v) lru_op =
  Get 'k | Put 'k 'v | Remove 'k | Contains 'k | Clear | Size | Empty | Capacity | Set_Capacity nat | For_Each
  | Remove_If "'k \<Rightarrow> 'v \<Rightarrow> bool" | Set_Callback bool

datatype ('k, 'v) lru_ret = R_Value "'v option" | R_Bool bool | R_Nat nat | R_Items "('k \<times> 'v) list" | R_Unit

fun lru_step :: "('k, 'v) lru_op \<Rightarrow> ('k, 'v) lru \<Rightarrow> ((('k, 'v) lru_ret \<times> ('k \<times> 'v) list) \<times> ('k, 'v) lru) option" where
  "lru_step (Get k) s = do { (r, s) \<leftarrow> lru_get k s; Some ((R_Value r, []), s) }"
| "lru_step (Put k v) s = do { (r, evs, s) \<leftarrow> lru_put k v s; Some ((R_Bool r, evs), s) }"
| "lru_step (Remove k) s = do { (r, evs, s) \<leftarrow> lru_remove k s; Some ((R_Bool r, evs), s) }"
| "lru_step (Contains k) s = Some ((R_Bool (lru_contains k s), []), s)"
| "lru_step Clear s = do { (evs, s) \<leftarrow> lru_clear s; Some ((R_Unit, evs), s) }"
| "lru_step Size s = Some ((R_Nat (length (node_list s)), []), s)"
| "lru_step Empty s = Some ((R_Bool (node_list s = []), []), s)"
| "lru_step Capacity s = Some ((R_Nat (lru_capacity s), []), s)"
| "lru_step (Set_Capacity n) s = do { (evs, s) \<leftarrow> set_capacity n s; Some ((R_Unit, evs), s) }"
| "lru_step For_Each s = do { ps \<leftarrow> for_each (lru_cells s) (node_list s); Some ((R_Items ps, []), s) }"
| "lru_step (Remove_If p) s = do { (n, evs, s) \<leftarrow> lru_remove_if p s; Some ((R_Nat n, evs), s) }"
| "lru_step (Set_Callback cb) s = Some ((R_Unit, []), set_eviction_callback cb s)"

section \<open>The specification\<close>

text \<open>
  A cache is the sequence of its items, the one used last first, with a capacity and whether evictions are
  reported.
\<close>

record ('k, 'v) cache =
  items :: "('k \<times> 'v) list"
  cap :: nat
  reports :: bool

definition report :: "('k, 'v) cache \<Rightarrow> ('k \<times> 'v) list \<Rightarrow> ('k \<times> 'v) list" where
  "report c ps = (if reports c then ps else [])"

definition without :: "'k \<Rightarrow> ('k \<times> 'v) list \<Rightarrow> ('k \<times> 'v) list" where
  "without k xs = filter (\<lambda>p. fst p \<noteq> k) xs"

fun lru_spec :: "('k, 'v) lru_op \<Rightarrow> ('k, 'v) cache \<Rightarrow> (('k, 'v) lru_ret \<times> ('k \<times> 'v) list) \<times> ('k, 'v) cache" where
  "lru_spec (Get k) c =
     (case map_of (items c) k of
        None \<Rightarrow> ((R_Value None, []), c)
      | Some v \<Rightarrow> ((R_Value (Some v), []), c\<lparr>items := (k, v) # without k (items c)\<rparr>))"
| "lru_spec (Put k v) c =
     (if map_of (items c) k \<noteq> None then ((R_Bool False, []), c\<lparr>items := (k, v) # without k (items c)\<rparr>)
      else if length (items c) = cap c
      then ((R_Bool True, report c [last (items c)]), c\<lparr>items := (k, v) # butlast (items c)\<rparr>)
      else ((R_Bool True, []), c\<lparr>items := (k, v) # items c\<rparr>))"
| "lru_spec (Remove k) c =
     (case map_of (items c) k of
        None \<Rightarrow> ((R_Bool False, []), c)
      | Some v \<Rightarrow> ((R_Bool True, report c [(k, v)]), c\<lparr>items := without k (items c)\<rparr>))"
| "lru_spec (Contains k) c = ((R_Bool (map_of (items c) k \<noteq> None), []), c)"
| "lru_spec Clear c = ((R_Unit, report c (items c)), c\<lparr>items := []\<rparr>)"
| "lru_spec Size c = ((R_Nat (length (items c)), []), c)"
| "lru_spec Empty c = ((R_Bool (items c = []), []), c)"
| "lru_spec Capacity c = ((R_Nat (cap c), []), c)"
| "lru_spec (Set_Capacity n) c =
     (let n = max 1 n in ((R_Unit, report c (rev (drop n (items c)))), c\<lparr>cap := n, items := take n (items c)\<rparr>))"
| "lru_spec For_Each c = ((R_Items (items c), []), c)"
| "lru_spec (Remove_If p) c =
     (let gone = filter (\<lambda>(k, v). p k v) (items c)
      in ((R_Nat (length gone), report c gone), c\<lparr>items := filter (\<lambda>(k, v). \<not> p k v) (items c)\<rparr>))"
| "lru_spec (Set_Callback cb) c = ((R_Unit, []), c\<lparr>reports := cb\<rparr>)"

section \<open>The invariant\<close>

definition lru_wf :: "('k, 'v) lru \<Rightarrow> bool" where
  "lru_wf s \<longleftrightarrow> distinct (node_list s) \<and> dom (lru_cells s) = set (node_list s) \<and>
     (\<forall>k it. hash_map s k = Some it \<longleftrightarrow> it \<in> set (node_list s) \<and> fst (the (lru_cells s it)) = k) \<and>
     1 \<le> lru_capacity s \<and> (\<forall>it \<in> set (node_list s). it < lru_next s)"

definition lru_inv :: "('k, 'v) lru \<Rightarrow> bool" where
  "lru_inv s \<longleftrightarrow> lru_wf s \<and> length (node_list s) \<le> lru_capacity s"

definition lru_abs :: "('k, 'v) lru \<Rightarrow> ('k, 'v) cache" where
  "lru_abs s = \<lparr>items = map (the \<circ> lru_cells s) (node_list s), cap = lru_capacity s, reports = eviction_callback s\<rparr>"

lemma lru_abs_simps [simp]:
  "items (lru_abs s) = map (the \<circ> lru_cells s) (node_list s)" "cap (lru_abs s) = lru_capacity s"
  "reports (lru_abs s) = eviction_callback s"
  by (simp_all add: lru_abs_def)

lemma report_abs: "report (lru_abs s) [p] = call_back s p"
  by (simp add: report_def call_back_def)

lemma lru_wf_simps:
  assumes "lru_wf s"
  shows "distinct (node_list s)" "dom (lru_cells s) = set (node_list s)"
    "hash_map s k = Some it \<longleftrightarrow> it \<in> set (node_list s) \<and> fst (the (lru_cells s it)) = k"
    "1 \<le> lru_capacity s" "it \<in> set (node_list s) \<Longrightarrow> it < lru_next s"
  using assms by (auto simp: lru_wf_def)

lemma lru_cell:
  assumes "lru_wf s" "it \<in> set (node_list s)"
  obtains k v where "lru_cells s it = Some (k, v)" "hash_map s k = Some it"
proof -
  from assms lru_wf_simps(2) [OF assms(1)] obtain k v where "lru_cells s it = Some (k, v)"
    by (metis domD surj_pair)
  with that lru_wf_simps(3) [OF assms(1), of k it] assms(2) show thesis by simp
qed

lemma lru_key_inj: "lru_wf s \<Longrightarrow> inj_on (fst \<circ> (the \<circ> lru_cells s)) (set (node_list s))"
  by (rule inj_onI) (metis comp_apply lru_wf_simps(3) option.inject)

lemma map_of_keyed:
  assumes "inj_on (fst \<circ> f) (set xs)" "x \<in> set xs"
  shows "map_of (map f xs) (fst (f x)) = Some (snd (f x))"
  using assms by (induction xs) (auto simp: inj_on_def)

lemma without_keyed:
  assumes "inj_on (fst \<circ> f) (set xs)" "x \<in> set xs" "distinct xs"
  shows "without (fst (f x)) (map f xs) = map f (remove1 x xs)"
proof -
  have "filter (\<lambda>y. fst (f y) \<noteq> fst (f x)) xs = filter (\<lambda>y. y \<noteq> x) xs"
    using assms by (intro filter_cong) (auto simp: inj_on_def)
  with assms(3) show ?thesis
    by (simp add: without_def filter_map comp_def distinct_remove1_removeAll removeAll_filter_not_eq neq_commute)
qed

lemma lru_lookup:
  assumes "lru_wf s" "hash_map s k = Some it"
  obtains v where "lru_cells s it = Some (k, v)" "it \<in> set (node_list s)"
    "map_of (items (lru_abs s)) k = Some v"
    "without k (items (lru_abs s)) = map (the \<circ> lru_cells s) (remove1 it (node_list s))"
proof -
  from assms have it: "it \<in> set (node_list s)" "fst (the (lru_cells s it)) = k"
    using lru_wf_simps(3) by metis+
  from lru_cell [OF assms(1) it(1)] it(2) obtain v where v: "lru_cells s it = Some (k, v)" by (metis fst_conv option.sel)
  from that [OF v it(1)] v map_of_keyed [OF lru_key_inj [OF assms(1)] it(1)]
    without_keyed [OF lru_key_inj [OF assms(1)] it(1) lru_wf_simps(1) [OF assms(1)]]
  show thesis by simp
qed

lemma lru_lookup_None: "lru_wf s \<Longrightarrow> hash_map s k = None \<Longrightarrow> map_of (items (lru_abs s)) k = None"
  by (auto simp: map_of_eq_None_iff image_iff) (metis fst_conv lru_wf_simps(3) not_None_eq)

section \<open>Moves, erasures and insertions keep the invariant\<close>

definition front :: "node_ref \<Rightarrow> ('k, 'v) lru \<Rightarrow> ('k, 'v) lru" where
  "front it s = s\<lparr>node_list := it # remove1 it (node_list s)\<rparr>"

definition drop_node :: "node_ref \<Rightarrow> ('k, 'v) lru \<Rightarrow> ('k, 'v) lru" where
  "drop_node it s = s\<lparr>hash_map := (hash_map s)(fst (the (lru_cells s it)) := None),
     node_list := remove1 it (node_list s), lru_cells := (lru_cells s)(it := None)\<rparr>"

definition new_node :: "'k \<Rightarrow> 'v \<Rightarrow> ('k, 'v) lru \<Rightarrow> ('k, 'v) lru" where
  "new_node k v s = s\<lparr>lru_next := lru_next s + 1, lru_cells := (lru_cells s)(lru_next s \<mapsto> (k, v)),
     node_list := lru_next s # node_list s, hash_map := (hash_map s)(k \<mapsto> lru_next s)\<rparr>"

lemma move_to_front_eq: "it \<in> set (node_list s) \<Longrightarrow> move_to_front it s = Some (front it s)"
  by (cases "node_list s") (auto simp: move_to_front_def front_def)

lemma wf_front: "lru_wf s \<Longrightarrow> it \<in> set (node_list s) \<Longrightarrow> lru_wf (front it s)"
  unfolding lru_wf_def front_def by (simp add: insert_absorb)

lemma length_front: "it \<in> set (node_list s) \<Longrightarrow> length (node_list (front it s)) = length (node_list s)"
  using length_pos_if_in_set [of it "node_list s"] by (simp add: front_def length_remove1)

lemma wf_drop_node:
  assumes "lru_wf s" "it \<in> set (node_list s)"
  shows "lru_wf (drop_node it s)"
proof -
  have "hash_map (drop_node it s) k = Some r \<longleftrightarrow>
      r \<in> set (node_list (drop_node it s)) \<and> fst (the (lru_cells (drop_node it s) r)) = k" for k r
    using lru_wf_simps(1) [OF assms(1)] lru_wf_simps(3) [OF assms(1), of k r]
      lru_wf_simps(3) [OF assms(1), of k it] assms(2)
    by (auto simp: drop_node_def)
  with assms show ?thesis by (auto simp: lru_wf_def drop_node_def)
qed

lemma items_drop_node:
  assumes "lru_wf s"
  shows "map (the \<circ> lru_cells (drop_node it s)) (node_list (drop_node it s)) =
    map (the \<circ> lru_cells s) (remove1 it (node_list s))"
  using lru_wf_simps(1) [OF assms] by (auto simp: drop_node_def)

lemma drop_node_simps [simp]:
  "lru_capacity (drop_node it s) = lru_capacity s" "eviction_callback (drop_node it s) = eviction_callback s"
  "node_list (drop_node it s) = remove1 it (node_list s)" "lru_next (drop_node it s) = lru_next s"
  by (simp_all add: drop_node_def)

lemma wf_new_node:
  assumes "lru_wf s" "hash_map s k = None"
  shows "lru_wf (new_node k v s)"
proof -
  have fresh: "lru_next s \<notin> set (node_list s)" using lru_wf_simps(5) [OF assms(1)] by blast
  have "hash_map (new_node k v s) k' = Some r \<longleftrightarrow>
      r \<in> set (node_list (new_node k v s)) \<and> fst (the (lru_cells (new_node k v s) r)) = k'" for k' r
    using fresh lru_wf_simps(3) [OF assms(1), of k' r] assms(2) by (auto simp: new_node_def)
  with assms(1) fresh show ?thesis by (auto simp: lru_wf_def new_node_def less_Suc_eq)
qed

lemma abs_new_node:
  assumes "lru_wf s"
  shows "lru_abs (new_node k v s) = (lru_abs s)\<lparr>items := (k, v) # items (lru_abs s)\<rparr>"
  using lru_wf_simps(5) [OF assms] by (auto simp: new_node_def lru_abs_def)

section \<open>The operations on well-formed caches\<close>

lemma evict_lru_eq:
  assumes "lru_wf s" "node_list s \<noteq> []"
  shows "evict_lru s = Some (call_back s (last (items (lru_abs s))), drop_node (last (node_list s)) s)"
proof -
  from assms(2) have mem: "last (node_list s) \<in> set (node_list s)" by simp
  from lru_cell [OF assms(1) mem] obtain k v where "lru_cells s (last (node_list s)) = Some (k, v)" .
  with assms(2) mem show ?thesis
    by (simp add: evict_lru_def list_erase_def drop_node_def last_map Let_def)
qed

lemma remove1_last: "distinct xs \<Longrightarrow> xs \<noteq> [] \<Longrightarrow> remove1 (last xs) xs = butlast xs"
  by (induction xs) auto

lemma abs_evicted:
  "lru_wf s \<Longrightarrow> node_list s \<noteq> [] \<Longrightarrow>
   lru_abs (drop_node (last (node_list s)) s) = (lru_abs s)\<lparr>items := butlast (items (lru_abs s))\<rparr>"
  using items_drop_node [of s "last (node_list s)"] lru_wf_simps(1) [of s]
  by (simp add: remove1_last map_butlast lru_abs_def)

lemma for_each_eq:
  "set its \<subseteq> dom cells \<Longrightarrow> for_each cells its = Some (map (the \<circ> cells) its)"
  by (induction its) auto

lemma lru_get_sim:
  assumes "lru_inv s"
  shows "\<exists>r s'. lru_step (Get k) s = Some (r, s') \<and> lru_inv s' \<and> lru_spec (Get k) (lru_abs s) = (r, lru_abs s')"
proof (cases "hash_map s k")
  case None
  with assms lru_lookup_None [of s k] show ?thesis by (simp add: lru_get_def lru_inv_def)
next
  case (Some it)
  from assms have wf: "lru_wf s" by (simp add: lru_inv_def)
  from lru_lookup [OF wf Some] obtain v where v: "lru_cells s it = Some (k, v)" "it \<in> set (node_list s)"
    "map_of (items (lru_abs s)) k = Some v"
    "without k (items (lru_abs s)) = map (the \<circ> lru_cells s) (remove1 it (node_list s))" .
  have "lru_step (Get k) s = Some ((R_Value (Some v), []), front it s)"
    using Some v(1,2) by (simp add: lru_get_def move_to_front_eq front_def)
  moreover have "lru_inv (front it s)"
    using assms wf_front [OF wf v(2)] length_front [OF v(2)] by (simp add: lru_inv_def) (simp add: front_def)
  moreover have "lru_spec (Get k) (lru_abs s) = ((R_Value (Some v), []), lru_abs (front it s))"
    using v(1,3,4) by (simp add: lru_abs_def front_def)
  ultimately show ?thesis by blast
qed

text \<open>A new value in a node, which \<open>put\<close> and a client with a pointer write.\<close>

definition set_value :: "node_ref \<Rightarrow> 'k \<Rightarrow> 'v \<Rightarrow> ('k, 'v) lru \<Rightarrow> ('k, 'v) lru" where
  "set_value it k v s = s\<lparr>lru_cells := (lru_cells s)(it \<mapsto> (k, v))\<rparr>"

lemma wf_set_value:
  assumes "lru_wf s" "lru_cells s it = Some (k, v)"
  shows "lru_wf (set_value it k v' s)"
  using assms unfolding lru_wf_def set_value_def by (auto simp: insert_absorb)

lemma lru_put_old_sim:
  assumes "lru_inv s" "hash_map s k = Some it"
  shows "\<exists>r s'. lru_step (Put k v) s = Some (r, s') \<and> lru_inv s' \<and> lru_spec (Put k v) (lru_abs s) = (r, lru_abs s')"
proof -
  from assms have wf: "lru_wf s" by (simp add: lru_inv_def)
  from lru_lookup [OF wf assms(2)] obtain w where w: "lru_cells s it = Some (k, w)" "it \<in> set (node_list s)"
    "map_of (items (lru_abs s)) k = Some w"
    "without k (items (lru_abs s)) = map (the \<circ> lru_cells s) (remove1 it (node_list s))" .
  let ?s = "set_value it k v s"
  have mem: "it \<in> set (node_list ?s)" using w(2) by (simp add: set_value_def)
  have "lru_step (Put k v) s = Some ((R_Bool False, []), front it ?s)"
    using assms(2) w(1) move_to_front_eq [OF mem] by (simp add: lru_put_def set_value_def)
  moreover have "lru_inv (front it ?s)"
    using assms wf_front [OF wf_set_value [OF wf w(1)] mem] length_front [OF mem]
    by (simp add: lru_inv_def) (simp add: front_def set_value_def)
  moreover have "map (the \<circ> lru_cells ?s) (remove1 it (node_list s)) = map (the \<circ> lru_cells s) (remove1 it (node_list s))"
    using lru_wf_simps(1) [OF wf] by (auto simp: set_value_def)
  then have "lru_spec (Put k v) (lru_abs s) = ((R_Bool False, []), lru_abs (front it ?s))"
    using w(3,4) by (simp add: lru_abs_def front_def set_value_def)
  ultimately show ?thesis by blast
qed

lemma lru_put_new:
  assumes "hash_map s k = None"
    "(if length (node_list s) \<ge> lru_capacity s then evict_lru s else Some ([], s)) = Some (evs, s')"
  shows "lru_step (Put k v) s = Some ((R_Bool True, evs), new_node k v s')"
  by (simp only: lru_step.simps lru_put_def assms option.case Let_def) (simp add: new_node_def)

lemma lru_put_new_sim:
  assumes "lru_inv s" "hash_map s k = None"
  shows "\<exists>r s'. lru_step (Put k v) s = Some (r, s') \<and> lru_inv s' \<and> lru_spec (Put k v) (lru_abs s) = (r, lru_abs s')"
proof (cases "length (node_list s) = lru_capacity s")
  case True
  from assms have wf: "lru_wf s" by (simp add: lru_inv_def)
  with True have ne: "node_list s \<noteq> []" using lru_wf_simps(4) by fastforce
  let ?s = "drop_node (last (node_list s)) s"
  have wf': "lru_wf ?s" using wf_drop_node [OF wf] ne by simp
  have h: "hash_map ?s k = None" using assms(2) by (simp add: drop_node_def)
  have "lru_step (Put k v) s = Some ((R_Bool True, call_back s (last (items (lru_abs s)))), new_node k v ?s)"
    by (rule lru_put_new [OF assms(2)]) (simp add: True evict_lru_eq [OF wf ne])
  moreover have "lru_inv (new_node k v ?s)"
    using wf_new_node [OF wf' h] True ne lru_wf_simps(4) [OF wf]
    by (simp add: lru_inv_def) (simp add: new_node_def length_remove1)
  moreover have "lru_abs (new_node k v ?s) = (lru_abs s)\<lparr>items := (k, v) # butlast (items (lru_abs s))\<rparr>"
    by (simp only: abs_new_node [OF wf'] abs_evicted [OF wf ne]) simp
  ultimately show ?thesis using lru_lookup_None [OF wf assms(2)] True by (simp add: report_abs)
next
  case False
  from assms have wf: "lru_wf s" by (simp add: lru_inv_def)
  from False assms(1) have lt: "length (node_list s) < lru_capacity s" by (simp add: lru_inv_def)
  have "lru_step (Put k v) s = Some ((R_Bool True, []), new_node k v s)"
    by (rule lru_put_new [OF assms(2)]) (use lt in simp)
  moreover have "lru_inv (new_node k v s)"
    using wf_new_node [OF wf assms(2)] lt by (simp add: lru_inv_def) (simp add: new_node_def)
  moreover have "lru_abs (new_node k v s) = (lru_abs s)\<lparr>items := (k, v) # items (lru_abs s)\<rparr>"
    by (rule abs_new_node [OF wf])
  ultimately show ?thesis using lru_lookup_None [OF wf assms(2)] False by simp
qed

lemma lru_remove_sim:
  assumes "lru_inv s"
  shows "\<exists>r s'. lru_step (Remove k) s = Some (r, s') \<and> lru_inv s' \<and> lru_spec (Remove k) (lru_abs s) = (r, lru_abs s')"
proof (cases "hash_map s k")
  case None
  with assms lru_lookup_None [of s k] show ?thesis by (simp add: lru_remove_def lru_inv_def)
next
  case (Some it)
  from assms have wf: "lru_wf s" by (simp add: lru_inv_def)
  from lru_lookup [OF wf Some] obtain v where v: "lru_cells s it = Some (k, v)" "it \<in> set (node_list s)"
    "map_of (items (lru_abs s)) k = Some v"
    "without k (items (lru_abs s)) = map (the \<circ> lru_cells s) (remove1 it (node_list s))" .
  have "lru_step (Remove k) s = Some ((R_Bool True, call_back s (k, v)), drop_node it s)"
    using Some v(1,2) by (cases s) (simp add: lru_remove_def list_erase_def drop_node_def)
  moreover have "lru_inv (drop_node it s)"
    using assms wf_drop_node [OF wf v(2)] by (auto simp: lru_inv_def length_remove1)
  moreover have "lru_abs (drop_node it s) = (lru_abs s)\<lparr>items := without k (items (lru_abs s))\<rparr>"
    using v(4) items_drop_node [OF wf, of it] by (simp add: lru_abs_def)
  ultimately show ?thesis using v(3) by (simp add: report_abs)
qed

lemma lru_clear_sim:
  assumes "lru_inv s"
  shows "\<exists>r s'. lru_step Clear s = Some (r, s') \<and> lru_inv s' \<and> lru_spec Clear (lru_abs s) = (r, lru_abs s')"
proof -
  from assms have wf: "lru_wf s" by (simp add: lru_inv_def)
  have "for_each (lru_cells s) (node_list s) = Some (items (lru_abs s))"
    using for_each_eq [of "node_list s" "lru_cells s"] lru_wf_simps(2) [OF wf] by simp
  moreover have "(\<lambda>r. if r \<in> set (node_list s) then None else lru_cells s r) = (\<lambda>_. None)"
    using lru_wf_simps(2) [OF wf] by (auto simp: fun_eq_iff)
  ultimately show ?thesis
    using lru_wf_simps(4) [OF wf] by (auto simp: lru_clear_def lru_inv_def lru_wf_def lru_abs_def report_def)
qed

text \<open>\<open>set_capacity\<close> evicts from the end of the list until the rest fits; its loop ends.\<close>

lemma evict_loop_spec:
  "lru_wf s \<Longrightarrow> \<exists>s'. evict_loop evs s = Some (evs @ report (lru_abs s) (rev (drop (lru_capacity s) (items (lru_abs s)))), s') \<and>
     lru_inv s' \<and> lru_abs s' = (lru_abs s)\<lparr>items := take (lru_capacity s) (items (lru_abs s))\<rparr>"
proof (induction "length (node_list s)" arbitrary: s evs rule: less_induct)
  case less
  show ?case
  proof (cases "length (node_list s) > lru_capacity s")
    case False
    with less.prems show ?thesis
      by (subst evict_loop.simps) (simp add: lru_inv_def lru_abs_def report_def)
  next
    case True
    then have ne: "node_list s \<noteq> []" by auto
    let ?s = "drop_node (last (node_list s)) s" and ?xs = "items (lru_abs s)" and ?c = "lru_capacity s"
    have wf: "lru_wf ?s" using wf_drop_node [OF less.prems] ne by simp
    have len: "length (node_list ?s) < length (node_list s)" using ne by (simp add: length_remove1)
    have it: "items (lru_abs ?s) = butlast ?xs" by (simp only: abs_evicted [OF less.prems ne]) simp
    have cut: "take ?c (butlast ?xs) = take ?c ?xs" "rev (drop ?c ?xs) = last ?xs # rev (drop ?c (butlast ?xs))"
      using True by (simp_all add: take_butlast drop_butlast)
        (metis (no_types, lifting) append_butlast_last_id drop_eq_Nil last_drop length_map linorder_not_le rev_eq_Cons_iff rev_rev_ident drop_butlast)
    from less.hyps [OF len wf, of "evs @ call_back s (last ?xs)"] it obtain s' where s':
      "evict_loop (evs @ call_back s (last ?xs)) ?s =
         Some ((evs @ call_back s (last ?xs)) @ report (lru_abs ?s) (rev (drop ?c (butlast ?xs))), s')"
      "lru_inv s'" "lru_abs s' = (lru_abs ?s)\<lparr>items := take ?c (butlast ?xs)\<rparr>"
      by auto
    have "evict_loop evs s = evict_loop (evs @ call_back s (last ?xs)) ?s"
      using True by (subst evict_loop.simps) (simp add: evict_lru_eq [OF less.prems ne])
    moreover have "call_back s (last ?xs) @ report (lru_abs ?s) (rev (drop ?c (butlast ?xs))) =
        report (lru_abs s) (rev (drop ?c ?xs))"
      by (simp only: cut(2)) (simp add: report_def call_back_def)
    moreover have "lru_abs s' = (lru_abs s)\<lparr>items := take ?c ?xs\<rparr>"
      using s'(3) cut(1) by (simp add: lru_abs_def)
    ultimately show ?thesis using s'(1,2) by simp
  qed
qed

lemma lru_set_capacity_sim:
  assumes "lru_inv s"
  shows "\<exists>r s'. lru_step (Set_Capacity n) s = Some (r, s') \<and> lru_inv s' \<and>
    lru_spec (Set_Capacity n) (lru_abs s) = (r, lru_abs s')"
proof -
  let ?s = "s\<lparr>lru_capacity := max 1 n\<rparr>"
  have "lru_wf ?s" using assms by (simp add: lru_inv_def lru_wf_def)
  from evict_loop_spec [OF this, of "[]"] show ?thesis
    by (auto simp: set_capacity_def Let_def max_def lru_abs_def report_def)
qed

definition hit :: "('k \<Rightarrow> 'v \<Rightarrow> bool) \<Rightarrow> ('k, 'v) lru \<Rightarrow> node_ref \<Rightarrow> bool" where
  "hit p s it = (case the (lru_cells s it) of (k, v) \<Rightarrow> p k v)"

lemma remove_if_loop_spec:
  "lru_wf s \<Longrightarrow> distinct its \<Longrightarrow> set its \<subseteq> set (node_list s) \<Longrightarrow>
   \<exists>s'. remove_if_loop p its s = Some (length (filter (hit p s) its),
        report (lru_abs s) (map (the \<circ> lru_cells s) (filter (hit p s) its)), s') \<and>
     lru_wf s' \<and> lru_capacity s' = lru_capacity s \<and> eviction_callback s' = eviction_callback s \<and>
     node_list s' = filter (\<lambda>it. it \<notin> set its \<or> \<not> hit p s it) (node_list s) \<and>
     (\<forall>it \<in> set (node_list s'). lru_cells s' it = lru_cells s it)"
proof (induction its arbitrary: s)
  case Nil
  then show ?case by (simp add: report_def)
next
  case (Cons it its)
  from Cons.prems(3) have "it \<in> set (node_list s)" by simp
  from lru_cell [OF Cons.prems(1) this] obtain k v where c: "lru_cells s it = Some (k, v)" .
  show ?case
  proof (cases "p k v")
    case False
    with c have "\<not> hit p s it" by (simp add: hit_def)
    moreover from this have "filter (\<lambda>r. r \<notin> set its \<or> \<not> hit p s r) (node_list s) =
        filter (\<lambda>r. r \<notin> set (it # its) \<or> \<not> hit p s r) (node_list s)"
      by (intro filter_cong) auto
    ultimately show ?thesis using Cons.IH [OF Cons.prems(1)] Cons.prems False c by simp
  next
    case True
    let ?s = "drop_node it s"
    have mem: "it \<in> set (node_list s)" and d: "it \<notin> set its" "distinct its" using Cons.prems by auto
    have cells: "r \<noteq> it \<Longrightarrow> lru_cells ?s r = lru_cells s r" for r by (simp add: drop_node_def)
    have hits: "r \<noteq> it \<Longrightarrow> hit p ?s r = hit p s r" for r by (simp add: hit_def cells)
    have same: "filter (hit p ?s) its = filter (hit p s) its" by (rule filter_cong [OF refl]) (metis d(1) hits)
    have vals: "map (the \<circ> lru_cells ?s) (filter (hit p s) its) = map (the \<circ> lru_cells s) (filter (hit p s) its)"
      by (rule map_cong [OF refl]) (use d(1) in \<open>auto simp: drop_node_def\<close>)
    have sub: "set its \<subseteq> set (node_list ?s)" using Cons.prems(3) d(1) lru_wf_simps(1) [OF Cons.prems(1)] by auto
    from Cons.IH [OF wf_drop_node [OF Cons.prems(1) mem] d(2) sub] obtain s' where s':
      "remove_if_loop p its ?s = Some (length (filter (hit p s) its),
         report (lru_abs ?s) (map (the \<circ> lru_cells s) (filter (hit p s) its)), s')"
      "lru_wf s'" "lru_capacity s' = lru_capacity s" "eviction_callback s' = eviction_callback s"
      "node_list s' = filter (\<lambda>r. r \<notin> set its \<or> \<not> hit p ?s r) (remove1 it (node_list s))"
      "\<forall>r \<in> set (node_list s'). lru_cells s' r = lru_cells ?s r"
      unfolding same vals by auto
    have "remove_if_loop p (it # its) s = Some (Suc (length (filter (hit p s) its)),
        call_back s (k, v) @ report (lru_abs ?s) (map (the \<circ> lru_cells s) (filter (hit p s) its)), s')"
      using c True mem s'(1) by (simp add: list_erase_def drop_node_def Let_def)
    moreover have "node_list s' = filter (\<lambda>r. r \<notin> set (it # its) \<or> \<not> hit p s r) (node_list s)"
    proof -
      have "hit p s it" using c True by (simp add: hit_def)
      then have "it \<noteq> r \<and> (r \<notin> set its \<or> \<not> hit p ?s r) \<longleftrightarrow> r \<notin> set (it # its) \<or> \<not> hit p s r"
        if "r \<in> set (node_list s)" for r
        using d(1) hits [of r] by (cases "r = it") auto
      then show ?thesis
        using lru_wf_simps(1) [OF Cons.prems(1)]
        by (simp only: s'(5) distinct_remove1_removeAll removeAll_filter_not_eq filter_filter) (rule filter_cong, auto)
    qed
    moreover have "\<forall>r \<in> set (node_list s'). lru_cells s' r = lru_cells s r"
      using s'(5,6) lru_wf_simps(1) [OF Cons.prems(1)] cells by (metis filter_is_subset set_remove1_eq Diff_iff insertI1 subsetD)
    moreover have "filter (hit p s) (it # its) = it # filter (hit p s) its" using c True by (simp add: hit_def)
    ultimately show ?thesis using s'(2,3,4) c by (simp add: report_def call_back_def)
  qed
qed

lemma lru_remove_if_sim:
  assumes "lru_inv s"
  shows "\<exists>r s'. lru_step (Remove_If p) s = Some (r, s') \<and> lru_inv s' \<and>
    lru_spec (Remove_If p) (lru_abs s) = (r, lru_abs s')"
proof -
  from assms have wf: "lru_wf s" by (simp add: lru_inv_def)
  let ?f = "the \<circ> lru_cells s"
  obtain s' where s': "remove_if_loop p (node_list s) s = Some (length (filter (hit p s) (node_list s)),
      report (lru_abs s) (map ?f (filter (hit p s) (node_list s))), s')"
    "lru_wf s'" "lru_capacity s' = lru_capacity s" "eviction_callback s' = eviction_callback s"
    "node_list s' = filter (\<lambda>it. \<not> hit p s it) (node_list s)"
    "\<forall>it \<in> set (node_list s'). lru_cells s' it = lru_cells s it"
    using remove_if_loop_spec [OF wf lru_wf_simps(1) [OF wf] subset_refl, of p] by (auto cong: filter_cong)
  have hits: "filter (\<lambda>(k, v). p k v) (map ?f xs) = map ?f (filter (hit p s) xs)"
    "filter (\<lambda>(k, v). \<not> p k v) (map ?f xs) = map ?f (filter (\<lambda>it. \<not> hit p s it) xs)" for xs
    by (induction xs) (auto simp: hit_def)
  have "length (node_list s') \<le> lru_capacity s'"
    using assms s'(3,5) le_trans [OF length_filter_le [of "\<lambda>it. \<not> hit p s it" "node_list s"]] by (simp add: lru_inv_def)
  moreover have "lru_abs s' = (lru_abs s)\<lparr>items := filter (\<lambda>(k, v). \<not> p k v) (items (lru_abs s))\<rparr>"
    using s'(3,4,5,6) hits(2) by (simp add: lru_abs_def)
  ultimately show ?thesis using s'(1,2) hits(1) by (simp add: lru_remove_if_def lru_inv_def Let_def)
qed

lemma lru_contains_sim:
  assumes "lru_inv s"
  shows "lru_contains k s \<longleftrightarrow> map_of (items (lru_abs s)) k \<noteq> None"
proof (cases "hash_map s k")
  case None
  with assms lru_lookup_None [of s k] show ?thesis by (simp add: lru_contains_def lru_inv_def)
next
  case (Some it)
  with assms lru_lookup [of s k it "map_of (items (lru_abs s)) k \<noteq> None"] show ?thesis
    by (auto simp: lru_contains_def lru_inv_def)
qed

lemmas lru_sims = lru_get_sim lru_remove_sim lru_clear_sim lru_set_capacity_sim lru_remove_if_sim

lemma lru_step_sim:
  assumes "lru_inv s"
  shows "\<exists>r s'. lru_step x s = Some (r, s') \<and> lru_inv s' \<and> lru_spec x (lru_abs s) = (r, lru_abs s')"
proof (cases x)
  case (Put k v)
  with assms lru_put_old_sim [of s k _ v] lru_put_new_sim [of s k v] show ?thesis by (cases "hash_map s k") blast+
next
  case (Contains k)
  with assms lru_contains_sim [OF assms, of k] show ?thesis by simp
next
  case For_Each
  with assms for_each_eq [of "node_list s" "lru_cells s"] lru_wf_simps(2) [of s] show ?thesis
    by (simp add: lru_inv_def)
next
  case (Set_Callback cb)
  with assms show ?thesis
    by (simp add: set_eviction_callback_def lru_inv_def lru_wf_def lru_abs_def)
qed (use assms lru_sims [OF assms] in \<open>simp_all del: lru_step.simps(1,2,3,5,9,11) lru_spec.simps(1,2,3,5,9,11)\<close>)

interpretation lru: simulation lru_inv lru_abs "\<lambda>_ _. True" lru_step "\<lambda>x c r c'. lru_spec x c = (r, c')"
  by unfold_locales (rule lru_step_sim)

lemma spec_run_function: "spec_run (\<lambda>x c r c'. f x c = (r, c')) xs c rs c' \<Longrightarrow> run_ops (\<lambda>x c. Some (f x c)) xs c = Some (rs, c')"
  by (induction rule: spec_run.induct) auto

lemma LRUCache_inv: "lru_inv (LRUCache n)"
  by (simp add: LRUCache_def lru_inv_def lru_wf_def)

lemma LRUCache_abs: "lru_abs (LRUCache n) = \<lparr>items = [], cap = max 1 n, reports = False\<rparr>"
  by (auto simp: LRUCache_def lru_abs_def)

section \<open>What the cache promises\<close>

text \<open>
  C16. Every sequence of calls on a new cache runs without using an erased node, its eviction loops end, and it
  returns the results and makes the callbacks, in their order, of a sequence of items ordered by their last use
  that drops the item used longest ago when it is full.
\<close>

theorem lru_cache_refines:
  "\<exists>rs s. run_ops lru_step xs (LRUCache n) = Some (rs, s) \<and>
     run_ops (\<lambda>x c. Some (lru_spec x c)) xs \<lparr>items = [], cap = max 1 n, reports = False\<rparr> = Some (rs, lru_abs s) \<and>
     length (node_list s) \<le> lru_capacity s"
proof -
  from lru.run_refines [OF LRUCache_inv [of n] admissible_total [of xs]] obtain rs s where
    "run_ops lru_step xs (LRUCache n) = Some (rs, s)" "lru_inv s"
    "spec_run (\<lambda>x c r c'. lru_spec x c = (r, c')) xs (lru_abs (LRUCache n)) rs (lru_abs s)"
    by auto
  with spec_run_function [of lru_spec xs "lru_abs (LRUCache n)" rs "lru_abs s"] show ?thesis
    by (auto simp: LRUCache_abs lru_inv_def)
qed

text \<open>The keys a call adds.\<close>

fun added :: "('k, 'v) lru_op \<Rightarrow> ('k, 'v) lru_ret \<times> ('k \<times> 'v) list \<Rightarrow> 'k list" where
  "added (Put k v) (R_Bool True, evs) = [k]"
| "added x r = []"

fun keeps_callback :: "('k, 'v) lru_op \<Rightarrow> bool" where
  "keeps_callback (Set_Callback cb) = cb"
| "keeps_callback x = True"

definition cache_keys :: "('k, 'v) cache \<Rightarrow> 'k multiset" where
  "cache_keys c = image_mset fst (mset (items c))"

lemma keys_without:
  assumes "distinct (map fst xs)" "map_of xs k = Some v"
  shows "image_mset fst (mset xs) = add_mset k (image_mset fst (mset (without k xs)))"
  using assms
proof (induction xs)
  case (Cons p xs)
  show ?case
  proof (cases "fst p = k")
    case True
    with Cons.prems(1) have "without k xs = xs" by (auto simp: without_def intro!: filter_True intro: rev_image_eqI)
    with True show ?thesis by (simp add: without_def)
  next
    case False
    with Cons show ?thesis by (cases p) (simp add: without_def)
  qed
qed simp

lemma mset_last_butlast: "xs \<noteq> [] \<Longrightarrow> mset xs = add_mset (last xs) (mset (butlast xs))"
  by (metis append_butlast_last_id mset.simps add_mset_add_single mset_append)

lemma mset_take_drop: "mset (take n xs) + mset (drop n xs) = mset xs"
  by (metis append_take_drop_id mset_append)

lemma keys_partition:
  "image_mset fst (mset xs) =
   image_mset fst (mset (filter (\<lambda>(k, v). \<not> p k v) xs)) + image_mset fst (mset (filter (\<lambda>(k, v). p k v) xs))"
  by (induction xs) (auto simp del: mset_filter)

lemma spec_keys:
  assumes "distinct (map fst (items c))" "1 \<le> cap c" "reports c" "keeps_callback x" "lru_spec x c = (r, c')"
  shows "cache_keys c + mset (added x r) = cache_keys c' + image_mset fst (mset (snd r)) \<and> reports c'"
proof (cases x)
  case (Put k v)
  have "length (items c) = cap c \<Longrightarrow> mset (items c) = add_mset (last (items c)) (mset (butlast (items c)))"
    using assms(2) by (intro mset_last_butlast) auto
  with Put assms(3,5) keys_without [OF assms(1), of k] show ?thesis
    by (auto simp: cache_keys_def report_def split: if_splits)
next
  case (Set_Capacity n)
  have "image_mset fst (mset (items c)) =
      image_mset fst (mset (take (max 1 n) (items c))) + image_mset fst (mset (drop (max 1 n) (items c)))"
    by (simp only: image_mset_union [symmetric] mset_take_drop)
  with Set_Capacity assms(3,5) show ?thesis by (auto simp: cache_keys_def report_def Let_def)
next
  case (Remove_If p)
  with assms(3,5) keys_partition [of "items c" p] show ?thesis
    by (auto simp: cache_keys_def report_def Let_def simp del: mset_filter)
qed (use assms keys_without [OF assms(1)] in \<open>auto simp: cache_keys_def report_def split: option.splits\<close>)

lemma abs_distinct: "lru_wf s \<Longrightarrow> distinct (map fst (items (lru_abs s)))"
  using lru_key_inj [of s] lru_wf_simps(1) [of s] by (simp add: distinct_map comp_assoc)

lemma run_keys:
  assumes "lru_inv s" "eviction_callback s" "list_all keeps_callback xs"
  shows "\<exists>rs s'. run_ops lru_step xs s = Some (rs, s') \<and>
    cache_keys (lru_abs s) + mset (concat (map2 added xs rs)) =
    cache_keys (lru_abs s') + image_mset fst (mset (concat (map snd rs)))"
  using assms
proof (induction xs arbitrary: s)
  case (Cons x xs)
  from lru_step_sim [OF Cons.prems(1), of x] obtain r s1 where s1: "lru_step x s = Some (r, s1)" "lru_inv s1"
    "lru_spec x (lru_abs s) = (r, lru_abs s1)" by blast
  have k: "cache_keys (lru_abs s) + mset (added x r) = cache_keys (lru_abs s1) + image_mset fst (mset (snd r))"
    "eviction_callback s1"
    using spec_keys [OF abs_distinct _ _ _ s1(3)] Cons.prems lru_wf_simps(4) [of s] by (auto simp: lru_inv_def)
  from Cons.IH [OF s1(2) k(2)] Cons.prems(3) obtain rs s' where rs: "run_ops lru_step xs s1 = Some (rs, s')"
    "cache_keys (lru_abs s1) + mset (concat (map2 added xs rs)) =
     cache_keys (lru_abs s') + image_mset fst (mset (concat (map snd rs)))" by auto
  have "cache_keys (lru_abs s) + mset (concat (map2 added (x # xs) (r # rs))) =
      (cache_keys (lru_abs s1) + mset (concat (map2 added xs rs))) + image_mset fst (mset (snd r))"
    using k(1) by (simp add: union_assoc [symmetric])
  then show ?case
    using s1(1) rs by (intro exI [of _ "r # rs"] exI [of _ s']) (simp add: union_assoc union_commute)
qed simp

text \<open>
  While a callback is set no key disappears silently: the keys of the cache and the keys that calls of
  \<open>put\<close> add are, counted, those of the cache afterwards and those the callback was called for.
\<close>

lemma lru_no_silent_loss:
  assumes "lru_inv s" "eviction_callback s" "list_all keeps_callback xs"
  shows "\<exists>rs s'. run_ops lru_step xs s = Some (rs, s') \<and>
    cache_keys (lru_abs s) + mset (concat (map2 added xs rs)) =
    cache_keys (lru_abs s') + image_mset fst (mset (concat (map snd rs)))"
  by (rule run_keys [OF assms])

text \<open>
  The pointer that the second overload of \<open>get\<close> returns is to the value of the key, and a later call of
  \<open>put\<close> for another key can free the node it points into: in a cache of capacity one it does.
\<close>

lemma lru_pointer_dangles:
  assumes "lru_inv s" "lru_capacity s = 1" "hash_map s k = Some it" "k' \<noteq> k"
  shows "\<exists>s1 v rs s2. lru_get_ptr k s = Some (Some it, s1) \<and> lru_cells s1 it = Some (k, v) \<and>
    lru_step (Put k' v') s1 = Some (rs, s2) \<and> lru_cells s2 it = None"
proof -
  from assms(1) have wf: "lru_wf s" by (simp add: lru_inv_def)
  from lru_lookup [OF wf assms(3)] obtain v where v: "lru_cells s it = Some (k, v)" "it \<in> set (node_list s)" .
  have one: "node_list s = [it]"
    using assms(1,2) v(2) by (cases "node_list s") (auto simp: lru_inv_def)
  then have s1: "lru_get_ptr k s = Some (Some it, s)"
    using assms(3) by (simp add: lru_get_ptr_def move_to_front_def)
  have none: "hash_map s k' = None"
  proof (rule ccontr)
    assume "hash_map s k' \<noteq> None"
    then obtain r where "hash_map s k' = Some r" by blast
    with lru_wf_simps(3) [OF wf, of k' r] one v(1) assms(4) show False by auto
  qed
  have "lru_step (Put k' v') s = Some ((R_Bool True, call_back s (last (items (lru_abs s)))), new_node k' v' (drop_node it s))"
    by (rule lru_put_new [OF none]) (use one assms(2) evict_lru_eq [OF wf] in simp)
  moreover have "lru_cells (new_node k' v' (drop_node it s)) it = None"
    using lru_wf_simps(5) [OF wf v(2)] by (simp add: new_node_def drop_node_def)
  ultimately show ?thesis using s1 v(1) by blast
qed

end
