(* ===== verification/Object_Pool.thy ===== *)
theory Object_Pool
  imports Interfaces "HOL-Library.Monad_Syntax"
begin

text \<open>
  The fixed-size memory pool of \<^verbatim>\<open>base/src/utility/objectpool.c\<close> and the functions that the macro of
  \<^verbatim>\<open>base/inc/utility/objectpool.h\<close> generates for a type.  The free list is embedded in the storage: the first
  four bytes of a free block hold the index of the next one.  Allocation and release hold the mutex while they
  use the list, so that the calls of several threads are a sequence of calls.  Shown are that the calls
  implement a map of allocated blocks, for which the locale \<open>simulation\<close> is interpreted, and what a double
  free does.
\<close>

section \<open>The code\<close>

text \<open>
  The storage is the byte array of the caller at the address \<open>pl_base\<close>.  An index is stored in the first four
  bytes of a block in the byte order of the machine, here little-endian.  \<open>ALIGNOF(max_align_t)\<close> is 16.
\<close>

record FixedMemPool =
  pl_storage :: "byte list"
  pl_base :: u64
  aligned_block_size :: u64
  pl_max_blocks :: u32
  free_head :: u32
  used_count :: u32

definition K_INVALID_INDEX :: u32 where
  "K_INVALID_INDEX = 0xFFFFFFFF"

definition u32_bytes :: "u32 \<Rightarrow> byte list" where
  "u32_bytes w = [ucast w, ucast (drop_bit 8 w), ucast (drop_bit 16 w), ucast (drop_bit 24 w)]"

definition bytes_u32 :: "byte list \<Rightarrow> u32" where
  "bytes_u32 bs = ucast (bs ! 0) OR push_bit 8 (ucast (bs ! 1)) OR push_bit 16 (ucast (bs ! 2)) OR push_bit 24 (ucast (bs ! 3))"

definition get_aligned_size :: "u64 \<Rightarrow> u64" where
  "get_aligned_size block_size = (block_size + 16 - 1) AND NOT (16 - 1)"

text \<open>The two forms of \<open>memcpy\<close> between an index variable and the first bytes of block \<open>i\<close>.\<close>

definition block_offset :: "FixedMemPool \<Rightarrow> u32 \<Rightarrow> nat" where
  "block_offset pool i = unat (ucast i * aligned_block_size pool)"

definition load_next :: "FixedMemPool \<Rightarrow> u32 \<Rightarrow> u32 option" where
  "load_next pool i = do { bs \<leftarrow> mem_read (pl_storage pool) (block_offset pool i) 4; Some (bytes_u32 bs) }"

definition store_next :: "FixedMemPool \<Rightarrow> u32 \<Rightarrow> u32 \<Rightarrow> FixedMemPool option" where
  "store_next pool i next_idx =
     do { m \<leftarrow> mem_write (pl_storage pool) (block_offset pool i) (u32_bytes next_idx); Some (pool\<lparr>pl_storage := m\<rparr>) }"

partial_function (option) link_loop :: "u32 \<Rightarrow> u32 \<Rightarrow> FixedMemPool \<Rightarrow> FixedMemPool option" where
  "link_loop max_blocks i pool =
     (if i < max_blocks - 1 then do { pool \<leftarrow> store_next pool i (i + 1); link_loop max_blocks (i + 1) pool }
      else Some pool)"

text \<open>The pool and the storage are given by pointers that may be null; the storage is its address and its bytes.\<close>

definition FixedPool_InitInternal ::
  "FixedMemPool option \<Rightarrow> (u64 \<times> byte list) option \<Rightarrow> u64 \<Rightarrow> u32 \<Rightarrow> FixedMemPool option option" where
  "FixedPool_InitInternal pool storage block_size max_blocks =
     (case (pool, storage) of
        (Some p, Some (b, m)) \<Rightarrow>
          if max_blocks = 0 \<or> max_blocks \<ge> K_INVALID_INDEX then Some pool
          else if block_size < 4 then Some pool
          else
            do { let p = p\<lparr>pl_storage := m, pl_base := b, aligned_block_size := get_aligned_size block_size,
                   pl_max_blocks := max_blocks, used_count := 0, free_head := 0\<rparr>;
                 p \<leftarrow> link_loop max_blocks 0 p;
                 p \<leftarrow> store_next p (max_blocks - 1) K_INVALID_INDEX;
                 Some (Some p) }
      | _ \<Rightarrow> Some pool)"

text \<open>Addresses are 64-bit words, null is 0.  An operation on a null pool returns at once.\<close>

definition FixedPool_Allocate :: "FixedMemPool option \<Rightarrow> (u64 \<times> FixedMemPool option) option" where
  "FixedPool_Allocate pool =
     (case pool of
        None \<Rightarrow> Some (0, None)
      | Some p \<Rightarrow>
          if free_head p = K_INVALID_INDEX then Some (0, Some p)
          else
            do { let idx = free_head p;
                 next_idx \<leftarrow> load_next p idx;
                 let p = p\<lparr>free_head := next_idx, used_count := used_count p + 1\<rparr>;
                 Some (pl_base p + ucast idx * aligned_block_size p, Some p) })"

definition FixedPool_OwnsPointer :: "FixedMemPool option \<Rightarrow> u64 \<Rightarrow> bool" where
  "FixedPool_OwnsPointer pool ptr =
     (case pool of
        None \<Rightarrow> False
      | Some p \<Rightarrow>
          if ptr = 0 then False
          else
            let total_size = aligned_block_size p * ucast (pl_max_blocks p)
            in if ptr < pl_base p \<or> ptr \<ge> pl_base p + total_size then False
               else if (ptr - pl_base p) mod aligned_block_size p \<noteq> 0 then False
               else True)"

definition FixedPool_Free :: "FixedMemPool option \<Rightarrow> u64 \<Rightarrow> FixedMemPool option option" where
  "FixedPool_Free pool ptr =
     (case pool of
        None \<Rightarrow> Some None
      | Some p \<Rightarrow>
          if ptr = 0 then Some (Some p)
          else if \<not> FixedPool_OwnsPointer (Some p) ptr then Some (Some p)
          else
            do { let offset = ptr - pl_base p;
                 let idx = ucast (offset div aligned_block_size p);
                 p \<leftarrow> store_next p idx (free_head p);
                 let p = p\<lparr>free_head := idx\<rparr>;
                 Some (Some (if used_count p > 0 then p\<lparr>used_count := used_count p - 1\<rparr> else p)) })"

definition FixedPool_GetCapacity :: "FixedMemPool option \<Rightarrow> u32" where
  "FixedPool_GetCapacity pool = (case pool of None \<Rightarrow> 0 | Some p \<Rightarrow> pl_max_blocks p)"

definition FixedPool_GetFreeCount :: "FixedMemPool option \<Rightarrow> u32" where
  "FixedPool_GetFreeCount pool = (case pool of None \<Rightarrow> 0 | Some p \<Rightarrow> pl_max_blocks p - used_count p)"

definition FixedPool_GetUsedCount :: "FixedMemPool option \<Rightarrow> u32" where
  "FixedPool_GetUsedCount pool = (case pool of None \<Rightarrow> 0 | Some p \<Rightarrow> used_count p)"

text \<open>The functions the macro \<open>DEFINE_FIXED_OBJECT_POOL\<close> generates for a type of \<open>sizeof_type\<close> bytes.\<close>

definition client_write :: "FixedMemPool \<Rightarrow> u64 \<Rightarrow> nat \<Rightarrow> byte list \<Rightarrow> FixedMemPool option" where
  "client_write p ptr off bs =
     do { m \<leftarrow> mem_write (pl_storage p) (unat (ptr - pl_base p) + off) bs; Some (p\<lparr>pl_storage := m\<rparr>) }"

definition Pool_Init :: "u64 \<Rightarrow> u32 \<Rightarrow> FixedMemPool \<Rightarrow> u64 \<times> byte list \<Rightarrow> FixedMemPool option option" where
  "Pool_Init sizeof_type max_count p storage =
     (let b_size = (if sizeof_type > 4 then sizeof_type else 4)
      in FixedPool_InitInternal (Some p) (Some storage) b_size max_count)"

definition Pool_Create :: "u64 \<Rightarrow> FixedMemPool option \<Rightarrow> (u64 \<times> FixedMemPool option) option" where
  "Pool_Create sizeof_type pool =
     do { (mem, pool) \<leftarrow> FixedPool_Allocate pool;
          if mem = 0 then Some (0, pool)
          else
            (case pool of
               None \<Rightarrow> None
             | Some p \<Rightarrow> do { p \<leftarrow> client_write p mem 0 (replicate (unat sizeof_type) 0); Some (mem, Some p) }) }"

definition Pool_Destroy :: "FixedMemPool option \<Rightarrow> u64 \<Rightarrow> FixedMemPool option option" where
  "Pool_Destroy pool obj = (if obj = 0 then Some pool else FixedPool_Free pool obj)"

section \<open>Blocks and the free list\<close>

definition block_at :: "nat \<Rightarrow> byte list \<Rightarrow> nat \<Rightarrow> byte list" where
  "block_at z m i = take z (drop (i * z) m)"

lemma block_write:
  assumes "mem_write m (j * z + off) bs = Some m'" "off + length bs \<le> z" "n * z \<le> length m" "i < n" "j < n"
  shows "block_at z m' i =
    (if i = j then take off (block_at z m j) @ bs @ drop (off + length bs) (block_at z m j) else block_at z m i)"
proof -
  have bound: "Suc k * z \<le> length m" if "k < n" for k
    using assms(3) mult_le_mono1 [of "Suc k" n z] that by linarith
  have len: "length m' = length m" using assms(1) by (rule mem_write_length)
  have apart: "\<not> (j * z + off \<le> i * z + x \<and> i * z + x < j * z + off + length bs)" if "i \<noteq> j" "x < z" for x
  proof (cases "i < j")
    case True
    then have "Suc i * z \<le> j * z" by (intro mult_le_mono1) simp
    with that show ?thesis by simp
  next
    case False
    with that have "Suc j * z \<le> i * z" by (intro mult_le_mono1) simp
    with assms(2) show ?thesis by simp
  qed
  have inside: "i * z + x < length m" if "x < z" for x using bound [OF assms(4)] that by simp
  show ?thesis
  proof (cases "i = j")
    case True
    show ?thesis
    proof (rule nth_equalityI)
      show "length (block_at z m' i) = length (if i = j then take off (block_at z m j) @ bs @ drop (off + length bs) (block_at z m j) else block_at z m i)"
        using True bound [OF assms(4)] len assms(2) by (simp add: block_at_def)
    next
      fix x assume "x < length (block_at z m' i)"
      then have x: "x < z" by (simp add: block_at_def)
      with True bound [OF assms(4)] len assms(2) mem_write_nth [OF assms(1) inside [OF x]] inside [OF x]
      show "block_at z m' i ! x = (if i = j then take off (block_at z m j) @ bs @ drop (off + length bs) (block_at z m j) else block_at z m i) ! x"
        by (auto simp: block_at_def nth_append)
    qed
  next
    case False
    have "block_at z m' i = block_at z m i"
    proof (rule nth_equalityI)
      show "length (block_at z m' i) = length (block_at z m i)" using len by (simp add: block_at_def)
    next
      fix x assume "x < length (block_at z m' i)"
      then have x: "x < z" by (simp add: block_at_def)
      with bound [OF assms(4)] len mem_write_nth [OF assms(1) inside [OF x]] apart [OF False x] inside [OF x]
      show "block_at z m' i ! x = block_at z m i ! x" by (simp add: block_at_def)
    qed
    with False show ?thesis by simp
  qed
qed

lemma bytes_u32_bytes [simp]: "bytes_u32 (u32_bytes w @ bs) = w"
proof (rule bit_word_eqI)
  fix k assume "k < LENGTH(32)"
  then consider "k < 8" | "8 \<le> k" "k < 16" | "16 \<le> k" "k < 24" | "24 \<le> k" "k < 32" by fastforce
  then show "bit (bytes_u32 (u32_bytes w @ bs)) k = bit w k"
    by cases (auto simp: bytes_u32_def u32_bytes_def bit_simps)
qed

lemma length_u32_bytes [simp]: "length (u32_bytes w) = 4"
  by (simp add: u32_bytes_def)

fun is_chain :: "FixedMemPool \<Rightarrow> u32 \<Rightarrow> u32 list \<Rightarrow> bool" where
  "is_chain p h [] \<longleftrightarrow> h = K_INVALID_INDEX"
| "is_chain p h (i # is) \<longleftrightarrow> h = i \<and> i < pl_max_blocks p \<and> (\<exists>h'. load_next p i = Some h' \<and> is_chain p h' is)"

text \<open>The free list as the links give it, at most \<open>n\<close> blocks of it.\<close>

fun chain :: "nat \<Rightarrow> FixedMemPool \<Rightarrow> u32 \<Rightarrow> u32 list" where
  "chain 0 p h = []"
| "chain (Suc n) p h =
     (if h = K_INVALID_INDEX then []
      else h # (case load_next p h of None \<Rightarrow> [] | Some h' \<Rightarrow> chain n p h'))"

abbreviation "block_size p \<equiv> unat (aligned_block_size p)"
abbreviation "block_count p \<equiv> unat (pl_max_blocks p)"

definition free_list :: "FixedMemPool \<Rightarrow> u32 list" where
  "free_list p = chain (block_count p) p (free_head p)"

definition pool_geometry :: "FixedMemPool \<Rightarrow> bool" where
  "pool_geometry p \<longleftrightarrow> pl_base p \<noteq> 0 \<and> unat (pl_base p) + length (pl_storage p) < 2 ^ 64 \<and>
     block_count p * block_size p \<le> length (pl_storage p) \<and> 4 \<le> block_size p \<and>
     0 < pl_max_blocks p \<and> pl_max_blocks p < K_INVALID_INDEX"

definition pool_inv :: "FixedMemPool \<Rightarrow> bool" where
  "pool_inv p \<longleftrightarrow> pool_geometry p \<and> is_chain p (free_head p) (free_list p) \<and> distinct (free_list p) \<and>
     unat (used_count p) + length (free_list p) = block_count p"

definition the_block :: "FixedMemPool \<Rightarrow> u32 \<Rightarrow> byte list" where
  "the_block p i = block_at (block_size p) (pl_storage p) (unat i)"

lemma chain_valid: "is_chain p h is \<Longrightarrow> i \<in> set is \<Longrightarrow> i < pl_max_blocks p"
  by (induction p h "is" rule: is_chain.induct) auto

lemma chain_eq:
  "is_chain p h is \<Longrightarrow> length is \<le> n \<Longrightarrow> pl_max_blocks p < K_INVALID_INDEX \<Longrightarrow> chain n p h = is"
proof (induction p h "is" arbitrary: n rule: is_chain.induct)
  case (1 p h)
  then show ?case by (cases n) auto
next
  case (2 p h i "is")
  then obtain m h' where "n = Suc m" "load_next p i = Some h'" "is_chain p h' is" "h = i" "i < pl_max_blocks p"
    by (cases n) auto
  with 2 show ?case by auto
qed

lemma unat_u32_bound: "unat (i :: u32) < 2 ^ 32"
  using unsigned_less [of i] by simp

lemma unat_eq_iff [simp]: "unat (i :: u32) = unat j \<longleftrightarrow> i = j"
  by (simp add: word_unat_eq_iff)

lemma unat_index [simp]: "unat (ucast (i :: u32) :: u64) = unat i"
proof -
  have "unat i < 2 ^ 64" using unat_u32_bound [of i] by simp
  then show ?thesis by (simp add: unsigned_ucast_eq take_bit_nat_eq_self)
qed

lemma chain_length:
  assumes "is_chain p h is" "distinct is"
  shows "length is \<le> block_count p"
proof -
  have "unat ` set is \<subseteq> {..<block_count p}" using chain_valid [OF assms(1)] by (auto simp: word_less_nat_alt)
  then have "card (unat ` set is) \<le> block_count p" using card_mono [of "{..<block_count p}"] by fastforce
  moreover have "card (unat ` set is) = length is"
    using assms(2) card_image [of unat "set is"] by (simp add: inj_on_def distinct_card)
  ultimately show ?thesis by simp
qed

lemma chain_cong:
  assumes "is_chain p h is" "pl_max_blocks p' = pl_max_blocks p" "\<And>i. i \<in> set is \<Longrightarrow> load_next p' i = load_next p i"
  shows "is_chain p' h is"
  using assms by (induction p h "is" rule: is_chain.induct) auto

lemma pool_invI:
  assumes "pool_geometry p" "is_chain p (free_head p) is" "distinct is" "unat (used_count p) + length is = block_count p"
  shows "pool_inv p \<and> free_list p = is"
proof -
  have "free_list p = is" unfolding free_list_def
    using chain_eq [OF assms(2) chain_length [OF assms(2,3)]] assms(1) by (simp add: pool_geometry_def)
  with assms show ?thesis by (simp add: pool_inv_def)
qed

section \<open>Reading and writing blocks\<close>

lemma block_offset_eq:
  assumes "pool_geometry p" "i < pl_max_blocks p"
  shows "block_offset p i = unat i * block_size p"
    and "unat i * block_size p + block_size p \<le> length (pl_storage p)"
proof -
  from assms have "Suc (unat i) * block_size p \<le> block_count p * block_size p"
    by (intro mult_le_mono1) (simp add: word_less_nat_alt Suc_le_eq)
  with assms(1) show le: "unat i * block_size p + block_size p \<le> length (pl_storage p)"
    by (simp add: pool_geometry_def)
  from le assms(1) have "unat (ucast i :: u64) * block_size p < 2 ^ LENGTH(64)" by (simp add: pool_geometry_def)
  then show "block_offset p i = unat i * block_size p"
    unfolding block_offset_def by (simp add: unat_mult_no_wrap)
qed

lemma load_next_eq:
  assumes "pool_geometry p" "i < pl_max_blocks p"
  shows "load_next p i = Some (bytes_u32 (the_block p i))"
proof -
  have "mem_read (pl_storage p) (block_offset p i) 4 = Some (take 4 (the_block p i))"
    using block_offset_eq [OF assms] assms(1)
    by (simp add: mem_read_def the_block_def block_at_def pool_geometry_def min_def)
  moreover have "bytes_u32 (take 4 bs) = bytes_u32 bs" for bs by (simp add: bytes_u32_def)
  ultimately show ?thesis by (simp add: load_next_def)
qed

definition set_block :: "FixedMemPool \<Rightarrow> u32 \<Rightarrow> nat \<Rightarrow> byte list \<Rightarrow> FixedMemPool" where
  "set_block p i off bs = p\<lparr>pl_storage := the (mem_write (pl_storage p) (unat i * block_size p + off) bs)\<rparr>"

lemma set_block_simps [simp]:
  "aligned_block_size (set_block p i off bs) = aligned_block_size p" "pl_max_blocks (set_block p i off bs) = pl_max_blocks p"
  "free_head (set_block p i off bs) = free_head p" "used_count (set_block p i off bs) = used_count p"
  "pl_base (set_block p i off bs) = pl_base p"
  by (simp_all add: set_block_def)

lemma set_block:
  assumes "pool_geometry p" "i < pl_max_blocks p" "off + length bs \<le> block_size p"
  shows "mem_write (pl_storage p) (unat i * block_size p + off) bs = Some (pl_storage (set_block p i off bs))"
    and "pool_geometry (set_block p i off bs)"
    and "j < pl_max_blocks p \<Longrightarrow> the_block (set_block p i off bs) j =
      (if j = i then take off (the_block p i) @ bs @ drop (off + length bs) (the_block p i) else the_block p j)"
proof -
  have w: "mem_write (pl_storage p) (unat i * block_size p + off) bs = Some (pl_storage (set_block p i off bs))"
    using block_offset_eq(2) [OF assms(1,2)] assms(3) by (simp add: mem_write_def set_block_def)
  show "mem_write (pl_storage p) (unat i * block_size p + off) bs = Some (pl_storage (set_block p i off bs))" by (rule w)
  show "pool_geometry (set_block p i off bs)"
    using assms(1) mem_write_length [OF w] by (simp add: pool_geometry_def)
  assume "j < pl_max_blocks p"
  with block_write [OF w assms(3), of "block_count p" "unat j"] assms(1,2)
  show "the_block (set_block p i off bs) j =
      (if j = i then take off (the_block p i) @ bs @ drop (off + length bs) (the_block p i) else the_block p j)"
    by (auto simp: the_block_def pool_geometry_def word_less_nat_alt)
qed

lemma store_next_eq:
  assumes "pool_geometry p" "i < pl_max_blocks p"
  shows "store_next p i x = Some (set_block p i 0 (u32_bytes x))"
proof -
  from assms(1) have "4 \<le> block_size p" by (simp add: pool_geometry_def)
  then have "mem_write (pl_storage p) (block_offset p i) (u32_bytes x) = Some (pl_storage (set_block p i 0 (u32_bytes x)))"
    using set_block(1) [OF assms, of 0 "u32_bytes x"] block_offset_eq(1) [OF assms] by simp
  then show ?thesis unfolding store_next_def by (simp only: Option.bind.simps) (simp add: set_block_def)
qed

lemma load_set_block:
  assumes "pool_geometry p" "i < pl_max_blocks p" "j < pl_max_blocks p"
  shows "off + length bs \<le> block_size p \<Longrightarrow> j \<noteq> i \<Longrightarrow> load_next (set_block p i off bs) j = load_next p j"
    and "load_next (set_block p i 0 (u32_bytes x)) i = Some x"
  using assms load_next_eq [OF assms(1,3)] load_next_eq [OF set_block(2) [OF assms(1,2)], of off bs j]
    load_next_eq [OF set_block(2) [OF assms(1,2)], of 0 "u32_bytes x" i]
    set_block(3) [OF assms(1,2)] by (simp_all add: pool_geometry_def)

section \<open>Initialisation\<close>

lemma and_not_eq_minus: "(x :: u64) AND NOT y = x - (x AND y)"
proof -
  have "x - (x AND y) = x AND NOT (x AND y)" by (rule disjunctive_diff) (simp add: bit_and_iff)
  also have "\<dots> = x AND NOT y" by (rule bit_word_eqI) (auto simp: bit_simps)
  finally show ?thesis by simp
qed

lemma get_aligned_size_eq:
  assumes "unat b + 15 < 2 ^ 64"
  shows "unat (get_aligned_size b) = (unat b + 15) div 16 * 16"
proof -
  have x: "unat (b + 15) = unat b + 15" using assms by (subst unat_add_no_wrap) simp_all
  have "unat ((b + 15) AND 15) = unat (b + 15) mod 16" using unat_and_mask_pow [of "15 :: u64" 4 "b + 15"] by simp
  then have "unat ((b + 15) - ((b + 15) AND 15)) = unat (b + 15) - unat (b + 15) mod 16"
    by (subst unat_sub) (simp_all add: word_le_nat_alt)
  moreover have "get_aligned_size b = (b + 15) - ((b + 15) AND 15)"
    unfolding get_aligned_size_def and_not_eq_minus by (simp add: add.commute)
  ultimately show ?thesis by (simp add: x minus_mod_eq_div_mult)
qed

lemma link_loop_spec:
  assumes "pool_geometry p" "i < pl_max_blocks p"
  shows "\<exists>q. link_loop (pl_max_blocks p) i p = Some q \<and> pool_geometry q \<and> pl_max_blocks q = pl_max_blocks p \<and>
    pl_base q = pl_base p \<and> aligned_block_size q = aligned_block_size p \<and> free_head q = free_head p \<and>
    used_count q = used_count p \<and> length (pl_storage q) = length (pl_storage p) \<and>
    (\<forall>j. j < i \<longrightarrow> load_next q j = load_next p j) \<and>
    (\<forall>j. i \<le> j \<and> j < pl_max_blocks p - 1 \<longrightarrow> load_next q j = Some (j + 1))"
  using assms
proof (induction "block_count p - unat i" arbitrary: i p rule: less_induct)
  case less
  let ?n = "pl_max_blocks p"
  have n1: "unat (?n - 1) = block_count p - 1"
    using less.prems(2) by (intro unat_minus_one) auto
  show ?case
  proof (cases "i < ?n - 1")
    case False
    then show ?thesis using less.prems by (subst link_loop.simps) auto
  next
    case True
    let ?p = "set_block p i 0 (u32_bytes (i + 1))"
    have i1: "unat (i + 1) = unat i + 1"
      using True n1 unat_u32_bound [of ?n] by (subst unat_add_no_wrap) (auto simp: word_less_nat_alt)
    have four: "0 + length (u32_bytes (i + 1)) \<le> block_size p" using less.prems(1) by (simp add: pool_geometry_def)
    have lt: "i + 1 < pl_max_blocks ?p" using True n1 i1 by (simp add: word_less_nat_alt)
    have dec: "block_count ?p - unat (i + 1) < block_count p - unat i" using lt i1 by (simp add: word_less_nat_alt)
    from less.hyps [OF dec set_block(2) [OF less.prems four] lt] obtain q where q:
      "link_loop ?n (i + 1) ?p = Some q" "pool_geometry q" "pl_max_blocks q = ?n" "pl_base q = pl_base p"
      "aligned_block_size q = aligned_block_size p" "free_head q = free_head p" "used_count q = used_count p"
      "length (pl_storage q) = length (pl_storage ?p)" "\<forall>j. j < i + 1 \<longrightarrow> load_next q j = load_next ?p j"
      "\<forall>j. i + 1 \<le> j \<and> j < ?n - 1 \<longrightarrow> load_next q j = Some (j + 1)"
      by auto
    have "link_loop ?n i p = Some q"
      using True store_next_eq [OF less.prems] q(1) by (subst link_loop.simps) simp
    moreover have "length (pl_storage ?p) = length (pl_storage p)"
      using mem_write_length [OF set_block(1) [OF less.prems four]] .
    moreover have "load_next q j = load_next p j" if "j < i" for j
    proof -
      have "j < i + 1" "j < ?n" "j \<noteq> i" using that i1 less.prems(2) by (auto simp: word_less_nat_alt)
      with q(9) load_set_block(1) [OF less.prems _ four] show ?thesis by simp
    qed
    moreover have "load_next q j = Some (j + 1)" if "i \<le> j" "j < ?n - 1" for j
    proof (cases "j = i")
      case True
      have "i < i + 1" using i1 by (simp add: word_less_nat_alt)
      with q(9) load_set_block(2) [OF less.prems less.prems(2)] True show ?thesis by simp
    next
      case False
      with that(1) i1 have "i + 1 \<le> j" unfolding word_le_nat_alt i1 by (simp add: Suc_le_eq le_neq_implies_less)
      with q(10) that(2) show ?thesis by simp
    qed
    ultimately show ?thesis using q by auto
  qed
qed

lemma linked_chain:
  assumes "\<forall>j. j < pl_max_blocks q - 1 \<longrightarrow> load_next q j = Some (j + 1)"
    "load_next q (pl_max_blocks q - 1) = Some K_INVALID_INDEX" "k < block_count q"
  shows "is_chain q (of_nat k) (map of_nat [k..<block_count q])"
  using assms(3)
proof (induction "block_count q - k" arbitrary: k rule: less_induct)
  case less
  let ?n = "block_count q"
  have small: "unat (of_nat k :: u32) = k" using less.prems unat_u32_bound [of "pl_max_blocks q"] by (simp add: unat_of_nat_small)
  have n1: "unat (pl_max_blocks q - 1) = ?n - 1" using less.prems by (intro unat_minus_one) auto
  have lt: "of_nat k < pl_max_blocks q" using small less.prems by (simp add: word_less_nat_alt)
  show ?case
  proof (cases "Suc k = ?n")
    case True
    then have "of_nat k = pl_max_blocks q - 1" using n1 small by (metis unat_eq_iff diff_Suc_1)
    with True assms(2) lt show ?thesis by (simp add: upt_conv_Cons)
  next
    case False
    with less.prems have "Suc k < ?n" by simp
    moreover from this have "of_nat k < pl_max_blocks q - 1" using n1 small by (simp add: word_less_nat_alt)
    ultimately show ?thesis
      using less.hyps [of "Suc k"] assms(1) lt less.prems by (simp add: upt_conv_Cons add.commute)
  qed
qed

definition fits :: "u64 \<Rightarrow> u32 \<Rightarrow> u64 \<times> byte list \<Rightarrow> bool" where
  "fits b n st \<longleftrightarrow> fst st \<noteq> 0 \<and> unat (fst st) + length (snd st) < 2 ^ 64 \<and> 0 < n \<and> n < K_INVALID_INDEX \<and> 4 \<le> b \<and>
     unat b + 15 < 2 ^ 64 \<and> unat n * unat (get_aligned_size b) \<le> length (snd st)"

lemma init_spec:
  assumes "fits b n st"
  shows "\<exists>q. FixedPool_InitInternal (Some p) (Some st) b n = Some (Some q) \<and> pool_inv q \<and>
    free_list q = map of_nat [0..<unat n] \<and> pl_max_blocks q = n \<and> pl_base q = fst st \<and>
    aligned_block_size q = get_aligned_size b"
proof -
  obtain a m where st: "st = (a, m)" by fastforce
  let ?p = "p\<lparr>pl_storage := m, pl_base := a, aligned_block_size := get_aligned_size b, pl_max_blocks := n,
    used_count := 0, free_head := 0\<rparr>"
  have "4 \<le> unat b" using assms by (simp add: fits_def word_le_nat_alt)
  then have "4 \<le> unat (get_aligned_size b)" using assms get_aligned_size_eq [of b] by (simp add: fits_def)
  then have geo: "pool_geometry ?p" and pos: "0 < pl_max_blocks ?p" using assms st by (simp_all add: fits_def pool_geometry_def)
  from link_loop_spec [OF geo pos] obtain q where q: "link_loop n 0 ?p = Some q" "pool_geometry q"
    "pl_max_blocks q = n" "pl_base q = a" "aligned_block_size q = get_aligned_size b" "free_head q = 0" "used_count q = 0"
    "\<forall>j. j < n - 1 \<longrightarrow> load_next q j = Some (j + 1)" by auto
  let ?q = "set_block q (n - 1) 0 (u32_bytes K_INVALID_INDEX)"
  have n1: "unat (n - 1) = unat n - 1" using pos by (simp add: unat_minus_one word_greater_zero_iff)
  have last: "n - 1 < pl_max_blocks q" using pos n1 q(3) by (simp add: word_less_nat_alt)
  have four: "0 + length (u32_bytes K_INVALID_INDEX) \<le> block_size q" using q(2) by (simp add: pool_geometry_def)
  have "load_next ?q j = Some (j + 1)" if "j < n - 1" for j
  proof -
    have "j < pl_max_blocks q" using that last by (rule order.strict_trans)
    with q(8) that load_set_block(1) [OF q(2) last _ four, of j] show ?thesis by auto
  qed
  moreover have "load_next ?q (n - 1) = Some K_INVALID_INDEX" by (rule load_set_block(2) [OF q(2) last last])
  ultimately have "is_chain ?q (of_nat 0) (map of_nat [0..<block_count ?q])"
    using linked_chain [of ?q 0] q(3) pos by (simp add: word_less_nat_alt)
  moreover have "distinct (map (of_nat :: nat \<Rightarrow> u32) [0..<unat n])"
  proof -
    have "unat (of_nat k :: u32) = k" if "k < unat n" for k
      using that unat_u32_bound [of n] by (intro unat_of_nat_small) simp
    then show ?thesis unfolding distinct_map by (auto intro!: inj_onI) metis
  qed
  ultimately have "pool_inv ?q \<and> free_list ?q = map of_nat [0..<unat n]"
    using set_block(2) [OF q(2) last four] q by (intro pool_invI) simp_all
  moreover have "FixedPool_InitInternal (Some p) (Some st) b n = Some (Some ?q)"
  proof -
    have "n \<noteq> 0" "\<not> K_INVALID_INDEX \<le> n" "\<not> b < 4" using assms by (auto simp: fits_def)
    with q(1) store_next_eq [OF q(2) last] st show ?thesis by (simp add: FixedPool_InitInternal_def)
  qed
  ultimately show ?thesis using q st by auto
qed

section \<open>Addresses of blocks\<close>

definition block_addr :: "u64 \<Rightarrow> u64 \<Rightarrow> u32 \<Rightarrow> u64" where
  "block_addr b z i = b + ucast i * z"

lemma block_addr_facts:
  assumes "pool_geometry p" "i < pl_max_blocks p"
  shows "unat (block_addr (pl_base p) (aligned_block_size p) i) = unat (pl_base p) + unat i * block_size p"
    and "block_addr (pl_base p) (aligned_block_size p) i \<noteq> 0"
    and "unat (block_addr (pl_base p) (aligned_block_size p) i - pl_base p) = unat i * block_size p"
    and "ucast ((block_addr (pl_base p) (aligned_block_size p) i - pl_base p) div aligned_block_size p) = i"
proof -
  let ?a = "block_addr (pl_base p) (aligned_block_size p) i"
  have off: "unat (ucast i * aligned_block_size p) = unat i * block_size p"
    using block_offset_eq(1) [OF assms] by (simp add: block_offset_def)
  have "unat (pl_base p) + unat (ucast i * aligned_block_size p) < 2 ^ LENGTH(64)"
    using block_offset_eq(2) [OF assms] assms(1) by (simp add: off pool_geometry_def)
  then show u: "unat ?a = unat (pl_base p) + unat i * block_size p"
    unfolding block_addr_def by (simp only: unat_add_no_wrap off)
  have "unat (pl_base p) \<noteq> 0" using assms(1) by (simp add: pool_geometry_def unat_eq_0)
  with u have "unat ?a \<noteq> 0" by simp
  then show "?a \<noteq> 0" by (metis unat_0)
  show d: "unat (?a - pl_base p) = unat i * block_size p" by (simp add: block_addr_def off)
  have "unat ((?a - pl_base p) div aligned_block_size p) = unat i"
    using assms(1) by (simp add: unat_div d pool_geometry_def)
  then have "unat (ucast ((?a - pl_base p) div aligned_block_size p) :: u32) = unat i"
    using unat_u32_bound [of i] by (simp add: unsigned_ucast_eq take_bit_nat_eq_self)
  then show "ucast ((?a - pl_base p) div aligned_block_size p) = i" by simp
qed

lemma owns_iff:
  assumes "pool_geometry p"
  shows "FixedPool_OwnsPointer (Some p) a \<longleftrightarrow>
    (\<exists>i. i < pl_max_blocks p \<and> a = block_addr (pl_base p) (aligned_block_size p) i)" (is "?L \<longleftrightarrow> ?R")
proof -
  let ?z = "aligned_block_size p" and ?n = "pl_max_blocks p"
  have tot: "unat (?z * ucast ?n) = block_size p * block_count p" 
    using assms by (subst unat_mult_no_wrap) (simp_all add: pool_geometry_def mult.commute)
  then have lim: "unat (pl_base p + ?z * ucast ?n) = unat (pl_base p) + block_size p * block_count p"
    using assms by (subst unat_add_no_wrap) (simp_all add: pool_geometry_def mult.commute)
  show ?thesis
  proof
    assume ?L
    then have r: "unat (pl_base p) \<le> unat a" "unat a < unat (pl_base p) + block_size p * block_count p"
      "(a - pl_base p) mod ?z = 0"
      by (auto simp: FixedPool_OwnsPointer_def Let_def word_less_nat_alt word_le_nat_alt lim split: if_splits)
    have d: "unat (a - pl_base p) = unat a - unat (pl_base p)" using r(1) by (simp add: unat_sub word_le_nat_alt)
    have "unat (a - pl_base p) mod block_size p = 0" using r(3) by (metis unat_0 unat_mod)
    then obtain k where k: "unat a - unat (pl_base p) = k * block_size p" unfolding d by (metis mod_0_imp_dvd dvd_def mult.commute)
    have "k * block_size p < block_size p * block_count p" using r(1,2) k by linarith
    then have kn: "k < block_count p" by (metis mult.commute mult_less_cancel1)
    then have ku: "unat (of_nat k :: u32) = k" using unat_u32_bound [of ?n] by (intro unat_of_nat_small) simp
    then have lt: "of_nat k < ?n" using kn by (simp add: word_less_nat_alt)
    have "unat a = unat (block_addr (pl_base p) ?z (of_nat k))"
      using block_addr_facts(1) [OF assms lt] k r(1) ku by simp
    then show ?R using lt by (metis word_unat_eq_iff)
  next
    assume ?R
    then obtain i where i: "i < ?n" "a = block_addr (pl_base p) ?z i" by blast
    have "unat i * block_size p < block_size p * block_count p"
      using assms i(1) by (simp add: pool_geometry_def mult.commute word_less_nat_alt)
    moreover have "(a - pl_base p) mod ?z = 0"
    proof -
      have "unat ((a - pl_base p) mod ?z) = 0" unfolding i(2) unat_mod block_addr_facts(3) [OF assms i(1)] by simp
      then show ?thesis by (metis unat_0 word_unat_eq_iff)
    qed
    ultimately show ?L
      using block_addr_facts(1,2) [OF assms i(1)] i(2)
      by (simp add: FixedPool_OwnsPointer_def Let_def word_less_nat_alt word_le_nat_alt lim not_less not_le)
  qed
qed

lemma block_addr_inj:
  "pool_geometry p \<Longrightarrow> i < pl_max_blocks p \<Longrightarrow> j < pl_max_blocks p \<Longrightarrow>
   block_addr (pl_base p) (aligned_block_size p) i = block_addr (pl_base p) (aligned_block_size p) j \<longleftrightarrow> i = j"
  using block_addr_facts(4) by metis

section \<open>The calls and what they promise\<close>

text \<open>The calls of a client: those of the pool, and the writes into a block it holds a pointer to.\<close>

datatype pool_op =
  P_Allocate | P_Create u64 | P_Free u64 | P_Destroy u64 | P_Write u64 nat "byte list" | P_Owns u64
  | P_Capacity | P_FreeCount | P_UsedCount

datatype pool_ret = P_Ptr u64 | P_Bool bool | P_Count u32 | P_Unit

fun pool_step :: "pool_op \<Rightarrow> FixedMemPool \<Rightarrow> (pool_ret \<times> FixedMemPool) option" where
  "pool_step P_Allocate p = do { (a, q) \<leftarrow> FixedPool_Allocate (Some p); q \<leftarrow> q; Some (P_Ptr a, q) }"
| "pool_step (P_Create z) p = do { (a, q) \<leftarrow> Pool_Create z (Some p); q \<leftarrow> q; Some (P_Ptr a, q) }"
| "pool_step (P_Free a) p = do { q \<leftarrow> FixedPool_Free (Some p) a; q \<leftarrow> q; Some (P_Unit, q) }"
| "pool_step (P_Destroy a) p = do { q \<leftarrow> Pool_Destroy (Some p) a; q \<leftarrow> q; Some (P_Unit, q) }"
| "pool_step (P_Write a off bs) p = do { q \<leftarrow> client_write p a off bs; Some (P_Unit, q) }"
| "pool_step (P_Owns a) p = Some (P_Bool (FixedPool_OwnsPointer (Some p) a), p)"
| "pool_step P_Capacity p = Some (P_Count (FixedPool_GetCapacity (Some p)), p)"
| "pool_step P_FreeCount p = Some (P_Count (FixedPool_GetFreeCount (Some p)), p)"
| "pool_step P_UsedCount p = Some (P_Count (FixedPool_GetUsedCount (Some p)), p)"

text \<open>
  Abstractly a pool is the map from the indices of the allocated blocks to their contents, with the address and
  size of the blocks and their number.
\<close>

record apool =
  ap_base :: u64
  ap_size :: u64
  ap_count :: u32
  ap_blocks :: "u32 \<Rightarrow> byte list option"

definition pool_abs :: "FixedMemPool \<Rightarrow> apool" where
  "pool_abs p = \<lparr>ap_base = pl_base p, ap_size = aligned_block_size p, ap_count = pl_max_blocks p,
     ap_blocks = (\<lambda>i. if i < pl_max_blocks p \<and> i \<notin> set (free_list p) then Some (the_block p i) else None)\<rparr>"

abbreviation ap_addr :: "apool \<Rightarrow> u32 \<Rightarrow> u64" where
  "ap_addr a \<equiv> block_addr (ap_base a) (ap_size a)"

definition is_block :: "apool \<Rightarrow> u64 \<Rightarrow> bool" where
  "is_block a x \<longleftrightarrow> (\<exists>i. i < ap_count a \<and> x = ap_addr a i)"

text \<open>An allocation: a block that nobody holds, or null when all are held.\<close>

definition allocates :: "(byte list \<Rightarrow> bool) \<Rightarrow> apool \<Rightarrow> pool_ret \<Rightarrow> apool \<Rightarrow> bool" where
  "allocates content a r a' \<longleftrightarrow>
     (if card (dom (ap_blocks a)) = unat (ap_count a) then r = P_Ptr 0 \<and> a' = a
      else \<exists>i bs. i < ap_count a \<and> ap_blocks a i = None \<and> r = P_Ptr (ap_addr a i) \<and> ap_addr a i \<noteq> 0 \<and>
        length bs = unat (ap_size a) \<and> content bs \<and> a' = a\<lparr>ap_blocks := (ap_blocks a)(i \<mapsto> bs)\<rparr>)"

definition releases :: "u64 \<Rightarrow> apool \<Rightarrow> pool_ret \<Rightarrow> apool \<Rightarrow> bool" where
  "releases x a r a' \<longleftrightarrow> r = P_Unit \<and>
     (if is_block a x then \<exists>i. i < ap_count a \<and> x = ap_addr a i \<and> a' = a\<lparr>ap_blocks := (ap_blocks a)(i := None)\<rparr> else a' = a)"

fun pool_spec :: "pool_op \<Rightarrow> apool \<Rightarrow> pool_ret \<Rightarrow> apool \<Rightarrow> bool" where
  "pool_spec P_Allocate a r a' \<longleftrightarrow> allocates (\<lambda>_. True) a r a'"
| "pool_spec (P_Create z) a r a' \<longleftrightarrow> allocates (\<lambda>bs. take (unat z) bs = replicate (unat z) 0) a r a'"
| "pool_spec (P_Free x) a r a' \<longleftrightarrow> releases x a r a'"
| "pool_spec (P_Destroy x) a r a' \<longleftrightarrow> releases x a r a'"
| "pool_spec (P_Write x off bs) a r a' \<longleftrightarrow> r = P_Unit \<and>
     (\<exists>i c. x = ap_addr a i \<and> ap_blocks a i = Some c \<and>
        a' = a\<lparr>ap_blocks := (ap_blocks a)(i \<mapsto> take off c @ bs @ drop (off + length bs) c)\<rparr>)"
| "pool_spec (P_Owns x) a r a' \<longleftrightarrow> r = P_Bool (is_block a x) \<and> a' = a"
| "pool_spec P_Capacity a r a' \<longleftrightarrow> r = P_Count (ap_count a) \<and> a' = a"
| "pool_spec P_FreeCount a r a' \<longleftrightarrow> (\<exists>c. r = P_Count c \<and> unat c = unat (ap_count a) - card (dom (ap_blocks a))) \<and> a' = a"
| "pool_spec P_UsedCount a r a' \<longleftrightarrow> (\<exists>c. r = P_Count c \<and> unat c = card (dom (ap_blocks a))) \<and> a' = a"

text \<open>
  What a client has to keep to: it frees a block of the pool only when the block is allocated, and writes only
  inside an allocated block.
\<close>

fun pool_valid :: "pool_op \<Rightarrow> apool \<Rightarrow> bool" where
  "pool_valid (P_Create z) a \<longleftrightarrow> z \<le> ap_size a"
| "pool_valid (P_Free x) a \<longleftrightarrow> (\<forall>i. i < ap_count a \<and> x = ap_addr a i \<longrightarrow> ap_blocks a i \<noteq> None)"
| "pool_valid (P_Destroy x) a \<longleftrightarrow> (\<forall>i. i < ap_count a \<and> x = ap_addr a i \<longrightarrow> ap_blocks a i \<noteq> None)"
| "pool_valid (P_Write x off bs) a \<longleftrightarrow> off + length bs \<le> unat (ap_size a) \<and> (\<exists>i. x = ap_addr a i \<and> ap_blocks a i \<noteq> None)"
| "pool_valid x a \<longleftrightarrow> True"

lemma pool_abs_simps [simp]:
  "ap_base (pool_abs p) = pl_base p" "ap_size (pool_abs p) = aligned_block_size p" "ap_count (pool_abs p) = pl_max_blocks p"
  "ap_blocks (pool_abs p) i = (if i < pl_max_blocks p \<and> i \<notin> set (free_list p) then Some (the_block p i) else None)"
  by (simp_all add: pool_abs_def)

lemma length_the_block: "pool_geometry p \<Longrightarrow> i < pl_max_blocks p \<Longrightarrow> length (the_block p i) = block_size p"
  using block_offset_eq(2) [of p i] by (simp add: the_block_def block_at_def)

lemma card_allocated:
  assumes "pool_inv p"
  shows "card (dom (ap_blocks (pool_abs p))) = unat (used_count p)"
proof -
  let ?n = "pl_max_blocks p"
  have dom: "dom (ap_blocks (pool_abs p)) = {i. i < ?n} - set (free_list p)" by (auto split: if_splits)
  have sub: "set (free_list p) \<subseteq> {i. i < ?n}" using assms chain_valid by (auto simp: pool_inv_def)
  have "unat ` {i. i < ?n} = {..<block_count p}"
  proof (rule set_eqI)
    fix k
    have "k < block_count p \<Longrightarrow> unat (of_nat k :: u32) = k"
      using unat_u32_bound [of ?n] by (intro unat_of_nat_small) simp
    then show "k \<in> unat ` {i. i < ?n} \<longleftrightarrow> k \<in> {..<block_count p}"
      by (auto simp: word_less_nat_alt image_iff) (metis)
  qed
  then have "card {i. i < ?n} = block_count p"
    by (metis card_image card_lessThan inj_on_def unat_eq_iff)
  then have "card ({i. i < ?n} - set (free_list p)) = block_count p - length (free_list p)"
    using sub assms by (simp add: card_Diff_subset distinct_card pool_inv_def)
  with dom assms show ?thesis by (auto simp: pool_inv_def)
qed

section \<open>Every call keeps the invariant and implements its specification\<close>

lemma chain_fields:
  "pl_max_blocks p' = pl_max_blocks p \<Longrightarrow> pl_storage p' = pl_storage p \<Longrightarrow> aligned_block_size p' = aligned_block_size p \<Longrightarrow>
   is_chain p' h is = is_chain p h is"
  by (induction p h "is" rule: is_chain.induct) (auto simp: load_next_def block_offset_def)

lemma free_list_Nil:
  assumes "pool_inv p"
  shows "free_list p = [] \<longleftrightarrow> free_head p = K_INVALID_INDEX"
  using assms by (cases "free_list p") (auto simp: pool_inv_def pool_geometry_def)

lemma allocate_full:
  assumes "pool_inv p" "free_list p = []"
  shows "FixedPool_Allocate (Some p) = Some (0, Some p)" "card (dom (ap_blocks (pool_abs p))) = block_count p"
  using assms free_list_Nil [OF assms(1)] card_allocated [OF assms(1)]
  by (simp_all add: FixedPool_Allocate_def pool_inv_def)

lemma allocate_some:
  assumes "pool_inv p" "free_list p = i # is"
  obtains q where "FixedPool_Allocate (Some p) = Some (block_addr (pl_base p) (aligned_block_size p) i, Some q)"
    "pool_inv q" "free_list q = is" "pool_geometry q" "i < pl_max_blocks p" "i \<notin> set is"
    "pool_abs q = (pool_abs p)\<lparr>ap_blocks := (ap_blocks (pool_abs p))(i \<mapsto> the_block p i)\<rparr>"
    "pl_base q = pl_base p" "aligned_block_size q = aligned_block_size p" "pl_max_blocks q = pl_max_blocks p"
    "card (dom (ap_blocks (pool_abs p))) \<noteq> block_count p"
proof -
  from assms have geo: "pool_geometry p" and h: "free_head p = i" and lt: "i < pl_max_blocks p"
    and d: "i \<notin> set is" "distinct is" and u: "unat (used_count p) + Suc (length is) = block_count p"
    by (auto simp: pool_inv_def)
  from assms obtain h' where h': "load_next p i = Some h'" "is_chain p h' is" by (auto simp: pool_inv_def)
  let ?q = "p\<lparr>free_head := h', used_count := used_count p + 1\<rparr>"
  have "i \<noteq> K_INVALID_INDEX" using lt geo by (auto simp: pool_geometry_def)
  then have "FixedPool_Allocate (Some p) = Some (block_addr (pl_base p) (aligned_block_size p) i, Some ?q)"
    using h h'(1) by (simp add: FixedPool_Allocate_def block_addr_def)
  moreover have "unat (used_count p + 1) = unat (used_count p) + 1"
    using u unat_u32_bound [of "pl_max_blocks p"] by (subst unat_add_no_wrap) auto
  then have "pool_inv ?q \<and> free_list ?q = is"
    using geo h'(2) d u by (intro pool_invI) (simp_all add: pool_geometry_def chain_fields [of ?q p])
  moreover from this have "pool_abs ?q = (pool_abs p)\<lparr>ap_blocks := (ap_blocks (pool_abs p))(i \<mapsto> the_block p i)\<rparr>"
    using lt d assms(2) by (auto simp: pool_abs_def fun_eq_iff the_block_def)
  moreover have "card (dom (ap_blocks (pool_abs p))) \<noteq> block_count p" using u card_allocated [OF assms(1)] by (simp del: unat_eq_iff)
  moreover have "pool_geometry ?q" using geo by (simp add: pool_geometry_def)
  ultimately show thesis using lt d(1) by (intro that [of ?q]) simp_all
qed

lemma write_block:
  assumes "pool_inv p" "i < pl_max_blocks p" "i \<notin> set (free_list p)" "off + length bs \<le> block_size p"
  shows "client_write p (block_addr (pl_base p) (aligned_block_size p) i) off bs = Some (set_block p i off bs)"
    and "pool_inv (set_block p i off bs)"
    and "pool_abs (set_block p i off bs) = (pool_abs p)\<lparr>ap_blocks := (ap_blocks (pool_abs p))
           (i \<mapsto> take off (the_block p i) @ bs @ drop (off + length bs) (the_block p i))\<rparr>"
proof -
  from assms(1) have geo: "pool_geometry p" by (simp add: pool_inv_def)
  note sb = set_block [OF geo assms(2,4)]
  show "client_write p (block_addr (pl_base p) (aligned_block_size p) i) off bs = Some (set_block p i off bs)"
    by (simp only: client_write_def block_addr_facts(3) [OF geo assms(2)] sb(1) Option.bind.simps) (simp add: set_block_def)
  have "is_chain (set_block p i off bs) (free_head p) (free_list p)"
  proof (rule chain_cong)
    show "is_chain p (free_head p) (free_list p)" using assms(1) by (simp add: pool_inv_def)
    show "load_next (set_block p i off bs) j = load_next p j" if "j \<in> set (free_list p)" for j
      using that assms(3) chain_valid [OF \<open>is_chain p (free_head p) (free_list p)\<close> that]
        load_set_block(1) [OF geo assms(2) _ assms(4)] by metis
  qed simp
  then have inv: "pool_inv (set_block p i off bs) \<and> free_list (set_block p i off bs) = free_list p"
    using assms(1) sb(2) by (intro pool_invI) (simp_all add: pool_inv_def)
  then show "pool_inv (set_block p i off bs)" ..
  show "pool_abs (set_block p i off bs) = (pool_abs p)\<lparr>ap_blocks := (ap_blocks (pool_abs p))
      (i \<mapsto> take off (the_block p i) @ bs @ drop (off + length bs) (the_block p i))\<rparr>"
    using inv sb(3) assms(2,3) by (auto simp: pool_abs_def fun_eq_iff)
qed

lemma free_block:
  assumes "pool_inv p" "i < pl_max_blocks p" "i \<notin> set (free_list p)"
  obtains q where "FixedPool_Free (Some p) (block_addr (pl_base p) (aligned_block_size p) i) = Some (Some q)"
    "pool_inv q" "free_list q = i # free_list p"
    "pool_abs q = (pool_abs p)\<lparr>ap_blocks := (ap_blocks (pool_abs p))(i := None)\<rparr>"
proof -
  let ?a = "block_addr (pl_base p) (aligned_block_size p) i" and ?s = "set_block p i 0 (u32_bytes (free_head p))"
  from assms(1) have geo: "pool_geometry p" and ch: "is_chain p (free_head p) (free_list p)" by (simp_all add: pool_inv_def)
  have four: "0 + length (u32_bytes (free_head p)) \<le> block_size p" using geo by (simp add: pool_geometry_def)
  note sb = set_block [OF geo assms(2) four]
  have "distinct (i # free_list p)" using assms(1,3) by (simp add: pool_inv_def)
  moreover have ch': "is_chain ?s i (i # free_list p)"
  proof -
    have "is_chain ?s (free_head p) (free_list p)"
    proof (rule chain_cong [OF ch])
      show "load_next ?s j = load_next p j" if "j \<in> set (free_list p)" for j
        using that assms(3) chain_valid [OF ch that] load_set_block(1) [OF geo assms(2) _ four] by metis
    qed simp
    then show ?thesis using assms(2) load_set_block(2) [OF geo assms(2,2)] by simp
  qed
  ultimately have "length (i # free_list p) \<le> block_count ?s" by (intro chain_length)
  then have u: "0 < unat (used_count p)" using assms(1) by (simp add: pool_inv_def)
  then have pos: "used_count p > 0" and dec: "unat (used_count p - 1) = unat (used_count p) - 1"
    by (simp_all add: word_less_nat_alt unat_minus_one word_unat_eq_iff)
  let ?q = "?s\<lparr>free_head := i, used_count := used_count p - 1\<rparr>"
  have "FixedPool_OwnsPointer (Some p) ?a" using owns_iff [OF geo] assms(2) by blast
  then have "FixedPool_Free (Some p) ?a = Some (Some ?q)"
    using block_addr_facts(2,4) [OF geo assms(2)] store_next_eq [OF geo assms(2)] pos
    by (simp add: FixedPool_Free_def Let_def)
  moreover have "is_chain ?q i (i # free_list p)" using ch' by (subst chain_fields [of ?q ?s]) simp_all
  then have inv: "pool_inv ?q \<and> free_list ?q = i # free_list p"
    using sb(2) \<open>distinct (i # free_list p)\<close> u dec assms(1)
    by (intro pool_invI) (simp_all add: pool_geometry_def pool_inv_def)
  moreover have "pool_abs ?q = (pool_abs p)\<lparr>ap_blocks := (ap_blocks (pool_abs p))(i := None)\<rparr>"
    using inv sb(3) by (auto simp: pool_abs_def fun_eq_iff the_block_def)
  ultimately show thesis using that by blast
qed

lemma allocate_sim:
  assumes "pool_inv p"
  shows "\<exists>r q. pool_step P_Allocate p = Some (r, q) \<and> pool_inv q \<and> pool_spec P_Allocate (pool_abs p) r (pool_abs q)"
proof (cases "free_list p")
  case Nil
  with allocate_full [OF assms] assms show ?thesis by (auto simp: allocates_def)
next
  case (Cons i "is")
  from allocate_some [OF assms Cons] obtain q where q:
    "FixedPool_Allocate (Some p) = Some (block_addr (pl_base p) (aligned_block_size p) i, Some q)"
    "pool_inv q" "free_list q = is" "pool_geometry q" "i < pl_max_blocks p" "i \<notin> set is"
    "pool_abs q = (pool_abs p)\<lparr>ap_blocks := (ap_blocks (pool_abs p))(i \<mapsto> the_block p i)\<rparr>"
    "pl_base q = pl_base p" "aligned_block_size q = aligned_block_size p" "pl_max_blocks q = pl_max_blocks p"
    "card (dom (ap_blocks (pool_abs p))) \<noteq> block_count p" .
  from assms have geo: "pool_geometry p" by (simp add: pool_inv_def)
  have "allocates (\<lambda>_. True) (pool_abs p) (P_Ptr (block_addr (pl_base p) (aligned_block_size p) i)) (pool_abs q)"
    unfolding allocates_def if_not_P [of "card (dom (ap_blocks (pool_abs p))) = unat (ap_count (pool_abs p))"]
    using q(5,7,11) Cons block_addr_facts(2) [OF geo q(5)] length_the_block [OF geo q(5)] by auto
  with q(1,2) show ?thesis by simp
qed

lemma create_sim:
  assumes "pool_inv p" "z \<le> aligned_block_size p"
  shows "\<exists>r q. pool_step (P_Create z) p = Some (r, q) \<and> pool_inv q \<and> pool_spec (P_Create z) (pool_abs p) r (pool_abs q)"
proof (cases "free_list p")
  case Nil
  with allocate_full [OF assms(1)] assms show ?thesis by (auto simp: allocates_def Pool_Create_def)
next
  case (Cons i "is")
  from allocate_some [OF assms(1) Cons] obtain q where q:
    "FixedPool_Allocate (Some p) = Some (block_addr (pl_base p) (aligned_block_size p) i, Some q)"
    "pool_inv q" "free_list q = is" "pool_geometry q" "i < pl_max_blocks p" "i \<notin> set is"
    "pool_abs q = (pool_abs p)\<lparr>ap_blocks := (ap_blocks (pool_abs p))(i \<mapsto> the_block p i)\<rparr>"
    "pl_base q = pl_base p" "aligned_block_size q = aligned_block_size p" "pl_max_blocks q = pl_max_blocks p"
    "card (dom (ap_blocks (pool_abs p))) \<noteq> block_count p" .
  from assms(1) have geo: "pool_geometry p" by (simp add: pool_inv_def)
  let ?zs = "replicate (unat z) 0 :: byte list"
  have sz: "0 + length ?zs \<le> block_size q" using assms(2) q(9) by (simp add: word_le_nat_alt)
  have lt: "i < pl_max_blocks q" "i \<notin> set (free_list q)" using q(3,5,6,10) by simp_all
  note w = write_block [OF q(2) lt sz]
  let ?c = "?zs @ drop (unat z) (the_block q i)"
  have "length ?c = block_size p"
    using sz length_the_block [OF q(4) lt(1)] q(9) by simp
  moreover have "pool_abs (set_block q i 0 ?zs) = (pool_abs p)\<lparr>ap_blocks := (ap_blocks (pool_abs p))(i \<mapsto> ?c)\<rparr>"
    using w(3) q(7) by simp
  ultimately have "allocates (\<lambda>bs. take (unat z) bs = replicate (unat z) 0) (pool_abs p)
      (P_Ptr (block_addr (pl_base p) (aligned_block_size p) i)) (pool_abs (set_block q i 0 ?zs))"
    unfolding allocates_def using q(5,11) Cons block_addr_facts(2) [OF geo q(5)]
    by (auto intro!: exI [of _ i] exI [of _ ?c])
  moreover have "pool_step (P_Create z) p =
      Some (P_Ptr (block_addr (pl_base p) (aligned_block_size p) i), set_block q i 0 ?zs)"
    using q(1,8,9) w(1) block_addr_facts(2) [OF geo q(5)] by (simp add: Pool_Create_def)
  ultimately show ?thesis using w(2) by simp
qed

lemma free_sim:
  assumes "pool_inv p" "pool_valid (P_Free x) (pool_abs p)"
  shows "\<exists>q. FixedPool_Free (Some p) x = Some (Some q) \<and> pool_inv q \<and> releases x (pool_abs p) P_Unit (pool_abs q)"
proof -
  from assms(1) have geo: "pool_geometry p" by (simp add: pool_inv_def)
  show ?thesis
  proof (cases "is_block (pool_abs p) x")
    case True
    then obtain i where i: "i < pl_max_blocks p" "x = block_addr (pl_base p) (aligned_block_size p) i"
      by (auto simp: is_block_def)
    with assms(2) have "i \<notin> set (free_list p)" by (auto split: if_splits)
    from free_block [OF assms(1) i(1) this] obtain q where "FixedPool_Free (Some p) x = Some (Some q)" "pool_inv q"
      "pool_abs q = (pool_abs p)\<lparr>ap_blocks := (ap_blocks (pool_abs p))(i := None)\<rparr>" unfolding i(2) .
    with True i show ?thesis by (auto simp: releases_def)
  next
    case False
    then have "\<not> FixedPool_OwnsPointer (Some p) x" using owns_iff [OF geo, of x] by (simp add: is_block_def)
    with False assms(1) show ?thesis by (simp add: FixedPool_Free_def releases_def)
  qed
qed

lemma destroy_null: "pool_inv p \<Longrightarrow> \<not> is_block (pool_abs p) 0"
  using block_addr_facts(2) [of p] by (auto simp: is_block_def pool_inv_def)

lemma write_sim:
  assumes "pool_inv p" "pool_valid (P_Write x off bs) (pool_abs p)"
  shows "\<exists>r q. pool_step (P_Write x off bs) p = Some (r, q) \<and> pool_inv q \<and>
    pool_spec (P_Write x off bs) (pool_abs p) r (pool_abs q)"
proof -
  from assms(2) obtain i where i: "x = block_addr (pl_base p) (aligned_block_size p) i" "i < pl_max_blocks p"
    "i \<notin> set (free_list p)" "off + length bs \<le> block_size p" by (auto split: if_splits)
  from write_block [OF assms(1) i(2,3,4)] i show ?thesis by (auto intro!: exI [of _ i])
qed

lemma pool_sim:
  assumes "pool_inv p" "pool_valid x (pool_abs p)"
  shows "\<exists>r q. pool_step x p = Some (r, q) \<and> pool_inv q \<and> pool_spec x (pool_abs p) r (pool_abs q)"
proof (cases x)
  case P_Allocate
  with allocate_sim [OF assms(1)] show ?thesis by simp
next
  case (P_Create z)
  with create_sim [OF assms(1), of z] assms(2) show ?thesis by simp
next
  case (P_Free a)
  with free_sim [OF assms(1), of a] assms(2) show ?thesis by fastforce
next
  case (P_Destroy a)
  show ?thesis
  proof (cases "a = 0")
    case True
    with P_Destroy assms(1) destroy_null [OF assms(1)] show ?thesis by (simp add: Pool_Destroy_def releases_def)
  next
    case False
    have "pool_valid (P_Free a) (pool_abs p)" using P_Destroy assms(2) by simp
    from free_sim [OF assms(1) this] P_Destroy False show ?thesis by (fastforce simp: Pool_Destroy_def)
  qed
next
  case (P_Write a off bs)
  with write_sim [OF assms(1)] assms(2) show ?thesis by blast
next
  case (P_Owns a)
  with assms(1) owns_iff [of p a] show ?thesis by (auto simp: is_block_def pool_inv_def)
next
  case P_Capacity
  with assms(1) show ?thesis by (simp add: FixedPool_GetCapacity_def)
next
  case P_FreeCount
  have "used_count p \<le> pl_max_blocks p" using assms(1) by (auto simp: pool_inv_def word_le_nat_alt)
  with P_FreeCount assms(1) card_allocated [OF assms(1)] show ?thesis
    by (simp add: FixedPool_GetFreeCount_def unat_sub)
next
  case P_UsedCount
  with assms(1) card_allocated [OF assms(1)] show ?thesis by (simp add: FixedPool_GetUsedCount_def)
qed

interpretation opool: simulation pool_inv pool_abs pool_valid pool_step pool_spec
  by unfold_locales (rule pool_sim)

section \<open>Properties\<close>

definition empty_pool :: "u64 \<Rightarrow> u32 \<Rightarrow> u64 \<times> byte list \<Rightarrow> apool" where
  "empty_pool b n st = \<lparr>ap_base = fst st, ap_size = get_aligned_size b, ap_count = n, ap_blocks = (\<lambda>_. None)\<rparr>"

lemma init_abs:
  assumes "fits b n st"
  shows "\<exists>q. FixedPool_InitInternal (Some p) (Some st) b n = Some (Some q) \<and> pool_inv q \<and> pool_abs q = empty_pool b n st"
proof -
  from init_spec [OF assms, of p] obtain q where q: "FixedPool_InitInternal (Some p) (Some st) b n = Some (Some q)"
    "pool_inv q" "free_list q = map of_nat [0..<unat n]" "pl_max_blocks q = n" "pl_base q = fst st"
    "aligned_block_size q = get_aligned_size b" by blast
  have "i \<in> set (free_list q)" if "i < n" for i
    using that q(3) by (auto simp: word_less_nat_alt image_iff intro!: bexI [of _ "unat i"])
  then have "pool_abs q = empty_pool b n st" using q(4,5,6) by (auto simp: pool_abs_def empty_pool_def fun_eq_iff)
  with q(1,2) show ?thesis by blast
qed

text \<open>
  C17. A pool set up by the generated initialisation on a storage that fits gives, under every sequence of calls
  in which blocks are freed only while they are allocated and written only inside, each client a block that
  nobody else holds, returns null exactly when all blocks are held, never touches the contents of an allocated
  block, counts correctly, ignores pointers that are not its own and never leaves the storage.
\<close>

theorem object_pool_refines:
  assumes "fits (if sz > 4 then sz else 4) n st"
    and "admissible pool_valid pool_spec xs (empty_pool (if sz > 4 then sz else 4) n st)"
  shows "\<exists>q rs q'. Pool_Init sz n p st = Some (Some q) \<and> run_ops pool_step xs q = Some (rs, q') \<and>
    spec_run pool_spec xs (empty_pool (if sz > 4 then sz else 4) n st) rs (pool_abs q')"
proof -
  from init_abs [OF assms(1), of p] obtain q where q:
    "FixedPool_InitInternal (Some p) (Some st) (if sz > 4 then sz else 4) n = Some (Some q)" "pool_inv q"
    "pool_abs q = empty_pool (if sz > 4 then sz else 4) n st" by blast
  from opool.run_refines [OF q(2)] assms(2) q(3) obtain rs q' where "run_ops pool_step xs q = Some (rs, q')"
    "spec_run pool_spec xs (empty_pool (if sz > 4 then sz else 4) n st) rs (pool_abs q')" by metis
  with q(1) show ?thesis unfolding Pool_Init_def Let_def by blast
qed

text \<open>
  C38. A second free of the same block is not noticed, although the function checks the pointer: the block is
  then linked to itself, and any number of calls of \<open>FixedPool_Allocate\<close> in a row all return this one block.
  (A write into the block, as by \<open>Pool_Create\<close>, changes the link and with it what comes next.)
\<close>

theorem pool_double_free:
  assumes "pool_inv p" "i < pl_max_blocks p" "i \<notin> set (free_list p)"
    and "a = block_addr (pl_base p) (aligned_block_size p) i"
  shows "\<exists>q1 q2 q3. FixedPool_Free (Some p) a = Some (Some q1) \<and> FixedPool_Free (Some q1) a = Some (Some q2) \<and>
    run_ops pool_step (replicate n P_Allocate) q2 = Some (replicate n (P_Ptr a), q3)"
proof -
  from free_block [OF assms(1-3)] obtain q1 where q1: "FixedPool_Free (Some p) a = Some (Some q1)" "pool_inv q1"
    "free_list q1 = i # free_list p" "pool_abs q1 = (pool_abs p)\<lparr>ap_blocks := (ap_blocks (pool_abs p))(i := None)\<rparr>"
    unfolding assms(4) .
  from q1(4) have same: "pl_base q1 = pl_base p" "aligned_block_size q1 = aligned_block_size p" "pl_max_blocks q1 = pl_max_blocks p"
    by (simp_all add: pool_abs_def)
  from q1(2,3) have geo: "pool_geometry q1" and h: "free_head q1 = i" by (auto simp: pool_inv_def)
  have lt: "i < pl_max_blocks q1" and inv: "i \<noteq> K_INVALID_INDEX"
    using assms(1,2) same by (auto simp: pool_inv_def pool_geometry_def)
  have a: "a = block_addr (pl_base q1) (aligned_block_size q1) i" using assms(4) same by simp
  let ?s = "set_block q1 i 0 (u32_bytes i)"
  let ?f = "?s\<lparr>free_head := i\<rparr>"
  define q2 where "q2 = (if used_count ?f > 0 then ?f\<lparr>used_count := used_count ?f - 1\<rparr> else ?f)"
  have "FixedPool_OwnsPointer (Some q1) a" "a \<noteq> 0" "ucast ((a - pl_base q1) div aligned_block_size q1) = i"
    using block_addr_facts(2,4) [OF geo lt] owns_iff [OF geo, of a] lt by (auto simp only: a)
  then have "FixedPool_Free (Some q1) a = Some (Some q2)"
    using store_next_eq [OF geo lt, of i] h by (simp add: FixedPool_Free_def Let_def q2_def)
  then have q2: "FixedPool_Free (Some q1) a = Some (Some q2)" "pl_storage q2 = pl_storage ?s" "free_head q2 = i"
    "pl_base q2 = pl_base q1" "aligned_block_size q2 = aligned_block_size q1"
    by (simp_all add: q2_def)
  have load: "load_next q i = Some i" if "pl_storage q = pl_storage ?s" "aligned_block_size q = aligned_block_size q1" for q
    using load_set_block(2) [OF geo lt lt, of i] that by (simp add: load_next_def block_offset_def)
  have alloc: "FixedPool_Allocate (Some q) = Some (a, Some (q\<lparr>free_head := i, used_count := used_count q + 1\<rparr>))"
    if "pl_storage q = pl_storage ?s" "aligned_block_size q = aligned_block_size q1" "free_head q = i" "pl_base q = pl_base q1" for q
    using that load [OF that(1,2)] inv a by (simp add: FixedPool_Allocate_def block_addr_def)
  have "\<exists>q3. run_ops pool_step (replicate n P_Allocate) q = Some (replicate n (P_Ptr a), q3)"
    if "pl_storage q = pl_storage ?s" "aligned_block_size q = aligned_block_size q1" "free_head q = i" "pl_base q = pl_base q1" for q
    using that
  proof (induction n arbitrary: q)
    case (Suc n)
    from Suc.IH [of "q\<lparr>free_head := i, used_count := used_count q + 1\<rparr>"] Suc.prems alloc [OF Suc.prems] show ?case by auto
  qed simp
  from this [of q2] q2 q1(1) show ?thesis by auto
qed

definition sample_pool :: FixedMemPool where
  "sample_pool = \<lparr>pl_storage = replicate 32 0, pl_base = 4096, aligned_block_size = 16, pl_max_blocks = 2,
     free_head = K_INVALID_INDEX, used_count = 2\<rparr>"

lemma sample_pool_inv: "pool_inv sample_pool \<and> free_list sample_pool = []"
  by (rule pool_invI) (simp_all add: sample_pool_def pool_geometry_def K_INVALID_INDEX_def)

theorem object_pool_refines_witness:
  "\<exists>q rs q'. Pool_Init 8 2 sample_pool (4096, replicate 32 0) = Some (Some q) \<and>
    run_ops pool_step [P_Create 8, P_Allocate, P_Allocate, P_UsedCount] q = Some (rs, q') \<and>
    spec_run pool_spec [P_Create 8, P_Allocate, P_Allocate, P_UsedCount] (empty_pool 8 2 (4096, replicate 32 0)) rs (pool_abs q')"
  using object_pool_refines [of 8 2 "(4096, replicate 32 0)" "[P_Create 8, P_Allocate, P_Allocate, P_UsedCount]" sample_pool]
  by (simp add: fits_def empty_pool_def K_INVALID_INDEX_def get_aligned_size_def)

theorem pool_double_free_witness:
  "\<exists>q1 q2 q3. FixedPool_Free (Some sample_pool) 4112 = Some (Some q1) \<and> FixedPool_Free (Some q1) 4112 = Some (Some q2) \<and>
    run_ops pool_step (replicate 5 P_Allocate) q2 = Some (replicate 5 (P_Ptr 4112), q3)"
  by (rule pool_double_free [of _ 1]) (use sample_pool_inv in \<open>simp_all add: sample_pool_def block_addr_def\<close>)
end
