(* ===== verification/Sync_Ctx_Pool.thy ===== *)
theory Sync_Ctx_Pool
  imports Interfaces Pointer_Store
begin

text \<open>
  The pool of synchronisation contexts of \<^verbatim>\<open>base/src/utility/syncctxpool.c\<close> over the circular lists of
  \<^verbatim>\<open>base/inc/dsa/list.h\<close>.  The contexts and the list head of the pool are nodes of a store; the critical
  sections of borrowing and returning are single steps.  Shown are that the pool lends every context to one
  borrower at a time, by an interpretation of the locale \<open>simulation\<close>, and what happens when it is asked for
  more contexts than it has.
\<close>

section \<open>Circular lists\<close>

text \<open>
  The links of \<^verbatim>\<open>list.h\<close>.  In both structures that use them here the links are the first member, so that
  \<open>container_of\<close> gives the address of the links.
\<close>

record list_head =
  lh_next :: ptr
  lh_prev :: ptr

type_synonym links = "list_head store"

definition INIT_LIST_HEAD :: "ptr \<Rightarrow> links \<Rightarrow> links option" where
  "INIT_LIST_HEAD l m =
     do { m \<leftarrow> assign l (\<lambda>n. n\<lparr>lh_prev := l\<rparr>) m;
          assign l (\<lambda>n. n\<lparr>lh_next := l\<rparr>) m }"

definition list_add_between :: "ptr \<Rightarrow> ptr \<Rightarrow> ptr \<Rightarrow> links \<Rightarrow> links option" where
  "list_add_between nw prv nxt m =
     do { m \<leftarrow> assign nxt (\<lambda>n. n\<lparr>lh_prev := nw\<rparr>) m;
          m \<leftarrow> assign nw (\<lambda>n. n\<lparr>lh_next := nxt\<rparr>) m;
          m \<leftarrow> assign nw (\<lambda>n. n\<lparr>lh_prev := prv\<rparr>) m;
          assign prv (\<lambda>n. n\<lparr>lh_next := nw\<rparr>) m }"

definition list_add :: "ptr \<Rightarrow> ptr \<Rightarrow> links \<Rightarrow> links option" where
  "list_add nw head m = do { h \<leftarrow> deref m head; list_add_between nw head (lh_next h) m }"

definition list_del_between :: "ptr \<Rightarrow> ptr \<Rightarrow> links \<Rightarrow> links option" where
  "list_del_between prv nxt m =
     do { m \<leftarrow> assign nxt (\<lambda>n. n\<lparr>lh_prev := prv\<rparr>) m;
          assign prv (\<lambda>n. n\<lparr>lh_next := nxt\<rparr>) m }"

definition list_del_entry :: "ptr \<Rightarrow> links \<Rightarrow> links option" where
  "list_del_entry entry m = do { e \<leftarrow> deref m entry; list_del_between (lh_prev e) (lh_next e) m }"

definition list_del_init :: "ptr \<Rightarrow> links \<Rightarrow> links option" where
  "list_del_init entry m = do { m \<leftarrow> list_del_entry entry m; INIT_LIST_HEAD entry m }"

section \<open>The pool\<close>

text \<open>
  The fields of a context besides its links; the pool is at the address \<open>sp_addr\<close>, where its list head is too.
\<close>

record syncctx =
  sc_data :: ptr
  sc_len :: ptr
  sc_result :: int

record syncctxpool =
  sp_links :: links
  sp_ctxs :: "syncctx store"
  sp_addr :: addr
  sp_capacity :: u64
  sp_size :: u64

definition on_links :: "(links \<Rightarrow> links option) \<Rightarrow> syncctxpool \<Rightarrow> syncctxpool option" where
  "on_links f s = do { m \<leftarrow> f (sp_links s); Some (s\<lparr>sp_links := m\<rparr>) }"

text \<open>The result of \<open>calloc\<close> is an argument.\<close>

definition syncctx_create :: "ptr \<Rightarrow> syncctxpool \<Rightarrow> (ptr \<times> syncctxpool) option" where
  "syncctx_create mem s =
     (case mem of
        None \<Rightarrow> Some (None, s)
      | Some a \<Rightarrow>
          do { let s = s\<lparr>sp_links := (sp_links s)(a \<mapsto> \<lparr>lh_next = None, lh_prev = None\<rparr>),
                 sp_ctxs := (sp_ctxs s)(a \<mapsto> \<lparr>sc_data = None, sc_len = None, sc_result = - 1\<rparr>)\<rparr>;
               s \<leftarrow> on_links (INIT_LIST_HEAD (Some a)) s;
               Some (Some a, s) })"

definition syncctx_destroy :: "ptr \<Rightarrow> syncctxpool \<Rightarrow> syncctxpool option" where
  "syncctx_destroy ctx s =
     (case ctx of
        None \<Rightarrow> Some s
      | Some a \<Rightarrow>
          if sp_ctxs s a = None then None
          else Some (s\<lparr>sp_links := (sp_links s)(a := None), sp_ctxs := (sp_ctxs s)(a := None)\<rparr>))"

fun create_loop :: "ptr list \<Rightarrow> syncctxpool \<Rightarrow> syncctxpool option" where
  "create_loop [] s = Some s"
| "create_loop (mem # mems) s =
     do { (ctx, s) \<leftarrow> syncctx_create mem s;
          if ctx \<noteq> None then
            do { s \<leftarrow> on_links (list_add ctx (Some (sp_addr s))) s;
                 create_loop mems (s\<lparr>sp_capacity := sp_capacity s + 1, sp_size := sp_size s + 1\<rparr>) }
          else Some s }"

text \<open>The arguments are the result of \<open>calloc\<close> for the pool and those for the \<open>init_count\<close> contexts.\<close>

definition syncctxpool_create :: "ptr \<Rightarrow> ptr list \<Rightarrow> syncctxpool option option" where
  "syncctxpool_create pool mems =
     (case pool of
        None \<Rightarrow> Some None
      | Some a \<Rightarrow>
          do { let s = \<lparr>sp_links = [a \<mapsto> \<lparr>lh_next = None, lh_prev = None\<rparr>], sp_ctxs = (\<lambda>_. None), sp_addr = a,
                 sp_capacity = 0, sp_size = 0\<rparr>;
               s \<leftarrow> on_links (INIT_LIST_HEAD (Some a)) s;
               s \<leftarrow> create_loop mems (s\<lparr>sp_capacity := 0, sp_size := 0\<rparr>);
               Some (Some s) })"

definition syncctxpool_borrow :: "ptr \<Rightarrow> syncctxpool option \<Rightarrow> (ptr \<times> syncctxpool option) option" where
  "syncctxpool_borrow mem pool =
     (case pool of
        None \<Rightarrow> Some (None, None)
      | Some s \<Rightarrow>
          if sp_size s > 0 then
            do { h \<leftarrow> deref (sp_links s) (Some (sp_addr s));
                 let idle_ctx = lh_next h;
                 s \<leftarrow> on_links (list_del_init idle_ctx) s;
                 Some (idle_ctx, Some (s\<lparr>sp_size := sp_size s - 1\<rparr>)) }
          else
            do { (idle_ctx, s) \<leftarrow> syncctx_create mem s;
                 Some (idle_ctx, Some (if idle_ctx \<noteq> None
                   then s\<lparr>sp_capacity := sp_capacity s + 1, sp_size := sp_size s + 1\<rparr> else s)) })"

definition syncctxpool_return :: "syncctxpool option \<Rightarrow> ptr \<Rightarrow> syncctxpool option option" where
  "syncctxpool_return pool ctx =
     (case pool of
        None \<Rightarrow> Some None
      | Some s \<Rightarrow>
          if ctx = None then Some (Some s)
          else
            do { cs \<leftarrow> assign ctx (\<lambda>c. c\<lparr>sc_data := None, sc_len := None, sc_result := - 1\<rparr>) (sp_ctxs s);
                 s \<leftarrow> on_links (list_add ctx (Some (sp_addr s))) (s\<lparr>sp_ctxs := cs\<rparr>);
                 Some (Some (s\<lparr>sp_size := sp_size s + 1\<rparr>)) })"

text \<open>The loop of \<open>list_for_each_entry_safe\<close>, and the destruction: the contexts that are left in memory.\<close>

partial_function (option) destroy_loop :: "ptr \<Rightarrow> ptr \<Rightarrow> syncctxpool \<Rightarrow> syncctxpool option" where
  "destroy_loop pos n s =
     (if pos = Some (sp_addr s) then Some s
      else
        do { s \<leftarrow> on_links (list_del_init pos) s;
             s \<leftarrow> syncctx_destroy pos s;
             nn \<leftarrow> deref (sp_links s) n;
             destroy_loop n (lh_next nn) s })"

definition syncctxpool_destroy :: "syncctxpool option \<Rightarrow> syncctx store option" where
  "syncctxpool_destroy pool =
     (case pool of
        None \<Rightarrow> Some (\<lambda>_. None)
      | Some s \<Rightarrow>
          do { h \<leftarrow> deref (sp_links s) (Some (sp_addr s));
               p \<leftarrow> deref (sp_links s) (lh_next h);
               s \<leftarrow> destroy_loop (lh_next h) (lh_next p) s;
               Some (sp_ctxs s) })"

section \<open>Lists in memory\<close>

text \<open>The nodes \<open>xs\<close> behind the node \<open>p\<close>, linked up to the head \<open>h\<close>.\<close>

fun nodes :: "links \<Rightarrow> addr \<Rightarrow> addr list \<Rightarrow> addr \<Rightarrow> bool" where
  "nodes m p [] h \<longleftrightarrow> True"
| "nodes m p (x # xs) h \<longleftrightarrow> m x = Some \<lparr>lh_next = Some (hd (xs @ [h])), lh_prev = Some p\<rparr> \<and> nodes m x xs h"

definition ring_list :: "links \<Rightarrow> addr \<Rightarrow> addr list \<Rightarrow> bool" where
  "ring_list m h xs \<longleftrightarrow> distinct (h # xs) \<and>
     m h = Some \<lparr>lh_next = Some (hd (xs @ [h])), lh_prev = Some (last (h # xs))\<rparr> \<and> nodes m h xs h"

lemma nodes_cong: "(\<And>x. x \<in> set xs \<Longrightarrow> m' x = m x) \<Longrightarrow> nodes m' p xs h = nodes m p xs h"
  by (induction xs arbitrary: p) auto

lemma ring_list_other:
  assumes "ring_list m h xs" "a \<notin> set (h # xs)"
  shows "ring_list (m(a := v)) h xs"
proof -
  have "nodes (m(a := v)) h xs h = nodes m h xs h" using assms(2) by (intro nodes_cong) auto
  with assms show ?thesis by (simp add: ring_list_def)
qed

lemma INIT_LIST_HEAD_eq:
  "a \<in> dom m \<Longrightarrow> INIT_LIST_HEAD (Some a) m = Some (m(a \<mapsto> \<lparr>lh_next = Some a, lh_prev = Some a\<rparr>))"
proof -
  assume "a \<in> dom m"
  then obtain n where "m a = Some n" by blast
  then show ?thesis by (cases n) (simp add: INIT_LIST_HEAD_def assign_def)
qed

lemma list_add_ring:
  assumes "ring_list m h xs" "a \<in> dom m" "a \<notin> set (h # xs)"
  shows "\<exists>m'. list_add (Some a) (Some h) m = Some m' \<and> ring_list m' h (a # xs) \<and> dom m' = dom m"
proof (cases xs)
  case Nil
  with assms show ?thesis by (auto simp: ring_list_def list_add_def list_add_between_def assign_def)
next
  case (Cons y ys)
  with assms(1) have y: "m y = Some \<lparr>lh_next = Some (hd (ys @ [h])), lh_prev = Some h\<rparr>" "nodes m y ys h"
    "m h = Some \<lparr>lh_next = Some y, lh_prev = Some (last (y # ys))\<rparr>" "distinct (h # y # ys)"
    by (auto simp: ring_list_def)
  from assms(2) obtain n where n: "m a = Some n" by blast
  let ?m = "m(y \<mapsto> \<lparr>lh_next = Some (hd (ys @ [h])), lh_prev = Some a\<rparr>, a \<mapsto> \<lparr>lh_next = Some y, lh_prev = Some h\<rparr>,
      h \<mapsto> \<lparr>lh_next = Some a, lh_prev = Some (last (y # ys))\<rparr>)"
  have "list_add (Some a) (Some h) m = Some ?m"
    using y n assms(3) Cons by (cases n) (auto simp: list_add_def list_add_between_def assign_def fun_eq_iff)
  moreover have "nodes ?m y ys h" using y(2) by (subst nodes_cong [of ys ?m m]) (use y(4) assms(3) Cons in auto)
  then have "ring_list ?m h (a # xs)" using y assms(3) Cons by (auto simp: ring_list_def)
  moreover have "dom ?m = dom m" using y n by auto
  ultimately show ?thesis by blast
qed

lemma list_del_ring:
  assumes "ring_list m h (a # xs)"
  shows "\<exists>m'. list_del_init (Some a) m = Some m' \<and> ring_list m' h xs \<and> dom m' = dom m"
proof (cases xs)
  case Nil
  with assms show ?thesis
    by (auto simp: ring_list_def list_del_init_def list_del_entry_def list_del_between_def assign_def INIT_LIST_HEAD_def)
next
  case (Cons y ys)
  with assms have y: "m a = Some \<lparr>lh_next = Some y, lh_prev = Some h\<rparr>"
    "m y = Some \<lparr>lh_next = Some (hd (ys @ [h])), lh_prev = Some a\<rparr>" "nodes m y ys h"
    "m h = Some \<lparr>lh_next = Some a, lh_prev = Some (last (y # ys))\<rparr>" "distinct (h # a # y # ys)"
    by (auto simp: ring_list_def)
  let ?m = "m(y \<mapsto> \<lparr>lh_next = Some (hd (ys @ [h])), lh_prev = Some h\<rparr>,
      h \<mapsto> \<lparr>lh_next = Some y, lh_prev = Some (last (y # ys))\<rparr>, a \<mapsto> \<lparr>lh_next = Some a, lh_prev = Some a\<rparr>)"
  have "list_del_init (Some a) m = Some ?m"
    using y by (auto simp: list_del_init_def list_del_entry_def list_del_between_def assign_def INIT_LIST_HEAD_def fun_eq_iff)
  moreover have "nodes ?m y ys h" using y(3) by (subst nodes_cong [of ys ?m m]) (use y(5) in auto)
  then have "ring_list ?m h xs" using y Cons by (auto simp: ring_list_def)
  moreover have "dom ?m = dom m" using y by auto
  ultimately show ?thesis by blast
qed

section \<open>What the pool promises\<close>

fun follow :: "nat \<Rightarrow> links \<Rightarrow> ptr \<Rightarrow> addr list" where
  "follow 0 m p = []"
| "follow (Suc n) m p = (case p of None \<Rightarrow> [] | Some x \<Rightarrow> x # follow n m (case m x of None \<Rightarrow> None | Some e \<Rightarrow> lh_next e))"

text \<open>The idle contexts: as many as \<open>size\<close> says, from the head of the list.\<close>

definition idle :: "syncctxpool \<Rightarrow> addr list" where
  "idle s = follow (unat (sp_size s)) (sp_links s)
     (case sp_links s (sp_addr s) of None \<Rightarrow> None | Some h \<Rightarrow> lh_next h)"

lemma follow_nodes: "nodes m p xs h \<Longrightarrow> follow (length xs) m (Some (hd (xs @ [h]))) = xs"
proof (induction xs arbitrary: p)
  case (Cons x xs)
  then show ?case by (cases xs) auto
qed simp

lemma idle_eq:
  assumes "ring_list (sp_links s) (sp_addr s) xs" "unat (sp_size s) = length xs"
  shows "idle s = xs"
  using assms follow_nodes [of "sp_links s" "sp_addr s" xs "sp_addr s"] by (simp add: idle_def ring_list_def)

definition sync_inv :: "syncctxpool \<Rightarrow> bool" where
  "sync_inv s \<longleftrightarrow> ring_list (sp_links s) (sp_addr s) (idle s) \<and> length (idle s) = unat (sp_size s) \<and>
     set (idle s) \<subseteq> dom (sp_ctxs s) \<and> dom (sp_links s) = insert (sp_addr s) (dom (sp_ctxs s)) \<and>
     sp_addr s \<notin> dom (sp_ctxs s) \<and> finite (dom (sp_ctxs s)) \<and> card (dom (sp_ctxs s)) < 2 ^ 64"

lemma sync_invI:
  assumes "ring_list (sp_links s) (sp_addr s) xs" "length xs = unat (sp_size s)" "set xs \<subseteq> dom (sp_ctxs s)"
    "dom (sp_links s) = insert (sp_addr s) (dom (sp_ctxs s))" "sp_addr s \<notin> dom (sp_ctxs s)"
    "finite (dom (sp_ctxs s))" "card (dom (sp_ctxs s)) < 2 ^ 64"
  shows "sync_inv s \<and> idle s = xs"
  using assms idle_eq [OF assms(1)] by (simp add: sync_inv_def)

text \<open>The calls of clients, and what a client that holds a context does with it.\<close>

datatype sync_op = S_Borrow ptr | S_Return ptr | S_Use addr syncctx

fun sync_step :: "sync_op \<Rightarrow> syncctxpool \<Rightarrow> (ptr \<times> syncctxpool) option" where
  "sync_step (S_Borrow mem) s = do { (r, s) \<leftarrow> syncctxpool_borrow mem (Some s); s \<leftarrow> s; Some (r, s) }"
| "sync_step (S_Return c) s = do { s \<leftarrow> syncctxpool_return (Some s) c; s \<leftarrow> s; Some (None, s) }"
| "sync_step (S_Use a c) s = do { cs \<leftarrow> assign (Some a) (\<lambda>_. c) (sp_ctxs s); Some (None, s\<lparr>sp_ctxs := cs\<rparr>) }"

definition sync_abs :: "syncctxpool \<Rightarrow> addr list \<times> syncctx store" where
  "sync_abs s = (idle s, sp_ctxs s)"

definition fresh_ctx :: syncctx where
  "fresh_ctx = \<lparr>sc_data = None, sc_len = None, sc_result = - 1\<rparr>"

fun sync_spec :: "sync_op \<Rightarrow> addr list \<times> syncctx store \<Rightarrow> ptr \<Rightarrow> addr list \<times> syncctx store \<Rightarrow> bool" where
  "sync_spec (S_Borrow mem) (xs, cs) r b \<longleftrightarrow> (\<exists>y ys. xs = y # ys \<and> r = Some y \<and> b = (ys, cs))"
| "sync_spec (S_Return c) (xs, cs) r b \<longleftrightarrow> r = None \<and>
     (case c of None \<Rightarrow> b = (xs, cs) | Some a \<Rightarrow> b = (a # xs, cs(a \<mapsto> fresh_ctx)))"
| "sync_spec (S_Use a c) (xs, cs) r b \<longleftrightarrow> r = None \<and> b = (xs, cs(a \<mapsto> c))"

text \<open>A client borrows while a context is idle, and uses and returns only contexts that are borrowed.\<close>

fun sync_valid :: "sync_op \<Rightarrow> addr list \<times> syncctx store \<Rightarrow> bool" where
  "sync_valid (S_Borrow mem) (xs, cs) \<longleftrightarrow> xs \<noteq> []"
| "sync_valid (S_Return c) (xs, cs) \<longleftrightarrow> (\<forall>a. c = Some a \<longrightarrow> cs a \<noteq> None \<and> a \<notin> set xs)"
| "sync_valid (S_Use a c) (xs, cs) \<longleftrightarrow> cs a \<noteq> None \<and> a \<notin> set xs"

lemma dom_update: "m a = Some b \<Longrightarrow> dom (m(a \<mapsto> c)) = dom m"
  by auto

lemma borrow_idle:
  assumes "sync_inv s" "idle s = x # xs"
  obtains s' where "syncctxpool_borrow mem (Some s) = Some (Some x, Some s')" "sync_inv s'" "idle s' = xs"
    "sp_ctxs s' = sp_ctxs s"
proof -
  from assms have r: "ring_list (sp_links s) (sp_addr s) (x # xs)" by (simp add: sync_inv_def)
  from list_del_ring [OF r] obtain m where m: "list_del_init (Some x) (sp_links s) = Some m"
    "ring_list m (sp_addr s) xs" "dom m = dom (sp_links s)" by blast
  have h: "sp_links s (sp_addr s) = Some \<lparr>lh_next = Some x, lh_prev = Some (last (x # xs))\<rparr>"
    using r by (simp add: ring_list_def)
  have n: "unat (sp_size s) = Suc (length xs)" using assms by (simp add: sync_inv_def)
  then have pos: "sp_size s > 0" and dec: "unat (sp_size s - 1) = length xs"
    by (auto simp: word_less_nat_alt unat_minus_one word_unat_eq_iff)
  let ?s = "s\<lparr>sp_links := m, sp_size := sp_size s - 1\<rparr>"
  have "syncctxpool_borrow mem (Some s) = Some (Some x, Some ?s)"
    using pos h m(1) by (simp add: syncctxpool_borrow_def on_links_def)
  moreover have "sync_inv ?s \<and> idle ?s = xs"
    using assms m(2,3) dec by (intro sync_invI) (auto simp: sync_inv_def)
  ultimately show thesis by (intro that [of ?s]) simp_all
qed

lemma return_borrowed:
  assumes "sync_inv s" "sp_ctxs s a = Some c" "a \<notin> set (idle s)"
  obtains s' where "syncctxpool_return (Some s) (Some a) = Some (Some s')" "sync_inv s'" "idle s' = a # idle s"
    "sp_ctxs s' = (sp_ctxs s)(a \<mapsto> fresh_ctx)"
proof -
  have "a \<in> dom (sp_links s)" "a \<notin> set (sp_addr s # idle s)" using assms by (auto simp: sync_inv_def)
  then obtain m where m: "list_add (Some a) (Some (sp_addr s)) (sp_links s) = Some m"
    "ring_list m (sp_addr s) (a # idle s)" "dom m = dom (sp_links s)"
    using list_add_ring [of "sp_links s" "sp_addr s" "idle s" a] assms(1) by (auto simp: sync_inv_def)
  have "card (set (a # idle s)) \<le> card (dom (sp_ctxs s))"
    using assms by (intro card_mono) (auto simp: sync_inv_def)
  moreover have "card (set (a # idle s)) = Suc (unat (sp_size s))"
    using assms by (simp add: sync_inv_def ring_list_def distinct_card)
  ultimately have inc: "unat (sp_size s + 1) = unat (sp_size s) + 1"
    using assms(1) by (subst unat_add_no_wrap) (simp_all add: sync_inv_def)
  let ?s = "s\<lparr>sp_ctxs := (sp_ctxs s)(a \<mapsto> fresh_ctx), sp_links := m, sp_size := sp_size s + 1\<rparr>"
  have "syncctxpool_return (Some s) (Some a) = Some (Some ?s)"
    using assms(2) m(1) by (cases c) (simp add: syncctxpool_return_def on_links_def assign_def fresh_ctx_def)
  moreover have "sync_inv ?s \<and> idle ?s = a # idle s"
    using assms(1,2) m(2,3) inc
    by (intro sync_invI) (simp_all add: sync_inv_def dom_update [of "sp_ctxs s" a, OF assms(2)] domI [of "sp_ctxs s" a] del: dom_fun_upd fun_upd_apply)
  ultimately show thesis by (intro that [of ?s]) simp_all
qed

lemma sync_sim:
  assumes "sync_inv s" "sync_valid x (sync_abs s)"
  shows "\<exists>r s'. sync_step x s = Some (r, s') \<and> sync_inv s' \<and> sync_spec x (sync_abs s) r (sync_abs s')"
proof (cases x)
  case (S_Borrow mem)
  with assms(2) obtain y ys where i: "idle s = y # ys" by (cases "idle s") (auto simp: sync_abs_def)
  from borrow_idle [OF assms(1) i, of mem] obtain s' where "syncctxpool_borrow mem (Some s) = Some (Some y, Some s')"
    "sync_inv s'" "idle s' = ys" "sp_ctxs s' = sp_ctxs s" .
  with S_Borrow i show ?thesis by (simp add: sync_abs_def)
next
  case (S_Return c)
  show ?thesis
  proof (cases c)
    case None
    with S_Return assms(1) show ?thesis by (simp add: syncctxpool_return_def sync_abs_def)
  next
    case (Some a)
    with S_Return assms(2) obtain cx where a: "sp_ctxs s a = Some cx" "a \<notin> set (idle s)" by (auto simp: sync_abs_def)
    from return_borrowed [OF assms(1) a] obtain s' where "syncctxpool_return (Some s) (Some a) = Some (Some s')"
      "sync_inv s'" "idle s' = a # idle s" "sp_ctxs s' = (sp_ctxs s)(a \<mapsto> fresh_ctx)" .
    with S_Return Some show ?thesis by (simp add: sync_abs_def)
  qed
next
  case (S_Use a c)
  with assms(2) obtain cx where a: "sp_ctxs s a = Some cx" by (auto simp: sync_abs_def)
  let ?s = "s\<lparr>sp_ctxs := (sp_ctxs s)(a \<mapsto> c)\<rparr>"
  have "sync_inv ?s \<and> idle ?s = idle s"
    using assms(1)
    by (intro sync_invI) (simp_all add: sync_inv_def dom_update [of "sp_ctxs s" a, OF a] del: dom_fun_upd fun_upd_apply)
  with S_Use a show ?thesis by (simp add: sync_abs_def assign_def)
qed

interpretation sync: simulation sync_inv sync_abs sync_valid sync_step sync_spec
  by unfold_locales (rule sync_sim)

section \<open>Creation and destruction\<close>

lemma syncctx_create_eq:
  "syncctx_create (Some a) s = Some (Some a, s\<lparr>sp_links := (sp_links s)(a \<mapsto> \<lparr>lh_next = Some a, lh_prev = Some a\<rparr>),
     sp_ctxs := (sp_ctxs s)(a \<mapsto> fresh_ctx)\<rparr>)"
  by (cases s) (simp add: syncctx_create_def on_links_def INIT_LIST_HEAD_eq fresh_ctx_def Let_def)

lemma create_step:
  assumes "sync_inv s" "a \<notin> dom (sp_links s)" "card (dom (sp_ctxs s)) + 1 < 2 ^ 64"
  obtains s' where "create_loop (Some a # mems) s = create_loop mems s'" "sync_inv s'" "idle s' = a # idle s"
    "sp_ctxs s' = (sp_ctxs s)(a \<mapsto> fresh_ctx)" "dom (sp_links s') = insert a (dom (sp_links s))"
    "sp_capacity s' = sp_capacity s + 1" "sp_addr s' = sp_addr s"
proof -
  let ?l = "(sp_links s)(a \<mapsto> \<lparr>lh_next = Some a, lh_prev = Some a\<rparr>)"
  from assms(1) have inv: "ring_list (sp_links s) (sp_addr s) (idle s)" "length (idle s) = unat (sp_size s)"
    "set (idle s) \<subseteq> dom (sp_ctxs s)" "dom (sp_links s) = insert (sp_addr s) (dom (sp_ctxs s))"
    "sp_addr s \<notin> dom (sp_ctxs s)" "finite (dom (sp_ctxs s))" by (simp_all add: sync_inv_def)
  then have new: "a \<notin> set (sp_addr s # idle s)" "a \<notin> dom (sp_ctxs s)" using assms(2) by auto
  have "ring_list ?l (sp_addr s) (idle s)" by (rule ring_list_other [OF inv(1) new(1)])
  from list_add_ring [OF this _ new(1)] obtain m where m: "list_add (Some a) (Some (sp_addr s)) ?l = Some m"
    "ring_list m (sp_addr s) (a # idle s)" "dom m = insert a (dom (sp_links s))" by auto
  let ?s = "s\<lparr>sp_links := m, sp_ctxs := (sp_ctxs s)(a \<mapsto> fresh_ctx), sp_capacity := sp_capacity s + 1,
    sp_size := sp_size s + 1\<rparr>"
  have "length (idle s) \<le> card (dom (sp_ctxs s))"
    using card_mono [OF inv(6,3)] inv(1) by (simp add: ring_list_def distinct_card)
  then have "unat (sp_size s + 1) = unat (sp_size s) + 1"
    using assms(3) inv(2) by (subst unat_add_no_wrap) simp_all
  then have "sync_inv ?s \<and> idle ?s = a # idle s"
    using m(2,3) inv new assms(3) by (intro sync_invI) auto
  moreover have "create_loop (Some a # mems) s = create_loop mems ?s"
    using m(1) by (cases s) (simp add: syncctx_create_eq on_links_def)
  ultimately show thesis using m(3) by (intro that [of ?s]) simp_all
qed

lemma create_loop_spec:
  assumes "sync_inv s" "distinct as" "set as \<inter> dom (sp_links s) = {}" "card (dom (sp_ctxs s)) + length as < 2 ^ 64"
    "rest = [] \<or> hd rest = None"
  shows "\<exists>s'. create_loop (map Some as @ rest) s = Some s' \<and> sync_inv s' \<and> idle s' = rev as @ idle s \<and>
    sp_ctxs s' = (\<lambda>x. if x \<in> set as then Some fresh_ctx else sp_ctxs s x) \<and>
    sp_capacity s' = sp_capacity s + of_nat (length as)"
  using assms(1-4)
proof (induction as arbitrary: s)
  case Nil
  then show ?case using assms(5) by (cases rest) (auto simp: syncctx_create_def)
next
  case (Cons a as)
  have "a \<notin> dom (sp_links s)" "card (dom (sp_ctxs s)) + 1 < 2 ^ 64" using Cons.prems(3,4) by auto
  from create_step [OF Cons.prems(1) this, of "map Some as @ rest"] obtain s1 where s1:
    "create_loop (Some a # map Some as @ rest) s = create_loop (map Some as @ rest) s1" "sync_inv s1"
    "idle s1 = a # idle s" "sp_ctxs s1 = (sp_ctxs s)(a \<mapsto> fresh_ctx)" "dom (sp_links s1) = insert a (dom (sp_links s))"
    "sp_capacity s1 = sp_capacity s + 1" "sp_addr s1 = sp_addr s" .
  have "finite (dom (sp_ctxs s))" using Cons.prems(1) by (simp add: sync_inv_def)
  then have "card (dom (sp_ctxs s1)) \<le> card (dom (sp_ctxs s)) + 1" by (simp add: s1(4) card_insert_if)
  then have "card (dom (sp_ctxs s1)) + length as < 2 ^ 64" using Cons.prems(4) by simp
  moreover have "set as \<inter> dom (sp_links s1) = {}" using Cons.prems(2,3) s1(5) by auto
  ultimately obtain s' where "create_loop (map Some as @ rest) s1 = Some s'" "sync_inv s'" "idle s' = rev as @ idle s1"
    "sp_ctxs s' = (\<lambda>x. if x \<in> set as then Some fresh_ctx else sp_ctxs s1 x)"
    "sp_capacity s' = sp_capacity s1 + of_nat (length as)"
    using Cons.IH [OF s1(2)] Cons.prems(2) by auto
  with s1 show ?case by (auto simp: fun_eq_iff)
qed

lemma destroy_loop_spec:
  assumes "ring_list (sp_links s) (sp_addr s) xs" "set xs \<subseteq> dom (sp_ctxs s)"
    "sp_links s (hd (xs @ [sp_addr s])) = Some e"
  shows "\<exists>s'. destroy_loop (Some (hd (xs @ [sp_addr s]))) (lh_next e) s = Some s' \<and> sp_ctxs s' = sp_ctxs s |` (- set xs)"
  using assms
proof (induction xs arbitrary: s e)
  case Nil
  then show ?case by (subst destroy_loop.simps) (simp add: restrict_map_def)
next
  case (Cons a xs)
  let ?h = "sp_addr s"
  from list_del_ring [OF Cons.prems(1)] obtain m where m: "list_del_init (Some a) (sp_links s) = Some m"
    "ring_list m ?h xs" by blast
  have d: "a \<noteq> ?h" "a \<notin> set xs" and e: "lh_next e = Some (hd (xs @ [?h]))"
    using Cons.prems(1,3) by (auto simp: ring_list_def)
  let ?s = "s\<lparr>sp_links := m(a := None), sp_ctxs := (sp_ctxs s)(a := None)\<rparr>"
  have r: "ring_list (sp_links ?s) (sp_addr ?s) xs"
    using ring_list_other [OF m(2), of a None] d by simp
  have live: "\<exists>e'. sp_links ?s (hd (xs @ [?h])) = Some e'" using r by (cases xs) (auto simp: ring_list_def)
  then obtain e' where e': "sp_links ?s (hd (xs @ [?h])) = Some e'" ..
  have sub: "set xs \<subseteq> dom (sp_ctxs ?s)" using Cons.prems(2) d by auto
  have hd: "sp_addr ?s = ?h" by simp
  from Cons.IH [OF r sub, unfolded hd, OF e'] obtain s' where
    s': "destroy_loop (Some (hd (xs @ [?h]))) (lh_next e') ?s = Some s'" "sp_ctxs s' = sp_ctxs ?s |` (- set xs)" by blast
  obtain c where "sp_ctxs s a = Some c" using Cons.prems(2) by auto
  then have "destroy_loop (Some a) (Some (hd (xs @ [?h]))) s = destroy_loop (Some (hd (xs @ [?h]))) (lh_next e') ?s"
    using m(1) d(1) e' by (subst destroy_loop.simps) (simp add: on_links_def syncctx_destroy_def)
  with s' e show ?case by (auto simp: restrict_map_def fun_eq_iff)
qed

lemma destroy_spec:
  assumes "sync_inv s"
  shows "syncctxpool_destroy (Some s) = Some (sp_ctxs s |` (- set (idle s)))"
proof -
  from assms have r: "ring_list (sp_links s) (sp_addr s) (idle s)" and sub: "set (idle s) \<subseteq> dom (sp_ctxs s)"
    by (simp_all add: sync_inv_def)
  have h: "sp_links s (sp_addr s) = Some \<lparr>lh_next = Some (hd (idle s @ [sp_addr s])), lh_prev = Some (last (sp_addr s # idle s))\<rparr>"
    using r by (simp add: ring_list_def)
  obtain e where e: "sp_links s (hd (idle s @ [sp_addr s])) = Some e"
    using r by (cases "idle s") (auto simp: ring_list_def)
  from destroy_loop_spec [OF r sub e] obtain s' where
    "destroy_loop (Some (hd (idle s @ [sp_addr s]))) (lh_next e) s = Some s'" "sp_ctxs s' = sp_ctxs s |` (- set (idle s))" by blast
  with h e show ?thesis by (simp add: syncctxpool_destroy_def)
qed

section \<open>Properties\<close>

definition new_ctxs :: "addr list \<Rightarrow> syncctx store" where
  "new_ctxs as = (\<lambda>x. if x \<in> set as then Some fresh_ctx else None)"

lemma create_spec:
  assumes "distinct (a # as)" "length as < 2 ^ 64" "rest = [] \<or> hd rest = None"
  shows "\<exists>s. syncctxpool_create (Some a) (map Some as @ rest) = Some (Some s) \<and> sync_inv s \<and>
    sync_abs s = (rev as, new_ctxs as) \<and> sp_capacity s = of_nat (length as)"
proof -
  let ?s = "\<lparr>sp_links = [a \<mapsto> \<lparr>lh_next = Some a, lh_prev = Some a\<rparr>], sp_ctxs = (\<lambda>_. None), sp_addr = a,
    sp_capacity = 0, sp_size = 0\<rparr>"
  have i: "sync_inv ?s \<and> idle ?s = []" by (rule sync_invI) (simp_all add: ring_list_def)
  have cs: "(\<lambda>x. if x \<in> set as then Some fresh_ctx else sp_ctxs ?s x) = new_ctxs as"
    by (rule ext) (simp add: new_ctxs_def)
  have "sync_inv ?s" "distinct as" "set as \<inter> dom (sp_links ?s) = {}" "card (dom (sp_ctxs ?s)) + length as < 2 ^ 64"
    using i assms(1,2) by simp_all
  from create_loop_spec [OF this assms(3), unfolded cs] i obtain s where
    "create_loop (map Some as @ rest) ?s = Some s" "sync_inv s" "idle s = rev as"
    "sp_ctxs s = new_ctxs as" "sp_capacity s = of_nat (length as)" by auto
  then show ?thesis
    by (auto simp: syncctxpool_create_def on_links_def INIT_LIST_HEAD_eq sync_abs_def Let_def)
qed

text \<open>
  C18. A pool created with some contexts, as many as memory was available for, lends every context to one
  borrower at a time, the one returned last first, resets it on return, and the destruction frees exactly the
  contexts that are not lent, as long as no client borrows while all contexts are lent.
\<close>

theorem sync_pool_refines:
  assumes "distinct (a # as)" "length as < 2 ^ 64" "rest = [] \<or> hd rest = None"
    and "admissible sync_valid sync_spec xs (rev as, new_ctxs as)"
  shows "\<exists>s rs s'. syncctxpool_create (Some a) (map Some as @ rest) = Some (Some s) \<and>
    run_ops sync_step xs s = Some (rs, s') \<and> spec_run sync_spec xs (rev as, new_ctxs as) rs (sync_abs s') \<and>
    syncctxpool_destroy (Some s') = Some (snd (sync_abs s') |` (- set (fst (sync_abs s'))))"
proof -
  from create_spec [OF assms(1-3)] obtain s where s: "syncctxpool_create (Some a) (map Some as @ rest) = Some (Some s)"
    "sync_inv s" "sync_abs s = (rev as, new_ctxs as)" by blast
  from sync.run_refines [OF s(2)] assms(4) s(3) obtain rs s' where "run_ops sync_step xs s = Some (rs, s')" "sync_inv s'"
    "spec_run sync_spec xs (rev as, new_ctxs as) rs (sync_abs s')" by metis
  with s(1) destroy_spec [of s'] show ?thesis by (auto simp: sync_abs_def)
qed

text \<open>
  C39. A client that borrows while all contexts are lent gets a new context, but the count of idle contexts is
  raised although none was added to the list.  The next borrower then gets the address of the pool itself in
  place of a context, and returning it writes into the pool as if it were one.
\<close>

theorem sync_pool_lends_itself:
  assumes "sync_inv s" "idle s = []" "a \<notin> dom (sp_links s)"
  shows "\<exists>s1 s2. syncctxpool_borrow (Some a) (Some s) = Some (Some a, Some s1) \<and>
    syncctxpool_borrow mem (Some s1) = Some (Some (sp_addr s), Some s2) \<and>
    syncctxpool_return (Some s2) (Some (sp_addr s)) = None"
proof -
  let ?l = "(sp_links s)(a \<mapsto> \<lparr>lh_next = Some a, lh_prev = Some a\<rparr>)"
  let ?s = "s\<lparr>sp_links := ?l, sp_ctxs := (sp_ctxs s)(a \<mapsto> fresh_ctx), sp_capacity := sp_capacity s + 1,
    sp_size := sp_size s + 1\<rparr>"
  from assms have z: "sp_size s = 0" by (simp add: sync_inv_def unat_eq_0)
  have h: "sp_links s (sp_addr s) = Some \<lparr>lh_next = Some (sp_addr s), lh_prev = Some (sp_addr s)\<rparr>"
    using assms(1,2) by (simp add: sync_inv_def ring_list_def)
  then have ne: "a \<noteq> sp_addr s" using assms(3) by auto
  have "syncctxpool_borrow (Some a) (Some s) = Some (Some a, Some ?s)"
    using z by (cases s) (simp add: syncctxpool_borrow_def syncctx_create_eq)
  moreover have "list_del_init (Some (sp_addr s)) ?l = Some ?l"
    using h ne by (auto simp: list_del_init_def list_del_entry_def list_del_between_def assign_def INIT_LIST_HEAD_def fun_eq_iff)
  then have "syncctxpool_borrow mem (Some ?s) = Some (Some (sp_addr s), Some (?s\<lparr>sp_size := sp_size s\<rparr>))"
    using h ne z by (cases s) (simp add: syncctxpool_borrow_def on_links_def)
  moreover have "sp_ctxs s (sp_addr s) = None" using assms(1) by (auto simp: sync_inv_def)
  then have "syncctxpool_return (Some (?s\<lparr>sp_size := sp_size s\<rparr>)) (Some (sp_addr s)) = None"
    using ne by (simp add: syncctxpool_return_def assign_def)
  ultimately show ?thesis by blast
qed

definition sample_sync :: syncctxpool where
  "sample_sync = \<lparr>sp_links = [1 \<mapsto> \<lparr>lh_next = Some 1, lh_prev = Some 1\<rparr>], sp_ctxs = (\<lambda>_. None), sp_addr = 1,
     sp_capacity = 0, sp_size = 0\<rparr>"

lemma sample_sync_inv: "sync_inv sample_sync \<and> idle sample_sync = []"
  by (rule sync_invI) (simp_all add: sample_sync_def ring_list_def)

theorem sync_pool_refines_witness:
  "\<exists>s rs s'. syncctxpool_create (Some 1) (map Some [2, 3] @ [None]) = Some (Some s) \<and>
    run_ops sync_step [S_Borrow None, S_Use 3 fresh_ctx, S_Borrow None, S_Return (Some 3)] s = Some (rs, s') \<and>
    spec_run sync_spec [S_Borrow None, S_Use 3 fresh_ctx, S_Borrow None, S_Return (Some 3)]
      (rev [2, 3], new_ctxs [2, 3]) rs (sync_abs s') \<and>
    syncctxpool_destroy (Some s') = Some (snd (sync_abs s') |` (- set (fst (sync_abs s'))))"
  by (rule sync_pool_refines) (simp_all add: new_ctxs_def)

theorem sync_pool_lends_itself_witness:
  "\<exists>s1 s2. syncctxpool_borrow (Some 2) (Some sample_sync) = Some (Some 2, Some s1) \<and>
    syncctxpool_borrow None (Some s1) = Some (Some (sp_addr sample_sync), Some s2) \<and>
    syncctxpool_return (Some s2) (Some (sp_addr sample_sync)) = None"
  by (rule sync_pool_lends_itself) (use sample_sync_inv in \<open>simp_all add: sample_sync_def\<close>)
end
