(* ===== verification/Spec2Isabelle.thy ===== *)
theory Spec2Isabelle
  imports Ring_Buffer Deque Crc Base64_Codec Md5 Sha1 Local_Registry_Props Thread_Queue Timer_Cluster
    Thread_Pool LRU_Cache Object_Pool Sync_Ctx_Pool
begin

text \<open>
  A verification of the libraries of \<^verbatim>\<open>cpunchline-hub\<close>: the data structures, codecs and digests of
  \<^verbatim>\<open>src/base\<close>, its thread queues and timer clusters, and the daemon of the local registry in
  \<^verbatim>\<open>src/lib/local_registry\<close>.

  \<^bold>\<open>The program and its parts.\<close>  \<^verbatim>\<open>base/inc/dsa\<close> and \<^verbatim>\<open>base/src/dsa\<close> hold self-contained components:
  a ring buffer, a double-ended queue, 21 check sums, Base64, MD5, SHA-1, an intrusive binary heap and an
  intrusive red-black tree.  \<^verbatim>\<open>base/src/utility\<close> builds on them: \<^verbatim>\<open>threadqueue.c\<close> passes messages between
  threads, \<^verbatim>\<open>threadpool.c\<close> runs tasks it takes from such a queue, \<^verbatim>\<open>timercluster.c\<close> keeps every timer in a heap by expiry time and in a red-black tree by
  identifier and serves them with a thread of its own, \<^verbatim>\<open>objectpool.c\<close> and \<^verbatim>\<open>syncctxpool.c\<close> hand out blocks
  of a fixed storage and synchronisation contexts; \<^verbatim>\<open>base/inc/hpp/LRUCache.hpp\<close> is a cache.  The registry daemon keeps the tables of clients
  and services, answers their requests and notifies listeners over local sockets.

  \<^bold>\<open>How code is modelled.\<close>  A function of the code is a function of the same name on an explicit state.
  Undefined behaviour, that is an access outside a buffer, through a null pointer or to a freed node, a
  failed assertion or an erased iterator, is the value \<^const>\<open>None\<close>, and so is a loop that does not end,
  because such loops are partial functions in the option type.  A theorem that a call has the value
  \<^term>\<open>Some r\<close> therefore says that it returns and that nothing undefined happens on the way; no loop has
  a bound that the code does not have.  Error codes are values of the result.  Machine integers are words
  of their width where they can wrap.  What the code gets from outside, memory from \<open>malloc\<close>, readings
  of the clock, results of system calls, the order of a hash table, the protobuf coder, the scheduling of
  threads, is an argument or a choice of a step relation.

  \<^bold>\<open>Theories.\<close>
  \<^item> \<open>Base_Prelude\<close>: byte memories with \<open>memcpy\<close>, circular indices, lemmas on lists and words.
    \<open>Pointer_Store\<close>: stores of linked nodes, assignment through a pointer.
  \<^item> \<open>Interfaces\<close>: the contracts between components as locales, \<open>simulation\<close> for a component that
    implements an abstract specification under every sequence of calls and \<open>fifo\<close> for queues.  Both are
    interpreted on the models of the ring buffer and the queues, \<open>simulation\<close> also on the cache and the pools.
  \<^item> \<open>Ring_Buffer\<close> (\<^verbatim>\<open>base/src/dsa/ringbuffer.c\<close>) and \<open>Deque\<close> (\<^verbatim>\<open>base/inc/dsa/deque.h\<close>): every
    sequence of calls behaves as a bounded byte queue and as a list with two ends, over wrap-around of the
    counters and over growing and shrinking; and the arguments for which they do not.
  \<^item> \<open>Crc\<close> (\<^verbatim>\<open>base/src/dsa/crc.c\<close>): each function is the parametrised check sum its comment
    documents, and detects every burst error up to the width of its register.
  \<^item> \<open>Base64_Codec\<close> (\<^verbatim>\<open>base/src/dsa/base64.c\<close>): encoder and decoder against the encoding of the RFC,
    the round trip, the sizes of the buffers.
  \<^item> \<open>Block_Hash\<close> with the locale \<open>streaming_hash\<close>, \<open>Md5\<close> and \<open>Sha1\<close> (\<^verbatim>\<open>base/src/dsa/md5.c\<close>,
    \<^verbatim>\<open>base/src/dsa/sha1.c\<close>): the optimised compression functions are those of the standards, and any
    sequence of updates digests the concatenated message.
  \<^item> \<open>Local_Registry\<close>, \<open>Local_Registry_Props\<close> (\<^verbatim>\<open>lib/local_registry/daemon\<close>): all handlers, the parsing
    of messages and socket paths, and the tables on an explicit heap of shared clients and services; the
    invariant of every reachable state, absence of undefined behaviour, lookup after registration,
    notification of listeners, the pages of the control requests, and three defects.  What nanopb encodes is
    stated by \<open>encodable\<close>: strings that end within their arrays, and no more entries than the arrays have.
  \<^item> \<open>Thread_Queue\<close> (\<^verbatim>\<open>base/src/utility/threadqueue.c\<close>): the critical sections of both queues, and the
    interleavings of any number of threads with waiting, signals, spurious wake-ups and the stop; order of
    delivery, capacity, no lost wake-up as long as no call fails and no timeout consumes a signal, and the
    calls that do lose one.
  \<^item> \<open>Binary_Heap\<close> (\<^verbatim>\<open>base/inc/dsa/heap.h\<close>): the pointer operations maintain a complete ordered tree;
    the locale \<open>heap_order\<close> states what a comparison has to satisfy, and the timers interpret it.
  \<^item> \<open>Rb_Tree\<close> (\<^verbatim>\<open>base/src/dsa/rbtree.c\<close>): rotations, recolouring, erasure, traversal, replacement.
    A state is described by the subtree in focus and the path to it, so that each pointer operation is a
    small change of that description; the left and the right branches of the code are proved at once.  A
    tree built by any sequence of updates has logarithmic depth.
  \<^item> \<open>Timer_Cluster\<close> (\<^verbatim>\<open>base/src/utility/timercluster.c\<close>): both timer clusters over the heap and the tree.
    The calls are the operations of a table of timers, and in every interleaving with the serving thread no
    timer is overslept, callbacks come in the order of expiry and the destruction frees every node.
  \<^item> \<open>Thread_Pool\<close> (\<^verbatim>\<open>base/src/utility/threadpool.c\<close>): workers, clients and owner over the bounded queue, with
    every step in the queue a step of \<open>Thread_Queue\<close>; each accepted task is called once or left in the queue,
    the destruction ends, and a creation that fails while a worker waits hangs.
  \<^item> \<open>LRU_Cache\<close> (\<^verbatim>\<open>base/inc/hpp/LRUCache.hpp\<close>): list nodes and hash map implement a sequence of items by
    recency; with a callback no item is lost unreported; the pointer \<open>get\<close> returns can outlive its node.
  \<^item> \<open>Object_Pool\<close> (\<^verbatim>\<open>base/src/utility/objectpool.c\<close>): the free list embedded in the bytes of the storage
    hands out each block to one client, at the widths of the code; a double free is not noticed.
  \<^item> \<open>Sync_Ctx_Pool\<close> (\<^verbatim>\<open>base/src/utility/syncctxpool.c\<close>, with \<^verbatim>\<open>base/inc/dsa/list.h\<close>): borrowing and
    returning over a circular list, creation and destruction; an exhausted pool lends itself.

  \<^bold>\<open>Assumptions.\<close>  The properties name theirs: fresh addresses from the allocator, a comparison that is a
  strict weak order, well-formed readings of the clock, iteration orders of hash tables that are
  permutations of the entries, encoded messages that fit the buffer they are sent from, an encoder that
  accepts terminated strings, clients that free and write only blocks they hold and borrow only while a context
  is idle, elements of a deque of at most \<open>2 ^ 28\<close> bytes.
  Each has a concrete instance next to it.  The element count of the heap and the sizes of the
  thread queues are natural numbers, as memory bounds them far below the width of their types; seconds of
  a time are integers.  Mutexes and conditions are taken to be initialised successfully.  The thread queues
  are those of node sizes that do not wrap when the size of the node header is added, on machines that
  tolerate nodes at unaligned addresses.  The waits of the timer thread have the deadline by value, where the
  code passes a pointer into a node that another thread may free during the wait; the timer descriptor counts
  from the clock reading made just before it is set, and setting it succeeds.  Tasks of the thread
  pool return, null functions included, and a worker that is inside the queue when it is freed has no step.

  \<^bold>\<open>Not modelled.\<close>  The AVL tree, the list operations no modelled component uses, dynamic arrays and
  strings of \<^verbatim>\<open>src/base\<close>, and the C++ classes that repeat its C components; the wrappers of system
  calls, logging and stack traces in \<^verbatim>\<open>utils.c\<close>; the client library of the registry and the IPC libraries,
  which are layers over libhv, nng and ZeroMQ and have no behaviour without them; example programs, tests,
  vendored headers, the pre-built third-party packages under \<^verbatim>\<open>src/tools\<close> that make up most of the lines of
  the repository, and the build scripts.
\<close>

end
